(* ===== verification/Prelude.thy ===== *)
theory Prelude
  imports Main "HOL-Library.Char_ord" "HOL-Library.List_Lexorder"
    "HOL-Library.Product_Lexorder"
begin

text \<open>
  What every component shares: Python values (text, exceptions, dates, plain YAML
  data) and the generic lemmas on lists and maps.

  A Python \<open>str\<close> is a \<open>string\<close> whose characters stand for the code points below 256;
  the text functions follow Python on that range. A raised exception is the \<open>Inl\<close>
  of a sum, so every operation that can raise has a type \<open>py_exn + 'a\<close>. A
  \<open>frozenset\<close> or a \<open>tuple\<close> of constants is a list; a \<open>dict\<close> is an association
  list (with unique keys, in insertion order) or a map where only lookups matter.
\<close>

named_theorems text_simps \<open>evaluation rules for the Python text functions\<close>
named_theorems res_simps \<open>rules for results that may carry an exception\<close>

subsection \<open>Exceptions\<close>

datatype py_exn =
    IndexError
  | KeyError string
  | StopIteration
  | ValueError string
  | AssertionError string
  | RecursionError string

type_synonym 'a result = "py_exn + 'a"

definition bind_res :: "'e + 'a \<Rightarrow> ('a \<Rightarrow> 'e + 'b) \<Rightarrow> 'e + 'b" where
  "bind_res r f = (case r of Inl e \<Rightarrow> Inl e | Inr x \<Rightarrow> f x)"

lemma bind_res_Inl [simp, res_simps]: "bind_res (Inl e) f = Inl e"
  by (simp add: bind_res_def)

lemma bind_res_Inr [simp, res_simps]: "bind_res (Inr x) f = f x"
  by (simp add: bind_res_def)

lemma bind_res_eq_Inr [res_simps]:
  "bind_res r f = Inr y \<longleftrightarrow> (\<exists>x. r = Inr x \<and> f x = Inr y)"
  by (cases r) auto

lemma bind_res_cong [fundef_cong]:
  "r = r' \<Longrightarrow> (\<And>x. r' = Inr x \<Longrightarrow> f x = g x) \<Longrightarrow> bind_res r f = bind_res r' g"
  by (cases r') auto

text \<open>A comprehension whose body may raise: the first exception wins.\<close>

fun map_res :: "('a \<Rightarrow> 'e + 'b) \<Rightarrow> 'a list \<Rightarrow> 'e + 'b list" where
  "map_res f [] = Inr []"
| "map_res f (x # xs) =
     bind_res (f x) (\<lambda>y. bind_res (map_res f xs) (\<lambda>ys. Inr (y # ys)))"

lemma map_res_Inr_iff:
  "map_res f xs = Inr ys \<longleftrightarrow> list_all2 (\<lambda>x y. f x = Inr y) xs ys"
  by (induction xs arbitrary: ys) (auto simp: bind_res_eq_Inr list_all2_Cons1)

lemma map_res_total:
  "(\<And>x. x \<in> set xs \<Longrightarrow> \<exists>y. f x = Inr y) \<Longrightarrow> \<exists>ys. map_res f xs = Inr ys"
  by (induction xs) (simp, fastforce)

lemma map_res_pure: "map_res (\<lambda>x. Inr (g x)) xs = Inr (map g xs)"
  by (induction xs) auto

lemma map_res_cong_pure:
  "(\<And>x. x \<in> set xs \<Longrightarrow> f x = Inr (g x)) \<Longrightarrow> map_res f xs = Inr (map g xs)"
  by (induction xs) auto

fun filter_res :: "('a \<Rightarrow> 'e + bool) \<Rightarrow> 'a list \<Rightarrow> 'e + 'a list" where
  "filter_res f [] = Inr []"
| "filter_res f (x # xs) =
     bind_res (f x) (\<lambda>keep. bind_res (filter_res f xs) (\<lambda>ys. Inr (if keep then x # ys else ys)))"

lemma filter_res_cong_pure:
  "(\<And>x. x \<in> set xs \<Longrightarrow> f x = Inr (g x)) \<Longrightarrow> filter_res f xs = Inr (filter g xs)"
  by (induction xs) auto

lemma filter_res_subset: "filter_res f xs = Inr ys \<Longrightarrow> x \<in> set ys \<Longrightarrow> x \<in> set xs \<and> f x = Inr True"
proof (induction xs arbitrary: ys)
  case Nil
  then show ?case by simp
next
  case (Cons a xs)
  then obtain keep zs where "f a = Inr keep" "filter_res f xs = Inr zs"
    "ys = (if keep then a # zs else zs)" by (auto simp: bind_res_eq_Inr)
  with Cons show ?case by (auto split: if_splits)
qed

subsection \<open>Lists, maps and options\<close>

text \<open>\<open>dict.fromkeys\<close>: the distinct elements in first-seen order.\<close>

fun first_seen :: "'a list \<Rightarrow> 'a list" where
  "first_seen [] = []"
| "first_seen (x # xs) = x # filter (\<lambda>y. y \<noteq> x) (first_seen xs)"

lemma set_first_seen [simp]: "set (first_seen xs) = set xs"
  by (induction xs) auto

lemma distinct_first_seen [simp]: "distinct (first_seen xs)"
  by (induction xs) (auto simp: distinct_filter)

lemma first_seen_distinct: "distinct xs \<Longrightarrow> first_seen xs = xs"
  by (induction xs) (auto simp: filter_id_conv)

text \<open>Python's truth value of optional text, and \<open>a or b\<close>.\<close>

fun truthy :: "string option \<Rightarrow> bool" where
  "truthy None = False"
| "truthy (Some s) = (s \<noteq> [])"

definition py_or :: "string option \<Rightarrow> string option \<Rightarrow> string option" where
  "py_or a b = (if truthy a then a else b)"

lemma py_or_None [simp]: "py_or None b = b"
  by (simp add: py_or_def)

lemma truthy_iff: "truthy a \<longleftrightarrow> (\<exists>s. a = Some s \<and> s \<noteq> [])"
  by (cases a) auto

text \<open>The position of the first occurrence, as \<open>tuple.index\<close> computes it.\<close>

fun index_of :: "'a list \<Rightarrow> 'a \<Rightarrow> nat option" where
  "index_of [] y = None"
| "index_of (x # xs) y = (if x = y then Some 0 else map_option Suc (index_of xs y))"

lemma index_of_None_iff: "index_of xs y = None \<longleftrightarrow> y \<notin> set xs"
  by (induction xs) auto

lemma index_of_Some: "index_of xs y = Some i \<Longrightarrow> i < length xs \<and> xs ! i = y"
  by (induction xs arbitrary: i) (auto split: if_splits)

lemma index_of_nth: "distinct xs \<Longrightarrow> i < length xs \<Longrightarrow> index_of xs (xs ! i) = Some i"
proof (induction xs arbitrary: i)
  case Nil
  then show ?case by simp
next
  case (Cons x xs)
  then show ?case by (cases i) auto
qed

text \<open>A dictionary filled by iterating over a list: the last entry with a key wins.\<close>

definition dict_of :: "('k \<times> 'v) list \<Rightarrow> 'k \<Rightarrow> 'v option" where
  "dict_of kvs = map_of (rev kvs)"

lemma dom_dict_of: "dom (dict_of kvs) = fst ` set kvs"
  by (auto simp: dict_of_def dom_map_of_conv_image_fst)

lemma dict_of_Some: "dict_of kvs k = Some v \<Longrightarrow> (k, v) \<in> set kvs"
  by (auto simp: dict_of_def dest: map_of_SomeD)

lemma dict_of_distinct: "distinct (map fst kvs) \<Longrightarrow> dict_of kvs = map_of kvs"
  unfolding dict_of_def
  by (rule map_of_inject_set[THEN iffD2]) (auto simp: rev_map[symmetric])

subsection \<open>Text\<close>

text \<open>\<open>str.isspace\<close> and the line boundaries of \<open>str.splitlines\<close>, below code point 256.\<close>

definition is_space :: "char \<Rightarrow> bool" where
  "is_space c \<longleftrightarrow>
     (let n = of_char c :: nat
      in 9 \<le> n \<and> n \<le> 13 \<or> 28 \<le> n \<and> n \<le> 32 \<or> n = 133 \<or> n = 160)"

definition is_line_break :: "char \<Rightarrow> bool" where
  "is_line_break c \<longleftrightarrow>
     (let n = of_char c :: nat in 10 \<le> n \<and> n \<le> 13 \<or> 28 \<le> n \<and> n \<le> 30 \<or> n = 133)"

definition is_digit :: "char \<Rightarrow> bool" where
  "is_digit c \<longleftrightarrow> (let n = of_char c :: nat in 48 \<le> n \<and> n \<le> 57)"

definition is_ascii_lower :: "char \<Rightarrow> bool" where
  "is_ascii_lower c \<longleftrightarrow> (let n = of_char c :: nat in 97 \<le> n \<and> n \<le> 122)"

definition lstrip :: "string \<Rightarrow> string" where
  "lstrip s = dropWhile is_space s"

definition strip :: "string \<Rightarrow> string" where
  "strip s = rev (lstrip (rev (lstrip s)))"

fun split_on :: "'a \<Rightarrow> 'a list \<Rightarrow> 'a list list" where
  "split_on d [] = [[]]"
| "split_on d (c # cs) =
     (if c = d then [] # split_on d cs
      else (case split_on d cs of [] \<Rightarrow> [[c]] | w # ws \<Rightarrow> (c # w) # ws))"

fun join :: "'a list \<Rightarrow> 'a list list \<Rightarrow> 'a list" where
  "join sep [] = []"
| "join sep [w] = w"
| "join sep (w # ws) = w @ sep @ join sep ws"

definition starts_with :: "'a list \<Rightarrow> 'a list \<Rightarrow> bool" where
  "starts_with s p \<longleftrightarrow> take (length p) s = p"

lemma split_on_not_Nil [simp]: "split_on d s \<noteq> []"
  by (induction s) (auto split: list.splits)

lemma join_Cons: "ws \<noteq> [] \<Longrightarrow> join sep (w # ws) = w @ sep @ join sep ws"
  by (cases ws) auto

lemma join_split_on [simp]: "join [d] (split_on d s) = s"
proof (induction s)
  case Nil
  show ?case by simp
next
  case (Cons c cs)
  obtain w ws where eq: "split_on d cs = w # ws"
    by (cases "split_on d cs") auto
  with Cons show ?case by (cases ws) (auto simp: join_Cons)
qed

lemma split_on_no_sep: "w \<in> set (split_on d s) \<Longrightarrow> d \<notin> set w"
  by (induction s arbitrary: w) (auto split: list.splits if_splits)

lemma split_on_single: "d \<notin> set w \<Longrightarrow> split_on d w = [w]"
  by (induction w) auto

lemma split_on_append:
  "d \<notin> set w \<Longrightarrow> split_on d (w @ d # s) = w # split_on d s"
  by (induction w) auto

lemma split_on_join:
  "ws \<noteq> [] \<Longrightarrow> (\<And>w. w \<in> set ws \<Longrightarrow> d \<notin> set w) \<Longrightarrow> split_on d (join [d] ws) = ws"
proof (induction ws)
  case Nil
  then show ?case by simp
next
  case (Cons w ws)
  then show ?case
    by (cases "ws = []") (auto simp: split_on_single join_Cons split_on_append)
qed

lemma split_on_append_sep: "split_on d (s @ d # t) = split_on d s @ split_on d t"
  by (induction s) (auto split: list.splits)

lemma split_on_inject: "split_on d s = split_on d t \<Longrightarrow> s = t"
  by (metis join_split_on)

lemma join_append:
  "us \<noteq> [] \<Longrightarrow> ws \<noteq> [] \<Longrightarrow> join sep (us @ ws) = join sep us @ sep @ join sep ws"
  by (induction us) (simp, case_tac "us = []", auto simp: join_Cons)

lemma starts_with_iff: "starts_with s p \<longleftrightarrow> (\<exists>t. s = p @ t)"
  by (auto simp: starts_with_def) (metis append_take_drop_id)

text \<open>\<open>str.splitlines\<close>: a carriage return and a line feed end one line together.\<close>

function splitlines_from :: "string \<Rightarrow> string \<Rightarrow> string list" where
  "splitlines_from acc [] = (if acc = [] then [] else [rev acc])"
| "splitlines_from acc (c # cs) =
     (if is_line_break c
      then rev acc # splitlines_from []
             (if c = CHR 0x0D \<and> starts_with cs [CHR 0x0A] then tl cs else cs)
      else splitlines_from (c # acc) cs)"
  by pat_completeness auto
termination
  by (relation "measure (\<lambda>(acc, s). length s)") auto

definition splitlines :: "string \<Rightarrow> string list" where
  "splitlines s = splitlines_from [] s"

text \<open>Decimal digits of a number; \<open>zpad n\<close> is the format \<open>0n\<close>.\<close>

definition digit_char :: "nat \<Rightarrow> char" where
  "digit_char n = char_of (48 + n mod 10)"

fun nat_str :: "nat \<Rightarrow> string" where
  "nat_str n = (if n < 10 then [digit_char n] else nat_str (n div 10) @ [digit_char n])"

declare nat_str.simps [simp del]

definition zpad :: "nat \<Rightarrow> string \<Rightarrow> string" where
  "zpad n s = replicate (n - length s) (CHR ''0'') @ s"

fun digits_nat :: "nat \<Rightarrow> string \<Rightarrow> nat" where
  "digits_nat acc [] = acc"
| "digits_nat acc (c # cs) = digits_nat (10 * acc + (of_char c - 48)) cs"

lemma digits_nat_append: "digits_nat acc (s @ t) = digits_nat (digits_nat acc s) t"
  by (induction acc s rule: digits_nat.induct) auto

lemma of_digit_char: "of_char (digit_char n) = (48 + n mod 10 :: nat)"
  by (simp add: digit_char_def of_char_of)

lemma digits_nat_str [simp]: "digits_nat 0 (nat_str n) = n"
proof (induction n rule: nat_str.induct)
  case (1 n)
  then show ?case
    by (subst nat_str.simps) (auto simp: digits_nat_append of_digit_char)
qed

lemma nat_str_inject [simp]: "nat_str a = nat_str b \<longleftrightarrow> a = b"
  by (metis digits_nat_str)

lemma digit_char_is_digit [simp]: "is_digit (digit_char n)"
  by (simp add: is_digit_def of_digit_char)

lemma nat_str_digits: "c \<in> set (nat_str n) \<Longrightarrow> is_digit c"
proof (induction n rule: nat_str.induct)
  case (1 n)
  from "1.prems" show ?case
    by (subst (asm) nat_str.simps) (auto split: if_splits dest: "1.IH")
qed

lemma nat_str_hd: "0 < n \<Longrightarrow> \<exists>c cs. nat_str n = c # cs \<and> is_digit c \<and> c \<noteq> CHR ''0''"
proof (induction n rule: nat_str.induct)
  case (1 n)
  show ?case
  proof (cases "n < 10")
    case True
    have "digit_char n \<noteq> CHR ''0''"
    proof
      assume "digit_char n = CHR ''0''"
      then have "of_char (digit_char n) = (of_char (CHR ''0'') :: nat)" by simp
      with True "1.prems" show False by (simp add: of_digit_char)
    qed
    with True show ?thesis by (subst nat_str.simps) simp
  next
    case False
    then have "0 < n div 10" by (simp add: div_greater_zero_iff)
    with "1.IH" False obtain c cs where "nat_str (n div 10) = c # cs" "is_digit c" "c \<noteq> CHR ''0''"
      by blast
    with False show ?thesis by (subst nat_str.simps) simp
  qed
qed

text \<open>\<open>str.lower\<close>: the Latin-1 capitals have their small letter 32 places up.\<close>

definition lower_char :: "char \<Rightarrow> char" where
  "lower_char c =
     (let n = of_char c :: nat
      in if 65 \<le> n \<and> n \<le> 90 \<or> 192 \<le> n \<and> n \<le> 222 \<and> n \<noteq> 215 then char_of (n + 32) else c)"

definition lower :: "string \<Rightarrow> string" where
  "lower s = map lower_char s"

text \<open>\<open>repr\<close> of text and of a list of texts, as the f-strings of the code print them.\<close>

definition hex_digit :: "nat \<Rightarrow> char" where
  "hex_digit n = (if n < 10 then char_of (48 + n) else char_of (87 + n))"

definition repr_char :: "char \<Rightarrow> char \<Rightarrow> string" where
  "repr_char q c =
     (let n = of_char c :: nat
      in if c = q \<or> n = 92 then [CHR 0x5C, c]
         else if n = 10 then [CHR 0x5C, CHR ''n'']
         else if n = 13 then [CHR 0x5C, CHR ''r'']
         else if n = 9 then [CHR 0x5C, CHR ''t'']
         else if n < 32 \<or> 127 \<le> n \<and> n \<le> 160 \<or> n = 173
         then [CHR 0x5C, CHR ''x'', hex_digit (n div 16), hex_digit (n mod 16)]
         else [c])"

definition repr :: "string \<Rightarrow> string" where
  "repr s =
     (let q = (if CHR 0x27 \<in> set s \<and> CHR 0x22 \<notin> set s then CHR 0x22 else CHR 0x27)
      in [q] @ concat (map (repr_char q) s) @ [q])"

definition repr_list :: "string list \<Rightarrow> string" where
  "repr_list xs = ''['' @ join '', '' (map repr xs) @ '']''"

fun repr_opt :: "string option \<Rightarrow> string" where
  "repr_opt None = ''None''"
| "repr_opt (Some s) = repr s"

subsection \<open>Regular expressions\<close>

text \<open>
  The patterns the code compiles, as syntax trees, and \<open>fullmatch\<close> by derivatives.
  \<open>rx_in\<close> is the language of a pattern; \<open>fullmatch_iff\<close> says the matcher decides it.
\<close>

datatype rx =
    RZero
  | ROne
  | RChr "char \<Rightarrow> bool"
  | RSeq rx rx
  | RAlt rx rx
  | RStar rx

fun rx_nullable :: "rx \<Rightarrow> bool" where
  "rx_nullable RZero = False"
| "rx_nullable ROne = True"
| "rx_nullable (RChr p) = False"
| "rx_nullable (RSeq r s) = (rx_nullable r \<and> rx_nullable s)"
| "rx_nullable (RAlt r s) = (rx_nullable r \<or> rx_nullable s)"
| "rx_nullable (RStar r) = True"

fun rx_deriv :: "char \<Rightarrow> rx \<Rightarrow> rx" where
  "rx_deriv c RZero = RZero"
| "rx_deriv c ROne = RZero"
| "rx_deriv c (RChr p) = (if p c then ROne else RZero)"
| "rx_deriv c (RSeq r s) =
     (if rx_nullable r then RAlt (RSeq (rx_deriv c r) s) (rx_deriv c s) else RSeq (rx_deriv c r) s)"
| "rx_deriv c (RAlt r s) = RAlt (rx_deriv c r) (rx_deriv c s)"
| "rx_deriv c (RStar r) = RSeq (rx_deriv c r) (RStar r)"

fun fullmatch :: "rx \<Rightarrow> string \<Rightarrow> bool" where
  "fullmatch r [] = rx_nullable r"
| "fullmatch r (c # cs) = fullmatch (rx_deriv c r) cs"

definition rx_plus :: "rx \<Rightarrow> rx" where
  "rx_plus r = RSeq r (RStar r)"

fun rx_lit :: "string \<Rightarrow> rx" where
  "rx_lit [] = ROne"
| "rx_lit (c # cs) = RSeq (RChr (\<lambda>d. d = c)) (rx_lit cs)"

fun rx_times :: "nat \<Rightarrow> rx \<Rightarrow> rx" where
  "rx_times 0 r = ROne"
| "rx_times (Suc n) r = RSeq r (rx_times n r)"

inductive rx_in :: "string \<Rightarrow> rx \<Rightarrow> bool" where
  one: "rx_in [] ROne"
| chr: "p c \<Longrightarrow> rx_in [c] (RChr p)"
| seq: "rx_in s r \<Longrightarrow> rx_in t r' \<Longrightarrow> rx_in (s @ t) (RSeq r r')"
| alt1: "rx_in s r \<Longrightarrow> rx_in s (RAlt r r')"
| alt2: "rx_in s r' \<Longrightarrow> rx_in s (RAlt r r')"
| star0: "rx_in [] (RStar r)"
| star1: "rx_in s r \<Longrightarrow> rx_in t (RStar r) \<Longrightarrow> rx_in (s @ t) (RStar r)"

inductive_cases rx_in_ZeroE [elim!]: "rx_in s RZero"
inductive_cases rx_in_OneE [elim!]: "rx_in s ROne"
inductive_cases rx_in_ChrE [elim!]: "rx_in s (RChr p)"
inductive_cases rx_in_SeqE [elim!]: "rx_in s (RSeq r r')"
inductive_cases rx_in_AltE [elim!]: "rx_in s (RAlt r r')"

lemma rx_nullable_iff: "rx_nullable r \<longleftrightarrow> rx_in [] r"
proof
  show "rx_nullable r \<Longrightarrow> rx_in [] r"
  proof (induction r)
    case (RSeq r s)
    then show ?case using rx_in.seq [of "[]" r "[]" s] by simp
  qed (auto intro: rx_in.intros)
  show "rx_in [] r \<Longrightarrow> rx_nullable r"
    by (induction "[] :: string" r rule: rx_in.induct) auto
qed

lemma rx_star_Cons:
  "rx_in u (RStar r) \<Longrightarrow> u = c # cs \<Longrightarrow> \<exists>s t. cs = s @ t \<and> rx_in (c # s) r \<and> rx_in t (RStar r)"
proof (induction u "RStar r" arbitrary: cs rule: rx_in.induct)
  case (star1 s t)
  show ?case
  proof (cases s)
    case Nil
    with star1 show ?thesis by auto
  next
    case (Cons d s')
    with star1 show ?thesis by auto
  qed
qed simp

lemma rx_deriv_iff: "rx_in cs (rx_deriv c r) \<longleftrightarrow> rx_in (c # cs) r"
proof (induction r arbitrary: cs)
  case (RSeq r s)
  show ?case
  proof
    assume "rx_in cs (rx_deriv c (RSeq r s))"
    with RSeq show "rx_in (c # cs) (RSeq r s)"
      using rx_in.seq [of "[]" r "c # cs" s]
      by (auto simp: rx_nullable_iff split: if_splits)
        (metis append_Cons rx_in.seq)+
  next
    assume "rx_in (c # cs) (RSeq r s)"
    then obtain u v where uv: "c # cs = u @ v" "rx_in u r" "rx_in v s" by auto
    show "rx_in cs (rx_deriv c (RSeq r s))"
    proof (cases u)
      case Nil
      with uv RSeq show ?thesis by (auto simp: rx_nullable_iff intro: rx_in.intros)
    next
      case (Cons d u')
      with uv RSeq have "rx_in u' (rx_deriv c r)" and "cs = u' @ v" by auto
      with uv show ?thesis by (auto intro: rx_in.intros)
    qed
  qed
next
  case (RStar r)
  show ?case
  proof
    assume "rx_in cs (rx_deriv c (RStar r))"
    then obtain u v where uv: "cs = u @ v" "rx_in u (rx_deriv c r)" "rx_in v (RStar r)" by auto
    with RStar have "rx_in (c # u) r" by simp
    from rx_in.star1 [OF this uv(3)] uv(1) show "rx_in (c # cs) (RStar r)" by simp
  next
    assume "rx_in (c # cs) (RStar r)"
    then obtain u v where uv: "cs = u @ v" "rx_in (c # u) r" "rx_in v (RStar r)"
      using rx_star_Cons by blast
    with RStar have "rx_in u (rx_deriv c r)" by simp
    from rx_in.seq [OF this uv(3)] uv(1) show "rx_in cs (rx_deriv c (RStar r))" by simp
  qed
next
  case (RAlt r s)
  then show ?case by (auto intro: rx_in.alt1 rx_in.alt2)
next
  case (RChr p)
  then show ?case by (auto intro: rx_in.one rx_in.chr split: if_splits)
qed auto

lemma fullmatch_iff: "fullmatch r s \<longleftrightarrow> rx_in s r"
  by (induction s arbitrary: r) (auto simp: rx_nullable_iff rx_deriv_iff)

text \<open>A match uses only characters some class of the pattern admits.\<close>

fun rx_chars :: "rx \<Rightarrow> char \<Rightarrow> bool" where
  "rx_chars (RChr p) c = p c"
| "rx_chars (RSeq r s) c = (rx_chars r c \<or> rx_chars s c)"
| "rx_chars (RAlt r s) c = (rx_chars r c \<or> rx_chars s c)"
| "rx_chars (RStar r) c = rx_chars r c"
| "rx_chars _ c = False"

lemma rx_in_star_all: "(\<And>c. c \<in> set s \<Longrightarrow> p c) \<Longrightarrow> rx_in s (RStar (RChr p))"
proof (induction s)
  case Nil
  show ?case by (rule rx_in.star0)
next
  case (Cons c s)
  then show ?case using rx_in.star1 [OF rx_in.chr [of p c]] by simp
qed

lemma rx_in_chars: "rx_in s r \<Longrightarrow> c \<in> set s \<Longrightarrow> rx_chars r c"
  by (induction rule: rx_in.induct) auto

subsection \<open>Dates\<close>

text \<open>\<open>datetime.date\<close>: year, month, day; ordered as Python orders dates.\<close>

datatype date = Date (year: nat) (month: nat) (day: nat)

definition isoformat :: "date \<Rightarrow> string" where
  "isoformat d =
     zpad 4 (nat_str (year d)) @ ''-'' @ zpad 2 (nat_str (month d)) @ ''-'' @ zpad 2 (nat_str (day d))"

definition is_leap :: "nat \<Rightarrow> bool" where
  "is_leap y \<longleftrightarrow> y mod 4 = 0 \<and> (y mod 100 \<noteq> 0 \<or> y mod 400 = 0)"

definition days_in_month :: "nat \<Rightarrow> nat \<Rightarrow> nat" where
  "days_in_month y m =
     (if m = 2 then (if is_leap y then 29 else 28) else if m \<in> {4, 6, 9, 11} then 30 else 31)"

definition valid_date :: "date \<Rightarrow> bool" where
  "valid_date d \<longleftrightarrow>
     1 \<le> year d \<and> year d \<le> 9999 \<and> 1 \<le> month d \<and> month d \<le> 12 \<and>
     1 \<le> day d \<and> day d \<le> days_in_month (year d) (month d)"

instantiation date :: linorder
begin

definition less_eq_date :: "date \<Rightarrow> date \<Rightarrow> bool" where
  "less_eq_date a b \<longleftrightarrow> (year a, month a, day a) \<le> (year b, month b, day b)"

definition less_date :: "date \<Rightarrow> date \<Rightarrow> bool" where
  "less_date a b \<longleftrightarrow> (year a, month a, day a) < (year b, month b, day b)"

instance
proof
  fix a b c :: date
  show "a < b \<longleftrightarrow> a \<le> b \<and> \<not> b \<le> a"
    by (auto simp: less_eq_date_def less_date_def)
  show "a \<le> a" by (simp add: less_eq_date_def)
  show "a \<le> b \<Longrightarrow> b \<le> c \<Longrightarrow> a \<le> c"
    unfolding less_eq_date_def by (rule order_trans)
  show "a \<le> b \<Longrightarrow> b \<le> a \<Longrightarrow> a = b"
    unfolding less_eq_date_def by (cases a; cases b) auto
  show "a \<le> b \<or> b \<le> a" unfolding less_eq_date_def by (rule linear)
qed

end

text \<open>\<open>str.replace\<close> of a non-empty text.\<close>

function replace_all :: "string \<Rightarrow> string \<Rightarrow> string \<Rightarrow> string" where
  "replace_all old new [] = []"
| "replace_all old new (c # cs) =
     (if old \<noteq> [] \<and> starts_with (c # cs) old
      then new @ replace_all old new (drop (length old) (c # cs))
      else c # replace_all old new cs)"
  by pat_completeness auto
termination
  by (relation "measure (\<lambda>(old, new, s). length s)") auto

subsection \<open>Plain YAML data\<close>

text \<open>
  What \<open>Document.fm_data\<close> returns: keys are text; \<open>YDate\<close> occurs in native mode only,
  \<open>YOther\<close> is any other scalar (a float, bytes), carried by its text.
\<close>

datatype yval =
    YNull
  | YBool bool
  | YInt int
  | YStr string
  | YDate date
  | YOther string
  | YList "yval list"
  | YMap "(string \<times> yval) list"

type_synonym ymap = "(string \<times> yval) list"

text \<open>\<open>repr\<close> of plain data, where a message quotes an authored value.\<close>

fun int_str :: "int \<Rightarrow> string" where
  "int_str i = (if i < 0 then ''-'' @ nat_str (nat (- i)) else nat_str (nat i))"

fun yrepr :: "yval \<Rightarrow> string" where
  "yrepr YNull = ''None''"
| "yrepr (YBool b) = (if b then ''True'' else ''False'')"
| "yrepr (YInt i) = int_str i"
| "yrepr (YStr s) = repr s"
| "yrepr (YDate d) =
     ''datetime.date('' @ nat_str (year d) @ '', '' @ nat_str (month d) @ '', '' @ nat_str (day d) @ '')''"
| "yrepr (YOther s) = s"
| "yrepr (YList xs) = ''['' @ join '', '' (map yrepr xs) @ '']''"
| "yrepr (YMap kvs) =
     ''{'' @ join '', '' (map (\<lambda>(k, v). repr k @ '': '' @ yrepr v) kvs) @ ''}''"

fun is_text :: "yval \<Rightarrow> bool" where
  "is_text (YStr s) = True"
| "is_text _ = False"

text \<open>\<open>data.get(key)\<close>: an absent key and a null value both read as \<open>YNull\<close>.\<close>

definition yget :: "ymap \<Rightarrow> string \<Rightarrow> yval" where
  "yget m k = (case map_of m k of None \<Rightarrow> YNull | Some v \<Rightarrow> v)"

definition has_key :: "ymap \<Rightarrow> string \<Rightarrow> bool" where
  "has_key m k \<longleftrightarrow> map_of m k \<noteq> None"

lemma has_key_iff [simp]: "has_key m k \<longleftrightarrow> k \<in> fst ` set m"
  by (simp add: has_key_def map_of_eq_None_iff)

lemma yget_absent: "\<not> has_key m k \<Longrightarrow> yget m k = YNull"
  by (simp add: yget_def map_of_eq_None_iff split: option.split)
     (metis map_of_eq_None_iff option.distinct(1))

end
