(* ===== verification/Vocabulary.thy ===== *)
theory Vocabulary
  imports Prelude
begin

text \<open>
  The closed vocabulary of work items (\<open>work_tracker_okf/vocabulary.py\<close>). Authored values
  are free text until a validator compares them with these lists, so they stay strings.
\<close>

definition TYPES :: "string list" where
  "TYPES = [''Release'', ''Epic'', ''Feature'', ''Bug'', ''TechDebt'', ''TestGap'', ''Spike'']"

definition PARENT_TYPES :: "string list" where
  "PARENT_TYPES = [''Release'', ''Epic'', ''Feature'']"

definition ROOT_ONLY_TYPES :: "string list" where
  "ROOT_ONLY_TYPES = [''Release'']"

definition WORK_STATUSES :: "string list" where
  "WORK_STATUSES = [''open'', ''accepted'', ''in-progress'', ''mitigated'', ''resolved'', ''wontfix'',
     ''superseded'']"

definition PHASES :: "string list" where
  "PHASES = [''design'', ''plan'', ''execute'', ''finish'', ''done'']"

definition EFFORTS :: "string list" where
  "EFFORTS = [''xtra-small'', ''small'', ''medium'', ''large'', ''xtra-large'']"

definition DOCUMENT_STATUSES :: "string list" where
  "DOCUMENT_STATUSES = [''draft'', ''stable'', ''deprecated'']"

definition BLAST_RADII :: "string list" where
  "BLAST_RADII = [''file'', ''package'', ''domain'', ''system'']"

definition TERMINAL_STATUSES :: "string list" where
  "TERMINAL_STATUSES = [''resolved'', ''wontfix'', ''superseded'']"

definition BUG_LIKE_TYPES :: "string list" where
  "BUG_LIKE_TYPES = [''Bug'', ''TechDebt'', ''TestGap'']"

definition DIAGNOSIS_TYPES :: "string list" where
  "DIAGNOSIS_TYPES = [''Bug'']"

definition SMALL_EFFORTS :: "string list" where
  "SMALL_EFFORTS = [''xtra-small'', ''small'']"

definition SLUG_PREFIXES :: "(string \<times> string) list" where
  "SLUG_PREFIXES =
     [(''Release'', ''release''), (''Epic'', ''epic''), (''Feature'', ''feature''), (''Bug'', ''bug''),
      (''TechDebt'', ''tech-debt''), (''TestGap'', ''test-gap''), (''Spike'', ''spike'')]"

definition SPEC_SOURCE_ID :: string where "SPEC_SOURCE_ID = ''design''"
definition PLAN_SOURCE_ID :: string where "PLAN_SOURCE_ID = ''plan''"
definition FINISH_RECEIPT_SOURCE_ID :: string where
  "FINISH_RECEIPT_SOURCE_ID = ''finish-receipt''"

text \<open>The kebab-case pattern \<open>[a-z0-9]+(?:-[a-z0-9]+)*\<close> shared by ids and basenames.\<close>

definition kebab_char :: "char \<Rightarrow> bool" where
  "kebab_char c \<longleftrightarrow> is_ascii_lower c \<or> is_digit c"

definition kebab_rx :: rx where
  "kebab_rx =
     RSeq (rx_plus (RChr kebab_char))
       (RStar (RSeq (RChr (\<lambda>c. c = CHR ''-'')) (rx_plus (RChr kebab_char))))"

definition is_source_id :: "string \<Rightarrow> bool" where
  "is_source_id s = fullmatch kebab_rx s"

lemma kebab_rx_nonempty: "fullmatch kebab_rx s \<Longrightarrow> s \<noteq> []"
  by (auto simp: fullmatch_iff kebab_rx_def rx_plus_def)

lemma kebab_rx_chars:
  assumes "fullmatch kebab_rx s" and "c \<in> set s"
  shows "kebab_char c \<or> c = CHR ''-''"
proof -
  from assms have "rx_chars kebab_rx c"
    by (simp add: fullmatch_iff) (rule rx_in_chars)
  then show ?thesis by (auto simp: kebab_rx_def rx_plus_def)
qed

lemma kebab_rx_no_slash: "fullmatch kebab_rx s \<Longrightarrow> CHR ''/'' \<notin> set s"
  using kebab_rx_chars by (fastforce simp: kebab_char_def is_ascii_lower_def is_digit_def)

lemma TERMINAL_subset: "set TERMINAL_STATUSES \<subseteq> set WORK_STATUSES"
  by (simp add: TERMINAL_STATUSES_def WORK_STATUSES_def)

text \<open>The three statuses a routed item can still move from.\<close>

lemma live_status_cases:
  assumes "s \<in> set WORK_STATUSES" and "s \<notin> set TERMINAL_STATUSES" and "s \<noteq> ''mitigated''"
  shows "s \<in> {''open'', ''accepted'', ''in-progress''}"
  using assms by (auto simp: WORK_STATUSES_def TERMINAL_STATUSES_def)

end
