(* ===== verification/Pipeline.thy ===== *)
theory Pipeline
  imports Vocabulary
begin

text \<open>
  The pipeline definition (\<open>work_tracker_okf/pipeline.py\<close>): the closed stage table, the
  path rules that choose which stages an item walks, their parser, and path resolution.
  A \<open>PipelineConfigError\<close> is the \<open>Inl\<close> of a result and carries its message.
\<close>

named_theorems stage_facts \<open>the stage table and the phase order, evaluated\<close>

subsection \<open>Stages\<close>

datatype stage = Design | Plan | Execute | Finish

fun stage_str :: "stage \<Rightarrow> string" where
  "stage_str Design = ''design''"
| "stage_str Plan = ''plan''"
| "stage_str Execute = ''execute''"
| "stage_str Finish = ''finish''"

definition STAGES :: "stage list" where
  "STAGES = [Design, Plan, Execute, Finish]"

definition DONE :: string where
  "DONE = ''done''"

definition DECOMPOSING_TYPES :: "string list" where
  "DECOMPOSING_TYPES = [''Epic'', ''Release'']"

fun stage_rank :: "stage \<Rightarrow> nat" where
  "stage_rank Design = 0"
| "stage_rank Plan = 1"
| "stage_rank Execute = 2"
| "stage_rank Finish = 3"

instantiation stage :: linorder
begin

definition less_eq_stage :: "stage \<Rightarrow> stage \<Rightarrow> bool" where
  "less_eq_stage a b \<longleftrightarrow> stage_rank a \<le> stage_rank b"

definition less_stage :: "stage \<Rightarrow> stage \<Rightarrow> bool" where
  "less_stage a b \<longleftrightarrow> stage_rank a < stage_rank b"

instance
proof
  fix a b :: stage
  show "a \<le> b \<Longrightarrow> b \<le> a \<Longrightarrow> a = b"
    unfolding less_eq_stage_def by (cases a; cases b) auto
qed (auto simp: less_eq_stage_def less_stage_def)

end

lemma stage_le_Finish [simp]: "(s :: stage) \<le> Finish"
  by (cases s) (auto simp: less_eq_stage_def)

lemma Design_le_stage [simp]: "Design \<le> (s :: stage)"
  by (simp add: less_eq_stage_def)

lemma stage_str_inject [simp]: "stage_str a = stage_str b \<longleftrightarrow> a = b"
  by (cases a; cases b) auto

lemma stage_str_not_done [simp]: "stage_str s \<noteq> DONE" "DONE \<noteq> stage_str s"
  by (cases s; simp add: DONE_def)+

lemma set_STAGES [simp]: "s \<in> set STAGES"
  by (cases s) (auto simp: STAGES_def)

subsection \<open>The stage table\<close>

record stage_effect =
  eff_work_status :: "string option"
  eff_document_status :: "string option"
  eff_requires :: "string list"
  eff_sync_plan_table :: bool
  eff_stamp_source :: "string option"
  eff_stamp_baseline :: bool

definition no_effect :: stage_effect where
  "no_effect =
     \<lparr>eff_work_status = None, eff_document_status = None, eff_requires = [],
      eff_sync_plan_table = False, eff_stamp_source = None, eff_stamp_baseline = False\<rparr>"

record stage_row =
  row_stage :: stage
  on_enter :: "stage_effect option"
  row_on_complete :: stage_effect
  read_only :: bool
  results :: bool
  ledger_required :: bool
  child_gated_types :: "string list"
  return_target :: "stage option"
  return_status :: "string option"

definition design_row :: stage_row where
  "design_row =
     \<lparr>row_stage = Design, on_enter = None,
      row_on_complete = no_effect\<lparr>eff_document_status := Some ''stable'',
        eff_stamp_source := Some SPEC_SOURCE_ID, eff_stamp_baseline := True\<rparr>,
      read_only = True, results = False, ledger_required = False, child_gated_types = [],
      return_target = None, return_status = None\<rparr>"

definition plan_row :: stage_row where
  "plan_row =
     \<lparr>row_stage = Plan, on_enter = None,
      row_on_complete = no_effect\<lparr>eff_work_status := Some ''accepted'', eff_sync_plan_table := True,
        eff_stamp_source := Some PLAN_SOURCE_ID\<rparr>,
      read_only = True, results = False, ledger_required = True, child_gated_types = [],
      return_target = None, return_status = None\<rparr>"

definition execute_row :: stage_row where
  "execute_row =
     \<lparr>row_stage = Execute,
      on_enter = Some (no_effect\<lparr>eff_work_status := Some ''in-progress'', eff_requires := [''owner'']\<rparr>),
      row_on_complete = no_effect,
      read_only = False, results = True, ledger_required = True, child_gated_types = PARENT_TYPES,
      return_target = None, return_status = None\<rparr>"

definition finish_row :: stage_row where
  "finish_row =
     \<lparr>row_stage = Finish, on_enter = None,
      row_on_complete = no_effect\<lparr>eff_work_status := Some ''resolved'', eff_requires := [''resolved_in'']\<rparr>,
      read_only = False, results = True, ledger_required = True, child_gated_types = PARENT_TYPES,
      return_target = Some Execute, return_status = Some ''in-progress''\<rparr>"

definition STAGE_TABLE :: "stage_row list" where
  "STAGE_TABLE = [design_row, plan_row, execute_row, finish_row]"

definition ROWS :: "(string \<times> stage_row) list" where
  "ROWS = map (\<lambda>r. (stage_str (row_stage r), r)) STAGE_TABLE"

definition row :: "string \<Rightarrow> stage_row result" where
  "row stage = (case map_of ROWS stage of None \<Rightarrow> Inl (KeyError stage) | Some r \<Rightarrow> Inr r)"

lemmas row_defs = design_row_def plan_row_def execute_row_def finish_row_def no_effect_def

fun row_of :: "stage \<Rightarrow> stage_row" where
  "row_of Design = design_row"
| "row_of Plan = plan_row"
| "row_of Execute = execute_row"
| "row_of Finish = finish_row"

lemma row_stage_row_of [simp]: "row_stage (row_of s) = s"
  by (cases s) (simp_all add: row_defs)

lemma row_stage_str [simp, stage_facts]: "row (stage_str s) = Inr (row_of s)"
  by (cases s) (simp_all add: row_def ROWS_def STAGE_TABLE_def row_defs)

lemma row_unknown: "s \<notin> range stage_str \<Longrightarrow> row s = Inl (KeyError s)"
  by (auto simp: row_def ROWS_def map_of_eq_None_iff split: option.split dest!: map_of_SomeD)

definition phase_order :: "string list" where
  "phase_order = map (stage_str \<circ> row_stage) STAGE_TABLE @ [DONE]"

definition phase_ordinals :: "(string \<times> nat) list" where
  "phase_ordinals = zip phase_order [0..<length phase_order]"

definition results_phases :: "string list" where
  "results_phases = map (stage_str \<circ> row_stage) (filter results STAGE_TABLE)"

definition phase_compat :: "(string \<times> string list) list" where
  "phase_compat =
     [(''accepted'', results_phases @ [DONE]), (''in-progress'', results_phases), (''resolved'', [DONE])]"

definition hold_phases :: "string list" where
  "hold_phases = phase_order @ [''entry'']"

definition code_phases :: "string list" where
  "code_phases = map (stage_str \<circ> row_stage) (filter (\<lambda>r. results r \<and> \<not> read_only r) STAGE_TABLE)"

definition read_only_phases :: "string list" where
  "read_only_phases = map (stage_str \<circ> row_stage) (filter read_only STAGE_TABLE)"

definition ledger_phases :: "string list" where
  "ledger_phases = map (stage_str \<circ> row_stage) (filter ledger_required STAGE_TABLE) @ [DONE]"

definition dispatch_phases :: "string list" where
  "dispatch_phases = map (stage_str \<circ> row_stage) STAGE_TABLE"

definition row_child_gated :: "string \<Rightarrow> string option \<Rightarrow> bool" where
  "row_child_gated ty phase =
     (case phase of
        None \<Rightarrow> False
      | Some p \<Rightarrow> (case map_of ROWS p of None \<Rightarrow> False | Some r \<Rightarrow> ty \<in> set (child_gated_types r)))"

definition expected_phases :: "string list" where
  "expected_phases = ''none'' # phase_order"

lemma phase_order_eq [stage_facts]:
  "phase_order = [''design'', ''plan'', ''execute'', ''finish'', ''done'']"
  by (simp add: phase_order_def STAGE_TABLE_def row_defs DONE_def)

lemma phase_ordinals_eq [stage_facts]:
  "phase_ordinals = [(''design'', 0), (''plan'', 1), (''execute'', 2), (''finish'', 3), (''done'', 4)]"
  by (simp add: phase_ordinals_def phase_order_eq upt_rec)

lemma dispatch_phases_eq [stage_facts]:
  "dispatch_phases = [''design'', ''plan'', ''execute'', ''finish'']"
  by (simp add: dispatch_phases_def STAGE_TABLE_def row_defs)

lemma phase_order_PHASES: "phase_order = PHASES"
  by (simp add: phase_order_eq PHASES_def)

lemma code_phases_eq [stage_facts]: "code_phases = [''execute'', ''finish'']"
  by (simp add: code_phases_def STAGE_TABLE_def row_defs)

text \<open>Every phase is a stage or the terminal \<open>done\<close>.\<close>

lemma phase_cases:
  assumes "p \<in> set PHASES"
  obtains (stage) s where "p = stage_str s" | (finished) "p = DONE"
proof -
  from assms have "p = stage_str Design \<or> p = stage_str Plan \<or> p = stage_str Execute
      \<or> p = stage_str Finish \<or> p = DONE"
    by (auto simp: PHASES_def DONE_def)
  with that show thesis by blast
qed

lemma phase_ordinals_stage [simp, stage_facts]:
  "map_of phase_ordinals (stage_str s) = Some (stage_rank s)"
  by (cases s) (simp_all add: phase_ordinals_eq)

lemma row_child_gated_iff:
  "row_child_gated t p \<longleftrightarrow> t \<in> set PARENT_TYPES \<and> (p = Some ''execute'' \<or> p = Some ''finish'')"
  by (auto simp: row_child_gated_def ROWS_def STAGE_TABLE_def row_defs split: option.splits)

subsection \<open>Attributes and matching\<close>

datatype attr_value = AStr string | ABool bool

datatype match_value = MOne attr_value | MAny "attr_value list"

type_synonym attrs = "string \<Rightarrow> attr_value option"
type_synonym match_spec = "(string \<times> match_value) list"

text \<open>\<open>None\<close> marks a boolean attribute.\<close>

definition ATTRIBUTES :: "(string \<times> string list option) list" where
  "ATTRIBUTES =
     [(''stage'', Some (map stage_str STAGES)), (''type'', Some TYPES), (''effort'', Some EFFORTS),
      (''blast_radius'', Some BLAST_RADII), (''has_spec'', None), (''has_plan'', None),
      (''spec_stale'', None)]"

definition ATTRIBUTE_ORDER :: "(string \<times> string list) list" where
  "ATTRIBUTE_ORDER =
     [(''effort'', [''xtra-small'', ''small'', ''medium'', ''large'', ''xtra-large'']),
      (''blast_radius'', [''file'', ''package'', ''domain'', ''system''])]"

fun choices :: "match_value \<Rightarrow> attr_value list" where
  "choices (MOne v) = [v]"
| "choices (MAny vs) = vs"

fun matches :: "match_spec \<Rightarrow> attrs \<Rightarrow> bool" where
  "matches [] attrs = True"
| "matches ((attribute, constraint) # spec) attrs =
     (case attrs attribute of
        None \<Rightarrow> False
      | Some actual \<Rightarrow>
          if \<not> list_ex (\<lambda>choice. actual = choice) (choices constraint) then False
          else matches spec attrs)"

lemma matches_iff:
  "matches spec attrs \<longleftrightarrow>
     (\<forall>(a, c) \<in> set spec. \<exists>v. attrs a = Some v \<and> v \<in> set (choices c))"
  by (induction spec attrs rule: matches.induct)
    (auto simp: list_ex_iff split: option.splits)

definition VARIANT_REPLACEMENTS :: "(string \<times> string) list" where
  "VARIANT_REPLACEMENTS =
     [(''exploration'', ''{stage: design} (the general rule; order it before type-specific rules)''),
      (''diagnosis'', ''{stage: design, type: Bug}''),
      (''epic-design'', ''{stage: design, type: [Epic, Release]}''),
      (''reconcile'', ''two rules: {stage: design, has_spec: true} and {stage: plan, spec_stale: true}''),
      (''single'', ''{stage: plan}''),
      (''decompose'', ''{stage: plan, type: [Epic, Release]}''),
      (''unplanned'', ''{stage: execute, has_plan: false}''),
      (''planned'', ''{stage: execute, has_plan: true}''),
      (''branch'', ''{stage: finish}'')]"

text \<open>A list as it is, any other value as a list of one.\<close>

definition as_values :: "yval \<Rightarrow> yval list" where
  "as_values value = (case value of YList vs \<Rightarrow> vs | _ \<Rightarrow> [value])"

definition variant_part :: "yval \<Rightarrow> string" where
  "variant_part item =
     (case item of
        YStr s \<Rightarrow>
          (case map_of VARIANT_REPLACEMENTS s of
             Some r \<Rightarrow> s @ '' -> '' @ r
           | None \<Rightarrow> yrepr item @ '' -> not a routing variant; remove it'')
      | _ \<Rightarrow> yrepr item @ '' -> not a routing variant; remove it'')"

definition variant_refusal :: "yval \<Rightarrow> string" where
  "variant_refusal value =
     (let values = as_values value
      in ''match.variant: routing variants are retired; replace with ''
           @ join ''; '' (map variant_part values))"

subsection \<open>Path rules and their parser\<close>

record path_origin =
  origin_source :: string
  origin_index :: nat
  origin_name :: "string option"

record path_rule =
  rule_name :: "string option"
  rule_match :: match_spec
  rule_stages :: "stage list"
  rule_origin :: path_origin

record artifact_spec =
  art_stage :: stage
  art_file :: string
  art_source :: string
  art_required :: bool

record pipeline_definition =
  stage_table :: "stage_row list"
  path_rules :: "path_rule list"
  artifacts :: "(stage \<times> artifact_spec) list"

record path_candidate =
  cand_stages :: "stage list"
  cand_rule :: path_origin
  assignment :: "(string \<times> string) list"

record path_resolution =
  candidates :: "path_candidate list"
  unset :: "string list"

type_synonym 'a config = "string + 'a"

definition fail_at :: "string \<Rightarrow> string \<Rightarrow> 'a config" where
  "fail_at location message = Inl (location @ '': '' @ message)"

definition PATH_KEYS :: "string list" where
  "PATH_KEYS = [''name'', ''match'', ''stages'']"

definition ARTIFACT_KEYS :: "string list" where
  "ARTIFACT_KEYS = [''file'', ''source'', ''required'']"

text \<open>\<open>type(x)\<close> of a plain value, for the homogeneity test.\<close>

fun type_tag :: "yval \<Rightarrow> nat" where
  "type_tag YNull = 0"
| "type_tag (YBool b) = 1"
| "type_tag (YInt i) = 2"
| "type_tag (YStr s) = 3"
| "type_tag (YDate d) = 4"
| "type_tag (YOther s) = 5"
| "type_tag (YList xs) = 6"
| "type_tag (YMap m) = 7"

fun attr_of :: "yval \<Rightarrow> attr_value option" where
  "attr_of (YStr s) = Some (AStr s)"
| "attr_of (YBool b) = Some (ABool b)"
| "attr_of _ = None"

fun allowed_value :: "string list option \<Rightarrow> yval \<Rightarrow> bool" where
  "allowed_value None (YBool b) = True"
| "allowed_value (Some as) (YStr s) = (s \<in> set as)"
| "allowed_value _ _ = False"

definition constraint :: "string \<Rightarrow> string list option \<Rightarrow> string \<Rightarrow> yval \<Rightarrow> match_value config" where
  "constraint attribute allowed location value =
     (let values = as_values value;
          copied = List.map_filter attr_of values
      in if value = YNull
         then fail_at location (''match.'' @ attribute @ '': null constraints are not allowed'')
         else if values = [] then fail_at location (''match.'' @ attribute @ '': list must be non-empty'')
         else if \<not> list_all (\<lambda>item. type_tag item = type_tag (hd values)) values
         then fail_at location (''match.'' @ attribute @ '': list values must be homogeneous'')
         else if \<not> list_all (allowed_value allowed) values
         then (case allowed of
                 None \<Rightarrow> fail_at location
                   (''match.'' @ attribute @ '': expects a boolean or homogeneous boolean list'')
               | Some as \<Rightarrow> fail_at location
                   (''match.'' @ attribute @ '': value must be one of '' @ repr_list (sort as)))
         else Inr (case value of YList _ \<Rightarrow> MAny copied | _ \<Rightarrow> MOne (hd copied)))"

fun match_entries :: "string \<Rightarrow> ymap \<Rightarrow> match_spec config" where
  "match_entries location [] = Inr []"
| "match_entries location ((attribute, value) # rest) =
     (if attribute = ''variant'' then fail_at location (variant_refusal value)
      else if attribute = ''stage''
      then fail_at location
             ''match.stage: stage is an output of routing; a path rule may not match on it''
      else (case map_of ATTRIBUTES attribute of
              None \<Rightarrow>
                fail_at location
                  (''match.'' @ attribute @ '': unknown attribute; expected one of ''
                     @ repr_list (sort (filter (\<lambda>a. a \<noteq> ''stage'') (map fst ATTRIBUTES))))
            | Some allowed \<Rightarrow>
                bind_res (constraint attribute allowed location value) (\<lambda>c.
                bind_res (match_entries location rest) (\<lambda>m. Inr ((attribute, c) # m)))))"

definition path_match :: "string \<Rightarrow> yval \<Rightarrow> match_spec config" where
  "path_match location raw =
     (case raw of
        YMap m \<Rightarrow> match_entries location m
      | _ \<Rightarrow> fail_at location ''match: required and must be a mapping'')"

definition find_stage :: "yval \<Rightarrow> stage option" where
  "find_stage value = find (\<lambda>stage. value = YStr (stage_str stage)) STAGES"

fun stage_values :: "string \<Rightarrow> yval list \<Rightarrow> stage list config" where
  "stage_values location [] = Inr []"
| "stage_values location (value # rest) =
     (case find_stage value of
        None \<Rightarrow> fail_at location (''stages: unknown stage '' @ yrepr value)
      | Some stage \<Rightarrow> bind_res (stage_values location rest) (\<lambda>stages. Inr (stage # stages)))"

definition stages_of :: "string \<Rightarrow> yval \<Rightarrow> stage list config" where
  "stages_of location raw =
     (case raw of
        YList (v # vs) \<Rightarrow>
          bind_res (stage_values location (v # vs)) (\<lambda>stages.
            let ranks = List.map_filter (index_of STAGES) stages
            in if ranks \<noteq> sort (remdups ranks)
               then fail_at location
                      ''stages: must follow design, plan, execute, finish in order, each at most once''
               else if last stages \<noteq> Finish then fail_at location ''stages: must end in finish''
               else Inr stages)
      | _ \<Rightarrow> fail_at location ''stages: must be a non-empty list'')"

definition parse_path_rule :: "string \<Rightarrow> nat \<Rightarrow> yval \<Rightarrow> path_rule config" where
  "parse_path_rule source index candidate =
     (let location = source @ '': path rule '' @ nat_str index
      in case candidate of
           YMap m \<Rightarrow>
             let name = yget m ''name'';
                 rule_name' = (case name of YStr s \<Rightarrow> Some s | _ \<Rightarrow> None);
                 location' = (case rule_name' of
                                Some s \<Rightarrow> location @ '' ('' @ s @ '')'' | None \<Rightarrow> location);
                 unknown = sort (filter (\<lambda>k. k \<notin> set PATH_KEYS) (map fst m))
             in if has_key m ''name'' \<and>
                   (case rule_name' of Some s \<Rightarrow> strip s = [] | None \<Rightarrow> True)
                then fail_at location ''name: must be a non-empty string when supplied''
                else if unknown \<noteq> [] then fail_at location' (''unknown keys: '' @ repr_list unknown)
                else bind_res (path_match location' (yget m ''match'')) (\<lambda>match.
                     bind_res (stages_of location' (yget m ''stages'')) (\<lambda>stages.
                       Inr \<lparr>rule_name = rule_name', rule_match = match, rule_stages = stages,
                            rule_origin = \<lparr>origin_source = source, origin_index = index,
                              origin_name = rule_name'\<rparr>\<rparr>))
         | _ \<Rightarrow> fail_at location ''rule must be a mapping'')"

definition parse_path_rules :: "string \<Rightarrow> yval \<Rightarrow> path_rule list config" where
  "parse_path_rules source raw =
     (case raw of
        YList entries \<Rightarrow>
          map_res (case_prod (parse_path_rule source)) (enumerate 0 entries)
      | _ \<Rightarrow> Inl (source @ '': pipeline.path must be a list''))"

definition artifact_fields :: "string \<Rightarrow> stage \<Rightarrow> ymap \<Rightarrow> artifact_spec config" where
  "artifact_fields location stage m =
     (let unknown = sort (filter (\<lambda>k. k \<notin> set ARTIFACT_KEYS) (map fst m));
          required = (if has_key m ''required'' then yget m ''required'' else YBool True)
      in if unknown \<noteq> [] then fail_at location (''unknown keys: '' @ repr_list unknown)
         else case yget m ''file'' of
           YStr file \<Rightarrow>
             if strip file = [] \<or> CHR ''/'' \<in> set file \<or> CHR 0x5C \<in> set file
             then fail_at location ''file: must be a non-empty file name with no directory part''
             else (case yget m ''source'' of
               YStr source_id \<Rightarrow>
                 if \<not> is_source_id source_id
                 then fail_at location ''source: must be a kebab-case source id''
                 else (case required of
                   YBool b \<Rightarrow> Inr \<lparr>art_stage = stage, art_file = file, art_source = source_id,
                                  art_required = b\<rparr>
                 | _ \<Rightarrow> fail_at location ''required: must be a boolean'')
             | _ \<Rightarrow> fail_at location ''source: must be a kebab-case source id'')
         | _ \<Rightarrow> fail_at location ''file: must be a non-empty file name with no directory part'')"

definition parse_artifact :: "string \<Rightarrow> string \<times> yval \<Rightarrow> (stage \<times> artifact_spec) config" where
  "parse_artifact source kv =
     (let location = source @ '': artifacts.'' @ fst kv
      in case find_stage (YStr (fst kv)) of
           None \<Rightarrow>
             fail_at location (''unknown stage; expected one of '' @ repr_list (map stage_str STAGES))
         | Some stage \<Rightarrow>
             (case snd kv of
                YMap m \<Rightarrow> bind_res (artifact_fields location stage m) (\<lambda>spec. Inr (stage, spec))
              | _ \<Rightarrow> fail_at location ''must be a mapping''))"

definition parse_artifacts :: "string \<Rightarrow> yval \<Rightarrow> (stage \<times> artifact_spec) list config" where
  "parse_artifacts source raw =
     (case raw of
        YMap entries \<Rightarrow> map_res (parse_artifact source) entries
      | _ \<Rightarrow> Inl (source @ '': pipeline.artifacts must be a mapping''))"

subsection \<open>Path resolution\<close>

fun opt_str :: "string option \<Rightarrow> attr_value option" where
  "opt_str None = None"
| "opt_str (Some s) = Some (AStr s)"

definition path_attributes ::
  "string \<Rightarrow> string option \<Rightarrow> string option \<Rightarrow> bool \<Rightarrow> bool \<Rightarrow> bool \<Rightarrow> attrs" where
  "path_attributes ty effort blast_radius has_spec has_plan spec_stale =
     map_of [(''type'', AStr ty), (''has_spec'', ABool has_spec), (''has_plan'', ABool has_plan),
             (''spec_stale'', ABool spec_stale)]
     ++ (case effort of None \<Rightarrow> Map.empty | Some e \<Rightarrow> [''effort'' \<mapsto> AStr e])
     ++ (case blast_radius of None \<Rightarrow> Map.empty | Some r \<Rightarrow> [''blast_radius'' \<mapsto> AStr r])"

definition referenced :: "pipeline_definition \<Rightarrow> string list" where
  "referenced d = concat (map (\<lambda>r. map fst (rule_match r)) (path_rules d))"

definition unset_of :: "pipeline_definition \<Rightarrow> attrs \<Rightarrow> string list" where
  "unset_of d attrs =
     filter (\<lambda>a. a \<in> set (referenced d) \<and> attrs a = None) (map fst ATTRIBUTE_ORDER)"

definition order_of :: "string \<Rightarrow> string list" where
  "order_of a = (case map_of ATTRIBUTE_ORDER a of None \<Rightarrow> [] | Some vs \<Rightarrow> vs)"

definition value_product :: "string list \<Rightarrow> string list list" where
  "value_product names = product_lists (map order_of names)"

definition with_assignment :: "attrs \<Rightarrow> (string \<times> string) list \<Rightarrow> attrs" where
  "with_assignment attrs asg = attrs ++ (map_of (map (\<lambda>(a, v). (a, AStr v)) asg))"

definition winner :: "pipeline_definition \<Rightarrow> attrs \<Rightarrow> path_rule option" where
  "winner d attrs = find (\<lambda>rule. matches (rule_match rule) attrs) (rev (path_rules d))"

definition resolve_path :: "pipeline_definition \<Rightarrow> attrs \<Rightarrow> path_resolution" where
  "resolve_path d attrs =
     (let un = unset_of d attrs;
          try = (\<lambda>values.
            let asg = zip un values
            in map_option (\<lambda>w. \<lparr>cand_stages = rule_stages w, cand_rule = rule_origin w,
                               assignment = asg\<rparr>)
                 (winner d (with_assignment attrs asg)))
      in \<lparr>candidates = List.map_filter try (value_product un), unset = un\<rparr>)"

definition complete :: "path_resolution \<Rightarrow> bool" where
  "complete r \<longleftrightarrow> length (candidates r) = length (value_product (unset r))"

definition agreed :: "path_resolution \<Rightarrow> path_candidate option" where
  "agreed r =
     (if \<not> complete r \<or> candidates r = [] \<or> length (remdups (map cand_stages (candidates r))) \<noteq> 1
      then None else Some (hd (candidates r)))"

text \<open>\<open>candidate.stages[0]\<close> raises \<open>IndexError\<close> on a candidate without stages.\<close>

definition first_stage :: "stage list \<Rightarrow> stage result" where
  "first_stage stages = (case stages of [] \<Rightarrow> Inl IndexError | s # _ \<Rightarrow> Inr s)"

definition entry_stage :: "pipeline_definition \<Rightarrow> attrs \<Rightarrow> stage option result" where
  "entry_stage d attrs =
     (let resolution = resolve_path d attrs
      in if \<not> complete resolution then Inr None
         else bind_res (map_res (\<lambda>c. first_stage (cand_stages c)) (candidates resolution)) (\<lambda>fs.
           case remdups fs of [s] \<Rightarrow> Inr (Some s) | _ \<Rightarrow> Inr None))"

subsection \<open>The packaged definition\<close>

definition PACKAGED_PATH :: yval where
  "PACKAGED_PATH =
     YList
       [YMap [(''name'', YStr ''default''), (''match'', YMap []),
              (''stages'', YList [YStr ''design'', YStr ''plan'', YStr ''execute'', YStr ''finish''])],
        YMap [(''name'', YStr ''small-bug-like-skips-plan''),
              (''match'', YMap [(''type'', YList [YStr ''Bug'', YStr ''TechDebt'', YStr ''TestGap'']),
                                (''effort'', YList [YStr ''xtra-small'', YStr ''small''])]),
              (''stages'', YList [YStr ''design'', YStr ''execute'', YStr ''finish''])],
        YMap [(''name'', YStr ''testgap-enters-at-plan''),
              (''match'', YMap [(''type'', YStr ''TestGap'')]),
              (''stages'', YList [YStr ''plan'', YStr ''execute'', YStr ''finish''])],
        YMap [(''name'', YStr ''small-testgap-enters-at-execute''),
              (''match'', YMap [(''type'', YStr ''TestGap''),
                                (''effort'', YList [YStr ''xtra-small'', YStr ''small''])]),
              (''stages'', YList [YStr ''execute'', YStr ''finish''])]]"

definition PACKAGED_ARTIFACTS :: yval where
  "PACKAGED_ARTIFACTS =
     YMap
       [(''design'', YMap [(''file'', YStr ''01-design.md''), (''source'', YStr SPEC_SOURCE_ID)]),
        (''plan'', YMap [(''file'', YStr ''02-plan.md''), (''source'', YStr PLAN_SOURCE_ID)]),
        (''execute'', YMap [(''file'', YStr ''03-execute-coverage.md''),
                            (''source'', YStr ''execute-coverage''), (''required'', YBool False)])]"

text \<open>The module-level construction: an exception here would fail the import.\<close>

definition build_packaged :: "pipeline_definition config" where
  "build_packaged =
     bind_res (parse_path_rules ''packaged'' PACKAGED_PATH) (\<lambda>rules.
     bind_res (parse_artifacts ''packaged'' PACKAGED_ARTIFACTS) (\<lambda>arts.
       Inr \<lparr>stage_table = STAGE_TABLE, path_rules = rules, artifacts = arts\<rparr>))"

definition PACKAGED_DEFINITION :: pipeline_definition where
  "PACKAGED_DEFINITION =
     (case build_packaged of
        Inr d \<Rightarrow> d
      | Inl _ \<Rightarrow> \<lparr>stage_table = STAGE_TABLE, path_rules = [], artifacts = []\<rparr>)"

subsection \<open>What the parser guarantees\<close>

text \<open>The stage lists a path rule may carry: in table order, without repeats, ending in finish.\<close>

definition wf_stages :: "stage list \<Rightarrow> bool" where
  "wf_stages ss \<longleftrightarrow> ss \<noteq> [] \<and> sorted_wrt (<) ss \<and> last ss = Finish"

definition wf_match :: "match_spec \<Rightarrow> bool" where
  "wf_match m \<longleftrightarrow>
     (\<forall>(a, c) \<in> set m. a \<noteq> ''stage'' \<and> choices c \<noteq> [] \<and>
        (case map_of ATTRIBUTES a of
           None \<Rightarrow> False
         | Some None \<Rightarrow> set (choices c) \<subseteq> range ABool
         | Some (Some as) \<Rightarrow> set (choices c) \<subseteq> AStr ` set as))"

definition wf_rule :: "path_rule \<Rightarrow> bool" where
  "wf_rule r \<longleftrightarrow> wf_stages (rule_stages r) \<and> wf_match (rule_match r)"

definition wf_definition :: "pipeline_definition \<Rightarrow> bool" where
  "wf_definition d \<longleftrightarrow> (\<forall>r \<in> set (path_rules d). wf_rule r)"

lemma index_of_STAGES [simp]: "index_of STAGES s = Some (stage_rank s)"
  by (cases s) (simp_all add: STAGES_def)

lemma ranks_of_stages: "List.map_filter (index_of STAGES) ss = map stage_rank ss"
  by (induction ss) (auto simp: List.map_filter_simps)

lemma sorted_remdups_iff: "xs = sort (remdups xs) \<longleftrightarrow> sorted_wrt (<) (xs :: nat list)"
  by (metis distinct_remdups remdups_id_iff_distinct set_remdups set_sort sorted_sort
      sorted_sort_id strict_sorted_equal strict_sorted_iff distinct_sort)

lemma sorted_stage_ranks: "sorted_wrt (<) (map stage_rank ss) \<longleftrightarrow> sorted_wrt (<) (ss :: stage list)"
  by (simp add: sorted_wrt_map less_stage_def [abs_def])

lemma find_stage_iff: "find_stage v = Some s \<longleftrightarrow> v = YStr (stage_str s)"
  by (cases s) (auto simp: find_stage_def STAGES_def split: if_splits)

lemma stage_values_iff:
  "stage_values loc vs = Inr ss \<longleftrightarrow> vs = map (YStr \<circ> stage_str) ss"
proof (induction vs arbitrary: ss)
  case Nil
  then show ?case by auto
next
  case (Cons v vs)
  show ?case
  proof (cases "find_stage v")
    case None
    then have "v \<noteq> YStr (stage_str s)" for s
      using find_stage_iff [of v s] by auto
    with None show ?thesis by (auto simp: fail_at_def)
  next
    case (Some s)
    then have "v = YStr (stage_str s)" by (simp add: find_stage_iff)
    with Some Cons show ?thesis by (auto simp: bind_res_eq_Inr Cons_eq_map_conv)
  qed
qed

lemma stages_of_iff:
  "stages_of loc raw = Inr ss \<longleftrightarrow> wf_stages ss \<and> raw = YList (map (YStr \<circ> stage_str) ss)"
proof (cases raw)
  case (YList vs)
  show ?thesis
  proof (cases vs)
    case Nil
    with YList show ?thesis by (auto simp: stages_of_def fail_at_def wf_stages_def)
  next
    case (Cons v vs')
    with YList show ?thesis
      by (auto simp: stages_of_def bind_res_eq_Inr Let_def fail_at_def ranks_of_stages
          stage_values_iff wf_stages_def sorted_remdups_iff sorted_stage_ranks
          simp del: stage_values.simps split: if_splits)
  qed
qed (auto simp: stages_of_def fail_at_def)

lemma allowed_value_attr:
  "allowed_value allowed x \<Longrightarrow>
     \<exists>v. attr_of x = Some v \<and>
       (case allowed of None \<Rightarrow> v \<in> range ABool | Some as \<Rightarrow> v \<in> AStr ` set as)"
  by (cases "(allowed, x)" rule: allowed_value.cases) auto

lemma map_filter_allowed:
  "list_all (allowed_value allowed) xs \<Longrightarrow>
     length (List.map_filter attr_of xs) = length xs \<and>
     (case allowed of None \<Rightarrow> set (List.map_filter attr_of xs) \<subseteq> range ABool
      | Some as \<Rightarrow> set (List.map_filter attr_of xs) \<subseteq> AStr ` set as)"
  by (induction xs)
    (auto simp: List.map_filter_simps dest!: allowed_value_attr split: option.splits)

lemma constraint_wf:
  assumes "constraint a allowed loc v = Inr c"
  shows "choices c \<noteq> [] \<and>
    (case allowed of None \<Rightarrow> set (choices c) \<subseteq> range ABool | Some as \<Rightarrow> set (choices c) \<subseteq> AStr ` set as)"
proof -
  define vs where "vs = List.map_filter attr_of (as_values v)"
  have ne: "as_values v \<noteq> []" and ok: "list_all (allowed_value allowed) (as_values v)"
    and c: "c = (case v of YList _ \<Rightarrow> MAny vs | _ \<Rightarrow> MOne (hd vs))"
    using assms
    by (auto simp: constraint_def fail_at_def Let_def split: if_splits option.splits)
      (simp only: vs_def)
  have "length vs = length (as_values v)"
    and sub: "case allowed of None \<Rightarrow> set vs \<subseteq> range ABool | Some as \<Rightarrow> set vs \<subseteq> AStr ` set as"
    using ok unfolding vs_def by (simp_all add: map_filter_allowed)
  with ne have ne': "vs \<noteq> []" by auto
  with c have "choices c \<noteq> [] \<and> set (choices c) \<subseteq> set vs" by (auto split: yval.splits)
  with sub show ?thesis by (auto split: option.splits)
qed

lemma match_entries_wf: "match_entries loc m = Inr spec \<Longrightarrow> wf_match spec"
proof (induction loc m arbitrary: spec rule: match_entries.induct)
  case (1 loc)
  then show ?case by (simp add: wf_match_def)
next
  case (2 loc a v rest)
  from "2.prems" obtain allowed c spec' where
    *: "a \<noteq> ''variant''" "a \<noteq> ''stage''" "map_of ATTRIBUTES a = Some allowed"
      "constraint a allowed loc v = Inr c" "match_entries loc rest = Inr spec'"
      "spec = (a, c) # spec'"
    by (auto simp: bind_res_eq_Inr fail_at_def split: if_splits option.splits)
  from "2.IH" [OF *(1,2,3,4,5)] have "wf_match spec'" .
  with * constraint_wf [OF *(4)] show ?case
    by (auto simp: wf_match_def split: option.splits)
qed

lemma path_match_wf: "path_match loc raw = Inr spec \<Longrightarrow> wf_match spec"
  by (auto simp: path_match_def fail_at_def split: yval.splits intro: match_entries_wf)

lemma parse_path_rule_wf:
  assumes "parse_path_rule source i v = Inr r"
  shows "wf_rule r \<and> origin_index (rule_origin r) = i \<and> origin_source (rule_origin r) = source"
proof -
  from assms obtain m loc match stages nm where
    "path_match loc (yget m ''match'') = Inr match" "stages_of loc (yget m ''stages'') = Inr stages"
    "r = \<lparr>rule_name = nm, rule_match = match, rule_stages = stages,
          rule_origin = \<lparr>origin_source = source, origin_index = i, origin_name = nm\<rparr>\<rparr>"
    by (auto simp: parse_path_rule_def Let_def fail_at_def bind_res_eq_Inr split: yval.splits if_splits)
  then show ?thesis by (auto simp: wf_rule_def stages_of_iff dest: path_match_wf)
qed

lemma parse_path_rules_wf:
  assumes "parse_path_rules source raw = Inr rules"
  shows "\<forall>r \<in> set rules. wf_rule r"
    and "map (origin_index \<circ> rule_origin) rules = [0..<length rules]"
proof -
  from assms obtain vs where vs: "raw = YList vs"
    "list_all2 (\<lambda>iv r. case_prod (parse_path_rule source) iv = Inr r) (enumerate 0 vs) rules"
    by (auto simp: parse_path_rules_def map_res_Inr_iff split: yval.splits)
  have len: "length rules = length vs"
    using list_all2_lengthD [OF vs(2)] by simp
  have *: "parse_path_rule source i (vs ! i) = Inr (rules ! i)" if "i < length rules" for i
    using list_all2_nthD2 [OF vs(2) that] that len by (simp add: nth_enumerate_eq)
  show "\<forall>r \<in> set rules. wf_rule r"
    using * parse_path_rule_wf by (metis in_set_conv_nth)
  show "map (origin_index \<circ> rule_origin) rules = [0..<length rules]"
    using * [THEN parse_path_rule_wf] by (auto intro!: nth_equalityI)
qed

lemma artifact_fields_wf:
  "artifact_fields loc s m = Inr a \<Longrightarrow>
     art_stage a = s \<and> is_source_id (art_source a) \<and>
     CHR ''/'' \<notin> set (art_file a) \<and> CHR 0x5C \<notin> set (art_file a) \<and> strip (art_file a) \<noteq> []"
  by (auto simp: artifact_fields_def Let_def fail_at_def simp del: has_key_iff
      split: yval.splits if_splits)

lemma parse_artifact_wf:
  "parse_artifact source kv = Inr (s, a) \<Longrightarrow>
     fst kv = stage_str s \<and> art_stage a = s \<and> is_source_id (art_source a) \<and>
     CHR ''/'' \<notin> set (art_file a) \<and> CHR 0x5C \<notin> set (art_file a) \<and> strip (art_file a) \<noteq> []"
  by (auto simp: parse_artifact_def Let_def fail_at_def find_stage_iff bind_res_eq_Inr
      dest: artifact_fields_wf split: option.splits yval.splits)

subsection \<open>What path resolution guarantees\<close>

lemma find_rev_Some:
  "find P (rev xs) = Some x \<longleftrightarrow>
     (\<exists>pre post. xs = pre @ x # post \<and> P x \<and> (\<forall>y \<in> set post. \<not> P y))"
proof (induction xs rule: rev_induct)
  case Nil
  then show ?case by simp
next
  case (snoc y xs)
  show ?case
  proof (cases "P y")
    case True
    have "\<exists>pre post. xs @ [y] = pre @ x # post \<and> P x \<and> (\<forall>z\<in>set post. \<not> P z)" if "x = y"
      using that True by (intro exI [of _ xs] exI [of _ "[]"]) simp
    moreover have "x = y" if "xs @ [y] = pre @ x # post" "\<forall>z\<in>set post. \<not> P z" for pre post
      using that True by (cases post rule: rev_cases) auto
    ultimately show ?thesis using True by auto
  next
    case False
    have "(\<exists>pre post. xs @ [y] = pre @ x # post \<and> P x \<and> (\<forall>z\<in>set post. \<not> P z)) \<longleftrightarrow>
        (\<exists>pre post. xs = pre @ x # post \<and> P x \<and> (\<forall>z\<in>set post. \<not> P z))"
    proof safe
      fix pre post
      assume *: "xs @ [y] = pre @ x # post" "P x" "\<forall>z\<in>set post. \<not> P z"
      with False show "\<exists>pre post. xs = pre @ x # post \<and> P x \<and> (\<forall>z\<in>set post. \<not> P z)"
        by (cases post rule: rev_cases) auto
    next
      fix pre post
      assume "P x" "\<forall>z\<in>set post. \<not> P z"
      with False show "\<exists>pre' post'. (pre @ x # post) @ [y] = pre' @ x # post' \<and> P x \<and>
          (\<forall>z\<in>set post'. \<not> P z)"
        by (intro exI [of _ pre] exI [of _ "post @ [y]"]) auto
    qed
    with False snoc show ?thesis by simp
  qed
qed

lemma winner_iff:
  "winner d attrs = Some r \<longleftrightarrow>
     (\<exists>pre post. path_rules d = pre @ r # post \<and> matches (rule_match r) attrs \<and>
        (\<forall>r' \<in> set post. \<not> matches (rule_match r') attrs))"
  by (simp add: winner_def find_rev_Some)

lemma winner_None_iff:
  "winner d attrs = None \<longleftrightarrow> (\<forall>r \<in> set (path_rules d). \<not> matches (rule_match r) attrs)"
  by (auto simp: winner_def find_None_iff)

lemma map_filter_length:
  "length (List.map_filter f xs) = length xs \<longleftrightarrow> (\<forall>x \<in> set xs. f x \<noteq> None)"
proof -
  have "length (filter P xs) = length xs \<longleftrightarrow> (\<forall>x \<in> set xs. P x)" for P
    by (metis filter_id_conv length_filter_less order_less_irrefl)
  then show ?thesis by (simp add: List.map_filter_def)
qed

lemma map_filter_all_Some:
  "(\<forall>x \<in> set xs. f x \<noteq> None) \<Longrightarrow> List.map_filter f xs = map (the \<circ> f) xs"
  by (induction xs) (auto simp: List.map_filter_simps)

lemma unset_resolve [simp]: "unset (resolve_path d attrs) = unset_of d attrs"
  by (simp add: resolve_path_def Let_def)

lemma complete_iff:
  "complete (resolve_path d attrs) \<longleftrightarrow>
     (\<forall>vs \<in> set (value_product (unset_of d attrs)).
        winner d (with_assignment attrs (zip (unset_of d attrs) vs)) \<noteq> None)"
  by (simp add: complete_def resolve_path_def Let_def map_filter_length)

lemma candidate_cases:
  assumes "c \<in> set (candidates (resolve_path d attrs))"
  obtains vs r where "vs \<in> set (value_product (unset_of d attrs))"
    and "assignment c = zip (unset_of d attrs) vs"
    and "winner d (with_assignment attrs (assignment c)) = Some r"
    and "cand_stages c = rule_stages r" and "cand_rule c = rule_origin r"
proof -
  from assms obtain vs r where "vs \<in> set (value_product (unset_of d attrs))"
    "winner d (with_assignment attrs (zip (unset_of d attrs) vs)) = Some r"
    "c = \<lparr>cand_stages = rule_stages r, cand_rule = rule_origin r,
          assignment = zip (unset_of d attrs) vs\<rparr>"
    by (auto simp: resolve_path_def Let_def List.map_filter_def)
  with that show thesis by simp
qed

lemma winner_in_rules: "winner d attrs = Some r \<Longrightarrow> r \<in> set (path_rules d)"
  by (auto simp: winner_iff)

lemma candidate_wf:
  "wf_definition d \<Longrightarrow> c \<in> set (candidates (resolve_path d attrs)) \<Longrightarrow> wf_stages (cand_stages c)"
  by (erule candidate_cases) (auto simp: wf_definition_def wf_rule_def dest: winner_in_rules)

lemma catch_all_complete:
  assumes "r \<in> set (path_rules d)" and "rule_match r = []"
  shows "complete (resolve_path d attrs)"
proof -
  have "winner d a \<noteq> None" for a
    using assms by (auto simp: winner_None_iff intro!: bexI [of _ r])
  then show ?thesis by (simp add: complete_iff)
qed

lemma value_product_nonempty:
  "set names \<subseteq> set (map fst ATTRIBUTE_ORDER) \<Longrightarrow> value_product names \<noteq> []"
proof -
  assume "set names \<subseteq> set (map fst ATTRIBUTE_ORDER)"
  then have "\<forall>a \<in> set names. order_of a \<noteq> []"
    by (auto simp: order_of_def ATTRIBUTE_ORDER_def)
  then show ?thesis
    unfolding value_product_def by (induction names) (auto simp: concat_eq_Nil_conv)
qed

lemma unset_of_subset: "set (unset_of d attrs) \<subseteq> set (map fst ATTRIBUTE_ORDER)"
  by (auto simp: unset_of_def)

lemma complete_has_candidates:
  "complete (resolve_path d attrs) \<Longrightarrow> candidates (resolve_path d attrs) \<noteq> []"
  using value_product_nonempty [OF unset_of_subset] by (auto simp: complete_def)

subsection \<open>The packaged rules\<close>

definition packaged_rules :: "path_rule list" where
  "packaged_rules =
     [\<lparr>rule_name = Some ''default'', rule_match = [],
       rule_stages = [Design, Plan, Execute, Finish],
       rule_origin = \<lparr>origin_source = ''packaged'', origin_index = 0, origin_name = Some ''default''\<rparr>\<rparr>,
      \<lparr>rule_name = Some ''small-bug-like-skips-plan'',
       rule_match = [(''type'', MAny [AStr ''Bug'', AStr ''TechDebt'', AStr ''TestGap'']),
                     (''effort'', MAny [AStr ''xtra-small'', AStr ''small''])],
       rule_stages = [Design, Execute, Finish],
       rule_origin = \<lparr>origin_source = ''packaged'', origin_index = 1,
                      origin_name = Some ''small-bug-like-skips-plan''\<rparr>\<rparr>,
      \<lparr>rule_name = Some ''testgap-enters-at-plan'', rule_match = [(''type'', MOne (AStr ''TestGap''))],
       rule_stages = [Plan, Execute, Finish],
       rule_origin = \<lparr>origin_source = ''packaged'', origin_index = 2,
                      origin_name = Some ''testgap-enters-at-plan''\<rparr>\<rparr>,
      \<lparr>rule_name = Some ''small-testgap-enters-at-execute'',
       rule_match = [(''type'', MOne (AStr ''TestGap'')),
                     (''effort'', MAny [AStr ''xtra-small'', AStr ''small''])],
       rule_stages = [Execute, Finish],
       rule_origin = \<lparr>origin_source = ''packaged'', origin_index = 3,
                      origin_name = Some ''small-testgap-enters-at-execute''\<rparr>\<rparr>]"

lemma packaged_path_parses: "parse_path_rules ''packaged'' PACKAGED_PATH = Inr packaged_rules"
  by code_simp

lemma packaged_artifacts_parse:
  "parse_artifacts ''packaged'' PACKAGED_ARTIFACTS =
     Inr [(Design, \<lparr>art_stage = Design, art_file = ''01-design.md'', art_source = ''design'',
                    art_required = True\<rparr>),
          (Plan, \<lparr>art_stage = Plan, art_file = ''02-plan.md'', art_source = ''plan'',
                  art_required = True\<rparr>),
          (Execute, \<lparr>art_stage = Execute, art_file = ''03-execute-coverage.md'',
                     art_source = ''execute-coverage'', art_required = False\<rparr>)]"
  by code_simp

lemma path_rules_packaged [simp]: "path_rules PACKAGED_DEFINITION = packaged_rules"
  by (simp add: PACKAGED_DEFINITION_def build_packaged_def packaged_path_parses
      packaged_artifacts_parse)

lemma wf_packaged: "wf_definition PACKAGED_DEFINITION"
  using parse_path_rules_wf(1) [OF packaged_path_parses] by (simp add: wf_definition_def)

lemma packaged_complete: "complete (resolve_path PACKAGED_DEFINITION attrs)"
  by (rule catch_all_complete [of "hd packaged_rules"]) (simp_all add: packaged_rules_def)

text \<open>The stages the packaged rules give an item of a type once its effort is known.\<close>

definition packaged_stages :: "string \<Rightarrow> string \<Rightarrow> stage list" where
  "packaged_stages ty effort =
     (if ty = ''TestGap''
      then (if effort \<in> set SMALL_EFFORTS then [Execute, Finish] else [Plan, Execute, Finish])
      else if ty \<in> set BUG_LIKE_TYPES \<and> effort \<in> set SMALL_EFFORTS then [Design, Execute, Finish]
      else [Design, Plan, Execute, Finish])"

lemma path_attributes_simps [simp]:
  "path_attributes ty e b hs hp ss ''type'' = Some (AStr ty)"
  "path_attributes ty e b hs hp ss ''effort'' = opt_str e"
  "path_attributes ty e b hs hp ss ''blast_radius'' = opt_str b"
  "path_attributes ty e b hs hp ss ''has_spec'' = Some (ABool hs)"
  "path_attributes ty e b hs hp ss ''has_plan'' = Some (ABool hp)"
  "path_attributes ty e b hs hp ss ''spec_stale'' = Some (ABool ss)"
  by (simp_all add: path_attributes_def map_add_def split: option.splits)

lemma packaged_winner:
  assumes "attrs ''type'' = Some (AStr ty)" and "attrs ''effort'' = Some (AStr e)"
  shows "map_option rule_stages (winner PACKAGED_DEFINITION attrs) = Some (packaged_stages ty e)"
  using assms
  by (simp add: winner_def packaged_rules_def packaged_stages_def BUG_LIKE_TYPES_def SMALL_EFFORTS_def)

lemma packaged_unset:
  "unset_of PACKAGED_DEFINITION (path_attributes ty e b hs hp ss) = (if e = None then [''effort''] else [])"
  by (cases e) (simp_all add: unset_of_def referenced_def packaged_rules_def ATTRIBUTE_ORDER_def)

lemma packaged_resolve_sized:
  "map cand_stages (candidates (resolve_path PACKAGED_DEFINITION (path_attributes ty (Some e) b hs hp ss)))
     = [packaged_stages ty e]"
proof -
  have "map_option rule_stages
      (winner PACKAGED_DEFINITION (path_attributes ty (Some e) b hs hp ss)) = Some (packaged_stages ty e)"
    by (rule packaged_winner) simp_all
  then obtain w where "winner PACKAGED_DEFINITION (path_attributes ty (Some e) b hs hp ss) = Some w"
    "rule_stages w = packaged_stages ty e" by auto
  then show ?thesis
    by (simp add: resolve_path_def packaged_unset value_product_def with_assignment_def
        List.map_filter_simps)
qed

lemma packaged_resolve_unsized:
  "map cand_stages (candidates (resolve_path PACKAGED_DEFINITION (path_attributes ty None b hs hp ss)))
     = map (packaged_stages ty) (order_of ''effort'')"
proof -
  define attrs where "attrs = path_attributes ty None b hs hp ss"
  have win: "map_option rule_stages
      (winner PACKAGED_DEFINITION (with_assignment attrs [(''effort'', v)])) = Some (packaged_stages ty v)" for v
    by (rule packaged_winner) (simp_all add: attrs_def with_assignment_def)
  have un: "unset_of PACKAGED_DEFINITION attrs = [''effort'']"
    by (simp add: attrs_def packaged_unset)
  have ex: "\<exists>w. winner PACKAGED_DEFINITION (with_assignment attrs [(''effort'', v)]) = Some w
      \<and> rule_stages w = packaged_stages ty v" for v
    using win [of v] by (cases "winner PACKAGED_DEFINITION (with_assignment attrs [(''effort'', v)])") auto
  have "map cand_stages (candidates (resolve_path PACKAGED_DEFINITION attrs)) =
      List.map_filter (\<lambda>v. map_option rule_stages
        (winner PACKAGED_DEFINITION (with_assignment attrs [(''effort'', v)]))) (order_of ''effort'')"
    by (simp add: resolve_path_def Let_def un value_product_def List.map_filter_def filter_map o_def
        option.map_comp map_idI) (induction "order_of ''effort''"; auto)
  also have "\<dots> = map (packaged_stages ty) (order_of ''effort'')"
    by (simp add: win List.map_filter_def o_def)
  finally show ?thesis by (simp add: attrs_def)
qed

subsection \<open>Properties\<close>

text \<open>The packaged rules give every item the path its type and size call for: a known effort
  decides it; an unset effort leaves one candidate per effort, in effort order.\<close>

theorem packaged_item_paths:
  "map cand_stages (candidates (resolve_path PACKAGED_DEFINITION (path_attributes ty effort b hs hp ss))) =
     (case effort of
        Some e \<Rightarrow> [packaged_stages ty e]
      | None \<Rightarrow> map (packaged_stages ty) [''xtra-small'', ''small'', ''medium'', ''large'', ''xtra-large''])"
  by (simp add: packaged_resolve_sized packaged_resolve_unsized order_of_def ATTRIBUTE_ORDER_def
      split: option.split)

text \<open>The stage list of a path rule parses to exactly the lists in stage-table order, without
  repeats and ending in finish; every other value is refused.\<close>

theorem stage_list_parse:
  "stages_of location raw = Inr stages \<longleftrightarrow>
     stages \<noteq> [] \<and> sorted_wrt (<) stages \<and> last stages = Finish \<and> raw = YList (map (YStr \<circ> stage_str) stages)"
  by (simp add: stages_of_iff wf_stages_def)

text \<open>Path rules the parser accepts are well-formed (stages in order ending in finish, match
  keys known attributes other than stage with admissible non-empty choices), and their
  origins number them from zero.\<close>

theorem parsed_rules_wf:
  assumes "parse_path_rules source raw = Inr rules"
  shows "(\<forall>r \<in> set rules. wf_rule r) \<and> map (origin_index \<circ> rule_origin) rules = [0..<length rules]"
  using parse_path_rules_wf [OF assms] by simp

theorem parsed_rules_wf_witness: "wf_rule (packaged_rules ! 1) \<and> map (origin_index \<circ> rule_origin) packaged_rules = [0, 1, 2, 3]"
proof -
  have length: "length packaged_rules = 4" by (simp add: packaged_rules_def)
  then have "packaged_rules ! 1 \<in> set packaged_rules" by (intro nth_mem) simp
  with parsed_rules_wf [OF packaged_path_parses] show ?thesis
    by (simp add: length upt_rec)
qed

text \<open>When no referenced attribute is unset, the last matching rule alone decides the path.\<close>

theorem last_rule_wins:
  assumes "path_rules d = earlier @ r # later" and "matches (rule_match r) attrs"
    and "\<forall>r' \<in> set later. \<not> matches (rule_match r') attrs" and "unset_of d attrs = []"
  shows "candidates (resolve_path d attrs) =
    [\<lparr>cand_stages = rule_stages r, cand_rule = rule_origin r, assignment = []\<rparr>]"
proof -
  have "winner d attrs = Some r" using assms(1-3) by (auto simp: winner_iff)
  then show ?thesis
    by (simp add: resolve_path_def assms(4) value_product_def with_assignment_def List.map_filter_simps)
qed

theorem last_rule_wins_witness:
  "map cand_stages (candidates (resolve_path PACKAGED_DEFINITION
     (path_attributes ''TestGap'' (Some ''large'') None False False False))) = [[Plan, Execute, Finish]]"
proof -
  have "path_rules PACKAGED_DEFINITION =
      take 2 packaged_rules @ (packaged_rules ! 2) # drop 3 packaged_rules"
    by (simp add: packaged_rules_def)
  from last_rule_wins [OF this, of "path_attributes ''TestGap'' (Some ''large'') None False False False"]
  show ?thesis by (simp add: packaged_rules_def packaged_unset)
qed

end
