(* ===== verification/Paths.thy ===== *)
theory Paths
  imports Pipeline
begin

text \<open>
  The path grammar and artifact names of path-native work items
  (\<open>work_tracker_okf/paths.py\<close>). \<open>item_path\<close> is the abstract syntax of the grammar: an
  archive marker and the non-empty list of basenames from the root item down;
  \<open>parse_item_path_iff\<close> says the parser accepts exactly the paths it prints.
\<close>

definition RESERVED_BASENAMES :: "string list" where
  "RESERVED_BASENAMES = [''children'', ''index'', ''references'']"

definition MANAGED_ARTIFACTS :: "(string \<times> string) list" where
  "MANAGED_ARTIFACTS =
     [(''decisions'', ''00-decisions.md''), (SPEC_SOURCE_ID, ''01-design.md''),
      (''design-transcript'', ''01-design-transcript.jsonl''), (PLAN_SOURCE_ID, ''02-plan.md''),
      (''plan-transcript'', ''02-plan-transcript.jsonl''),
      (''execute-results'', ''03-execute-results.md''), (''execute-coverage'', ''03-execute-coverage.md''),
      (''gate-receipts'', ''03-gate-receipts.md''),
      (''execute-transcript'', ''03-execute-transcript.jsonl''),
      (''finish-results'', ''04-finish-results.md''), (''finish-receipt'', ''04-finish-receipt.md''),
      (''finish-transcript'', ''04-finish-transcript.jsonl'')]"

definition PHASE_ORDINALS :: "(string \<times> string) list" where
  "PHASE_ORDINALS =
     map (\<lambda>(rank, r). (stage_str (row_stage r), zpad 2 (nat_str (rank + 1)))) (enumerate 0 STAGE_TABLE)"

definition decision_id_rx :: rx where
  "decision_id_rx = RSeq (rx_lit ''D-'') (rx_plus (RChr is_digit))"

definition artifact_rx :: rx where
  "artifact_rx =
     RSeq (RChr is_digit) (RSeq (RChr is_digit) (RSeq (rx_lit ''-'')
       (RSeq kebab_rx (RSeq (rx_lit ''.'') (rx_plus (RChr kebab_char))))))"

record artifact_reference =
  rel :: string
  source_id :: "string option"

definition resource :: "artifact_reference \<Rightarrow> string" where
  "resource r = ''/'' @ rel r"

record item_location =
  loc_path :: string
  loc_page :: string
  loc_basename :: string
  loc_lane :: string
  loc_parent_path :: "string option"
  loc_ancestor_paths :: "string list"
  loc_archived :: bool

definition is_basename :: "string \<Rightarrow> bool" where
  "is_basename value \<longleftrightarrow> value \<notin> set RESERVED_BASENAMES \<and> fullmatch kebab_rx value"

text \<open>The \<open>while\<close> loop of the parser over the segments after the root's basename.\<close>

fun walk_children :: "string list \<Rightarrow> string \<Rightarrow> string list \<Rightarrow> (string list \<times> string) option" where
  "walk_children item_paths lane [] = Some (item_paths, lane)"
| "walk_children item_paths lane (seg # rest) =
     (if seg \<noteq> ''children'' then None
      else let lane' = last item_paths @ ''/children''
           in case rest of
                [] \<Rightarrow> None
              | b # rest' \<Rightarrow>
                  if \<not> is_basename b then None
                  else walk_children (item_paths @ [lane' @ ''/'' @ b]) lane' rest')"

definition parse_item_path :: "string \<Rightarrow> item_location option" where
  "parse_item_path value =
     (let parts = split_on (CHR ''/'') value
      in if parts = [] \<or> hd parts \<noteq> ''work'' then None
         else
           let archived = length parts > 1 \<and> parts ! 1 = ''_archive'';
               basename_index = (if archived then 2 else 1)
           in if length parts \<le> basename_index \<or> \<not> is_basename (parts ! basename_index) then None
              else case walk_children [join ''/'' (take (basename_index + 1) parts)]
                          (if archived then ''work/_archive'' else ''work'')
                          (drop (basename_index + 1) parts) of
                     None \<Rightarrow> None
                   | Some (item_paths, lane) \<Rightarrow>
                       let path = last item_paths
                       in Some \<lparr>loc_path = path, loc_page = path @ ''.md'', loc_basename = last parts,
                            loc_lane = lane,
                            loc_parent_path = (if length item_paths > 1
                              then Some (item_paths ! (length item_paths - 2)) else None),
                            loc_ancestor_paths = butlast item_paths, loc_archived = archived\<rparr>)"

definition child_lane :: "string \<Rightarrow> string" where
  "child_lane item_path = item_path @ ''/children''"

definition item_page :: "string \<Rightarrow> artifact_reference" where
  "item_page item_path = \<lparr>rel = item_path @ ''.md'', source_id = None\<rparr>"

definition owned_dir :: "string \<Rightarrow> artifact_reference" where
  "owned_dir item_path = \<lparr>rel = item_path, source_id = None\<rparr>"

definition references_dir :: "string \<Rightarrow> artifact_reference" where
  "references_dir item_path = \<lparr>rel = rel (owned_dir item_path) @ ''/references'', source_id = None\<rparr>"

definition source_id_for_filename :: "string \<Rightarrow> string result" where
  "source_id_for_filename filename =
     (if \<not> fullmatch artifact_rx filename
      then Inl (ValueError (''managed artifact filename must begin with NN-: '' @ repr filename))
      else Inr (takeWhile (\<lambda>c. c \<noteq> CHR ''.'') (drop 3 filename)))"

definition artifact_ref :: "string \<Rightarrow> string \<Rightarrow> artifact_reference result" where
  "artifact_ref item_path filename =
     bind_res (source_id_for_filename filename) (\<lambda>i.
       Inr \<lparr>rel = rel (references_dir item_path) @ ''/'' @ filename, source_id = Some i\<rparr>)"

definition checkpoint_ref :: "string \<Rightarrow> string \<Rightarrow> string \<Rightarrow> artifact_reference result" where
  "checkpoint_ref item_path phase decision_id =
     (case map_of PHASE_ORDINALS phase of
        None \<Rightarrow> Inl (ValueError (''no checkpoint for phase '' @ repr phase @ ''; expected one of ''
                  @ repr_list (sort (map fst PHASE_ORDINALS))))
      | Some ordinal \<Rightarrow>
          if \<not> fullmatch decision_id_rx decision_id
          then Inl (ValueError (''malformed decision id '' @ repr decision_id
                      @ ''; expected a form like '' @ repr ''D-014''))
          else Inr \<lparr>rel = rel (references_dir item_path) @ ''/'' @ ordinal @ ''-'' @ phase
                       @ ''-checkpoint-'' @ decision_id @ ''.md'', source_id = None\<rparr>)"

subsection \<open>The grammar\<close>

definition root_lane :: "bool \<Rightarrow> string" where
  "root_lane archived = (if archived then ''work/_archive'' else ''work'')"

definition root_path :: "bool \<Rightarrow> string \<Rightarrow> string" where
  "root_path archived b = root_lane archived @ ''/'' @ b"

definition child_of :: "string \<Rightarrow> string \<Rightarrow> string" where
  "child_of p b = child_lane p @ ''/'' @ b"

definition item_path :: "bool \<Rightarrow> string \<Rightarrow> string list \<Rightarrow> string" where
  "item_path archived b bs = foldl child_of (root_path archived b) bs"

text \<open>The paths of the item itself and of its ancestors, root first.\<close>

fun chain :: "string \<Rightarrow> string list \<Rightarrow> string list" where
  "chain p [] = [p]"
| "chain p (b # bs) = p # chain (child_of p b) bs"

definition location_at :: "bool \<Rightarrow> string \<Rightarrow> string list \<Rightarrow> item_location" where
  "location_at archived b bs =
     (let paths = chain (root_path archived b) bs
      in \<lparr>loc_path = item_path archived b bs, loc_page = item_path archived b bs @ ''.md'',
          loc_basename = last (b # bs),
          loc_lane = (if bs = [] then root_lane archived else child_lane (last (butlast paths))),
          loc_parent_path = (if bs = [] then None else Some (last (butlast paths))),
          loc_ancestor_paths = butlast paths, loc_archived = archived\<rparr>)"

lemma is_basename_no_slash: "is_basename b \<Longrightarrow> CHR ''/'' \<notin> set b"
  by (simp add: is_basename_def kebab_rx_no_slash)

lemma split_basename: "is_basename b \<Longrightarrow> split_on (CHR ''/'') b = [b]"
  by (simp add: split_on_single is_basename_no_slash)

lemma not_basename [simp]: "\<not> is_basename ''_archive''" "\<not> is_basename ''children''"
  by (simp_all add: is_basename_def RESERVED_BASENAMES_def kebab_rx_def rx_plus_def kebab_char_def
      is_ascii_lower_def is_digit_def)

lemma chain_not_Nil [simp]: "chain p bs \<noteq> []"
  by (cases bs) auto

lemma butlast_chain_Nil: "butlast (chain p bs) = [] \<longleftrightarrow> bs = []"
  by (cases bs) auto

lemma last_chain: "last (chain p bs) = foldl child_of p bs"
  by (induction bs arbitrary: p) auto

lemma length_chain [simp]: "length (chain p bs) = Suc (length bs)"
  by (induction bs arbitrary: p) auto

lemma chain_snoc: "chain p (bs @ [b]) = chain p bs @ [child_of (foldl child_of p bs) b]"
  by (induction bs arbitrary: p) auto

lemma split_child_of:
  "is_basename b \<Longrightarrow> split_on (CHR ''/'') (child_of p b) = split_on (CHR ''/'') p @ [''children'', b]"
  using split_on_append_sep [of "CHR ''/''" p "''children/'' @ b"]
    split_on_append_sep [of "CHR ''/''" "''children''" b]
  by (simp add: child_of_def child_lane_def split_basename)

lemma split_foldl_child:
  "list_all is_basename bs \<Longrightarrow>
     split_on (CHR ''/'') (foldl child_of p bs) =
       split_on (CHR ''/'') p @ concat (map (\<lambda>b. [''children'', b]) bs)"
  by (induction bs arbitrary: p) (simp_all add: split_child_of)

lemma split_item_path:
  assumes "is_basename b" and "list_all is_basename bs"
  shows "split_on (CHR ''/'') (item_path archived b bs) =
    ''work'' # (if archived then [''_archive''] else []) @ b # concat (map (\<lambda>b. [''children'', b]) bs)"
  using assms split_on_append_sep [of "CHR ''/''" "root_lane archived" b]
  by (simp add: item_path_def split_foldl_child split_basename root_lane_def root_path_def)

lemma walk_children_chain:
  "list_all is_basename bs \<Longrightarrow>
     walk_children (ips @ [p]) lane (concat (map (\<lambda>b. [''children'', b]) bs)) =
       Some (ips @ chain p bs, if bs = [] then lane else child_lane (last (butlast (chain p bs))))"
proof (induction bs arbitrary: ips p lane)
  case Nil
  then show ?case by simp
next
  case (Cons b bs)
  have step: "walk_children (ips @ [p]) lane (''children'' # b # segs) =
      walk_children ((ips @ [p]) @ [child_of p b]) (child_lane p) segs" for segs
    using Cons.prems by (simp add: child_lane_def child_of_def)
  have "list_all is_basename bs" using Cons.prems by simp
  from Cons.IH [OF this, of "ips @ [p]" "child_of p b" "child_lane p"] step show ?case
    by (simp add: butlast_chain_Nil)
qed

lemma walk_children_Some:
  "walk_children ips lane segs = Some r \<Longrightarrow>
     \<exists>bs. list_all is_basename bs \<and> segs = concat (map (\<lambda>b. [''children'', b]) bs)"
proof (induction ips lane segs rule: walk_children.induct)
  case (1 ips lane)
  then show ?case by (intro exI [of _ "[]"]) simp
next
  case (2 ips lane seg rest)
  from "2.prems" obtain b rest' where rest: "seg = ''children''" "rest = b # rest'" "is_basename b"
    and w: "walk_children (ips @ [(last ips @ ''/children'') @ ''/'' @ b]) (last ips @ ''/children'') rest' = Some r"
    by (auto simp: Let_def split: if_splits list.splits)
  with "2.IH" [OF _ refl rest(2)] obtain bs where
    "list_all is_basename bs" "rest' = concat (map (\<lambda>b. [''children'', b]) bs)" by auto
  with rest show ?case by (intro exI [of _ "b # bs"]) simp
qed

lemma parse_item_path_parts:
  assumes "split_on (CHR ''/'') v = ''work'' # (if a then [''_archive''] else []) @ b # segs"
    and "is_basename b"
  shows "parse_item_path v =
    (case walk_children [root_path a b] (root_lane a) segs of
       None \<Rightarrow> None
     | Some (item_paths, lane) \<Rightarrow>
         Some \<lparr>loc_path = last item_paths, loc_page = last item_paths @ ''.md'',
           loc_basename = last (b # segs), loc_lane = lane,
           loc_parent_path = (if length item_paths > 1
             then Some (item_paths ! (length item_paths - 2)) else None),
           loc_ancestor_paths = butlast item_paths, loc_archived = a\<rparr>)"
proof -
  have "b \<noteq> ''_archive''" using assms(2) by auto
  with assms show ?thesis
    by (cases a) (auto simp: parse_item_path_def root_lane_def root_path_def Let_def split: option.splits)
qed

lemma penultimate: "length ps > 1 \<Longrightarrow> ps ! (length ps - 2) = last (butlast ps)"
  by (cases ps rule: rev_cases) (auto simp: last_conv_nth nth_append)

lemma parse_item_path_complete:
  assumes "is_basename b" and "list_all is_basename bs"
  shows "parse_item_path (item_path archived b bs) = Some (location_at archived b bs)"
proof -
  define ps where "ps = chain (root_path archived b) bs"
  have w: "walk_children [root_path archived b] (root_lane archived)
      (concat (map (\<lambda>b. [''children'', b]) bs)) =
    Some (ps, if bs = [] then root_lane archived else child_lane (last (butlast ps)))"
    using walk_children_chain [OF assms(2), of "[]"] by (simp add: ps_def)
  have l: "last (b # concat (map (\<lambda>b. [''children'', b]) bs)) = last (b # bs)"
    by (induction bs arbitrary: b) auto
  then have l': "bs \<noteq> [] \<Longrightarrow> last (concat (map (\<lambda>b. [''children'', b]) bs)) = last bs"
    by (cases bs) auto
  have nil: "butlast ps = [] \<longleftrightarrow> bs = []" by (simp add: ps_def butlast_chain_Nil)
  have last: "last ps = item_path archived b bs"
    by (simp add: ps_def last_chain item_path_def)
  have len: "length ps = Suc (length bs)" by (simp add: ps_def)
  show ?thesis
    unfolding parse_item_path_parts [OF split_item_path [OF assms] assms(1)] w
    using penultimate [of ps] nil
    by (cases "bs = []") (simp_all add: location_at_def Let_def ps_def [symmetric] last l' len)
qed

lemma parse_item_path_sound:
  assumes "parse_item_path v = Some l"
  shows "\<exists>archived b bs. is_basename b \<and> list_all is_basename bs \<and> v = item_path archived b bs"
proof -
  define parts where "parts = split_on (CHR ''/'') v"
  define archived where "archived = (length parts > 1 \<and> parts ! 1 = ''_archive'')"
  define i where "i = (if archived then 2 else 1 :: nat)"
  from assms obtain r where *: "parts \<noteq> []" "hd parts = ''work''" "i < length parts"
    "is_basename (parts ! i)"
    "walk_children [join ''/'' (take (i + 1) parts)] (if archived then ''work/_archive'' else ''work'')
       (drop (i + 1) parts) = Some r"
    by (auto simp: parse_item_path_def parts_def archived_def i_def Let_def
        split: if_splits option.splits)
  then obtain bs where bs: "list_all is_basename bs"
    "drop (i + 1) parts = concat (map (\<lambda>b. [''children'', b]) bs)"
    using walk_children_Some by blast
  have "parts = take i parts @ parts ! i # drop (i + 1) parts"
    using *(3) by (simp add: id_take_nth_drop)
  moreover have "take i parts = ''work'' # (if archived then [''_archive''] else [])"
    using * by (cases parts; cases "tl parts") (auto simp: i_def archived_def)
  ultimately have "parts = split_on (CHR ''/'') (item_path archived (parts ! i) bs)"
    using * bs by (simp add: split_item_path)
  then have "v = item_path archived (parts ! i) bs"
    unfolding parts_def by (rule split_on_inject)
  with * bs show ?thesis by blast
qed

lemma parse_item_path_iff:
  "parse_item_path v = Some l \<longleftrightarrow>
     (\<exists>archived b bs. is_basename b \<and> list_all is_basename bs \<and>
        v = item_path archived b bs \<and> l = location_at archived b bs)"
  using parse_item_path_sound parse_item_path_complete by fastforce

lemma parse_item_path_loc:
  "parse_item_path v = Some l \<Longrightarrow> loc_path l = v"
  "parse_item_path v = Some l \<Longrightarrow> loc_page l = v @ ''.md''"
  by (auto simp: parse_item_path_iff location_at_def Let_def)

text \<open>A child lane entry below any canonical path is a canonical path, one level down.\<close>

lemma parse_child:
  assumes "parse_item_path p = Some l" and "is_basename b"
  shows "parse_item_path (child_lane p @ ''/'' @ b) =
    Some \<lparr>loc_path = child_lane p @ ''/'' @ b, loc_page = (child_lane p @ ''/'' @ b) @ ''.md'',
      loc_basename = b, loc_lane = child_lane p, loc_parent_path = Some p,
      loc_ancestor_paths = loc_ancestor_paths l @ [p], loc_archived = loc_archived l\<rparr>"
proof -
  from assms(1) obtain a b0 bs where *: "is_basename b0" "list_all is_basename bs"
    "p = item_path a b0 bs" "l = location_at a b0 bs"
    by (auto simp: parse_item_path_iff)
  have eq: "child_lane p @ ''/'' @ b = item_path a b0 (bs @ [b])"
    by (simp add: * item_path_def child_of_def)
  have pc: "butlast (chain q bs) @ [foldl child_of q bs] = chain q bs" for q
    by (metis append_butlast_last_id chain_not_Nil last_chain)
  have "parse_item_path (item_path a b0 (bs @ [b])) = Some (location_at a b0 (bs @ [b]))"
    using * assms(2) by (intro parse_item_path_complete) simp_all
  then show ?thesis
    unfolding eq
    using pc [of "root_path a b0"]
    by (simp add: location_at_def Let_def chain_snoc *(4)) (simp add: * item_path_def last_chain)
qed

text \<open>Conversely every canonical path is a root or the child of its parent.\<close>

lemma parse_item_path_cases:
  assumes "parse_item_path v = Some l"
  obtains (root) "loc_parent_path l = None" and "loc_ancestor_paths l = []"
      and "v = root_lane (loc_archived l) @ ''/'' @ loc_basename l" and "is_basename (loc_basename l)"
  | (child) p lp where "loc_parent_path l = Some p" and "parse_item_path p = Some lp"
      and "v = child_lane p @ ''/'' @ loc_basename l" and "is_basename (loc_basename l)"
      and "loc_ancestor_paths l = loc_ancestor_paths lp @ [p]" and "loc_archived lp = loc_archived l"
proof -
  from assms obtain a b0 bs where *: "is_basename b0" "list_all is_basename bs"
    "v = item_path a b0 bs" "l = location_at a b0 bs"
    by (auto simp: parse_item_path_iff)
  show thesis
  proof (cases bs rule: rev_cases)
    case Nil
    with * root show ?thesis by (simp add: location_at_def item_path_def root_path_def Let_def)
  next
    case (snoc bs' b)
    define p where "p = item_path a b0 bs'"
    have p: "parse_item_path p = Some (location_at a b0 bs')"
      using * snoc by (simp add: p_def parse_item_path_complete)
    have v: "v = child_lane p @ ''/'' @ b"
      by (simp add: * snoc p_def item_path_def child_of_def)
    have b: "is_basename b" using * snoc by simp
    have arch: "loc_archived (location_at a b0 bs') = a"
      by (simp add: location_at_def Let_def)
    from parse_child [OF p b] assms v have
      "l = \<lparr>loc_path = v, loc_page = v @ ''.md'', loc_basename = b, loc_lane = child_lane p,
         loc_parent_path = Some p, loc_ancestor_paths = loc_ancestor_paths (location_at a b0 bs') @ [p],
         loc_archived = a\<rparr>"
      by (simp only: arch) simp
    with child [OF _ p] v b arch show ?thesis by simp
  qed
qed

lemma parse_ancestors:
  assumes "parse_item_path v = Some l" and "a \<in> set (loc_ancestor_paths l)"
  shows "\<exists>la. parse_item_path a = Some la \<and> loc_archived la = loc_archived l
    \<and> (\<exists>s. v = a @ ''/children/'' @ s)"
  using assms
proof (induction "length (loc_ancestor_paths l)" arbitrary: v l)
  case 0
  then show ?case by simp
next
  case (Suc n)
  from Suc.prems(1) show ?case
  proof (cases rule: parse_item_path_cases)
    case root
    with Suc show ?thesis by simp
  next
    case (child p lp)
    show ?thesis
    proof (cases "a = p")
      case True
      with child show ?thesis by (auto simp: child_lane_def)
    next
      case False
      with child Suc.prems have "a \<in> set (loc_ancestor_paths lp)" by simp
      moreover have "n = length (loc_ancestor_paths lp)" using Suc.hyps(2) child by simp
      ultimately obtain la s where "parse_item_path a = Some la" "loc_archived la = loc_archived lp"
        "p = a @ ''/children/'' @ s"
        using Suc.hyps(1) child by blast
      with child show ?thesis by (auto simp: child_lane_def)
    qed
  qed
qed

lemma parent_is_last_ancestor:
  "parse_item_path v = Some l \<Longrightarrow>
     loc_parent_path l = (if loc_ancestor_paths l = [] then None else Some (last (loc_ancestor_paths l)))"
  by (erule parse_item_path_cases) auto

lemma artifact_source_id_kebab:
  assumes "source_id_for_filename f = Inr i"
  shows "is_source_id i \<and> (\<exists>d1 d2 ext. f = [d1, d2] @ ''-'' @ i @ ''.'' @ ext \<and> ext \<noteq> []
    \<and> is_digit d1 \<and> is_digit d2)"
proof -
  from assms have m: "rx_in f artifact_rx" and i: "i = takeWhile (\<lambda>c. c \<noteq> CHR ''.'') (drop 3 f)"
    by (auto simp: source_id_for_filename_def fullmatch_iff split: if_splits)
  from m obtain d1 d2 k ext where f: "f = [d1, d2] @ ''-'' @ k @ ''.'' @ ext" "rx_in k kebab_rx"
    "is_digit d1" "is_digit d2" "rx_in ext (rx_plus (RChr kebab_char))"
    by (auto simp: artifact_rx_def)
  have "CHR ''.'' \<notin> set k"
    using kebab_rx_chars [of k "CHR ''.''"] f(2)
    by (auto simp: fullmatch_iff kebab_char_def is_ascii_lower_def is_digit_def)
  then have "takeWhile (\<lambda>c. c \<noteq> CHR ''.'') (k @ CHR ''.'' # ext) = k"
    by (subst takeWhile_append2) auto
  then have "i = k" by (simp add: i f(1))
  moreover have "ext \<noteq> []" using f(5) by (auto simp: rx_plus_def)
  ultimately show ?thesis using f by (auto simp: is_source_id_def fullmatch_iff)
qed

lemma managed_artifacts_named:
  "\<forall>(i, f) \<in> set MANAGED_ARTIFACTS. source_id_for_filename f = Inr i"
  by code_simp

subsection \<open>Properties\<close>

text \<open>The path parser recognises exactly the item paths: a root lane, a kebab-case basename,
  then \<open>children/<basename>\<close> steps; and it answers the location they spell, parent and
  ancestors included.\<close>

theorem item_path_grammar:
  "parse_item_path v = Some l \<longleftrightarrow>
     (\<exists>archived b bs. is_basename b \<and> list_all is_basename bs \<and>
        v = item_path archived b bs \<and> l = location_at archived b bs)"
  by (rule parse_item_path_iff)

text \<open>Every managed artifact name is accepted and yields its own source id, and any accepted
  name is two digits, a hyphen, a kebab-case source id and an extension.\<close>

theorem artifact_names:
  "(\<forall>(i, f) \<in> set MANAGED_ARTIFACTS. source_id_for_filename f = Inr i) \<and>
   (\<forall>f i. source_id_for_filename f = Inr i \<longrightarrow>
      is_source_id i \<and> (\<exists>d1 d2 ext. f = [d1, d2] @ ''-'' @ i @ ''.'' @ ext \<and> ext \<noteq> [] \<and>
        is_digit d1 \<and> is_digit d2))"
  using managed_artifacts_named artifact_source_id_kebab by blast

theorem artifact_names_witness: "is_source_id ''plan''"
proof -
  have "source_id_for_filename ''02-plan.md'' = Inr ''plan''" by code_simp
  with artifact_names show ?thesis by blast
qed

end
