(* ===== verification/Dependencies.thy ===== *)
theory Dependencies
  imports Paths
begin

text \<open>
  Dependency edges (\<open>work_tracker_okf/dependencies.py\<close>): the tolerant parser of an authored
  \<open>depends_on\<close>, the predicates that say which edges gate a phase and which are satisfied,
  and the unmet edges of an item. Nothing here raises: problems are issues in the result.
\<close>

named_theorems dep_simps \<open>dependency gates over the phase order\<close>

definition BLOCKS :: "string list" where
  "BLOCKS = dispatch_phases"

definition NEEDS :: "string list" where
  "NEEDS = BLOCKS @ [''resolved'']"

definition EDGE_KEYS :: "string list" where
  "EDGE_KEYS = [''path'', ''blocks'', ''needs'']"

definition DEFAULT_BLOCKS :: string where "DEFAULT_BLOCKS = ''execute''"
definition DEFAULT_NEEDS :: string where "DEFAULT_NEEDS = ''resolved''"

definition PHASE_RANK :: "string \<Rightarrow> nat option" where
  "PHASE_RANK = map_of (zip phase_order [0..<length phase_order])"

record dependency_edge =
  edge_path :: string
  blocks :: string
  needs :: string

datatype dep_entry = EdgeEntry dependency_edge | RawEntry yval

record dependency_issue =
  issue_index :: nat
  issue_code :: string
  issue_detail :: string
  issue_raw :: dep_entry

record dependency_parse =
  edges :: "dependency_edge list"
  issues :: "dependency_issue list"

text \<open>What the parser is handed: authored data, or a tuple of edges to validate.\<close>

datatype dep_raw = RawYaml yval | RawEdges "dependency_edge list"

fun entries :: "dep_raw \<Rightarrow> dep_entry list" where
  "entries (RawYaml YNull) = []"
| "entries (RawYaml (YList xs)) = map RawEntry xs"
| "entries (RawYaml v) = [RawEntry v]"
| "entries (RawEdges es) = map EdgeEntry es"

definition issue :: "nat \<Rightarrow> string \<Rightarrow> string \<Rightarrow> dep_entry \<Rightarrow> dependency_issue" where
  "issue i code detail raw =
     \<lparr>issue_index = i, issue_code = code, issue_detail = detail, issue_raw = raw\<rparr>"

fun text_or_empty :: "yval \<Rightarrow> string" where
  "text_or_empty (YStr s) = s"
| "text_or_empty _ = []"

text \<open>The first half of the loop body: the edge an entry denotes, if it denotes one.\<close>

fun entry_edge :: "nat \<Rightarrow> dep_entry \<Rightarrow> dependency_issue list \<times> dependency_edge option" where
  "entry_edge i (EdgeEntry e) = ([], Some e)"
| "entry_edge i (RawEntry (YMap m)) =
     (let entry = RawEntry (YMap m);
          unknown = sort (filter (\<lambda>k. k \<notin> set EDGE_KEYS) (map fst m));
          missing = sort (filter (\<lambda>k. \<not> has_key m k) EDGE_KEYS);
          unknown_issues =
            (if unknown \<noteq> []
             then [issue i ''unknown-keys'' (''unknown keys: '' @ repr_list unknown) entry] else [])
      in if missing \<noteq> []
         then (unknown_issues @ [issue i ''missing-keys'' (''missing keys: '' @ repr_list missing) entry],
               None)
         else (case yget m ''path'' of
                 YStr path \<Rightarrow>
                   (unknown_issues,
                    Some \<lparr>edge_path = path, blocks = text_or_empty (yget m ''blocks''),
                          needs = text_or_empty (yget m ''needs'')\<rparr>)
               | _ \<Rightarrow> (unknown_issues
                         @ [issue i ''empty-path'' ''path must be a non-empty string'' entry], None)))"
| "entry_edge i (RawEntry v) =
     ([issue i ''invalid-entry'' ''expected a {path, blocks, needs} mapping'' (RawEntry v)], None)"

definition edge_key :: "dependency_edge \<Rightarrow> string \<times> string \<times> string" where
  "edge_key e = (edge_path e, blocks e, needs e)"

definition edge_issues ::
  "nat \<Rightarrow> dep_entry \<Rightarrow> (string \<times> string \<times> string) list \<Rightarrow> dependency_edge \<Rightarrow> dependency_issue list" where
  "edge_issues i entry seen e =
     (if edge_path e = [] then [issue i ''empty-path'' ''path must be a non-empty string'' entry]
      else if parse_item_path (edge_path e) = None
      then [issue i ''invalid-path'' ''path must be a canonical item path'' entry] else [])
     @ (if blocks e \<notin> set BLOCKS
        then [issue i ''invalid-blocks'' (''blocks '' @ repr (blocks e) @ '' is invalid'') entry] else [])
     @ (if needs e \<notin> set NEEDS
        then [issue i ''invalid-needs'' (''needs '' @ repr (needs e) @ '' is invalid'') entry] else [])
     @ (if edge_key e \<in> set seen
        then [issue i ''duplicate-edge''
                (''duplicate edge ('' @ repr (edge_path e) @ '', '' @ repr (blocks e) @ '', ''
                   @ repr (needs e) @ '')'') entry] else [])"

fun parse_entries ::
  "nat \<Rightarrow> (string \<times> string \<times> string) list \<Rightarrow> dep_entry list \<Rightarrow> dependency_parse" where
  "parse_entries i seen [] = \<lparr>edges = [], issues = []\<rparr>"
| "parse_entries i seen (entry # rest) =
     (case entry_edge i entry of
        (problems, None) \<Rightarrow>
          let r = parse_entries (Suc i) seen rest
          in \<lparr>edges = edges r, issues = problems @ issues r\<rparr>
      | (problems, Some e) \<Rightarrow>
          let r = parse_entries (Suc i) (edge_key e # seen) rest;
              keep = edge_path e \<noteq> [] \<and> parse_item_path (edge_path e) \<noteq> None
          in \<lparr>edges = (if keep then [e] else []) @ edges r,
              issues = problems @ edge_issues i entry seen e @ issues r\<rparr>)"

definition parse_dependencies :: "dep_raw \<Rightarrow> dependency_parse" where
  "parse_dependencies raw = parse_entries 0 [] (entries raw)"

definition serialize_dependencies :: "dependency_edge list \<Rightarrow> ymap list" where
  "serialize_dependencies es =
     map (\<lambda>e. [(''path'', YStr (edge_path e)), (''blocks'', YStr (blocks e)), (''needs'', YStr (needs e))]) es"

subsection \<open>Facts, gates and unmet edges\<close>

record dependency_fact =
  fact_path :: string
  known :: bool
  terminal :: bool
  fact_phase :: "string option"
  fact_status :: "string option"

record dependency_node =
  node_path :: string
  node_phase :: "string option"
  node_status :: string

definition satisfied :: "dependency_edge \<Rightarrow> dependency_fact \<Rightarrow> bool" where
  "satisfied edge dep =
     (if \<not> known dep then False
      else if terminal dep then True
      else if needs edge = DEFAULT_NEEDS then False
      else case fact_phase dep of
             None \<Rightarrow> False
           | Some p \<Rightarrow>
               (case (PHASE_RANK (needs edge), PHASE_RANK p) of
                  (Some n, Some r) \<Rightarrow> r > n
                | _ \<Rightarrow> False))"

definition gates :: "dependency_edge \<Rightarrow> string \<Rightarrow> bool" where
  "gates edge phase =
     (case (PHASE_RANK (blocks edge), PHASE_RANK phase) of
        (Some b, Some p) \<Rightarrow> p \<ge> b
      | _ \<Rightarrow> True)"

definition unknown_fact :: "string \<Rightarrow> dependency_fact" where
  "unknown_fact path =
     \<lparr>fact_path = path, known = False, terminal = False, fact_phase = None, fact_status = None\<rparr>"

definition fact_of :: "string \<Rightarrow> dependency_node option \<Rightarrow> dependency_fact" where
  "fact_of path node =
     (case node of
        None \<Rightarrow> unknown_fact path
      | Some n \<Rightarrow> \<lparr>fact_path = path, known = True, terminal = node_status n \<in> set TERMINAL_STATUSES,
                   fact_phase = node_phase n, fact_status = Some (node_status n)\<rparr>)"

definition resolve_facts :: "dependency_node list \<Rightarrow> dependency_edge list \<Rightarrow> dependency_fact list" where
  "resolve_facts nodes es =
     (let by_path = dict_of (map (\<lambda>n. (node_path n, n)) nodes)
      in map (\<lambda>path. fact_of path (by_path path)) (first_seen (map edge_path es)))"

definition lookup_fact :: "dependency_fact list \<Rightarrow> string \<Rightarrow> dependency_fact" where
  "lookup_fact facts path =
     (case dict_of (map (\<lambda>f. (fact_path f, f)) facts) path of
        None \<Rightarrow> unknown_fact path | Some f \<Rightarrow> f)"

definition unmet ::
  "dependency_edge list \<Rightarrow> dependency_fact list \<Rightarrow> string \<Rightarrow> stage list option \<Rightarrow>
     (dependency_edge \<times> dependency_fact) list" where
  "unmet es facts phase stages =
     List.map_filter
       (\<lambda>edge.
          let dep = lookup_fact facts (edge_path edge)
          in if (case stages of None \<Rightarrow> True | Some ss \<Rightarrow> blocks edge \<in> stage_str ` set ss)
                \<and> gates edge phase \<and> \<not> satisfied edge dep
             then Some (edge, dep) else None)
       es"

definition describe :: "dependency_edge \<Rightarrow> dependency_fact \<Rightarrow> string" where
  "describe edge dep =
     (let required = (if needs edge = ''resolved'' then ''needs resolved''
                      else ''needs '' @ needs edge @ '' complete'');
          status = (case fact_status dep of Some s \<Rightarrow> if s = [] then ''unknown'' else s
                    | None \<Rightarrow> ''unknown'');
          observed =
            (if \<not> known dep then ''no work item matches this path''
             else (case fact_phase dep of
                     Some p \<Rightarrow> if p \<noteq> [] then ''status '' @ status @ '', at '' @ p
                               else ''status '' @ status @ '', not started''
                   | None \<Rightarrow> ''status '' @ status @ '', not started''))
      in edge_path edge @ '' ('' @ required @ ''; '' @ observed @ '')'')"

definition structural_issues ::
  "string list \<Rightarrow> string \<Rightarrow> nat \<times> dependency_edge \<Rightarrow> dependency_issue list" where
  "structural_issues parents self_path ie =
     (let (i, e) = ie
      in (if edge_path e \<in> set parents
          then [issue i ''targets-parent'' ''dependency names a containing parent'' (EdgeEntry e)] else [])
         @ (if edge_path e = self_path
            then [issue i ''targets-self'' ''dependency names the new item'' (EdgeEntry e)] else []))"

definition validate_dependencies ::
  "dependency_edge list \<Rightarrow> string option \<Rightarrow> string \<Rightarrow> dependency_issue list" where
  "validate_dependencies es parent_path self_path =
     (let parsed = parse_dependencies (RawEdges es);
          parents = (case parse_item_path self_path of None \<Rightarrow> [] | Some l \<Rightarrow> loc_ancestor_paths l)
            @ (case parent_path of None \<Rightarrow> [] | Some p \<Rightarrow> [p])
      in issues parsed @ concat (map (structural_issues parents self_path) (enumerate 0 es)))"

subsection \<open>What the parser guarantees\<close>

definition valid_edge :: "dependency_edge \<Rightarrow> bool" where
  "valid_edge e \<longleftrightarrow>
     parse_item_path (edge_path e) \<noteq> None \<and> blocks e \<in> set BLOCKS \<and> needs e \<in> set NEEDS"

lemma parse_item_path_Nil [simp]: "parse_item_path [] = None"
  by (simp add: parse_item_path_def)

lemma edge_issues_Nil_iff:
  "edge_issues i entry seen e = [] \<longleftrightarrow> valid_edge e \<and> edge_key e \<notin> set seen"
  by (cases "edge_path e = []") (auto simp: edge_issues_def valid_edge_def)

lemma parse_entries_edges_canonical:
  "e \<in> set (edges (parse_entries i seen es)) \<Longrightarrow> parse_item_path (edge_path e) \<noteq> None"
  by (induction i seen es rule: parse_entries.induct)
    (auto simp: Let_def split: prod.splits option.splits if_splits)

lemma parse_entries_issue_index:
  "x \<in> set (issues (parse_entries i seen es)) \<Longrightarrow> i \<le> issue_index x \<and> issue_index x < i + length es"
proof (induction i seen es rule: parse_entries.induct)
  case (1 i seen)
  then show ?case by simp
next
  case (2 i seen entry rest)
  have e1: "y \<in> set (fst (entry_edge i entry)) \<Longrightarrow> issue_index y = i" for y
    by (cases "(i, entry)" rule: entry_edge.cases)
      (auto simp: Let_def issue_def split: if_splits yval.splits)
  have e2: "y \<in> set (edge_issues i entry seen e) \<Longrightarrow> issue_index y = i" for y e
    by (auto simp: edge_issues_def issue_def split: if_splits)
  show ?case
  proof (cases "entry_edge i entry")
    case (Pair problems eo)
    with e1 have p: "y \<in> set problems \<Longrightarrow> issue_index y = i" for y by simp
    show ?thesis
    proof (cases eo)
      case None
      with Pair 2 p show ?thesis by (fastforce simp: Let_def)
    next
      case (Some e)
      with Pair 2 p e2 [of x e] show ?thesis by (fastforce simp: Let_def)
    qed
  qed
qed

lemma parse_entries_clean:
  assumes "issues (parse_entries i seen es) = []"
  shows "list_all valid_edge (edges (parse_entries i seen es))"
    and "length (edges (parse_entries i seen es)) = length es"
    and "distinct (map edge_key (edges (parse_entries i seen es)))"
    and "set (map edge_key (edges (parse_entries i seen es))) \<inter> set seen = {}"
  using assms
proof (induction i seen es rule: parse_entries.induct)
  case (2 i seen entry rest)
  have ne: "fst (entry_edge i entry) = [] \<Longrightarrow> snd (entry_edge i entry) \<noteq> None"
    by (cases "(i, entry)" rule: entry_edge.cases) (auto simp: Let_def split: if_splits yval.splits)
  {
    case 1
    with ne 2 show ?case
      by (auto simp: Let_def edge_issues_Nil_iff valid_edge_def split: prod.splits option.splits if_splits)
  next
    case 2
    with ne "2.IH" show ?case
      by (auto simp: Let_def edge_issues_Nil_iff valid_edge_def split: prod.splits option.splits if_splits)
  next
    case 3
    with ne "2.IH" show ?case
      by (auto simp: Let_def edge_issues_Nil_iff valid_edge_def split: prod.splits option.splits if_splits)
  next
    case 4
    with ne "2.IH" show ?case
      by (auto simp: Let_def edge_issues_Nil_iff valid_edge_def split: prod.splits option.splits if_splits)
  }
qed auto

lemma edge_key_inject [simp]: "edge_key a = edge_key b \<longleftrightarrow> a = b"
  by (cases a; cases b) (simp add: edge_key_def)

lemma entry_edge_serialized:
  "entry_edge i (RawEntry (YMap [(''path'', YStr p), (''blocks'', YStr b), (''needs'', YStr n)])) =
     ([], Some \<lparr>edge_path = p, blocks = b, needs = n\<rparr>)"
  by (simp add: EDGE_KEYS_def yget_def)

lemma parse_entries_serialized:
  assumes "list_all valid_edge es" and "distinct (map edge_key es)"
    and "set (map edge_key es) \<inter> set seen = {}"
  shows "parse_entries i seen (map (RawEntry \<circ> YMap) (serialize_dependencies es)) =
    \<lparr>edges = es, issues = []\<rparr>"
  using assms
proof (induction es arbitrary: i seen)
  case Nil
  then show ?case by (simp add: serialize_dependencies_def)
next
  case (Cons e es)
  have ser: "serialize_dependencies (e # es) =
      [(''path'', YStr (edge_path e)), (''blocks'', YStr (blocks e)), (''needs'', YStr (needs e))]
      # serialize_dependencies es"
    by (simp add: serialize_dependencies_def)
  have clean: "edge_issues i entry seen e = []" for entry
    using Cons.prems by (simp add: edge_issues_Nil_iff)
  have keep: "edge_path e \<noteq> []" "parse_item_path (edge_path e) \<noteq> None"
    using Cons.prems by (auto simp: valid_edge_def)
  have "parse_entries (Suc i) (edge_key e # seen) (map (RawEntry \<circ> YMap) (serialize_dependencies es)) =
      \<lparr>edges = es, issues = []\<rparr>"
    using Cons.prems by (intro Cons.IH) auto
  moreover obtain p b n where "e = \<lparr>edge_path = p, blocks = b, needs = n\<rparr>" by (cases e)
  ultimately show ?case
    using clean keep
    unfolding ser by (simp add: entry_edge_serialized Let_def o_def del: entry_edge.simps)
qed

lemma parse_serialize:
  assumes "list_all valid_edge es" and "distinct es"
  shows "parse_dependencies (RawYaml (YList (map YMap (serialize_dependencies es)))) =
    \<lparr>edges = es, issues = []\<rparr>"
  using parse_entries_serialized [of es "[]" 0] assms
  by (simp add: parse_dependencies_def distinct_map inj_on_def)

lemma parse_edges_revalidated:
  assumes "issues (parse_dependencies raw) = []"
  shows "parse_dependencies (RawYaml (YList (map YMap (serialize_dependencies
      (edges (parse_dependencies raw)))))) = parse_dependencies raw"
proof -
  from parse_entries_clean [of 0 "[]" "entries raw"] assms
  have "list_all valid_edge (edges (parse_dependencies raw))"
    "distinct (edges (parse_dependencies raw))"
    by (auto simp: parse_dependencies_def distinct_map)
  from parse_serialize [OF this] assms show ?thesis by simp
qed

subsection \<open>Gates\<close>

lemma PHASE_RANK_stage [simp, dep_simps]: "PHASE_RANK (stage_str s) = Some (stage_rank s)"
  using phase_ordinals_stage by (simp add: PHASE_RANK_def phase_ordinals_def)

lemma PHASE_RANK_done [simp, dep_simps]: "PHASE_RANK DONE = Some 4"
  by (simp add: PHASE_RANK_def phase_order_eq DONE_def upt_rec)

lemma PHASE_RANK_resolved [simp, dep_simps]: "PHASE_RANK ''resolved'' = None"
  by (simp add: PHASE_RANK_def phase_order_eq upt_rec)

lemma PHASE_RANK_dom: "PHASE_RANK p \<noteq> None \<longleftrightarrow> p \<in> set PHASES"
  by (auto simp: PHASE_RANK_def phase_order_PHASES [symmetric] map_of_zip_is_None)

lemma gates_stage [dep_simps]:
  "blocks e = stage_str b \<Longrightarrow> gates e (stage_str p) \<longleftrightarrow> b \<le> p"
  by (simp add: gates_def less_eq_stage_def)

text \<open>Moving to a later phase only adds gating edges, and only satisfies more of them.\<close>

lemma gates_mono:
  assumes "gates e p" and "PHASE_RANK p = Some r" and "PHASE_RANK q = Some r'" and "r \<le> r'"
  shows "gates e q"
  using assms by (auto simp: gates_def split: option.splits)

lemma satisfied_mono:
  assumes "satisfied e f" and "known g" and "terminal f \<longrightarrow> terminal g"
    and "fact_phase f = Some p" and "fact_phase g = Some q"
    and "PHASE_RANK p = Some r" and "PHASE_RANK q = Some r'" and "r \<le> r'"
  shows "satisfied e g"
  using assms by (auto simp: satisfied_def split: option.splits if_splits)

lemma satisfied_iff:
  "satisfied e f \<longleftrightarrow>
     known f \<and> (terminal f \<or> (needs e \<noteq> ''resolved'' \<and>
       (\<exists>p n r. fact_phase f = Some p \<and> PHASE_RANK (needs e) = Some n \<and> PHASE_RANK p = Some r \<and> n < r)))"
  by (auto simp: satisfied_def DEFAULT_NEEDS_def split: option.splits)

lemma unmet_iff:
  "(e, f) \<in> set (unmet es facts phase stages) \<longleftrightarrow>
     e \<in> set es \<and> f = lookup_fact facts (edge_path e) \<and>
     (\<forall>ss. stages = Some ss \<longrightarrow> blocks e \<in> stage_str ` set ss) \<and> gates e phase \<and> \<not> satisfied e f"
  by (auto simp: unmet_def Let_def List.map_filter_def split: option.splits if_splits)

lemma lookup_resolved:
  assumes "e \<in> set es"
  shows "lookup_fact (resolve_facts nodes es) (edge_path e) =
    fact_of (edge_path e) (dict_of (map (\<lambda>n. (node_path n, n)) nodes) (edge_path e))"
proof -
  define g where "g path = fact_of path (dict_of (map (\<lambda>n. (node_path n, n)) nodes) path)" for path
  have path: "fact_path (g p) = p" for p
    by (simp add: g_def fact_of_def unknown_fact_def split: option.split)
  have res: "resolve_facts nodes es = map g (first_seen (map edge_path es))"
    by (simp add: resolve_facts_def g_def Let_def)
  have "map_of (map (\<lambda>f. (fact_path f, f)) (map g ps)) p = (if p \<in> set ps then Some (g p) else None)"
    for ps p by (induction ps) (auto simp: path)
  moreover have "distinct (map fst (map (\<lambda>f. (fact_path f, f)) (resolve_facts nodes es)))"
    by (simp add: res o_def path)
  ultimately show ?thesis
    using assms by (simp add: lookup_fact_def dict_of_distinct res g_def)
qed

lemma unmet_resolved_iff:
  "unmet es (resolve_facts nodes es) phase stages = [] \<longleftrightarrow>
     (\<forall>e \<in> set es. (\<forall>ss. stages = Some ss \<longrightarrow> blocks e \<in> stage_str ` set ss) \<longrightarrow> gates e phase \<longrightarrow>
        satisfied e (fact_of (edge_path e) (dict_of (map (\<lambda>n. (node_path n, n)) nodes) (edge_path e))))"
proof -
  have "unmet es (resolve_facts nodes es) phase stages = [] \<longleftrightarrow>
      (\<forall>e f. (e, f) \<notin> set (unmet es (resolve_facts nodes es) phase stages))"
    by (cases "unmet es (resolve_facts nodes es) phase stages") auto
  then show ?thesis by (auto simp: unmet_iff lookup_resolved)
qed

lemma unknown_path_blocks: "\<not> satisfied e (unknown_fact p)"
  by (simp add: satisfied_def unknown_fact_def)

subsection \<open>Properties\<close>

definition sample_edge :: dependency_edge where
  "sample_edge = \<lparr>edge_path = ''work/bug-a'', blocks = ''execute'', needs = ''plan''\<rparr>"

lemma sample_edge_valid: "valid_edge sample_edge"
  by code_simp

text \<open>C31. Valid edges without repeats, which is all the parser answers, once serialized parse back
  unchanged and without issues.\<close>

theorem dependencies_roundtrip:
  assumes "list_all valid_edge es" and "distinct es"
  shows "parse_dependencies (RawYaml (YList (map YMap (serialize_dependencies es)))) =
    \<lparr>edges = es, issues = []\<rparr>"
proof -
  have "distinct (map edge_key es)" using assms(2) by (simp add: distinct_map inj_on_def)
  with parse_entries_serialized [OF assms(1), of "[]" 0] show ?thesis
    by (simp add: parse_dependencies_def)
qed

theorem dependencies_roundtrip_witness:
  "parse_dependencies (RawYaml (YList (map YMap (serialize_dependencies [sample_edge])))) =
     \<lparr>edges = [sample_edge], issues = []\<rparr>"
  by (rule dependencies_roundtrip) (simp_all add: sample_edge_valid)

text \<open>A parse without issues lost nothing: every entry became a valid edge and no edge is
  repeated; and every issue, if there is one, names the index of an authored entry.\<close>

theorem clean_parse:
  assumes "parsed = parse_dependencies raw"
  shows "(issues parsed = [] \<longrightarrow> length (edges parsed) = length (entries raw) \<and>
      list_all valid_edge (edges parsed) \<and> distinct (edges parsed)) \<and>
    (\<forall>i \<in> set (issues parsed). issue_index i < length (entries raw))"
proof -
  have "distinct (edges parsed)" if "issues parsed = []"
    using that parse_entries_clean(3) [of 0 "[]" "entries raw"] assms
    by (simp add: parse_dependencies_def distinct_map)
  then show ?thesis
    using parse_entries_clean(1,2) [of 0 "[]" "entries raw"] parse_entries_issue_index [of _ 0 "[]" "entries raw"] assms
    by (auto simp: parse_dependencies_def)
qed

theorem clean_parse_witness: "distinct (edges (parse_dependencies (RawEdges [sample_edge])))"
  using clean_parse [OF refl, of "RawEdges [sample_edge]"]
  by (simp add: parse_dependencies_def edge_issues_Nil_iff sample_edge_valid)

text \<open>What holds a stage back, told without ranks and without the predicates of the code: one phase
  comes after another in the life of an item, and an item releases those that wait for it when
  it is closed or has left the phase they need behind.\<close>

definition lifecycle :: "string list" where
  "lifecycle = [''design'', ''plan'', ''execute'', ''finish'', ''done'']"

definition comes_after :: "string \<Rightarrow> string \<Rightarrow> bool" where
  "comes_after q p \<longleftrightarrow> q \<in> set (tl (dropWhile (\<lambda>x. x \<noteq> p) lifecycle))"

definition releases :: "dependency_node \<Rightarrow> string \<Rightarrow> bool" where
  "releases n phase \<longleftrightarrow> node_status n \<in> {''resolved'', ''wontfix'', ''superseded''} \<or>
     (\<exists>p. node_phase n = Some p \<and> comes_after p phase)"

lemma rank_cases:
  "PHASE_RANK p = (if p = ''design'' then Some 0 else if p = ''plan'' then Some 1 else if p = ''execute'' then Some 2
     else if p = ''finish'' then Some 3 else if p = ''done'' then Some 4 else None)"
  by (simp add: PHASE_RANK_def phase_order_eq upt_rec)

lemma rank_less_iff:
  "(\<exists>m n. PHASE_RANK p = Some m \<and> PHASE_RANK q = Some n \<and> m < n) \<longleftrightarrow> comes_after q p"
  unfolding rank_cases comes_after_def lifecycle_def by auto

lemma rank_known: "PHASE_RANK p = None \<longleftrightarrow> p \<notin> set lifecycle"
  unfolding rank_cases lifecycle_def by simp

lemma gates_after:
  "gates e phase \<longleftrightarrow> blocks e \<notin> set lifecycle \<or> phase \<notin> set lifecycle \<or> phase = blocks e \<or> comes_after phase (blocks e)"
proof (cases "PHASE_RANK (blocks e) = None \<or> PHASE_RANK phase = None")
  case True
  then show ?thesis by (auto simp: gates_def rank_known [symmetric] split: option.split)
next
  case False
  then obtain m n where ranks: "PHASE_RANK (blocks e) = Some m" "PHASE_RANK phase = Some n" by auto
  have "m = n \<longleftrightarrow> phase = blocks e"
    using ranks unfolding rank_cases by (auto split: if_splits)
  then show ?thesis
    using ranks rank_less_iff [of "blocks e" phase] rank_known [of "blocks e"] rank_known [of phase]
    by (auto simp: gates_def)
qed

lemma satisfied_releases:
  "satisfied e (fact_of path (Some n)) \<longleftrightarrow> releases n (needs e)"
proof -
  have "\<not> comes_after p ''resolved''" for p by (simp add: comes_after_def lifecycle_def)
  then have "(needs e \<noteq> ''resolved'' \<and> (\<exists>m k. PHASE_RANK (needs e) = Some m \<and> PHASE_RANK p = Some k \<and> m < k)) \<longleftrightarrow>
      comes_after p (needs e)" for p
    unfolding rank_less_iff by metis
  then have "satisfied e (fact_of path (Some n)) \<longleftrightarrow>
      node_status n \<in> set TERMINAL_STATUSES \<or> (\<exists>p. node_phase n = Some p \<and> comes_after p (needs e))"
    unfolding satisfied_iff by (simp add: fact_of_def) blast
  then show ?thesis by (simp add: releases_def TERMINAL_STATUSES_def)
qed

text \<open>C32. An edge of an item is unmet at a phase exactly when it concerns a stage of the item's path,
  the phase it blocks is this one or one before it (or one of the two is not a phase), and no item
  at its path is closed or has gone past the phase it needs: an edge to an item nobody knows is
  never met, and one that needs its target resolved is met by closing alone.\<close>

theorem unmet_exact:
  assumes "distinct (map node_path nodes)"
  shows "e \<in> fst ` set (unmet es (resolve_facts nodes es) phase stages) \<longleftrightarrow>
     e \<in> set es \<and> (\<forall>ss. stages = Some ss \<longrightarrow> blocks e \<in> stage_str ` set ss) \<and>
     (blocks e \<notin> set lifecycle \<or> phase \<notin> set lifecycle \<or> phase = blocks e \<or> comes_after phase (blocks e)) \<and>
     \<not> (\<exists>n \<in> set nodes. node_path n = edge_path e \<and> releases n (needs e))"
proof -
  let ?at = "dict_of (map (\<lambda>n. (node_path n, n)) nodes) (edge_path e)"
  have keys: "distinct (map fst (map (\<lambda>n. (node_path n, n)) nodes))" using assms by (simp add: comp_def)
  then have at: "?at = Some n \<longleftrightarrow> n \<in> set nodes \<and> node_path n = edge_path e" for n
    using map_of_eq_Some_iff [OF keys] by (force simp: dict_of_distinct [OF keys])
  have "satisfied e (fact_of (edge_path e) ?at) \<longleftrightarrow> (\<exists>n \<in> set nodes. node_path n = edge_path e \<and> releases n (needs e))"
  proof (cases ?at)
    case None
    then show ?thesis using at unknown_path_blocks by (fastforce simp: fact_of_def)
  next
    case (Some n)
    then have "n' = n" if "n' \<in> set nodes" "node_path n' = edge_path e" for n'
      using at [of n'] that by simp
    then show ?thesis using Some at [of n] by (auto simp: satisfied_releases)
  qed
  moreover have "e \<in> fst ` set (unmet es (resolve_facts nodes es) phase stages) \<longleftrightarrow>
      e \<in> set es \<and> (\<forall>ss. stages = Some ss \<longrightarrow> blocks e \<in> stage_str ` set ss) \<and> gates e phase \<and>
      \<not> satisfied e (lookup_fact (resolve_facts nodes es) (edge_path e))"
  proof -
    have "e \<in> fst ` ps \<longleftrightarrow> (\<exists>f. (e, f) \<in> ps)" for ps :: "(dependency_edge \<times> dependency_fact) set" by force
    then show ?thesis by (simp add: unmet_iff)
  qed
  ultimately show ?thesis using lookup_resolved [of e es nodes] unfolding gates_after by auto
qed

definition sample_node :: dependency_node where
  "sample_node = \<lparr>node_path = ''work/bug-a'', node_phase = Some ''plan'', node_status = ''accepted''\<rparr>"

theorem unmet_exact_witness:
  "sample_edge \<in> fst ` set (unmet [sample_edge] (resolve_facts [sample_node] [sample_edge]) ''execute'' (Some [Execute]))"
proof -
  have "\<not> releases sample_node (needs sample_edge)" "blocks sample_edge = ''execute''"
    by (simp_all add: releases_def sample_node_def sample_edge_def comes_after_def lifecycle_def)
  with unmet_exact [of "[sample_node]" sample_edge "[sample_edge]" "''execute''" "Some [Execute]"]
  show ?thesis by auto
qed

text \<open>Progress of a dependency never withdraws it: an edge satisfied by an item stays satisfied
  when that item moves to a later phase and keeps a terminal status if it had one.\<close>

theorem satisfied_monotone:
  assumes "satisfied e f" and "known g" and "terminal f \<longrightarrow> terminal g"
    and "fact_phase f = Some p" and "fact_phase g = Some q"
    and "PHASE_RANK p = Some r" and "PHASE_RANK q = Some r'" and "r \<le> r'"
  shows "satisfied e g"
  by (rule satisfied_mono [OF assms])

definition sample_fact :: "string \<Rightarrow> dependency_fact" where
  "sample_fact p = \<lparr>fact_path = ''work/bug-a'', known = True, terminal = False, fact_phase = Some p,
     fact_status = Some ''accepted''\<rparr>"

theorem satisfied_monotone_witness: "satisfied sample_edge (sample_fact ''finish'')"
  by (rule satisfied_monotone [of sample_edge "sample_fact ''execute''" _ "''execute''" "''finish''" 2 3]) code_simp+

end
