(* ===== verification/Obligations.thy ===== *)
theory Obligations
  imports Pipeline "HOL-Library.AList"
begin

text \<open>
  Finish obligations (\<open>work_tracker_okf/obligations.py\<close>): the tolerant parser of the stored
  list, the unchecked lines of a coverage report, and the derivation that merges the two.
  The planners over work items are in \<open>Placement\<close>.
\<close>

definition ORIGINS :: "string list" where
  "ORIGINS = [''coverage'', ''deferred'']"

definition OBLIGATION_FIELDS :: "string list" where
  "OBLIGATION_FIELDS = [''text'', ''origin'', ''recorded'']"

record obligation =
  ob_text :: string
  ob_origin :: string
  ob_recorded :: string

definition obligation_to_data :: "obligation \<Rightarrow> ymap" where
  "obligation_to_data ob =
     [(''text'', YStr (ob_text ob)), (''origin'', YStr (ob_origin ob)), (''recorded'', YStr (ob_recorded ob))]"

fun single_line :: "yval \<Rightarrow> string option" where
  "single_line (YStr s) =
     (if CHR 0x0A \<in> set s \<or> CHR 0x0D \<in> set s then None
      else if strip s = [] then None else Some (strip s))"
| "single_line _ = None"

definition iso_date_rx :: rx where
  "iso_date_rx =
     RSeq (rx_times 4 (RChr is_digit)) (RSeq (rx_lit ''-'') (RSeq (rx_times 2 (RChr is_digit))
       (RSeq (rx_lit ''-'') (rx_times 2 (RChr is_digit)))))"

text \<open>\<open>date.fromisoformat\<close> on text of that shape: \<open>None\<close> is its \<open>ValueError\<close>.\<close>

definition date_fromiso :: "string \<Rightarrow> date option" where
  "date_fromiso s =
     (let d = Date (digits_nat 0 (take 4 s)) (digits_nat 0 (take 2 (drop 5 s)))
                (digits_nat 0 (take 2 (drop 8 s)))
      in if fullmatch iso_date_rx s \<and> valid_date d then Some d else None)"

fun iso_date :: "yval \<Rightarrow> string option" where
  "iso_date (YDate d) = Some (isoformat d)"
| "iso_date (YStr s) = map_option isoformat (date_fromiso s)"
| "iso_date _ = None"

fun parse_obligation :: "yval \<Rightarrow> obligation option" where
  "parse_obligation (YMap m) =
     (if set (map fst m) \<noteq> set OBLIGATION_FIELDS then None
      else (case (single_line (yget m ''text''), iso_date (yget m ''recorded''), yget m ''origin'') of
              (Some text, Some recorded, YStr origin) \<Rightarrow>
                if origin \<in> set ORIGINS
                then Some \<lparr>ob_text = text, ob_origin = origin, ob_recorded = recorded\<rparr> else None
            | _ \<Rightarrow> None))"
| "parse_obligation _ = None"

fun parse_obligations :: "yval \<Rightarrow> obligation list \<times> bool" where
  "parse_obligations YNull = ([], False)"
| "parse_obligations (YList es) =
     (List.map_filter parse_obligation es, list_ex (\<lambda>e. parse_obligation e = None) es)"
| "parse_obligations _ = ([], True)"

text \<open>The match of \<open>^\s*- \[ \](?:\s+(?P<rest>.*))?$\<close> on one line: the stripped rest.\<close>

definition unchecked_text :: "string \<Rightarrow> string option" where
  "unchecked_text line =
     (let s = lstrip line; rest = drop 5 s
      in if \<not> starts_with s ''- [ ]'' then None
         else case rest of
                [] \<Rightarrow> Some []
              | c # _ \<Rightarrow> if is_space c then Some (strip rest) else None)"

definition unchecked_lines :: "string \<Rightarrow> string list" where
  "unchecked_lines coverage_text =
     List.map_filter
       (\<lambda>line. case unchecked_text line of
                 None \<Rightarrow> None | Some rest \<Rightarrow> if rest = [] then None else Some rest)
       (splitlines coverage_text)"

definition prior :: "obligation list \<Rightarrow> string \<Rightarrow> obligation option" where
  "prior existing =
     dict_of (map (\<lambda>e. (ob_text e, e)) (filter (\<lambda>e. ob_origin e = ''coverage'') existing))"

definition coverage_entry :: "(string \<Rightarrow> obligation option) \<Rightarrow> string \<Rightarrow> string \<Rightarrow> obligation" where
  "coverage_entry known recorded text =
     (case known text of
        Some e \<Rightarrow> e
      | None \<Rightarrow> \<lparr>ob_text = text, ob_origin = ''coverage'', ob_recorded = recorded\<rparr>)"

fun coverage_entries ::
  "(string \<Rightarrow> obligation option) \<Rightarrow> string \<Rightarrow> string list \<Rightarrow> string list \<Rightarrow> obligation list" where
  "coverage_entries known recorded seen [] = []"
| "coverage_entries known recorded seen (text # rest) =
     (if text \<in> set seen then coverage_entries known recorded seen rest
      else coverage_entry known recorded text # coverage_entries known recorded (text # seen) rest)"

definition derive :: "obligation list \<Rightarrow> string option \<Rightarrow> date \<Rightarrow> obligation list" where
  "derive existing coverage_text on =
     filter (\<lambda>e. ob_origin e = ''deferred'') existing
     @ coverage_entries (prior existing) (isoformat on) []
         (case coverage_text of None \<Rightarrow> [] | Some t \<Rightarrow> unchecked_lines t)"

subsection \<open>What parsing and deriving guarantee\<close>

definition wf_obligation :: "obligation \<Rightarrow> bool" where
  "wf_obligation ob \<longleftrightarrow>
     single_line (YStr (ob_text ob)) = Some (ob_text ob) \<and> ob_origin ob \<in> set ORIGINS \<and>
     iso_date (YStr (ob_recorded ob)) = Some (ob_recorded ob)"

lemma parse_obligation_to_data:
  "wf_obligation ob \<Longrightarrow> parse_obligation (YMap (obligation_to_data ob)) = Some ob"
  by (cases ob) (auto simp: wf_obligation_def obligation_to_data_def OBLIGATION_FIELDS_def yget_def
      simp del: single_line.simps iso_date.simps)

lemma parse_obligations_roundtrip:
  assumes "list_all wf_obligation obs"
  shows "parse_obligations (YList (map (YMap \<circ> obligation_to_data) obs)) = (obs, False)"
  using assms
  by (induction obs)
    (auto simp: List.map_filter_simps parse_obligation_to_data simp del: parse_obligation.simps)

lemma prior_text: "prior existing t = Some e \<Longrightarrow>
    ob_text e = t \<and> ob_origin e = ''coverage'' \<and> e \<in> set existing"
  by (auto simp: prior_def dest!: dict_of_Some)

lemma coverage_entry_prior [simp]:
  "ob_text (coverage_entry (prior existing) r t) = t"
  "ob_origin (coverage_entry (prior existing) r t) = ''coverage''"
  by (auto simp: coverage_entry_def prior_text split: option.splits dest: prior_text)

lemma coverage_entries_map:
  "coverage_entries k r seen ts = map (coverage_entry k r) (filter (\<lambda>t. t \<notin> set seen) (first_seen ts))"
proof (induction ts arbitrary: seen)
  case Nil
  then show ?case by simp
next
  case (Cons t ts)
  have "filter (\<lambda>u. u \<notin> set seen) (filter (\<lambda>u. u \<noteq> t) (first_seen ts)) =
      filter (\<lambda>u. u \<notin> set (t # seen)) (first_seen ts)"
    by (simp only: filter_filter) (rule filter_cong, auto)
  moreover have "filter (\<lambda>u. u \<notin> set (t # seen)) (first_seen ts) =
      filter (\<lambda>u. u \<notin> set seen) (first_seen ts)" if "t \<in> set seen"
    using that by (intro filter_cong) auto
  ultimately show ?case using Cons by (simp del: filter_filter)
qed

abbreviation coverage_texts :: "string option \<Rightarrow> string list" where
  "coverage_texts cov \<equiv> (case cov of None \<Rightarrow> [] | Some t \<Rightarrow> first_seen (unchecked_lines t))"

lemma derive_eq:
  "derive existing cov on =
     filter (\<lambda>e. ob_origin e = ''deferred'') existing
     @ map (coverage_entry (prior existing) (isoformat on)) (coverage_texts cov)"
  by (simp add: derive_def coverage_entries_map split: option.split)

lemma derive_split:
  "filter (\<lambda>e. ob_origin e = ''deferred'') (derive existing cov on) =
     filter (\<lambda>e. ob_origin e = ''deferred'') existing"
  "filter (\<lambda>e. ob_origin e = ''coverage'') (derive existing cov on) =
     map (coverage_entry (prior existing) (isoformat on)) (coverage_texts cov)"
  by (auto simp: derive_eq filter_empty_conv filter_id_conv)

text \<open>Deriving again from the same report changes nothing, whatever the day.\<close>

lemma prior_derive:
  assumes "t \<in> set (coverage_texts cov)"
  shows "prior (derive existing cov on) t = Some (coverage_entry (prior existing) (isoformat on) t)"
proof -
  let ?c = "coverage_entry (prior existing) (isoformat on)"
  have "distinct (coverage_texts cov)" by (simp split: option.split)
  then have "prior (derive existing cov on) = map_of (map (\<lambda>t. (t, ?c t)) (coverage_texts cov))"
    by (simp only: prior_def [of "derive _ _ _"] derive_split(2)) (simp add: dict_of_distinct o_def)
  then show ?thesis
    using assms by (simp add: map_of_map_restrict)
qed

lemma derive_idempotent: "derive (derive existing cov on) cov on' = derive existing cov on"
proof -
  have "map (coverage_entry (prior (derive existing cov on)) (isoformat on')) (coverage_texts cov) =
      map (coverage_entry (prior existing) (isoformat on)) (coverage_texts cov)"
    by (intro map_cong refl) (simp add: coverage_entry_def [of "prior (derive _ _ _)"] prior_derive)
  then show ?thesis
    by (simp only: derive_eq [of "derive existing cov on"] derive_split(1)) (simp only: derive_eq)
qed

lemma derive_coverage_texts:
  "map ob_text (filter (\<lambda>e. ob_origin e = ''coverage'') (derive existing (Some t) on)) =
     first_seen (unchecked_lines t)"
  by (simp add: derive_split o_def)

subsection \<open>Properties\<close>

text \<open>Deriving the obligations again from the same coverage report changes nothing, whatever
  the day: recorded dates are kept and nothing is duplicated.\<close>

theorem derive_stable: "derive (derive existing cov on) cov on' = derive existing cov on"
  by (rule derive_idempotent)

text \<open>Deriving keeps the deferred obligations as they are and makes the coverage obligations
  exactly the distinct unchecked lines of the report, in the order they appear.\<close>

theorem derive_exact:
  "filter (\<lambda>e. ob_origin e = ''deferred'') (derive existing (Some t) on) =
     filter (\<lambda>e. ob_origin e = ''deferred'') existing \<and>
   map ob_text (filter (\<lambda>e. ob_origin e = ''coverage'') (derive existing (Some t) on)) =
     first_seen (unchecked_lines t)"
  by (simp add: derive_split(1) derive_coverage_texts)

text \<open>Stored obligations read back as they were written, and are not called malformed.\<close>

theorem obligations_roundtrip:
  assumes "list_all wf_obligation obs"
  shows "parse_obligations (YList (map (YMap \<circ> obligation_to_data) obs)) = (obs, False)"
  by (rule parse_obligations_roundtrip [OF assms])

theorem obligations_roundtrip_witness:
  "parse_obligations (YList [YMap (obligation_to_data
     \<lparr>ob_text = ''x'', ob_origin = ''deferred'', ob_recorded = ''2026-08-01''\<rparr>)]) =
   ([\<lparr>ob_text = ''x'', ob_origin = ''deferred'', ob_recorded = ''2026-08-01''\<rparr>], False)"
proof -
  have "list_all wf_obligation [\<lparr>ob_text = ''x'', ob_origin = ''deferred'', ob_recorded = ''2026-08-01''\<rparr>]"
    by code_simp
  from obligations_roundtrip [OF this] show ?thesis by simp
qed

end
