(* ===== verification/Returns.thy ===== *)
theory Returns
  imports Obligations
begin

text \<open>
  Execute returns (\<open>work_tracker_okf/returns.py\<close>): the metadata of a finish-to-execute
  return, the scope it reopens, the section of the coverage file that reports on it, and
  the evidence check before finish. \<open>ExecuteReturn.fingerprint\<close> hashes a JSON dump and is
  not modelled.
\<close>

definition RETURN_KEY :: string where "RETURN_KEY = ''execute_return''"

definition is_hex :: "char \<Rightarrow> bool" where
  "is_hex c \<longleftrightarrow> is_digit c \<or> (let n = of_char c :: nat in 97 \<le> n \<and> n \<le> 102)"

definition return_id_rx :: rx where
  "return_id_rx =
     RSeq (rx_lit ''ret-'') (RSeq (rx_times 8 (RChr is_digit)) (RSeq (rx_lit ''-'') (rx_times 8 (RChr is_hex))))"

definition sha_rx :: rx where
  "sha_rx = rx_times 64 (RChr is_hex)"

definition RETURN_FIELDS :: "string list" where
  "RETURN_FIELDS = [''id'', ''recorded'', ''state'', ''coverage'', ''scope'', ''plan'', ''plan_sha256'']"

definition RETURN_REQUIRED :: "string list" where
  "RETURN_REQUIRED = [''id'', ''recorded'', ''state'', ''coverage'', ''scope'']"

record scope_row =
  row_id :: string
  row_text :: string

record execute_return =
  ret_id :: string
  ret_recorded :: string
  ret_state :: string
  ret_coverage :: string
  ret_scope :: "scope_row list"
  ret_plan :: "string option"
  ret_plan_sha256 :: "string option"

definition return_active :: "execute_return \<Rightarrow> bool" where
  "return_active r \<longleftrightarrow> ret_state r = ''active''"

fun opt_text :: "string option \<Rightarrow> yval" where
  "opt_text None = YNull"
| "opt_text (Some s) = YStr s"

definition return_to_data :: "execute_return \<Rightarrow> ymap" where
  "return_to_data r =
     [(''id'', YStr (ret_id r)), (''recorded'', YStr (ret_recorded r)), (''state'', YStr (ret_state r)),
      (''coverage'', YStr (ret_coverage r)),
      (''scope'', YList (map (\<lambda>row. YMap [(''id'', YStr (row_id row)), (''text'', YStr (row_text row))])
                          (ret_scope r)))]
     @ (if ret_plan r = None then []
        else [(''plan'', opt_text (ret_plan r)), (''plan_sha256'', opt_text (ret_plan_sha256 r))])"

datatype scope_refusal = Scope_Invalid | Scope_Required
datatype scope_source = Scope_Explicit | Coverage_Obligations

record scope_plan =
  plan_scope_rows :: "string list"
  plan_source :: "scope_source option"
  plan_refusal :: "scope_refusal option"
  plan_detail :: string

record return_report =
  report_state :: "string option"
  report_rows :: "(string \<times> bool) list"
  report_duplicates :: "string list"
  report_unknown :: "string list"

subsection \<open>Parsing the stored record\<close>

fun plan_pair_ok :: "yval \<Rightarrow> yval \<Rightarrow> bool" where
  "plan_pair_ok YNull YNull = True"
| "plan_pair_ok (YStr plan) (YStr sha) = (starts_with plan ''/'' \<and> fullmatch sha_rx sha)"
| "plan_pair_ok _ _ = False"

fun text_opt :: "yval \<Rightarrow> string option" where
  "text_opt (YStr s) = Some s"
| "text_opt _ = None"

fun parse_scope_row :: "nat \<Rightarrow> yval \<Rightarrow> scope_row option" where
  "parse_scope_row index (YMap m) =
     (if set (map fst m) \<noteq> {''id'', ''text''} then None
      else (case single_line (yget m ''text'') of
              None \<Rightarrow> None
            | Some text \<Rightarrow>
                if yget m ''id'' = YStr (''R'' @ nat_str index)
                then Some \<lparr>row_id = ''R'' @ nat_str index, row_text = text\<rparr> else None))"
| "parse_scope_row index _ = None"

fun parse_scope_rows :: "nat \<Rightarrow> yval list \<Rightarrow> scope_row list option" where
  "parse_scope_rows index [] = Some []"
| "parse_scope_rows index (entry # rest) =
     (case parse_scope_row index entry of
        None \<Rightarrow> None
      | Some r \<Rightarrow> map_option ((#) r) (parse_scope_rows (Suc index) rest))"

definition parse_return_fields :: "ymap \<Rightarrow> execute_return option" where
  "parse_return_fields m =
     (if \<not> (set RETURN_REQUIRED \<subseteq> set (map fst m) \<and> set (map fst m) \<subseteq> set RETURN_FIELDS) then None
      else case (yget m ''id'', yget m ''state'', yget m ''coverage'', iso_date (yget m ''recorded''),
                 yget m ''scope'') of
             (YStr rid, YStr state, YStr coverage, Some recorded, YList rows) \<Rightarrow>
               if \<not> fullmatch return_id_rx rid \<or> state \<notin> {''active'', ''completed''}
                  \<or> \<not> starts_with coverage ''/''
                  \<or> \<not> plan_pair_ok (yget m ''plan'') (yget m ''plan_sha256'') \<or> rows = []
               then None
               else map_option
                      (\<lambda>scope. \<lparr>ret_id = rid, ret_recorded = recorded, ret_state = state,
                         ret_coverage = coverage, ret_scope = scope,
                         ret_plan = text_opt (yget m ''plan''),
                         ret_plan_sha256 = text_opt (yget m ''plan_sha256'')\<rparr>)
                      (parse_scope_rows 1 rows)
           | _ \<Rightarrow> None)"

fun parse_execute_return :: "yval \<Rightarrow> execute_return option \<times> bool" where
  "parse_execute_return YNull = (None, False)"
| "parse_execute_return (YMap m) =
     (case parse_return_fields m of None \<Rightarrow> (None, True) | Some r \<Rightarrow> (Some r, False))"
| "parse_execute_return _ = (None, True)"

subsection \<open>Choosing the scope\<close>

fun clean_scope :: "string list \<Rightarrow> string list \<Rightarrow> string + string list" where
  "clean_scope cleaned [] = Inr cleaned"
| "clean_scope cleaned (v # vs) =
     (case single_line (YStr v) of
        None \<Rightarrow> Inl v
      | Some text \<Rightarrow> clean_scope (if text \<in> set cleaned then cleaned else cleaned @ [text]) vs)"

definition scope_hint :: string where
  "scope_hint =
     ''name the work with --return-scope '' @ [CHR 0x22] @ ''<what execute must do>'' @ [CHR 0x22]
       @ '' (repeatable)''"

definition plan_scope :: "string list \<Rightarrow> obligation list \<Rightarrow> bool \<Rightarrow> scope_plan" where
  "plan_scope explicit obligations obligations_malformed =
     (let required = (\<lambda>detail. \<lparr>plan_scope_rows = [], plan_source = None,
                        plan_refusal = Some Scope_Required, plan_detail = detail @ scope_hint\<rparr>);
          fallback = first_seen (map ob_text (filter (\<lambda>e. ob_origin e = ''coverage'') obligations))
      in if explicit \<noteq> []
         then (case clean_scope [] explicit of
                 Inl v \<Rightarrow> \<lparr>plan_scope_rows = [], plan_source = None, plan_refusal = Some Scope_Invalid,
                           plan_detail = ''--return-scope must be one nonblank line: '' @ repr v\<rparr>
               | Inr cleaned \<Rightarrow> \<lparr>plan_scope_rows = cleaned, plan_source = Some Scope_Explicit,
                                 plan_refusal = None, plan_detail = []\<rparr>)
         else if obligations_malformed then required ''finish_obligations is malformed; ''
         else if fallback = [] then required ''no coverage obligations to return; ''
         else \<lparr>plan_scope_rows = fallback, plan_source = Some Coverage_Obligations,
               plan_refusal = None, plan_detail = []\<rparr>)"

definition new_record ::
  "string \<Rightarrow> string list \<Rightarrow> date \<Rightarrow> string \<Rightarrow> string option \<Rightarrow> string option \<Rightarrow> execute_return" where
  "new_record return_id scope on coverage plan plan_sha256 =
     \<lparr>ret_id = return_id, ret_recorded = isoformat on, ret_state = ''active'', ret_coverage = coverage,
      ret_scope = map (\<lambda>(i, text). \<lparr>row_id = ''R'' @ nat_str i, row_text = text\<rparr>) (enumerate 1 scope),
      ret_plan = plan, ret_plan_sha256 = plan_sha256\<rparr>"

subsection \<open>The coverage section\<close>

definition section_heading :: "string \<Rightarrow> string" where
  "section_heading return_id = ''## Returned scope '' @ return_id"

definition LF :: char where "LF = CHR 0x0A"
definition CR :: char where "CR = CHR 0x0D"

definition rstrip_cr :: "string \<Rightarrow> string" where
  "rstrip_cr line = rev (dropWhile (\<lambda>c. c = CR) (rev line))"

text \<open>The lines of a file as both readers see them: split at line feeds, carriage returns dropped.\<close>

definition file_lines :: "string \<Rightarrow> string list" where
  "file_lines text = map rstrip_cr (split_on LF text)"

fun count_crlf :: "string \<Rightarrow> nat" where
  "count_crlf (c # d # cs) = (if c = CR \<and> d = LF then Suc (count_crlf cs) else count_crlf (d # cs))"
| "count_crlf _ = 0"

definition newline_of :: "string \<Rightarrow> string" where
  "newline_of body = (if count_crlf body * 2 > count_list body LF then [CR, LF] else [LF])"

definition ends_with :: "string \<Rightarrow> string \<Rightarrow> bool" where
  "ends_with s t \<longleftrightarrow> starts_with (rev s) (rev t)"

definition row_line :: "scope_row \<Rightarrow> string" where
  "row_line r = ''- [ ] '' @ row_id r @ '': '' @ row_text r"

definition section_lines :: "execute_return \<Rightarrow> string list" where
  "section_lines r =
     [section_heading (ret_id r), [], ''Report state: prepared'', []] @ map row_line (ret_scope r)"

definition render_reopened :: "string option \<Rightarrow> execute_return \<Rightarrow> string" where
  "render_reopened text r =
     (let body = (case text of None \<Rightarrow> [] | Some t \<Rightarrow> t);
          newline = newline_of body;
          part = join newline (section_lines r) @ newline
      in if list_ex (\<lambda>line. line = section_heading (ret_id r)) (file_lines body) then body
         else if body = [] then part
         else (if ends_with body newline then body else body @ newline) @ newline @ part)"

text \<open>\<open>^Report state:\s*(?P<state>\S+)\s*$\<close> on one line.\<close>

definition state_match :: "string \<Rightarrow> string option" where
  "state_match line =
     (let s = strip (drop 13 line)
      in if starts_with line ''Report state:'' \<and> s \<noteq> [] \<and> \<not> list_ex is_space s then Some s else None)"

definition row_id_rx :: rx where
  "row_id_rx = RSeq (rx_lit ''R'') (RSeq (RChr (\<lambda>c. is_digit c \<and> c \<noteq> CHR ''0'')) (RStar (RChr is_digit)))"

text \<open>\<open>^\s*- \[(?P<mark>[ xX])\]\s+(?P<id>R[1-9]\d*):(?:\s|$)\<close> on one line.\<close>

definition row_match :: "string \<Rightarrow> (string \<times> char) option" where
  "row_match line =
     (case lstrip line of
        a # b # c # mark # d # rest \<Rightarrow>
          let t = lstrip rest; i = takeWhile (\<lambda>c. c \<noteq> CHR '':'') t; after = drop (length i) t
          in if [a, b, c] = ''- ['' \<and> mark \<in> {CHR '' '', CHR ''x'', CHR ''X''} \<and> [d] = '']'' \<and> t \<noteq> rest
                \<and> fullmatch row_id_rx i \<and> after \<noteq> []
                \<and> (tl after = [] \<or> is_space (hd (tl after)))
             then Some (i, mark) else None
      | _ \<Rightarrow> None)"

record report_scan =
  scan_state :: "string option"
  scan_count :: nat
  scan_seen :: "(string \<times> bool) list"
  scan_duplicates :: "string list"

definition scan_line :: "string \<Rightarrow> report_scan \<Rightarrow> report_scan" where
  "scan_line line s =
     (if starts_with line ''Report state:''
      then s\<lparr>scan_count := Suc (scan_count s),
             scan_state := (case state_match line of None \<Rightarrow> scan_state s | Some st \<Rightarrow> Some st)\<rparr>
      else (case row_match line of
              None \<Rightarrow> s
            | Some (i, mark) \<Rightarrow>
                s\<lparr>scan_duplicates := scan_duplicates s @
                    (if i \<in> set (map fst (scan_seen s)) then [i] else []),
                  scan_seen := AList.update i (mark \<noteq> CHR '' '') (scan_seen s)\<rparr>))"

fun scan_lines :: "string list \<Rightarrow> report_scan \<Rightarrow> report_scan" where
  "scan_lines [] s = s"
| "scan_lines (line # rest) s =
     (if starts_with line ''## '' then s else scan_lines rest (scan_line line s))"

definition empty_scan :: report_scan where
  "empty_scan = \<lparr>scan_state = None, scan_count = 0, scan_seen = [], scan_duplicates = []\<rparr>"

definition starts_of :: "string \<Rightarrow> string list \<Rightarrow> nat list" where
  "starts_of heading lines = map fst (filter (\<lambda>(i, line). line = heading) (enumerate 0 lines))"

definition read_report :: "string \<Rightarrow> string \<Rightarrow> return_report option" where
  "read_report text return_id =
     (let lines = file_lines text; starts = starts_of (section_heading return_id) lines
      in if starts = [] then None
         else if length starts \<noteq> 1
         then Some \<lparr>report_state = None, report_rows = [], report_duplicates = [], report_unknown = []\<rparr>
         else
           let s = scan_lines (drop (Suc (hd starts)) lines) empty_scan
           in Some \<lparr>report_state = (if scan_count s \<noteq> 1 then None else scan_state s),
                report_rows = scan_seen s, report_duplicates = scan_duplicates s, report_unknown = []\<rparr>)"

datatype evidence_refusal = Evidence_Missing | Evidence_Stale | Evidence_Incomplete

definition verify_report :: "execute_return \<Rightarrow> string option \<Rightarrow> evidence_refusal option \<times> string" where
  "verify_report r text =
     (case (case text of None \<Rightarrow> None | Some t \<Rightarrow> read_report t (ret_id r)) of
        None \<Rightarrow> (Some Evidence_Missing,
                 ''coverage has no `'' @ section_heading (ret_id r) @ ''` section'')
      | Some report \<Rightarrow>
          if report_state report \<noteq> Some ''reported''
          then (Some Evidence_Stale,
                ''return '' @ ret_id r @ '' report state is '' @ repr_opt (report_state report)
                  @ ''; require one section with one '' @ repr ''reported'' @ '' state'')
          else
            let expected = map row_id (ret_scope r); got = map fst (report_rows report);
                missing = filter (\<lambda>i. i \<notin> set got) expected;
                unknown = filter (\<lambda>i. i \<notin> set expected) got
            in if missing \<noteq> [] \<or> unknown \<noteq> [] \<or> report_duplicates report \<noteq> []
                  \<or> report_unknown report \<noteq> []
               then (Some Evidence_Incomplete,
                     ''return '' @ ret_id r @ '': missing '' @ repr_list missing @ '', unknown ''
                       @ repr_list (unknown @ report_unknown report) @ '', duplicated ''
                       @ repr_list (report_duplicates report))
               else (None, []))"

end
