(* ===== verification/Items.thy ===== *)
theory Items
  imports Dependencies Returns
begin

text \<open>
  Work items (\<open>work_tracker_okf/items.py\<close>): the record a page's frontmatter projects to,
  the tolerant field readers, and \<open>_project\<close>. The field names carry the prefix \<open>wi_\<close>.
  Frontmatter data are as \<open>fm_data(dates="iso")\<close> gives them: a date is already text.
\<close>

definition hex_times :: "nat \<Rightarrow> rx" where
  "hex_times n = rx_times n (RChr is_hex)"

definition COMMIT_OID :: rx where
  "COMMIT_OID = RSeq (hex_times 40) (RAlt ROne (hex_times 24))"

fun is_commit_oid :: "yval \<Rightarrow> bool" where
  "is_commit_oid (YStr s) = fullmatch COMMIT_OID s"
| "is_commit_oid _ = False"

record spec_baseline =
  baseline_code :: "string option"

record stamp =
  stamp_worktree :: string
  stamp_branch :: string
  stamp_start_sha :: "string option"

record legacy_placement =
  legacy_worktree :: "string option"
  legacy_branch :: "string option"
  legacy_repos :: "(string \<times> stamp) list"

text \<open>A typed source of the frontmatter; only its id and resource are read here.\<close>

record source =
  src_id :: "string option"
  src_resource :: "string option"

record work_item =
  wi_path :: string
  wi_page_path :: string
  wi_basename :: string
  wi_archived :: bool
  wi_type :: string
  wi_title :: string
  wi_description :: string
  wi_status :: string
  wi_work_status :: string
  wi_phase :: "string option"
  wi_effort :: "string option"
  wi_blast_radius :: "string option"
  wi_target :: "string option"
  wi_opened :: string
  wi_updated :: string
  wi_affects :: "string list"
  wi_parent_path :: "string option"
  wi_ancestor_paths :: "string list"
  wi_child_paths :: "string list"
  wi_dependency_edges :: "dependency_edge list"
  wi_dependency_issues :: "dependency_issue list"
  wi_owner :: "string option"
  wi_resolved_in :: "string option"
  wi_superseded_by :: "string option"
  wi_tags :: "string list"
  wi_sources :: "source list"
  wi_has_design_artifact :: bool
  wi_has_plan_artifact :: bool
  wi_version :: "string option"
  wi_target_date :: "string option"
  wi_released_at :: "string option"
  wi_invalid_optional_fields :: "string list"
  wi_repo :: "string option"
  wi_start_sha :: "string option"
  wi_finish_obligations :: "obligation list"
  wi_spec_baseline :: "spec_baseline option"
  wi_execute_return :: "execute_return option"
  wi_legacy_placement :: "legacy_placement option"

subsection \<open>Field readers\<close>

definition SPEC_BASELINE_KEYS :: "string list" where
  "SPEC_BASELINE_KEYS = [''code'', ''workspace'']"

fun spec_baseline_of :: "yval \<Rightarrow> spec_baseline option \<times> bool" where
  "spec_baseline_of YNull = (None, False)"
| "spec_baseline_of (YMap m) =
     (if \<not> set (map fst m) \<subseteq> set SPEC_BASELINE_KEYS then (None, True)
      else if list_ex (\<lambda>(k, v). \<not> is_commit_oid v) m then (None, True)
      else (Some \<lparr>baseline_code = text_opt (yget m ''code'')\<rparr>, False))"
| "spec_baseline_of _ = (None, True)"

fun optional_text :: "yval \<Rightarrow> string option" where
  "optional_text (YStr s) = (if s = [] then None else Some s)"
| "optional_text _ = None"

fun text_tuple :: "yval \<Rightarrow> string list" where
  "text_tuple (YList xs) = List.map_filter text_opt xs"
| "text_tuple _ = []"

fun parse_stamp :: "yval \<Rightarrow> stamp option" where
  "parse_stamp (YMap e) =
     (if set (map fst e) \<in> {{''worktree'', ''branch''}, {''worktree'', ''branch'', ''start_sha''}}
      then (case (optional_text (yget e ''worktree''), optional_text (yget e ''branch'')) of
              (Some worktree, Some branch) \<Rightarrow>
                if \<not> has_key e ''start_sha'' \<or> is_commit_oid (yget e ''start_sha'')
                then Some \<lparr>stamp_worktree = worktree, stamp_branch = branch,
                           stamp_start_sha = text_opt (yget e ''start_sha'')\<rparr>
                else None
            | _ \<Rightarrow> None)
      else None)"
| "parse_stamp _ = None"

definition repo_stamp :: "string \<times> yval \<Rightarrow> (string \<times> stamp) option" where
  "repo_stamp kv =
     (if fst kv = [] then None else map_option (\<lambda>s. (fst kv, s)) (parse_stamp (snd kv)))"

fun repo_stamps :: "yval \<Rightarrow> (string \<times> stamp) list \<times> bool" where
  "repo_stamps YNull = ([], False)"
| "repo_stamps (YMap m) =
     (List.map_filter repo_stamp m, list_ex (\<lambda>kv. repo_stamp kv = None) m)"
| "repo_stamps _ = ([], True)"

definition invalid_optional_fields_of ::
  "ymap \<Rightarrow> bool \<Rightarrow> bool \<Rightarrow> bool \<Rightarrow> bool \<Rightarrow> string list" where
  "invalid_optional_fields_of data baseline_malformed stamps_malformed obligations_malformed
     return_malformed =
     filter (\<lambda>field. yget data field \<noteq> YNull \<and> optional_text (yget data field) = None)
       [''phase'', ''effort'', ''repo'']
     @ (if baseline_malformed then [''spec_baseline''] else [])
     @ (if stamps_malformed then [''repo_stamps''] else [])
     @ (if obligations_malformed then [''finish_obligations''] else [])
     @ (if return_malformed then [RETURN_KEY] else [])
     @ (if yget data ''start_sha'' \<noteq> YNull \<and> \<not> is_commit_oid (yget data ''start_sha'')
        then [''start_sha''] else [])"

definition legacy_of ::
  "string option \<Rightarrow> string option \<Rightarrow> (string \<times> stamp) list \<Rightarrow> legacy_placement option" where
  "legacy_of worktree branch stamps =
     (if truthy worktree \<or> truthy branch \<or> stamps \<noteq> []
      then Some \<lparr>legacy_worktree = worktree, legacy_branch = branch, legacy_repos = stamps\<rparr> else None)"

subsection \<open>The projection\<close>

definition project_item ::
  "item_location \<Rightarrow> ymap \<Rightarrow> string list \<Rightarrow> source list \<Rightarrow> work_item" where
  "project_item location data tags sources =
     (let source_ids = List.map_filter src_id sources;
          dependencies = parse_dependencies (RawYaml (yget data ''depends_on''));
          (stamps, stamps_malformed) = repo_stamps (yget data ''repo_stamps'');
          (baseline, baseline_malformed) = spec_baseline_of (yget data ''spec_baseline'');
          (obligations, malformed) = parse_obligations (yget data ''finish_obligations'');
          obligations_malformed =
            (malformed \<or> has_key data ''finish_obligations'' \<and> yget data ''finish_obligations'' = YNull);
          (ret, ret_malformed) = parse_execute_return (yget data RETURN_KEY);
          return_malformed = (ret_malformed \<or> has_key data RETURN_KEY \<and> yget data RETURN_KEY = YNull)
      in \<lparr>wi_path = loc_path location,
          wi_page_path = loc_page location,
          wi_basename = loc_basename location,
          wi_archived = loc_archived location,
          wi_type = text_or_empty (yget data ''type''),
          wi_title = text_or_empty (yget data ''title''),
          wi_description = text_or_empty (yget data ''description''),
          wi_status = text_or_empty (yget data ''status''),
          wi_work_status = text_or_empty (yget data ''work_status''),
          wi_phase = optional_text (yget data ''phase''),
          wi_effort = optional_text (yget data ''effort''),
          wi_blast_radius = optional_text (yget data ''blast_radius''),
          wi_target = optional_text (yget data ''target''),
          wi_opened = text_or_empty (yget data ''opened''),
          wi_updated = text_or_empty (yget data ''updated''),
          wi_affects = text_tuple (yget data ''affects''),
          wi_parent_path = loc_parent_path location,
          wi_ancestor_paths = loc_ancestor_paths location,
          wi_child_paths = [],
          wi_dependency_edges = edges dependencies,
          wi_dependency_issues = issues dependencies,
          wi_owner = optional_text (yget data ''owner''),
          wi_resolved_in = optional_text (yget data ''resolved_in''),
          wi_superseded_by = optional_text (yget data ''superseded_by''),
          wi_tags = tags,
          wi_sources = sources,
          wi_has_design_artifact = (SPEC_SOURCE_ID \<in> set source_ids),
          wi_has_plan_artifact = (PLAN_SOURCE_ID \<in> set source_ids),
          wi_version = optional_text (yget data ''version''),
          wi_target_date = optional_text (yget data ''target_date''),
          wi_released_at = optional_text (yget data ''released_at''),
          wi_invalid_optional_fields =
            invalid_optional_fields_of data baseline_malformed stamps_malformed
              obligations_malformed return_malformed,
          wi_repo = optional_text (yget data ''repo''),
          wi_start_sha = (if is_commit_oid (yget data ''start_sha'')
                          then text_opt (yget data ''start_sha'') else None),
          wi_finish_obligations = obligations,
          wi_spec_baseline = baseline,
          wi_execute_return = ret,
          wi_legacy_placement =
            legacy_of (optional_text (yget data ''worktree'')) (optional_text (yget data ''branch'')) stamps\<rparr>)"

subsection \<open>What a projected item satisfies\<close>

lemma optional_text_Some: "optional_text v = Some s \<longleftrightarrow> v = YStr s \<and> s \<noteq> []"
  by (cases v) auto

lemma is_commit_oid_text: "is_commit_oid v \<Longrightarrow> \<exists>s. v = YStr s \<and> fullmatch COMMIT_OID s"
  by (cases v) auto

lemma rx_in_times_length: "rx_in s (rx_times n (RChr p)) \<Longrightarrow> length s = n"
  by (induction n arbitrary: s) auto

lemma commit_oid_length: "fullmatch COMMIT_OID s \<Longrightarrow> length s = 40 \<or> length s = 64"
  by (auto simp: fullmatch_iff COMMIT_OID_def hex_times_def dest!: rx_in_times_length)

lemma project_location [simp]:
  "wi_path (project_item l d t s) = loc_path l"
  "wi_archived (project_item l d t s) = loc_archived l"
  "wi_parent_path (project_item l d t s) = loc_parent_path l"
  "wi_ancestor_paths (project_item l d t s) = loc_ancestor_paths l"
  "wi_child_paths (project_item l d t s) = []"
  by (simp_all add: project_item_def split_beta Let_def)

lemma project_fields:
  "wi_type (project_item l d t s) = text_or_empty (yget d ''type'')"
  "wi_work_status (project_item l d t s) = text_or_empty (yget d ''work_status'')"
  "wi_phase (project_item l d t s) = optional_text (yget d ''phase'')"
  "wi_effort (project_item l d t s) = optional_text (yget d ''effort'')"
  "wi_dependency_edges (project_item l d t s) = edges (parse_dependencies (RawYaml (yget d ''depends_on'')))"
  "wi_start_sha (project_item l d t s) =
     (if is_commit_oid (yget d ''start_sha'') then text_opt (yget d ''start_sha'') else None)"
  "wi_repo (project_item l d t s) = optional_text (yget d ''repo'')"
  by (simp_all add: project_item_def split_beta Let_def)

text \<open>An optional field that projects as absent either was null or is named invalid.\<close>

lemma project_invalid_fields:
  "wi_invalid_optional_fields (project_item l d t s) =
     invalid_optional_fields_of d (snd (spec_baseline_of (yget d ''spec_baseline'')))
       (snd (repo_stamps (yget d ''repo_stamps'')))
       (snd (parse_obligations (yget d ''finish_obligations'')) \<or>
          has_key d ''finish_obligations'' \<and> yget d ''finish_obligations'' = YNull)
       (snd (parse_execute_return (yget d RETURN_KEY)) \<or>
          has_key d RETURN_KEY \<and> yget d RETURN_KEY = YNull)"
  by (simp only: project_item_def split_beta Let_def work_item.select_convs)

lemma invalid_text_field_iff:
  assumes "f \<in> {''phase'', ''effort'', ''repo''}"
  shows "f \<in> set (invalid_optional_fields_of d b st ob r) \<longleftrightarrow>
    yget d f \<noteq> YNull \<and> optional_text (yget d f) = None"
proof -
  define bad where "bad f \<longleftrightarrow> yget d f \<noteq> YNull \<and> optional_text (yget d f) = None" for f
  have "f \<noteq> ''spec_baseline''" "f \<noteq> ''repo_stamps''" "f \<noteq> ''finish_obligations''" "f \<noteq> RETURN_KEY"
    "f \<noteq> ''start_sha''" using assms by (auto simp: RETURN_KEY_def)
  moreover have "f \<in> set (if c then [g] else []) \<longleftrightarrow> c \<and> f = g" for c g by (cases c) simp_all
  ultimately show ?thesis
    unfolding invalid_optional_fields_of_def bad_def [symmetric] set_append Un_iff set_filter
    using assms by (simp only:) simp
qed

lemma invalid_start_sha_iff:
  "''start_sha'' \<in> set (invalid_optional_fields_of d b st ob r) \<longleftrightarrow>
     yget d ''start_sha'' \<noteq> YNull \<and> \<not> is_commit_oid (yget d ''start_sha'')"
  by (simp add: invalid_optional_fields_of_def RETURN_KEY_def)

subsection \<open>Properties\<close>

text \<open>The tolerant projection loses no malformed value silently: phase, effort and repo are
  absent from the item exactly when the authored value was null or is named in
  \<open>invalid_optional_fields\<close>, and a start commit is present exactly when it is a full commit id.\<close>

theorem lossy_fields_named:
  "(optional_text (yget d ''phase'') = None \<longleftrightarrow> yget d ''phase'' = YNull \<or>
      ''phase'' \<in> set (wi_invalid_optional_fields (project_item l d t s))) \<and>
   (optional_text (yget d ''effort'') = None \<longleftrightarrow> yget d ''effort'' = YNull \<or>
      ''effort'' \<in> set (wi_invalid_optional_fields (project_item l d t s))) \<and>
   (optional_text (yget d ''repo'') = None \<longleftrightarrow> yget d ''repo'' = YNull \<or>
      ''repo'' \<in> set (wi_invalid_optional_fields (project_item l d t s))) \<and>
   (wi_start_sha (project_item l d t s) = None \<longleftrightarrow> yget d ''start_sha'' = YNull \<or>
      ''start_sha'' \<in> set (wi_invalid_optional_fields (project_item l d t s)))"
  unfolding project_invalid_fields project_fields(6)
  by (auto simp: invalid_text_field_iff invalid_start_sha_iff dest: is_commit_oid_text)

end
