(* ===== verification/Worklist.thy ===== *)
theory Worklist
  imports Prelude
begin

text \<open>
  The traversal every hierarchy walk shares: a stack of pending keys, the keys already seen,
  and an index that says which keys are live and what they expand to. \<open>reached\<close> is the
  specification; \<open>set_visit\<close> says the stack visits exactly the reached live values.
\<close>

abbreviation stack_measure ::
  "('k \<times> 'v) list \<Rightarrow> 'k list \<Rightarrow> 'k list \<Rightarrow> nat \<times> nat" where
  "stack_measure index seen pending \<equiv> (card (fst ` set index - set seen), length pending)"

lemma unseen_decreases:
  assumes "p \<notin> set seen" and "map_of index p = Some v"
  shows "card (fst ` set index - insert p (set seen)) < card (fst ` set index - set seen)"
proof -
  have "p \<in> fst ` set index" using assms(2) by (metis domI dom_map_of_conv_image_fst)
  with assms(1) show ?thesis by (intro psubset_card_mono) auto
qed

lemma unseen_mono: "card (A - insert p B) < card (A - B) \<or> card (A - insert p B) = card (A - B)"
  if "finite A" using that
  by (metis Diff_insert card_Diff1_le finite_Diff le_neq_implies_less)

lemma unseen_step:
  "card (fst ` set index - insert p (set seen)) \<noteq> card (fst ` set index - set seen) \<Longrightarrow>
     card (fst ` set index - insert p (set seen)) < card (fst ` set index - set seen)"
  using unseen_mono [of "fst ` set index" p "set seen"] by auto

text \<open>The pending stack has its top at the head.\<close>

function (sequential) visit ::
  "('k \<times> 'v) list \<Rightarrow> ('v \<Rightarrow> bool) \<Rightarrow> ('v \<Rightarrow> 'k list) \<Rightarrow> 'k list \<Rightarrow> 'k list \<Rightarrow> 'v list" where
  "visit index live kids seen [] = []"
| "visit index live kids seen (p # pending) =
     (if p \<in> set seen then visit index live kids seen pending
      else (case map_of index p of
              None \<Rightarrow> visit index live kids (p # seen) pending
            | Some v \<Rightarrow>
                if live v then v # visit index live kids (p # seen) (kids v @ pending)
                else visit index live kids (p # seen) pending))"
  by pat_completeness auto
termination
  by (relation "inv_image (less_than <*lex*> less_than)
        (\<lambda>(index, live, kids, seen, pending). stack_measure index seen pending)")
    (auto dest: unseen_decreases unseen_step)

inductive reached ::
  "('k \<times> 'v) list \<Rightarrow> ('v \<Rightarrow> bool) \<Rightarrow> ('v \<Rightarrow> 'k list) \<Rightarrow> 'k set \<Rightarrow> 'k set \<Rightarrow> 'k \<Rightarrow> bool"
  for index live kids seen start where
  start: "p \<in> start \<Longrightarrow> p \<notin> seen \<Longrightarrow> reached index live kids seen start p"
| step: "reached index live kids seen start p \<Longrightarrow> map_of index p = Some v \<Longrightarrow> live v \<Longrightarrow>
     q \<in> set (kids v) \<Longrightarrow> q \<notin> seen \<Longrightarrow> reached index live kids seen start q"

lemma reached_unseen: "reached index live kids seen start p \<Longrightarrow> p \<notin> seen"
  by (induction rule: reached.induct) auto

lemma reached_mono:
  assumes "reached index live kids seen start p" and "start - seen' \<subseteq> start'" and "seen' \<subseteq> seen"
  shows "reached index live kids seen' start' p"
  using assms
proof (induction rule: reached.induct)
  case (start p)
  then show ?case by (intro reached.start) auto
next
  case (step p v q)
  then show ?case by (intro reached.step [of _ _ _ _ _ p v q]) auto
qed

lemma reached_skip:
  assumes "p \<in> seen"
  shows "reached index live kids seen (insert p start) q \<longleftrightarrow> reached index live kids seen start q"
  using assms by (auto elim!: reached_mono)

lemma reached_dead:
  assumes "p \<notin> seen" and "map_of index p = None \<or> (\<exists>v. map_of index p = Some v \<and> \<not> live v)"
  shows "reached index live kids seen (insert p start) q \<longleftrightarrow>
    q = p \<or> reached index live kids (insert p seen) start q"
proof
  show "reached index live kids seen (insert p start) q \<Longrightarrow>
      q = p \<or> reached index live kids (insert p seen) start q"
  proof (induction rule: reached.induct)
    case (start q)
    then show ?case by (auto intro: reached.start)
  next
    case (step q v r)
    with assms(2) have "q \<noteq> p" by auto
    with step show ?case by (auto intro: reached.step)
  qed
  show "q = p \<or> reached index live kids (insert p seen) start q \<Longrightarrow>
      reached index live kids seen (insert p start) q"
    using assms(1) by (auto intro: reached.start elim: reached_mono)
qed

lemma reached_live:
  assumes "p \<notin> seen" and "map_of index p = Some v" and "live v"
  shows "reached index live kids seen (insert p start) q \<longleftrightarrow>
    q = p \<or> reached index live kids (insert p seen) (set (kids v) \<union> start) q"
proof
  show "reached index live kids seen (insert p start) q \<Longrightarrow>
      q = p \<or> reached index live kids (insert p seen) (set (kids v) \<union> start) q"
  proof (induction rule: reached.induct)
    case (start q)
    then show ?case by (auto intro: reached.start)
  next
    case (step q w r)
    then show ?case
      using assms(2) by (cases "q = p") (auto intro: reached.start reached.step)
  qed
  have p: "reached index live kids seen (insert p start) p"
    using assms(1) by (auto intro: reached.start)
  have "reached index live kids (insert p seen) (set (kids v) \<union> start) q \<Longrightarrow>
      reached index live kids seen (insert p start) q"
  proof (induction rule: reached.induct)
    case (start q)
    then show ?case using reached.step [OF p assms(2,3)] by (auto intro: reached.start)
  next
    case (step q w r)
    then show ?case by (auto intro: reached.step)
  qed
  with p show "q = p \<or> reached index live kids (insert p seen) (set (kids v) \<union> start) q \<Longrightarrow>
      reached index live kids seen (insert p start) q"
    by auto
qed

lemma set_visit:
  "set (visit index live kids seen pending) =
     {v. \<exists>p. reached index live kids (set seen) (set pending) p \<and> map_of index p = Some v \<and> live v}"
proof (induction index live kids seen pending rule: visit.induct)
  case (1 index live kids seen)
  have "\<not> reached index live kids (set seen) {} p" for p
    by (rule notI, erule reached.induct) auto
  then show ?case by simp
next
  case (2 index live kids seen p pending)
  show ?case
  proof (cases "p \<in> set seen")
    case True
    with 2 show ?thesis by (simp add: reached_skip)
  next
    case False
    show ?thesis
    proof (cases "map_of index p")
      case None
      with 2 False show ?thesis by (simp add: reached_dead) auto
    next
      case (Some v)
      with 2 False show ?thesis
        by (cases "live v") (auto simp: reached_dead reached_live)
    qed
  qed
qed

text \<open>No key is visited twice, so values that determine their key are listed once.\<close>

lemma visit_unseen:
  assumes "\<And>p v. map_of index p = Some v \<Longrightarrow> key v = p"
  shows "v \<in> set (visit index live kids seen pending) \<Longrightarrow> key v \<notin> set seen"
  using assms by (auto simp: set_visit dest: reached_unseen)

lemma distinct_visit:
  assumes key: "\<And>p v. map_of index p = Some v \<Longrightarrow> key v = p"
  shows "distinct (map key (visit index live kids seen pending))"
  using key
proof (induction index live kids seen pending rule: visit.induct)
  case (1 index live kids seen)
  then show ?case by simp
next
  case (2 index live kids seen p pending)
  have "key v \<noteq> p" if "v \<in> set (visit index live kids (p # seen) ps)" for v ps
    using visit_unseen [where key = key, OF "2.prems" that] by simp
  with 2 show ?case by (fastforce split: option.split)
qed

end
