(* ===== verification/Snapshot.thy ===== *)
theory Snapshot
  imports Items Worklist "HOL-Library.Multiset"
begin

text \<open>
  The indexed projection (\<open>work_tracker_okf/snapshot.py\<close>): the two indexes built in one
  pass, path-sorting with filled \<open>child_paths\<close>, and the child view the hierarchy uses.
  Dictionaries are association lists in insertion order. The memo caches values of pure
  functions of the snapshot; \<open>memo_reads_fresh\<close> says reading through it changes no answer.
\<close>

record work_snapshot =
  snap_items :: "work_item list"
  by_path :: "(string \<times> work_item) list"
  by_parent :: "(string \<times> work_item list) list"

text \<open>\<open>d.setdefault(k, []).append(v)\<close>.\<close>

definition append_at :: "'k \<Rightarrow> 'v \<Rightarrow> ('k \<times> 'v list) list \<Rightarrow> ('k \<times> 'v list) list" where
  "append_at k v d = AList.update k ((case map_of d k of None \<Rightarrow> [] | Some vs \<Rightarrow> vs) @ [v]) d"

fun build_indexes ::
  "(string \<times> work_item) list \<Rightarrow> (string \<times> work_item list) list \<Rightarrow> work_item list \<Rightarrow>
     (string \<times> work_item) list \<times> (string \<times> work_item list) list" where
  "build_indexes paths grouped [] = (paths, grouped)"
| "build_indexes paths grouped (item # items) =
     build_indexes (AList.update (wi_path item) item paths)
       (case wi_parent_path item of
          None \<Rightarrow> grouped
        | Some parent \<Rightarrow> if parent = [] then grouped else append_at parent item grouped)
       items"

definition as_snapshot :: "work_item list \<Rightarrow> work_snapshot" where
  "as_snapshot items =
     (let (paths, grouped) = build_indexes [] [] items
      in \<lparr>snap_items = items, by_path = paths, by_parent = grouped\<rparr>)"

definition item_at :: "work_snapshot \<Rightarrow> string \<Rightarrow> work_item option" where
  "item_at s path = map_of (by_path s) path"

definition child_items :: "work_snapshot \<Rightarrow> string \<Rightarrow> work_item list" where
  "child_items s path =
     (case item_at s path of
        None \<Rightarrow> []
      | Some parent \<Rightarrow> List.map_filter (item_at s) (wi_child_paths parent))"

subsection \<open>Loading\<close>

fun children_by_parent :: "(string \<times> string list) list \<Rightarrow> work_item list \<Rightarrow> (string \<times> string list) list" where
  "children_by_parent children [] = children"
| "children_by_parent children (item # items) =
     children_by_parent
       (case wi_parent_path item of None \<Rightarrow> children | Some p \<Rightarrow> append_at p (wi_path item) children) items"

definition link_items :: "work_item list \<Rightarrow> work_item list" where
  "link_items listed =
     (let children = children_by_parent [] listed
      in map (\<lambda>item. item\<lparr>wi_child_paths :=
                  sort (case map_of children (wi_path item) of None \<Rightarrow> [] | Some ps \<Rightarrow> ps)\<rparr>)
           (sort_key wi_path listed))"

text \<open>What the loader reads from one document of the bundle.\<close>

record concept =
  con_data :: ymap
  con_tags :: "string list"
  con_sources :: "source list"

definition project_concept :: "string \<times> concept \<Rightarrow> work_item option" where
  "project_concept kd =
     map_option (\<lambda>location. project_item location (con_data (snd kd)) (con_tags (snd kd)) (con_sources (snd kd)))
       (parse_item_path (fst kd))"

definition from_bundle :: "(string \<times> concept) list \<Rightarrow> work_snapshot" where
  "from_bundle concepts = as_snapshot (link_items (List.map_filter project_concept concepts))"

subsection \<open>The memo\<close>

type_synonym 'v memo = "((string \<times> string) \<times> 'v) list"

definition memo_read :: "'v memo \<Rightarrow> string \<Rightarrow> string \<Rightarrow> (unit \<Rightarrow> 'v) \<Rightarrow> 'v \<times> 'v memo" where
  "memo_read m kind key compute =
     (case map_of m (kind, key) of
        Some v \<Rightarrow> (v, m)
      | None \<Rightarrow> (compute (), ((kind, key), compute ()) # m))"

fun memo_reads :: "'v memo \<Rightarrow> (string \<Rightarrow> string \<Rightarrow> 'v) \<Rightarrow> (string \<times> string) list \<Rightarrow> 'v list \<times> 'v memo" where
  "memo_reads m compute [] = ([], m)"
| "memo_reads m compute ((kind, key) # slots) =
     (let (v, m') = memo_read m kind key (\<lambda>u. compute kind key);
          (vs, m'') = memo_reads m' compute slots
      in (v # vs, m''))"

lemma memo_reads_fresh:
  "(\<And>kind key v. map_of m (kind, key) = Some v \<Longrightarrow> v = compute kind key) \<Longrightarrow>
     fst (memo_reads m compute slots) = map (case_prod compute) slots"
proof (induction slots arbitrary: m)
  case Nil
  then show ?case by simp
next
  case (Cons slot slots)
  obtain kind key where slot: "slot = (kind, key)" by (cases slot)
  obtain v m' where read: "memo_read m kind key (\<lambda>u. compute kind key) = (v, m')" by (meson surj_pair)
  then have "v = compute kind key"
    and "\<And>k x w. map_of m' (k, x) = Some w \<Longrightarrow> w = compute k x"
    using Cons.prems by (auto simp: memo_read_def split: option.splits if_splits)
  with Cons.IH [of m'] read show ?case by (simp add: slot split_beta)
qed

subsection \<open>What the indexes contain\<close>

lemma map_of_append_at [simp]:
  "map_of (append_at k v d) k' =
     (if k' = k then Some ((case map_of d k of None \<Rightarrow> [] | Some vs \<Rightarrow> vs) @ [v]) else map_of d k')"
  by (simp add: append_at_def update_conv')

lemma build_indexes_by_path:
  "map_of (fst (build_indexes paths grouped items)) p =
     (case dict_of (map (\<lambda>i. (wi_path i, i)) items) p of Some i \<Rightarrow> Some i | None \<Rightarrow> map_of paths p)"
  by (induction paths grouped items rule: build_indexes.induct)
    (auto simp: dict_of_def update_conv' map_of_append map_add_def split: option.splits)

lemma build_indexes_by_parent:
  "p \<noteq> [] \<Longrightarrow>
     (case map_of (snd (build_indexes paths grouped items)) p of None \<Rightarrow> [] | Some is \<Rightarrow> is) =
       (case map_of grouped p of None \<Rightarrow> [] | Some is \<Rightarrow> is) @ filter (\<lambda>i. wi_parent_path i = Some p) items"
  by (induction paths grouped items rule: build_indexes.induct) (auto split: option.splits if_splits)

lemma children_by_parent_eq:
  "(case map_of (children_by_parent children items) p of None \<Rightarrow> [] | Some ps \<Rightarrow> ps) =
     (case map_of children p of None \<Rightarrow> [] | Some ps \<Rightarrow> ps)
       @ map wi_path (filter (\<lambda>i. wi_parent_path i = Some p) items)"
  by (induction children items rule: children_by_parent.induct) (auto split: option.splits if_splits)

lemma item_at_as_snapshot: "item_at (as_snapshot items) p = dict_of (map (\<lambda>i. (wi_path i, i)) items) p"
  using build_indexes_by_path [of "[]" "[]" items p]
  by (simp add: item_at_def as_snapshot_def split_beta Let_def split: option.splits)

lemma item_at_path: "item_at (as_snapshot items) p = Some i \<Longrightarrow> wi_path i = p \<and> i \<in> set items"
  by (auto simp: item_at_as_snapshot dest!: dict_of_Some)

lemma item_at_distinct:
  "distinct (map wi_path items) \<Longrightarrow> item_at (as_snapshot items) p = Some i \<longleftrightarrow> i \<in> set items \<and> wi_path i = p"
  by (auto simp: item_at_as_snapshot dict_of_distinct o_def map_of_eq_Some_iff)

lemma snap_items_as_snapshot [simp]: "snap_items (as_snapshot items) = items"
  by (simp add: as_snapshot_def split_beta Let_def)

lemma child_items_path: "c \<in> set (child_items (as_snapshot items) p) \<Longrightarrow>
    c \<in> set items \<and> (\<exists>parent. item_at (as_snapshot items) p = Some parent \<and> wi_path c \<in> set (wi_child_paths parent))"
proof -
  assume "c \<in> set (child_items (as_snapshot items) p)"
  then obtain parent x where *: "item_at (as_snapshot items) p = Some parent"
    "x \<in> set (wi_child_paths parent)" "item_at (as_snapshot items) x = Some c"
    by (auto simp: child_items_def List.map_filter_def split: option.splits) (metis option.sel)
  with item_at_path [OF *(3)] show ?thesis by auto
qed

subsection \<open>Loaded snapshots\<close>

lemma map_sort_key: "map f (sort_key f xs) = sort (map f xs)"
  by (rule properties_for_sort [symmetric]) (simp_all add: mset_map)

definition loaded_items :: "(string \<times> concept) list \<Rightarrow> work_item list" where
  "loaded_items concepts = List.map_filter project_concept concepts"

lemma project_concept_path: "project_concept kd = Some i \<Longrightarrow>
    wi_path i = fst kd \<and> (\<exists>l. parse_item_path (fst kd) = Some l \<and> wi_parent_path i = loc_parent_path l
      \<and> wi_ancestor_paths i = loc_ancestor_paths l \<and> wi_archived i = loc_archived l)"
  by (auto simp: project_concept_def parse_item_path_loc)

lemma loaded_paths:
  "map wi_path (loaded_items concepts) = filter (\<lambda>k. parse_item_path k \<noteq> None) (map fst concepts)"
proof (induction concepts)
  case Nil
  then show ?case by (simp add: loaded_items_def List.map_filter_simps)
next
  case (Cons kd concepts)
  then show ?case
    by (cases "parse_item_path (fst kd)")
      (auto simp: loaded_items_def List.map_filter_simps project_concept_def parse_item_path_loc)
qed

lemma children_of_link:
  "(case map_of (children_by_parent [] listed) p of None \<Rightarrow> [] | Some ps \<Rightarrow> ps) =
     map wi_path (filter (\<lambda>i. wi_parent_path i = Some p) listed)"
  by (simp add: children_by_parent_eq)

abbreviation linked :: "work_item list \<Rightarrow> work_item \<Rightarrow> work_item" where
  "linked listed item \<equiv> item\<lparr>wi_child_paths :=
     sort (map wi_path (filter (\<lambda>i. wi_parent_path i = Some (wi_path item)) listed))\<rparr>"

lemma link_items_eq: "link_items listed = map (linked listed) (sort_key wi_path listed)"
  by (simp add: link_items_def children_of_link Let_def)

lemma link_items_paths: "map wi_path (link_items listed) = sort (map wi_path listed)"
  by (simp add: link_items_eq o_def map_sort_key)

lemma link_items_mem: "i \<in> set (link_items listed) \<Longrightarrow> \<exists>j \<in> set listed. i = linked listed j"
  by (auto simp: link_items_eq)

lemma item_at_map:
  assumes "distinct (map wi_path items)" and "set xs \<subseteq> set items"
  shows "List.map_filter (item_at (as_snapshot items)) (map wi_path xs) = xs"
  using assms(2)
proof (induction xs)
  case Nil
  then show ?case by (simp add: List.map_filter_simps)
next
  case (Cons x xs)
  then have "item_at (as_snapshot items) (wi_path x) = Some x"
    using item_at_distinct [OF assms(1)] by simp
  with Cons show ?case by (simp add: List.map_filter_simps)
qed

lemma child_items_linked:
  assumes "distinct (map wi_path listed)" and "item_at (as_snapshot (link_items listed)) p = Some i"
  shows "child_items (as_snapshot (link_items listed)) p =
    filter (\<lambda>c. wi_parent_path c = Some p) (link_items listed)"
proof -
  define sel where "sel = filter (\<lambda>c. wi_parent_path c = Some p) (link_items listed)"
  have dist: "distinct (map wi_path (link_items listed))"
    by (simp only: link_items_paths distinct_sort assms(1))
  with assms(2) have i: "i \<in> set (link_items listed)" "wi_path i = p"
    by (simp_all add: item_at_distinct)
  have "map wi_path sel = sort (map wi_path (filter (\<lambda>c. wi_parent_path c = Some p) listed))"
    by (simp add: sel_def link_items_eq filter_map o_def filter_sort map_sort_key)
  moreover from i have "wi_child_paths i = sort (map wi_path (filter (\<lambda>c. wi_parent_path c = Some p) listed))"
    by (auto dest!: link_items_mem)
  ultimately have "child_items (as_snapshot (link_items listed)) p =
      List.map_filter (item_at (as_snapshot (link_items listed))) (map wi_path sel)"
    using assms(2) by (simp add: child_items_def)
  also have "\<dots> = sel" by (rule item_at_map [OF dist]) (auto simp: sel_def)
  finally show ?thesis by (simp add: sel_def)
qed

lemma by_parent_as_snapshot:
  "p \<noteq> [] \<Longrightarrow> (case map_of (by_parent (as_snapshot items)) p of None \<Rightarrow> [] | Some is \<Rightarrow> is) =
     filter (\<lambda>i. wi_parent_path i = Some p) items"
  using build_indexes_by_parent [of p "[]" "[]" items]
  by (simp add: as_snapshot_def split_beta Let_def)

lemma distinct_loaded: "distinct (map fst concepts) \<Longrightarrow> distinct (map wi_path (loaded_items concepts))"
  by (simp only: loaded_paths distinct_filter)

lemma from_bundle_eq: "from_bundle concepts = as_snapshot (link_items (loaded_items concepts))"
  by (simp add: from_bundle_def loaded_items_def)

text \<open>Every item of a loaded snapshot stands at the path its location was parsed from.\<close>

lemma loaded_location:
  assumes "item_at (from_bundle concepts) p = Some i"
  shows "\<exists>l. parse_item_path p = Some l \<and> wi_path i = p \<and> wi_parent_path i = loc_parent_path l
    \<and> wi_ancestor_paths i = loc_ancestor_paths l \<and> wi_archived i = loc_archived l"
proof -
  from item_at_path assms have "wi_path i = p" "i \<in> set (link_items (loaded_items concepts))"
    by (auto simp: from_bundle_eq)
  then obtain j kd where "i = linked (loaded_items concepts) j" "project_concept kd = Some j" "wi_path j = p"
    by (auto dest!: link_items_mem simp: loaded_items_def List.map_filter_def)
  with project_concept_path [of kd j] show ?thesis by auto
qed

end
