(* ===== verification/Hierarchy.thy ===== *)
theory Hierarchy
  imports Snapshot
begin

text \<open>
  Direct-child rollups and the iterative walks over the hierarchy
  (\<open>work_tracker_okf/hierarchy.py\<close>): descendants, the nearest container, archive
  eligibility, the declared repository, and the descent that picks the next leaf. Every
  walk keeps a set of seen paths, so it ends on any projection, cyclic ones included.
\<close>

definition PICK_ORDER :: "(string \<times> nat) list" where
  "PICK_ORDER = [(''in-progress'', 0), (''accepted'', 1), (''open'', 2)]"

record child_counts =
  total :: nat
  terminal_count :: nat
  open_paths :: "string list"

record descend_result =
  desc_path :: "string list"
  desc_leaf :: "string option"
  desc_blocked_at :: "string option"
  desc_reason :: "string option"

abbreviation terminal_item :: "work_item \<Rightarrow> bool" where
  "terminal_item item \<equiv> wi_work_status item \<in> set TERMINAL_STATUSES"

definition child_rollup :: "work_snapshot \<Rightarrow> string \<Rightarrow> child_counts" where
  "child_rollup s parent_path =
     (let children = child_items s parent_path
      in \<lparr>total = length children, terminal_count = length (filter terminal_item children),
          open_paths = sort (map wi_path (filter (\<lambda>i. \<not> terminal_item i) children))\<rparr>)"

function (sequential) descendants_loop ::
  "(string \<times> work_item) list \<Rightarrow> string list \<Rightarrow> string list \<Rightarrow> string list \<Rightarrow> string list" where
  "descendants_loop index found seen [] = found"
| "descendants_loop index found seen (path # pending) =
     (if path \<in> set seen then descendants_loop index found seen pending
      else (case map_of index path of
              None \<Rightarrow> descendants_loop index found (path # seen) pending
            | Some item \<Rightarrow>
                if wi_archived item then descendants_loop index found (path # seen) pending
                else descendants_loop index
                       (if \<not> terminal_item item then found @ [wi_path item] else found)
                       (path # seen) (wi_child_paths item @ pending)))"
  by pat_completeness auto
termination
  by (relation "inv_image (less_than <*lex*> less_than)
        (\<lambda>(index, found, seen, pending). stack_measure index seen pending)")
    (auto dest: unseen_decreases unseen_step)

definition active_nonterminal_descendants :: "work_snapshot \<Rightarrow> string \<Rightarrow> string list" where
  "active_nonterminal_descendants s parent_path =
     (case item_at s parent_path of
        None \<Rightarrow> []
      | Some parent \<Rightarrow>
          sort (descendants_loop (by_path s) [] [parent_path] (wi_child_paths parent)))"

text \<open>The upward loop of \<open>nearest_parent\<close> and \<open>nearest_epic\<close>, which differ in the test only.\<close>

function climb ::
  "(string \<times> work_item) list \<Rightarrow> (work_item \<Rightarrow> bool) \<Rightarrow> string list \<Rightarrow> string option \<Rightarrow> string option" where
  "climb index wanted seen current =
     (case current of
        None \<Rightarrow> None
      | Some p \<Rightarrow>
          if p \<in> set seen then None
          else (case map_of index p of
                  None \<Rightarrow> None
                | Some item \<Rightarrow>
                    if wanted item then Some (wi_path item)
                    else climb index wanted (p # seen) (wi_parent_path item)))"
  by pat_completeness auto
termination
  by (relation "measure (\<lambda>(index, wanted, seen, current). card (fst ` set index - set seen))")
    (auto dest: unseen_decreases)

declare climb.simps [simp del]

definition nearest_parent :: "work_snapshot \<Rightarrow> string \<Rightarrow> string option" where
  "nearest_parent s path = climb (by_path s) (\<lambda>item. wi_type item \<in> set PARENT_TYPES) [] (Some path)"

definition nearest_epic :: "work_snapshot \<Rightarrow> string \<Rightarrow> string option" where
  "nearest_epic s path = climb (by_path s) (\<lambda>item. wi_type item = ''Epic'') [] (Some path)"

definition decision_owner :: "work_snapshot \<Rightarrow> string \<Rightarrow> string option" where
  "decision_owner s path =
     (case nearest_parent s path of
        Some owner \<Rightarrow> Some owner
      | None \<Rightarrow> if item_at s path \<noteq> None then Some path else None)"

text \<open>Here \<open>pending.pop()\<close> takes the last child first.\<close>

function (sequential) sweep_loop ::
  "(string \<times> work_item) list \<Rightarrow> string list \<Rightarrow> string list \<Rightarrow> bool" where
  "sweep_loop index seen [] = True"
| "sweep_loop index seen (path # pending) =
     (if path \<in> set seen then sweep_loop index seen pending
      else (case map_of index path of
              None \<Rightarrow> sweep_loop index (path # seen) pending
            | Some descendant \<Rightarrow>
                if \<not> terminal_item descendant then False
                else sweep_loop index (path # seen) (rev (wi_child_paths descendant) @ pending)))"
  by pat_completeness auto
termination
  by (relation "inv_image (less_than <*lex*> less_than)
        (\<lambda>(index, seen, pending). stack_measure index seen pending)")
    (auto dest: unseen_decreases unseen_step)

definition sweep_eligible :: "work_snapshot \<Rightarrow> work_item \<Rightarrow> bool" where
  "sweep_eligible s item =
     (if wi_ancestor_paths item \<noteq> [] \<or> wi_parent_path item \<noteq> None \<or> wi_archived item then False
      else if \<not> terminal_item item then False
      else sweep_loop (by_path s) [wi_path item] (rev (wi_child_paths item)))"

fun first_repo ::
  "work_item \<Rightarrow> (string \<Rightarrow> work_item option) \<Rightarrow> string list \<Rightarrow> string option \<times> string option" where
  "first_repo item items_by_path [] = (None, None)"
| "first_repo item items_by_path (path # paths) =
     (case (if path = wi_path item then Some item else items_by_path path) of
        Some holder \<Rightarrow>
          if wi_repo holder \<noteq> None then (wi_repo holder, Some (wi_path holder))
          else first_repo item items_by_path paths
      | None \<Rightarrow> first_repo item items_by_path paths)"

definition declared_repo ::
  "work_item \<Rightarrow> (string \<Rightarrow> work_item option) \<Rightarrow> string option \<times> string option" where
  "declared_repo item items_by_path =
     first_repo item items_by_path (wi_path item # rev (wi_ancestor_paths item))"

definition unknown_depends_on :: "work_snapshot \<Rightarrow> dependency_edge list \<Rightarrow> string list" where
  "unknown_depends_on s es = first_seen (map edge_path (filter (\<lambda>e. item_at s (edge_path e) = None) es))"

definition child_gated :: "work_snapshot \<Rightarrow> work_item \<Rightarrow> bool" where
  "child_gated s item =
     (if active_nonterminal_descendants s (wi_path item) = [] then False
      else row_child_gated (wi_type item) (wi_phase item))"

subsection \<open>The descent\<close>

definition node_of :: "work_item \<Rightarrow> dependency_node" where
  "node_of item = \<lparr>node_path = wi_path item, node_phase = wi_phase item, node_status = wi_work_status item\<rparr>"

definition item_facts :: "work_snapshot \<Rightarrow> dependency_edge list \<Rightarrow> dependency_fact list" where
  "item_facts s es = resolve_facts (map node_of (snap_items s)) es"

definition item_attributes :: "work_item \<Rightarrow> attrs" where
  "item_attributes child =
     path_attributes (wi_type child) (wi_effort child) (wi_blast_radius child)
       (wi_has_design_artifact child) (wi_has_plan_artifact child) False"

definition dependency_blocked ::
  "work_snapshot \<Rightarrow> work_item \<Rightarrow> pipeline_definition \<Rightarrow> bool result" where
  "dependency_blocked s child d =
     (let attrs = item_attributes child;
          stages = concat (map cand_stages (candidates (resolve_path d attrs)));
          blocked = (\<lambda>phase. unmet (wi_dependency_edges child) (item_facts s (wi_dependency_edges child))
                       phase (Some stages) \<noteq> [])
      in if truthy (wi_phase child) then Inr (blocked (the (wi_phase child)))
         else bind_res (entry_stage d attrs) (\<lambda>entry.
           Inr (case entry of None \<Rightarrow> False | Some stage \<Rightarrow> blocked (stage_str stage))))"

definition descend_candidate :: "work_snapshot \<Rightarrow> pipeline_definition \<Rightarrow> work_item \<Rightarrow> bool result" where
  "descend_candidate s d child =
     (if wi_archived child then Inr False
      else bind_res (dependency_blocked s child d) (\<lambda>blocked.
        Inr (\<not> blocked \<and>
             (wi_work_status child \<in> set (map fst PICK_ORDER) \<or>
              terminal_item child \<and> active_nonterminal_descendants s (wi_path child) \<noteq> []))))"

definition pick_key :: "work_item \<Rightarrow> nat \<times> string \<times> string" where
  "pick_key child =
     ((case map_of PICK_ORDER (wi_work_status child) of None \<Rightarrow> length PICK_ORDER | Some n \<Rightarrow> n),
      wi_opened child, wi_path child)"

lemma child_items_range:
  "c \<in> set (child_items s p) \<Longrightarrow> wi_path c \<in> (wi_path \<circ> snd) ` set (by_path s)"
  by (force simp: child_items_def List.map_filter_def item_at_def split: option.splits dest: map_of_SomeD)

function descend_loop ::
  "work_snapshot \<Rightarrow> pipeline_definition \<Rightarrow> work_item \<Rightarrow> string list \<Rightarrow> string list \<Rightarrow> descend_result result" where
  "descend_loop s d node walked visited =
     (if \<not> child_gated s node
      then Inr \<lparr>desc_path = walked, desc_leaf = Some (wi_path node), desc_blocked_at = None, desc_reason = None\<rparr>
      else bind_res (filter_res (descend_candidate s d) (child_items s (wi_path node))) (\<lambda>cands.
        case sort_key pick_key cands of
          [] \<Rightarrow> Inr \<lparr>desc_path = walked, desc_leaf = None, desc_blocked_at = Some (wi_path node),
                     desc_reason = Some (''no dep-ready child: open children are blocked on ''
                       @ ''dependencies or not dispatchable'')\<rparr>
        | chosen # others \<Rightarrow>
            if wi_path chosen \<in> set visited
            then Inr \<lparr>desc_path = walked, desc_leaf = None, desc_blocked_at = Some (wi_path node),
                      desc_reason = Some (''parent cycle detected: ''
                        @ join '' -> '' (walked @ [wi_path chosen]))\<rparr>
            else descend_loop s d chosen (walked @ [wi_path chosen]) (wi_path chosen # visited)))"
  by pat_completeness auto
termination
proof (relation "measure (\<lambda>(s, d, node, walked, visited).
    card ((wi_path \<circ> snd) ` set (by_path s) - set visited))", goal_cases)
  case 1
  show ?case by simp
next
  case (2 s d node walked visited cands chosen others)
  have "chosen \<in> set (sort_key pick_key cands)" using 2(3) by simp
  then have "chosen \<in> set cands" by simp
  from filter_res_subset [OF 2(2) this] have "wi_path chosen \<in> (wi_path \<circ> snd) ` set (by_path s)"
    by (intro child_items_range [of _ _ "wi_path node"]) simp
  with 2(4) have "card ((wi_path \<circ> snd) ` set (by_path s) - insert (wi_path chosen) (set visited))
      < card ((wi_path \<circ> snd) ` set (by_path s) - set visited)"
    by (intro psubset_card_mono) auto
  then show ?case by simp
qed

declare descend_loop.simps [simp del]

definition descend :: "work_snapshot \<Rightarrow> pipeline_definition \<Rightarrow> string \<Rightarrow> descend_result result" where
  "descend s d path =
     (case item_at s path of
        None \<Rightarrow> Inr \<lparr>desc_path = [path], desc_leaf = None, desc_blocked_at = Some path,
                     desc_reason = Some (''unknown path '' @ repr path)\<rparr>
      | Some node \<Rightarrow> descend_loop s d node [path] [path])"

subsection \<open>The interface to the index\<close>

text \<open>
  What the walks rely on: the index answers a path with the item of that path, and the
  child view returns items the index knows, listed by their parent.
\<close>

locale item_index =
  fixes at :: "string \<Rightarrow> work_item option" and children :: "string \<Rightarrow> work_item list"
  assumes at_path: "at p = Some i \<Longrightarrow> wi_path i = p"
    and child_at: "c \<in> set (children p) \<Longrightarrow> at (wi_path c) = Some c"
    and child_listed: "c \<in> set (children p) \<Longrightarrow>
      \<exists>i. at p = Some i \<and> wi_path c \<in> set (wi_child_paths i)"
begin

lemma child_inject: "c \<in> set (children p) \<Longrightarrow> c' \<in> set (children q) \<Longrightarrow> wi_path c = wi_path c' \<Longrightarrow> c = c'"
  by (metis child_at option.inject)

lemma no_child_of_unknown: "at p = None \<Longrightarrow> children p = []"
  using child_listed [of "hd (children p)" p] by (cases "children p") auto

end

text \<open>A loaded projection is a forest: a child's path extends its parent's.\<close>

locale item_tree = item_index +
  assumes child_parent: "c \<in> set (children p) \<Longrightarrow> wi_parent_path c = Some p"
    and parent_shorter: "at p = Some i \<Longrightarrow> wi_parent_path i = Some q \<Longrightarrow> length q < length p"
begin

lemma child_longer: "c \<in> set (children p) \<Longrightarrow> length p < length (wi_path c)"
  using child_at child_parent parent_shorter by blast

lemma walk_grows:
  "successively (\<lambda>a b. \<exists>c \<in> set (children a). wi_path c = b) (p # ws) \<Longrightarrow> q \<in> set ws \<Longrightarrow> length p < length q"
proof (induction ws arbitrary: p)
  case Nil
  then show ?case by simp
next
  case (Cons w ws)
  then have "length p < length w" and "q \<in> set ws \<Longrightarrow> length w < length q"
    by (auto dest: child_longer)
  with Cons.prems show ?case by auto
qed

lemma walk_acyclic:
  "successively (\<lambda>a b. \<exists>c \<in> set (children a). wi_path c = b) ws \<Longrightarrow> distinct ws"
proof (induction ws)
  case Nil
  then show ?case by simp
next
  case (Cons p ws)
  then show ?case using walk_grows [of p ws] by (cases ws) auto
qed

end

lemma child_items_at:
  assumes "c \<in> set (child_items (as_snapshot items) p)"
  shows "item_at (as_snapshot items) (wi_path c) = Some c"
proof -
  from assms obtain x where "item_at (as_snapshot items) x = Some c"
    by (auto simp: child_items_def List.map_filter_def split: option.splits)
  with item_at_path show ?thesis by blast
qed

interpretation snap: item_index "item_at (as_snapshot items)" "child_items (as_snapshot items)" for items
  by unfold_locales (auto dest: item_at_path child_items_at child_items_path)

lemma loaded_child_parent:
  assumes "c \<in> set (child_items (from_bundle concepts) p)"
  shows "wi_parent_path c = Some p"
proof -
  let ?L = "loaded_items concepts"
  from assms obtain i where i: "item_at (from_bundle concepts) p = Some i"
    "wi_path c \<in> set (wi_child_paths i)" and c: "item_at (from_bundle concepts) (wi_path c) = Some c"
    by (auto simp: from_bundle_eq dest: snap.child_listed snap.child_at)
  from item_at_path i(1) have "i \<in> set (link_items ?L)" "wi_path i = p" by (auto simp: from_bundle_eq)
  with i(2) obtain j where j: "j \<in> set ?L" "wi_parent_path j = Some p" "wi_path j = wi_path c"
    by (auto dest!: link_items_mem)
  from j(1) obtain kd where "project_concept kd = Some j"
    by (auto simp: loaded_items_def List.map_filter_def)
  with j loaded_location [OF c] project_concept_path [of kd j] show ?thesis by auto
qed

lemma parent_path_shorter:
  assumes "parse_item_path p = Some l" and "loc_parent_path l = Some q"
  shows "length q < length p"
proof -
  have "q \<in> set (loc_ancestor_paths l)"
    using assms parent_is_last_ancestor [OF assms(1)] by (auto split: if_splits)
  from parse_ancestors [OF assms(1) this] show ?thesis by auto
qed

interpretation loaded: item_tree "item_at (from_bundle concepts)" "child_items (from_bundle concepts)"
  for concepts
proof
  show "item_at (from_bundle concepts) p = Some i \<Longrightarrow> wi_path i = p" for p i
    by (auto simp: from_bundle_eq dest: item_at_path)
  show "c \<in> set (child_items (from_bundle concepts) p) \<Longrightarrow>
      item_at (from_bundle concepts) (wi_path c) = Some c" for c p
    by (simp add: from_bundle_eq child_items_at)
  show "c \<in> set (child_items (from_bundle concepts) p) \<Longrightarrow>
      \<exists>i. item_at (from_bundle concepts) p = Some i \<and> wi_path c \<in> set (wi_child_paths i)" for c p
    by (simp add: from_bundle_eq snap.child_listed)
  show "c \<in> set (child_items (from_bundle concepts) p) \<Longrightarrow> wi_parent_path c = Some p" for c p
    by (rule loaded_child_parent)
  show "item_at (from_bundle concepts) p = Some i \<Longrightarrow> wi_parent_path i = Some q \<Longrightarrow> length q < length p"
    for p i q by (auto dest!: loaded_location intro: parent_path_shorter)
qed

subsection \<open>Descendants\<close>

lemma descendants_loop_visit:
  "descendants_loop index found seen pending =
     found @ map wi_path (filter (\<lambda>i. \<not> terminal_item i)
       (visit index (\<lambda>i. \<not> wi_archived i) wi_child_paths seen pending))"
  by (induction index found seen pending rule: descendants_loop.induct) (auto split: option.split)

lemma sweep_loop_visit:
  "sweep_loop index seen pending \<longleftrightarrow>
     list_all terminal_item (visit index (\<lambda>_. True) (rev \<circ> wi_child_paths) seen pending)"
  by (induction index seen pending rule: sweep_loop.induct) (auto split: option.split)

text \<open>\<open>q\<close> lies below \<open>p\<close>: child links lead from \<open>p\<close> to it through live items.\<close>

inductive below :: "(work_item \<Rightarrow> bool) \<Rightarrow> work_snapshot \<Rightarrow> string \<Rightarrow> string \<Rightarrow> bool"
  for live s p where
  child: "item_at s p = Some i \<Longrightarrow> q \<in> set (wi_child_paths i) \<Longrightarrow> below live s p q"
| deeper: "below live s p q \<Longrightarrow> item_at s q = Some i \<Longrightarrow> live i \<Longrightarrow> r \<in> set (wi_child_paths i) \<Longrightarrow>
     below live s p r"

lemma reached_below:
  assumes "item_at s p = Some parent" and "set \<circ> kids = set \<circ> wi_child_paths"
  shows "reached (by_path s) live kids {p} (set (kids parent)) q \<longleftrightarrow> q \<noteq> p \<and> below live s p q"
proof
  have kids: "x \<in> set (kids i) \<longleftrightarrow> x \<in> set (wi_child_paths i)" for x i
    using assms(2) by (metis comp_apply)
  show "reached (by_path s) live kids {p} (set (kids parent)) q \<Longrightarrow> q \<noteq> p \<and> below live s p q"
  proof (induction rule: reached.induct)
    case (start q)
    with assms(1) kids show ?case by (auto intro: below.child)
  next
    case (step q v r)
    with kids show ?case by (auto intro: below.deeper simp: item_at_def)
  qed
  have "below live s p q \<Longrightarrow> q \<noteq> p \<longrightarrow> reached (by_path s) live kids {p} (set (kids parent)) q"
  proof (induction rule: below.induct)
    case (child i q)
    with assms(1) kids show ?case by (auto intro: reached.start)
  next
    case (deeper q i r)
    show ?case
    proof (cases "q = p")
      case True
      with deeper assms(1) kids show ?thesis by (auto intro: reached.start)
    next
      case False
      with deeper kids show ?thesis by (auto intro: reached.step [of _ _ _ _ _ q] simp: item_at_def)
    qed
  qed
  then show "q \<noteq> p \<and> below live s p q \<Longrightarrow> reached (by_path s) live kids {p} (set (kids parent)) q"
    by blast
qed

lemma below_known: "below live s p q \<Longrightarrow> item_at s p \<noteq> None"
  by (induction rule: below.induct) auto

lemma descendants_iff:
  assumes "s = as_snapshot items"
  shows "q \<in> set (active_nonterminal_descendants s p) \<longleftrightarrow>
    q \<noteq> p \<and> below (\<lambda>i. \<not> wi_archived i) s p q \<and>
    (\<exists>i. item_at s q = Some i \<and> \<not> wi_archived i \<and> \<not> terminal_item i)"
proof (cases "item_at s p")
  case None
  then show ?thesis by (auto simp: active_nonterminal_descendants_def dest: below_known)
next
  case (Some parent)
  have "active_nonterminal_descendants s p = sort (map wi_path (filter (\<lambda>i. \<not> terminal_item i)
      (visit (by_path s) (\<lambda>i. \<not> wi_archived i) wi_child_paths [p] (wi_child_paths parent))))"
    by (simp add: active_nonterminal_descendants_def Some descendants_loop_visit)
  then have "q \<in> set (active_nonterminal_descendants s p) \<longleftrightarrow>
      (\<exists>x i. reached (by_path s) (\<lambda>i. \<not> wi_archived i) wi_child_paths {p} (set (wi_child_paths parent)) x \<and>
         item_at s x = Some i \<and> \<not> wi_archived i \<and> \<not> terminal_item i \<and> q = wi_path i)"
    by (auto simp: set_visit item_at_def image_iff)
  also have "\<dots> \<longleftrightarrow> q \<noteq> p \<and> below (\<lambda>i. \<not> wi_archived i) s p q \<and>
      (\<exists>i. item_at s q = Some i \<and> \<not> wi_archived i \<and> \<not> terminal_item i)"
    unfolding reached_below [OF Some refl] using snap.at_path [of items] assms by blast
  finally show ?thesis .
qed

lemma sorted_descendants: "sorted (active_nonterminal_descendants s p)"
  by (simp add: active_nonterminal_descendants_def split: option.split)

lemma distinct_descendants: "distinct (active_nonterminal_descendants (as_snapshot items) p)"
proof (cases "item_at (as_snapshot items) p")
  case None
  then show ?thesis by (simp add: active_nonterminal_descendants_def)
next
  case (Some parent)
  have "distinct (map wi_path (visit (by_path (as_snapshot items)) (\<lambda>i. \<not> wi_archived i) wi_child_paths
      [p] (wi_child_paths parent)))"
    by (rule distinct_visit) (use snap.at_path [of items] in \<open>simp add: item_at_def\<close>)
  then have "distinct (map wi_path (filter (\<lambda>i. \<not> terminal_item i)
      (visit (by_path (as_snapshot items)) (\<lambda>i. \<not> wi_archived i) wi_child_paths [p] (wi_child_paths parent))))"
    by (rule distinct_map_filter)
  with Some show ?thesis by (simp add: active_nonterminal_descendants_def descendants_loop_visit)
qed

lemma sweep_eligible_iff:
  assumes "s = as_snapshot items" and "item_at s (wi_path item) = Some item"
  shows "sweep_eligible s item \<longleftrightarrow>
    wi_ancestor_paths item = [] \<and> wi_parent_path item = None \<and> \<not> wi_archived item \<and> terminal_item item \<and>
    (\<forall>q i. below (\<lambda>_. True) s (wi_path item) q \<longrightarrow> item_at s q = Some i \<longrightarrow> terminal_item i)"
proof -
  have kids: "set \<circ> (rev \<circ> wi_child_paths) = set \<circ> wi_child_paths" by auto
  have "sweep_loop (by_path s) [wi_path item] (rev (wi_child_paths item)) \<longleftrightarrow>
      (\<forall>q i. q \<noteq> wi_path item \<longrightarrow> below (\<lambda>_. True) s (wi_path item) q \<longrightarrow> item_at s q = Some i
        \<longrightarrow> terminal_item i)"
    using reached_below [OF assms(2) kids, where live = "\<lambda>_. True"]
    by (auto simp: sweep_loop_visit list_all_iff set_visit item_at_def)
  moreover have "(\<forall>q i. q \<noteq> wi_path item \<longrightarrow> below (\<lambda>_. True) s (wi_path item) q \<longrightarrow>
        item_at s q = Some i \<longrightarrow> terminal_item i) \<longleftrightarrow>
      (\<forall>q i. below (\<lambda>_. True) s (wi_path item) q \<longrightarrow> item_at s q = Some i \<longrightarrow> terminal_item i)"
    if "terminal_item item"
    using assms(2) that by (metis option.inject)
  ultimately show ?thesis unfolding sweep_eligible_def by auto
qed

subsection \<open>Climbing and descending\<close>

text \<open>On a loaded projection the climb is a search of the item's own path and its ancestors.\<close>

fun nearest_in :: "work_snapshot \<Rightarrow> (work_item \<Rightarrow> bool) \<Rightarrow> string list \<Rightarrow> string option" where
  "nearest_in s wanted [] = None"
| "nearest_in s wanted (p # ps) =
     (case item_at s p of
        None \<Rightarrow> None
      | Some i \<Rightarrow> if wanted i then Some p else nearest_in s wanted ps)"

lemma ancestors_of_parent:
  assumes "parse_item_path p = Some l" and "loc_parent_path l = Some q"
  shows "\<exists>lq. parse_item_path q = Some lq \<and> loc_ancestor_paths l = loc_ancestor_paths lq @ [q]"
  using assms(1) by (cases rule: parse_item_path_cases) (use assms(2) in auto)

lemma climb_loaded:
  assumes "parse_item_path p = Some l" and "\<forall>q \<in> set seen. length p < length q"
  shows "climb (by_path (from_bundle concepts)) wanted seen (Some p) =
    nearest_in (from_bundle concepts) wanted (p # rev (loc_ancestor_paths l))"
  using assms
proof (induction "length p" arbitrary: p l seen rule: less_induct)
  case less
  from less.prems(2) have "p \<notin> set seen" by auto
  show ?case
  proof (cases "item_at (from_bundle concepts) p")
    case None
    with \<open>p \<notin> set seen\<close> show ?thesis by (simp add: climb.simps item_at_def)
  next
    case (Some i)
    from loaded_location [OF this] less.prems(1)
    have i: "wi_path i = p" "wi_parent_path i = loc_parent_path l" by auto
    have unfold: "climb (by_path (from_bundle concepts)) wanted seen (Some p) =
        (if wanted i then Some p
         else climb (by_path (from_bundle concepts)) wanted (p # seen) (loc_parent_path l))"
      using Some \<open>p \<notin> set seen\<close> i by (subst climb.simps) (simp add: item_at_def)
    show ?thesis
    proof (cases "loc_parent_path l")
      case None
      then have "loc_ancestor_paths l = []"
        using parent_is_last_ancestor [OF less.prems(1)] by (simp split: if_splits)
      with None Some show ?thesis unfolding unfold by (simp add: climb.simps)
    next
      case parent: (Some q)
      from ancestors_of_parent [OF less.prems(1) parent] obtain lq where
        lq: "parse_item_path q = Some lq" "loc_ancestor_paths l = loc_ancestor_paths lq @ [q]" by blast
      have "length q < length p" by (rule parent_path_shorter [OF less.prems(1) parent])
      with less.prems(2) have "\<forall>r \<in> set (p # seen). length q < length r" by auto
      from less.hyps [OF \<open>length q < length p\<close> lq(1) this] parent lq(2) Some show ?thesis
        unfolding unfold by simp
    qed
  qed
qed

lemma nearest_parent_loaded:
  "parse_item_path p = Some l \<Longrightarrow>
     nearest_parent (from_bundle concepts) p =
       nearest_in (from_bundle concepts) (\<lambda>i. wi_type i \<in> set PARENT_TYPES) (p # rev (loc_ancestor_paths l))"
  by (simp add: nearest_parent_def climb_loaded)

text \<open>One step of the descent: from a gated item to a dispatchable child.\<close>

definition descend_link :: "work_snapshot \<Rightarrow> pipeline_definition \<Rightarrow> string \<Rightarrow> string \<Rightarrow> bool" where
  "descend_link s d p q \<longleftrightarrow>
     (\<exists>i c. item_at s p = Some i \<and> child_gated s i \<and> c \<in> set (child_items s p) \<and> wi_path c = q \<and>
        descend_candidate s d c = Inr True)"

lemma successively_snoc:
  "ws \<noteq> [] \<Longrightarrow> successively P (ws @ [w]) \<longleftrightarrow> successively P ws \<and> P (last ws) w"
  by (simp add: successively_append_iff)

lemma descend_loop_walk:
  assumes "descend_loop s d node walked visited = Inr r" and "s = as_snapshot items"
    and "item_at s (wi_path node) = Some node" and "walked \<noteq> []" and "last walked = wi_path node"
    and "successively (descend_link s d) walked" and "distinct walked" and "set visited = set walked"
  shows "successively (descend_link s d) (desc_path r) \<and> distinct (desc_path r) \<and>
    take (length walked) (desc_path r) = walked \<and>
    (\<exists>i. item_at s (last (desc_path r)) = Some i \<and>
       (if child_gated s i then desc_leaf r = None \<and> desc_blocked_at r = Some (last (desc_path r))
        else desc_leaf r = Some (last (desc_path r)) \<and> desc_blocked_at r = None))"
  using assms
proof (induction s d node walked visited rule: descend_loop.induct)
  case (1 s d node walked visited)
  show ?case
  proof (cases "child_gated s node")
    case False
    with "1.prems" show ?thesis by (subst (asm) descend_loop.simps) auto
  next
    case True
    with "1.prems"(1) obtain cands where
      cands: "filter_res (descend_candidate s d) (child_items s (wi_path node)) = Inr cands"
      by (subst (asm) descend_loop.simps) (auto simp: bind_res_eq_Inr)
    show ?thesis
    proof (cases "sort_key pick_key cands")
      case Nil
      with True cands "1.prems" show ?thesis by (subst (asm) descend_loop.simps) auto
    next
      case (Cons chosen others)
      show ?thesis
      proof (cases "wi_path chosen \<in> set visited")
        case True
        with \<open>child_gated s node\<close> cands Cons "1.prems" show ?thesis
          by (subst (asm) descend_loop.simps) auto
      next
        case False
        have "chosen \<in> set (sort_key pick_key cands)" by (simp add: Cons)
        with filter_res_subset [OF cands] have c: "chosen \<in> set (child_items s (wi_path node))"
          "descend_candidate s d chosen = Inr True" by auto
        with "1.prems"(2,3,5) \<open>child_gated s node\<close> have "descend_link s d (last walked) (wi_path chosen)"
          unfolding descend_link_def by auto
        moreover have "item_at s (wi_path chosen) = Some chosen"
          using c(1) "1.prems"(2) by (simp add: snap.child_at)
        moreover have "descend_loop s d chosen (walked @ [wi_path chosen]) (wi_path chosen # visited) = Inr r"
          using "1.prems"(1) True cands Cons False by (subst (asm) descend_loop.simps) auto
        ultimately have "successively (descend_link s d) (desc_path r) \<and> distinct (desc_path r) \<and>
            take (length (walked @ [wi_path chosen])) (desc_path r) = walked @ [wi_path chosen] \<and>
            (\<exists>i. item_at s (last (desc_path r)) = Some i \<and>
              (if child_gated s i then desc_leaf r = None \<and> desc_blocked_at r = Some (last (desc_path r))
               else desc_leaf r = Some (last (desc_path r)) \<and> desc_blocked_at r = None))"
          using "1.prems"(2-8) False True by (intro "1.IH" [OF _ cands Cons]) (auto simp: successively_snoc)
        moreover then have "take (length walked) (desc_path r) = walked"
          by (metis append_eq_conv_conj append_take_drop_id append_assoc)
        ultimately show ?thesis by blast
      qed
    qed
  qed
qed

lemma descend_link_child:
  "descend_link s d p q \<Longrightarrow> \<exists>c \<in> set (child_items s p). wi_path c = q"
  by (auto simp: descend_link_def)

lemma descend_walk:
  assumes "descend (as_snapshot items) d p = Inr r" and "item_at (as_snapshot items) p \<noteq> None"
  shows "successively (descend_link (as_snapshot items) d) (desc_path r)" and "distinct (desc_path r)"
    and "hd (desc_path r) = p"
    and "\<exists>i. item_at (as_snapshot items) (last (desc_path r)) = Some i \<and>
      (if child_gated (as_snapshot items) i
       then desc_leaf r = None \<and> desc_blocked_at r = Some (last (desc_path r))
       else desc_leaf r = Some (last (desc_path r)) \<and> desc_blocked_at r = None)"
proof -
  from assms obtain node where node: "item_at (as_snapshot items) p = Some node"
    "descend_loop (as_snapshot items) d node [p] [p] = Inr r"
    by (auto simp: descend_def)
  with snap.at_path have "wi_path node = p" by blast
  note * = descend_loop_walk [OF node(2) refl]
  show "successively (descend_link (as_snapshot items) d) (desc_path r)" and "distinct (desc_path r)"
    and "hd (desc_path r) = p"
    and "\<exists>i. item_at (as_snapshot items) (last (desc_path r)) = Some i \<and>
      (if child_gated (as_snapshot items) i
       then desc_leaf r = None \<and> desc_blocked_at r = Some (last (desc_path r))
       else desc_leaf r = Some (last (desc_path r)) \<and> desc_blocked_at r = None)"
    using * node(1) \<open>wi_path node = p\<close> by (cases "desc_path r"; auto)+
qed

text \<open>With the definitions the parser accepts, no step of the descent raises.\<close>

lemma entry_stage_total:
  assumes "wf_definition d"
  shows "\<exists>e. entry_stage d attrs = Inr e"
proof (cases "complete (resolve_path d attrs)")
  case False
  then show ?thesis by (simp add: entry_stage_def Let_def)
next
  case True
  have "first_stage (cand_stages c) = Inr (hd (cand_stages c))"
    if "c \<in> set (candidates (resolve_path d attrs))" for c
    using candidate_wf [OF assms that] by (cases "cand_stages c") (auto simp: wf_stages_def first_stage_def)
  then have "map_res (\<lambda>c. first_stage (cand_stages c)) (candidates (resolve_path d attrs)) =
      Inr (map (\<lambda>c. hd (cand_stages c)) (candidates (resolve_path d attrs)))"
    by (rule map_res_cong_pure)
  with True show ?thesis by (auto simp: entry_stage_def Let_def split: list.split)
qed

lemma descend_candidate_total: "wf_definition d \<Longrightarrow> \<exists>b. descend_candidate s d c = Inr b"
  using entry_stage_total [of d "item_attributes c"]
  by (auto simp: descend_candidate_def dependency_blocked_def Let_def)

lemma filter_res_total: "(\<And>x. x \<in> set xs \<Longrightarrow> \<exists>b. f x = Inr b) \<Longrightarrow> \<exists>ys. filter_res f xs = Inr ys"
  by (induction xs) (simp, fastforce)

lemma descend_loop_total: "wf_definition d \<Longrightarrow> \<exists>r. descend_loop s d node walked visited = Inr r"
proof (induction s d node walked visited rule: descend_loop.induct)
  case (1 s d node walked visited)
  from filter_res_total [of _ "descend_candidate s d"] descend_candidate_total [OF "1.prems"]
  obtain cands where cands: "filter_res (descend_candidate s d) (child_items s (wi_path node)) = Inr cands"
    by blast
  show ?case
  proof (cases "child_gated s node")
    case False
    then show ?thesis by (subst descend_loop.simps) simp
  next
    case True
    with 1 cands show ?thesis by (subst descend_loop.simps) (auto split: list.split)
  qed
qed

lemma filter_res_keeps: "filter_res f xs = Inr ys \<Longrightarrow> x \<in> set xs \<Longrightarrow> f x = Inr True \<Longrightarrow> x \<in> set ys"
proof (induction xs arbitrary: ys)
  case Nil
  then show ?case by simp
next
  case (Cons a xs)
  then obtain keep zs where "f a = Inr keep" "filter_res f xs = Inr zs"
    "ys = (if keep then a # zs else zs)" by (auto simp: bind_res_eq_Inr)
  with Cons show ?case by auto
qed

text \<open>On a loaded projection the descent never runs into a cycle: it stops without a leaf
  only where no child can be dispatched.\<close>

lemma descend_loop_stuck:
  assumes "descend_loop s d node walked visited = Inr r" and "s = from_bundle concepts"
    and "\<forall>q \<in> set visited. length q \<le> length (wi_path node)" and "walked \<noteq> []" "last walked = wi_path node"
    and "desc_leaf r = None" and "c \<in> set (child_items s (last (desc_path r)))"
  shows "descend_candidate s d c \<noteq> Inr True"
  using assms
proof (induction s d node walked visited rule: descend_loop.induct)
  case (1 s d node walked visited)
  from "1.prems"(1,6) have gated: "child_gated s node"
    by (subst (asm) descend_loop.simps) (auto split: if_splits)
  with "1.prems"(1) obtain cands where
    cands: "filter_res (descend_candidate s d) (child_items s (wi_path node)) = Inr cands"
    by (subst (asm) descend_loop.simps) (auto simp: bind_res_eq_Inr)
  show ?case
  proof (cases "sort_key pick_key cands")
    case Nil
    then have "cands = []" by (metis set_empty set_sort)
    have "desc_path r = walked"
      using gated cands Nil "1.prems"(1) by (subst (asm) descend_loop.simps) auto
    with "1.prems"(5,7) have "c \<in> set (child_items s (wi_path node))" by simp
    with cands \<open>cands = []\<close> show ?thesis using filter_res_keeps by fastforce
  next
    case (Cons chosen others)
    have "chosen \<in> set (sort_key pick_key cands)" by (simp add: Cons)
    with filter_res_subset [OF cands] have c: "chosen \<in> set (child_items s (wi_path node))" by auto
    then have longer: "length (wi_path node) < length (wi_path chosen)"
      using "1.prems"(2) loaded.child_longer by simp
    with "1.prems"(3) have fresh: "wi_path chosen \<notin> set visited" by auto
    then have "descend_loop s d chosen (walked @ [wi_path chosen]) (wi_path chosen # visited) = Inr r"
      using "1.prems"(1) gated cands Cons by (subst (asm) descend_loop.simps) auto
    then show ?thesis
      using "1.prems" longer gated fresh
      by (intro "1.IH" [OF _ cands Cons]) (auto intro: order_trans less_imp_le)
  qed
qed

subsection \<open>Properties\<close>

text \<open>A small bundle: an epic in its execute stage, a feature below it, a terminal bug below that.\<close>

definition sample_page :: "string \<Rightarrow> string \<Rightarrow> string \<Rightarrow> concept" where
  "sample_page ty status phase =
     \<lparr>con_data = [(''type'', YStr ty), (''work_status'', YStr status), (''phase'', YStr phase)],
      con_tags = [], con_sources = []\<rparr>"

definition sample_bundle :: "(string \<times> concept) list" where
  "sample_bundle =
     [(''work/e/children/f/children/b'', sample_page ''Bug'' ''resolved'' ''done''),
      (''work/e'', sample_page ''Epic'' ''in-progress'' ''execute''),
      (''notes/x'', sample_page ''Note'' [] []),
      (''work/e/children/f'', sample_page ''Feature'' ''accepted'' ''plan'')]"

definition sample_snapshot :: work_snapshot where
  "sample_snapshot = from_bundle sample_bundle"

lemma sample_snapshot_items: "sample_snapshot = as_snapshot (link_items (loaded_items sample_bundle))"
  by (simp add: sample_snapshot_def from_bundle_eq)

lemma sample_known: "item_at sample_snapshot ''work/e'' \<noteq> None"
  by code_simp

text \<open>The two child views of a loaded snapshot agree: an item's own child paths resolve to
  the items grouped under its path, in the same order.\<close>

theorem child_views_agree:
  assumes "distinct (map fst concepts)" and "item_at (from_bundle concepts) p \<noteq> None"
  shows "child_items (from_bundle concepts) p =
    (case map_of (by_parent (from_bundle concepts)) p of None \<Rightarrow> [] | Some cs \<Rightarrow> cs)"
proof -
  from assms(2) obtain i where i: "item_at (from_bundle concepts) p = Some i" by auto
  with loaded_location have "p \<noteq> []" by fastforce
  with by_parent_as_snapshot child_items_linked [OF distinct_loaded [OF assms(1)] i [unfolded from_bundle_eq]]
  show ?thesis by (simp add: from_bundle_eq)
qed

theorem child_views_agree_witness:
  "child_items sample_snapshot ''work/e'' =
     (case map_of (by_parent sample_snapshot) ''work/e'' of None \<Rightarrow> [] | Some cs \<Rightarrow> cs)"
  using child_views_agree [of sample_bundle "''work/e''"] sample_known
  by (simp add: sample_snapshot_def) (simp add: sample_bundle_def)

text \<open>C24. \<open>active_nonterminal_descendants\<close> lists, sorted and without repeats, exactly the
  unarchived nonterminal items that child links reach from the parent through unarchived
  items, cycles in the links included.\<close>

theorem descendants_exact:
  "sorted (active_nonterminal_descendants (as_snapshot items) p) \<and>
   distinct (active_nonterminal_descendants (as_snapshot items) p) \<and>
   set (active_nonterminal_descendants (as_snapshot items) p) =
     {q. q \<noteq> p \<and> below (\<lambda>i. \<not> wi_archived i) (as_snapshot items) p q \<and>
        (\<exists>i. item_at (as_snapshot items) q = Some i \<and> \<not> wi_archived i \<and> \<not> terminal_item i)}"
  using descendants_iff [OF refl, of _ items p]
  by (auto simp: sorted_descendants distinct_descendants)

text \<open>C25. The archive sweep selects an item exactly when it is an unarchived top-level root, is
  terminal, and everything below it at any depth is terminal.\<close>

theorem sweep_exact:
  assumes "item_at (as_snapshot items) (wi_path item) = Some item"
  shows "sweep_eligible (as_snapshot items) item \<longleftrightarrow>
    wi_ancestor_paths item = [] \<and> wi_parent_path item = None \<and> \<not> wi_archived item \<and> terminal_item item \<and>
    (\<forall>q i. below (\<lambda>_. True) (as_snapshot items) (wi_path item) q \<longrightarrow>
       item_at (as_snapshot items) q = Some i \<longrightarrow> terminal_item i)"
  by (rule sweep_eligible_iff [OF refl assms])

theorem sweep_exact_witness:
  "\<not> sweep_eligible sample_snapshot (the (item_at sample_snapshot ''work/e''))"
proof -
  let ?i = "the (item_at sample_snapshot ''work/e'')"
  have "item_at sample_snapshot (wi_path ?i) = Some ?i"
    using sample_known snap.at_path by (fastforce simp: sample_snapshot_items)
  moreover have "\<not> terminal_item ?i" by code_simp
  ultimately show ?thesis using sweep_exact by (simp add: sample_snapshot_items)
qed

text \<open>In a loaded bundle the nearest container of a path is the first Release, Epic or Feature
  among the item itself and its ancestors from the nearest up, provided every page in between
  exists.\<close>

theorem nearest_container:
  assumes "parse_item_path p = Some l"
  shows "nearest_parent (from_bundle concepts) p =
    nearest_in (from_bundle concepts) (\<lambda>i. wi_type i \<in> set PARENT_TYPES) (p # rev (loc_ancestor_paths l))"
  by (rule nearest_parent_loaded [OF assms])

theorem nearest_container_witness:
  "nearest_parent sample_snapshot ''work/e/children/f/children/b'' = Some ''work/e/children/f''"
proof -
  let ?p = "''work/e/children/f/children/b''"
  obtain l where l: "parse_item_path ?p = Some l" "loc_ancestor_paths l = [''work/e'', ''work/e/children/f'']"
  proof -
    have "map_option loc_ancestor_paths (parse_item_path ?p) = Some [''work/e'', ''work/e/children/f'']"
      by code_simp
    with that show thesis by auto
  qed
  have "nearest_in sample_snapshot (\<lambda>i. wi_type i \<in> set PARENT_TYPES)
      (?p # rev [''work/e'', ''work/e/children/f'']) = Some ''work/e/children/f''" by code_simp
  with nearest_container [OF l(1)] l(2) show ?thesis by (simp add: sample_snapshot_def)
qed

text \<open>C23. The descent returns for every definition the parser accepts, on cyclic projections too;
  it follows gated items to dispatchable children without visiting a path twice, and its last
  item is a leaf exactly when it is not child-gated.\<close>

theorem descent_walks:
  assumes "wf_definition d" and "item_at (as_snapshot items) p \<noteq> None"
  shows "\<exists>r. descend (as_snapshot items) d p = Inr r \<and> hd (desc_path r) = p \<and> distinct (desc_path r) \<and>
    successively (descend_link (as_snapshot items) d) (desc_path r) \<and>
    (\<exists>i. item_at (as_snapshot items) (last (desc_path r)) = Some i \<and>
       desc_leaf r = (if child_gated (as_snapshot items) i then None else Some (last (desc_path r))))"
proof -
  from assms(2) obtain node where "item_at (as_snapshot items) p = Some node" by auto
  with descend_loop_total [OF assms(1)] obtain r where r: "descend (as_snapshot items) d p = Inr r"
    by (fastforce simp: descend_def)
  note walk = descend_walk [OF r assms(2)]
  from walk(4) obtain i where "item_at (as_snapshot items) (last (desc_path r)) = Some i"
    "desc_leaf r = (if child_gated (as_snapshot items) i then None else Some (last (desc_path r)))"
    by (auto split: if_splits)
  with r walk(1-3) show ?thesis by blast
qed

theorem descent_walks_witness:
  "\<exists>r. descend sample_snapshot PACKAGED_DEFINITION ''work/e'' = Inr r \<and> hd (desc_path r) = ''work/e''"
  using descent_walks [OF wf_packaged] sample_known by (fastforce simp: sample_snapshot_items)

text \<open>On a loaded bundle the descent never meets a cycle: it stops without a leaf only where
  the item is gated and none of its children can be dispatched.\<close>

theorem descent_stuck_means_no_child:
  assumes "descend (from_bundle concepts) d p = Inr r" and "item_at (from_bundle concepts) p \<noteq> None"
    and "desc_leaf r = None" and "c \<in> set (child_items (from_bundle concepts) (last (desc_path r)))"
  shows "descend_candidate (from_bundle concepts) d c \<noteq> Inr True"
proof -
  from assms(1,2) obtain node where node: "item_at (from_bundle concepts) p = Some node"
    "descend_loop (from_bundle concepts) d node [p] [p] = Inr r"
    by (auto simp: descend_def)
  with loaded.at_path have "wi_path node = p" by blast
  with node(2) assms(3,4) show ?thesis by (intro descend_loop_stuck [OF node(2) refl]) auto
qed

text \<open>The descent through a bundle whose only child of the gated epic waits on an unknown item.\<close>

definition stuck_bundle :: "(string \<times> concept) list" where
  "stuck_bundle =
     [(''work/e'', sample_page ''Epic'' ''in-progress'' ''execute''),
      (''work/e/children/f'', (sample_page ''Feature'' ''accepted'' ''plan'')
         \<lparr>con_data := [(''type'', YStr ''Feature''), (''work_status'', YStr ''accepted''), (''phase'', YStr ''plan''),
            (''depends_on'', YList [YMap [(''path'', YStr ''work/z''), (''blocks'', YStr ''plan''),
                                          (''needs'', YStr ''resolved'')]])]\<rparr>)]"

theorem descent_stuck_means_no_child_witness:
  "child_items (from_bundle stuck_bundle) ''work/e'' \<noteq> [] \<and>
   descend_candidate (from_bundle stuck_bundle) PACKAGED_DEFINITION
     (hd (child_items (from_bundle stuck_bundle) ''work/e'')) \<noteq> Inr True"
proof
  show children: "child_items (from_bundle stuck_bundle) ''work/e'' \<noteq> []" by code_simp
  let ?r = "projr (descend (from_bundle stuck_bundle) PACKAGED_DEFINITION ''work/e'')"
  have "descend (from_bundle stuck_bundle) PACKAGED_DEFINITION ''work/e'' = Inr ?r"
    and "item_at (from_bundle stuck_bundle) ''work/e'' \<noteq> None" and "desc_leaf ?r = None"
    and "last (desc_path ?r) = ''work/e''" by code_simp+
  with children show "descend_candidate (from_bundle stuck_bundle) PACKAGED_DEFINITION
      (hd (child_items (from_bundle stuck_bundle) ''work/e'')) \<noteq> Inr True"
    by (intro descent_stuck_means_no_child) auto
qed

end
