(* ===== verification/Affects.thy ===== *)
theory Affects
  imports Pipeline
begin

text \<open>
  What an item's \<open>affects\<close> declares (\<open>work_tracker_okf/affects.py\<close>): code paths and the
  reserved workspace value, the files a plan names, and the drift between the two.
\<close>

definition WORKSPACE_AFFECTS :: string where
  "WORKSPACE_AFFECTS = ''gw:workspace''"

definition code_affects :: "string list \<Rightarrow> string list" where
  "code_affects affects = filter (\<lambda>entry. entry \<noteq> WORKSPACE_AFFECTS) affects"

definition touches_workspace :: "string list \<Rightarrow> bool" where
  "touches_workspace affects \<longleftrightarrow> list_ex (\<lambda>entry. entry = WORKSPACE_AFFECTS) affects"

subsection \<open>Files a plan names\<close>

definition BULLETS :: "string list" where
  "BULLETS = [''Create:'', ''Modify:'', ''Test:'', ''Delete:'']"

definition BACKTICK :: char where "BACKTICK = CHR 0x60"

text \<open>The match of \<open>^\s*-\s*(?:Create|Modify|Test|Delete):\s*`([^`]+)`\<close>: the quoted token.\<close>

definition file_bullet :: "string \<Rightarrow> string option" where
  "file_bullet line =
     (case lstrip line of
        [] \<Rightarrow> None
      | c # cs \<Rightarrow>
          if c \<noteq> CHR ''-'' then None
          else let body = lstrip cs in
            case find (starts_with body) BULLETS of
              None \<Rightarrow> None
            | Some verb \<Rightarrow>
                (case lstrip (drop (length verb) body) of
                   [] \<Rightarrow> None
                 | q # rest \<Rightarrow>
                     let token = takeWhile (\<lambda>c. c \<noteq> BACKTICK) rest
                     in if q = BACKTICK \<and> token \<noteq> [] \<and> length token < length rest
                        then Some token else None))"

text \<open>\<open>re.sub(":\d+(?:-\d+)?$", "", token)\<close> on a token: the text before the line suffix, if
  the token ends in one; the token itself otherwise.\<close>

definition line_suffix_rx :: rx where
  "line_suffix_rx =
     RSeq (rx_lit '':'') (RSeq (rx_plus (RChr is_digit))
       (RAlt ROne (RSeq (rx_lit ''-'') (rx_plus (RChr is_digit)))))"

fun strip_line_suffix :: "string \<Rightarrow> string" where
  "strip_line_suffix [] = []"
| "strip_line_suffix (c # cs) =
     (if fullmatch line_suffix_rx (c # cs) then [] else c # strip_line_suffix cs)"

definition plan_file_of :: "string \<Rightarrow> string option" where
  "plan_file_of line =
     (case file_bullet line of
        None \<Rightarrow> None
      | Some quoted \<Rightarrow>
          let token = strip_line_suffix (strip quoted)
          in if token \<noteq> [] \<and> \<not> starts_with token ''/'' then Some token else None)"

definition plan_files :: "string \<Rightarrow> string list" where
  "plan_files plan_text = first_seen (List.map_filter plan_file_of (splitlines plan_text))"

subsection \<open>Drift\<close>

record drift =
  uncovered :: "string list"
  widening :: "string list"

text \<open>The parts of a \<open>PurePosixPath\<close> but a root \<open>/\<close>: \<open>.\<close> and empty segments drop, \<open>..\<close> stays,
  and a path that starts with exactly two slashes keeps its root \<open>//\<close>.\<close>

definition path_parts :: "string \<Rightarrow> string list" where
  "path_parts path =
     (let s = strip path
      in (if starts_with s ''//'' \<and> \<not> starts_with s ''///'' then [''//''] else [])
         @ filter (\<lambda>part. part \<noteq> [] \<and> part \<noteq> ''.'') (split_on (CHR ''/'') s))"

definition contains_path :: "string list \<Rightarrow> string list \<Rightarrow> bool" where
  "contains_path entry file \<longleftrightarrow> take (length entry) file = entry"

fun shared_prefix :: "string list \<Rightarrow> string list \<Rightarrow> string list" where
  "shared_prefix (l # left) (r # right) = (if l \<noteq> r then [] else l # shared_prefix left right)"
| "shared_prefix _ _ = []"

text \<open>\<open>max(..., key=len, default=())\<close>: the first longest prefix.\<close>

fun longest :: "string list list \<Rightarrow> string list" where
  "longest [] = []"
| "longest (x # xs) = (let y = longest xs in if length y > length x then y else x)"

definition suggestion :: "string list list \<Rightarrow> string \<Rightarrow> string list" where
  "suggestion entries file =
     (let parts = path_parts file; best = longest (map (shared_prefix parts) entries)
      in if 2 \<le> length best then best else if butlast parts \<noteq> [] then butlast parts else parts)"

definition affects_drift :: "string list \<Rightarrow> string list \<Rightarrow> drift" where
  "affects_drift files declared =
     (let entries = map path_parts (filter (\<lambda>entry. strip entry \<noteq> []) declared);
          unc = filter (\<lambda>file. \<not> list_ex (\<lambda>entry. contains_path entry (path_parts file)) entries) files;
          suggestions = remdups (map (suggestion entries) unc);
          collapsed = filter (\<lambda>s. \<not> list_ex (\<lambda>t. t \<noteq> s \<and> contains_path t s) suggestions) suggestions
      in \<lparr>uncovered = unc, widening = sort (map (join ''/'') collapsed)\<rparr>)"

definition needs_affects_hint :: "string \<Rightarrow> bool \<Rightarrow> bool \<Rightarrow> string list \<Rightarrow> bool" where
  "needs_affects_hint ty has_parent has_children affects \<longleftrightarrow>
     has_parent \<and> \<not> has_children \<and> ty \<notin> set DECOMPOSING_TYPES \<and>
     \<not> list_ex (\<lambda>entry. strip entry \<noteq> []) affects"

subsection \<open>What the widening covers\<close>

lemma contains_path_refl [simp]: "contains_path s s"
  by (simp add: contains_path_def)

lemma contains_path_iff: "contains_path s t \<longleftrightarrow> (\<exists>u. t = s @ u)"
  by (auto simp: contains_path_def) (metis append_take_drop_id)

lemma contains_path_trans: "contains_path r s \<Longrightarrow> contains_path s t \<Longrightarrow> contains_path r t"
  by (auto simp: contains_path_iff)

lemma shared_prefix_left: "contains_path (shared_prefix a b) a"
  by (induction a b rule: shared_prefix.induct) (auto simp: contains_path_def)

lemma longest_in: "longest xs \<noteq> [] \<Longrightarrow> longest xs \<in> set xs"
  by (induction xs) (auto simp: Let_def split: if_splits)

lemma suggestion_contains: "contains_path (suggestion entries file) (path_parts file)"
proof -
  let ?p = "path_parts file"
  have "contains_path (butlast ?p) ?p"
    by (cases ?p rule: rev_cases) (auto simp: contains_path_iff)
  moreover have "contains_path (longest (map (shared_prefix ?p) entries)) ?p"
  proof (cases "longest (map (shared_prefix ?p) entries) = []")
    case True
    then show ?thesis by (simp add: contains_path_def)
  next
    case False
    with longest_in have "longest (map (shared_prefix ?p) entries) \<in> shared_prefix ?p ` set entries"
      by fastforce
    then show ?thesis using shared_prefix_left by auto
  qed
  ultimately show ?thesis by (simp add: suggestion_def Let_def)
qed

text \<open>Collapsing keeps, for every suggestion, one that contains it.\<close>

lemma minimal_container:
  assumes "s \<in> set ss"
  shows "\<exists>t \<in> set ss. contains_path t s \<and> \<not> list_ex (\<lambda>u. u \<noteq> t \<and> contains_path u t) ss"
  using assms
proof (induction "length s" arbitrary: s rule: less_induct)
  case less
  show ?case
  proof (cases "list_ex (\<lambda>u. u \<noteq> s \<and> contains_path u s) ss")
    case False
    with less.prems show ?thesis by (intro bexI [of _ s]) auto
  next
    case True
    then obtain u where u: "u \<in> set ss" "u \<noteq> s" "contains_path u s" by (auto simp: list_ex_iff)
    then have "length u < length s" by (auto simp: contains_path_iff)
    from less.hyps [OF this u(1)] u(3) show ?thesis by (meson contains_path_trans)
  qed
qed

lemma drift_uncovered:
  "set (uncovered (affects_drift files affects)) =
     {f \<in> set files. \<forall>entry \<in> set affects. strip entry \<noteq> [] \<longrightarrow>
        \<not> contains_path (path_parts entry) (path_parts f)}"
  by (auto simp: affects_drift_def Let_def list_ex_iff)

lemma drift_widening:
  assumes "f \<in> set (uncovered (affects_drift files affects))"
  shows "\<exists>s. join ''/'' s \<in> set (widening (affects_drift files affects)) \<and> contains_path s (path_parts f)"
proof -
  define entries where "entries = map path_parts (filter (\<lambda>entry. strip entry \<noteq> []) affects)"
  define unc where "unc = filter (\<lambda>file. \<not> list_ex (\<lambda>entry. contains_path entry (path_parts file)) entries) files"
  define ss where "ss = remdups (map (suggestion entries) unc)"
  have drift: "affects_drift files affects = \<lparr>uncovered = unc, widening = sort (map (join ''/'')
      (filter (\<lambda>s. \<not> list_ex (\<lambda>t. t \<noteq> s \<and> contains_path t s) ss) ss))\<rparr>"
    by (simp add: affects_drift_def entries_def unc_def ss_def Let_def)
  with assms have "suggestion entries f \<in> set ss" by (simp add: ss_def)
  from minimal_container [OF this] obtain t where t: "t \<in> set ss" "contains_path t (suggestion entries f)"
    "\<not> list_ex (\<lambda>u. u \<noteq> t \<and> contains_path u t) ss" by blast
  from contains_path_trans [OF t(2) suggestion_contains] t(1,3) show ?thesis
    by (intro exI [of _ t]) (auto simp: drift)
qed

subsection \<open>Properties\<close>

text \<open>The drift report is complete: a planned file is uncovered exactly when no declared path
  contains it, and every uncovered file lies under one of the suggested paths.\<close>

theorem drift_covers:
  "set (uncovered (affects_drift files declared)) =
     {f \<in> set files. \<not> (\<exists>entry \<in> set declared. strip entry \<noteq> [] \<and>
        contains_path (path_parts entry) (path_parts f))} \<and>
   (\<forall>f \<in> set (uncovered (affects_drift files declared)).
      \<exists>s. join ''/'' s \<in> set (widening (affects_drift files declared)) \<and> contains_path s (path_parts f))"
proof
  show "set (uncovered (affects_drift files declared)) =
     {f \<in> set files. \<not> (\<exists>entry \<in> set declared. strip entry \<noteq> [] \<and>
        contains_path (path_parts entry) (path_parts f))}"
    using drift_uncovered by blast
  show "\<forall>f \<in> set (uncovered (affects_drift files declared)).
      \<exists>s. join ''/'' s \<in> set (widening (affects_drift files declared)) \<and> contains_path s (path_parts f)"
    using drift_widening by blast
qed

theorem drift_covers_witness:
  "\<exists>s. join ''/'' s \<in> set (widening (affects_drift [''a/b/c''] [''a/x''])) \<and>
     contains_path s (path_parts ''a/b/c'')"
proof -
  have "''a/b/c'' \<in> set (uncovered (affects_drift [''a/b/c''] [''a/x'']))" by code_simp
  with drift_covers show ?thesis by blast
qed

end
