(* ===== verification/Workflow.thy ===== *)
theory Workflow
  imports Hierarchy Affects
begin

text \<open>
  The routing table (\<open>work_tracker_okf/workflow.py\<close>): \<open>route\<close> interprets a pipeline
  definition for the state of an item and says what to dispatch, which transitions the
  stage offers, and what blocks it. An exception inside (a missing key, an empty
  \<open>next\<close>) is the \<open>Inl\<close> of the result.
\<close>

record hold_fact =
  hold_path :: string
  hold_decision_id :: string
  hold_shape :: string
  hold_phase :: "string option"

record route_state =
  rs_type :: string
  rs_work_status :: string
  rs_phase :: "string option"
  rs_effort :: "string option"
  rs_blast_radius :: "string option"
  rs_has_plan_doc :: bool
  rs_has_spec_doc :: bool
  rs_hold :: "hold_fact option"
  rs_stale_spec :: "string list"
  rs_dependency_edges :: "dependency_edge list"
  rs_dependency_facts :: "dependency_fact list"
  rs_dependency_issues :: "dependency_issue list"
  rs_child_rollup :: "child_counts option"
  rs_open_descendants :: "string list"
  rs_has_branch :: bool

record transition =
  tr_phase :: "string option"
  tr_work_status :: "string option"
  tr_document_status :: "string option"
  tr_requires :: "string list"
  tr_sync_plan_table :: bool
  tr_stamp_source :: "string option"
  tr_stamp_baseline :: bool

definition no_transition :: transition where
  "no_transition =
     \<lparr>tr_phase = None, tr_work_status = None, tr_document_status = None, tr_requires = [],
      tr_sync_plan_table = False, tr_stamp_source = None, tr_stamp_baseline = False\<rparr>"

datatype blocker_kind =
    Invalid | Done_Phase | Terminal | Held | Invalid_Entry | Dependencies_Unmet | Effort_Required
  | Attribute_Required | No_Children | Waiting_On_Children | Phase_Off_Path | Path_Invalid
  | Finish_Incomplete

record blocker =
  blk_kind :: blocker_kind
  blk_message :: string

record route_result =
  rr_dispatch :: "stage option"
  rr_reason :: string
  rr_on_dispatch :: "transition option"
  rr_on_complete :: "transition option"
  rr_blockers :: "blocker list"
  rr_on_return :: "transition option"
  rr_repair :: "transition option"
  rr_path_candidates :: "path_candidate list"

definition no_result :: "string \<Rightarrow> route_result" where
  "no_result reason =
     \<lparr>rr_dispatch = None, rr_reason = reason, rr_on_dispatch = None, rr_on_complete = None,
      rr_blockers = [], rr_on_return = None, rr_repair = None, rr_path_candidates = []\<rparr>"

definition blocked :: "blocker_kind \<Rightarrow> string \<Rightarrow> string \<Rightarrow> route_result" where
  "blocked kind reason message =
     (no_result reason)\<lparr>rr_blockers := [\<lparr>blk_kind = kind, blk_message = message\<rparr>]\<rparr>"

definition blocker_messages :: "route_result \<Rightarrow> string list" where
  "blocker_messages r = map blk_message (rr_blockers r)"

definition hold_blocker :: "hold_fact \<Rightarrow> string" where
  "hold_blocker h =
     ''open decision '' @ hold_decision_id h @ '' ('' @ hold_shape h @ '') holds '' @ hold_path h
       @ '': answer via `gw work decision answer '' @ hold_path h @ '' '' @ hold_decision_id h
       @ '' --answer ...`, then re-run''"

fun opt_or :: "string option \<Rightarrow> string \<Rightarrow> string" where
  "opt_or None d = d"
| "opt_or (Some s) d = (if s = [] then d else s)"

definition hold_reason :: "hold_fact \<Rightarrow> string option \<Rightarrow> string" where
  "hold_reason h current_phase =
     ''open decision '' @ hold_decision_id h @ '' holds this item ('' @ hold_shape h @ '' at ''
       @ opt_or (hold_phase h) (opt_or current_phase ''entry'') @ '')''"

definition validate_state :: "route_state \<Rightarrow> string list" where
  "validate_state st =
     (if rs_type st \<notin> set TYPES
      then [''type '' @ repr (rs_type st) @ '' not in '' @ repr_list (sort TYPES)] else [])
     @ (if rs_work_status st \<notin> set WORK_STATUSES
        then [''work_status '' @ repr (rs_work_status st) @ '' not in '' @ repr_list (sort WORK_STATUSES)]
        else [])
     @ (case rs_phase st of
          None \<Rightarrow> []
        | Some p \<Rightarrow> if p \<notin> set PHASES then [''phase '' @ repr p @ '' not in '' @ repr_list (sort PHASES)] else [])
     @ (case rs_effort st of
          None \<Rightarrow> []
        | Some e \<Rightarrow> if e \<notin> set EFFORTS
                    then [''effort '' @ repr e @ '' not in '' @ repr_list (sort EFFORTS) @ ''; re-size the item'']
                    else [])
     @ map (\<lambda>i. ''depends_on['' @ nat_str (issue_index i) @ ''] '' @ issue_code i @ '': '' @ issue_detail i)
         (rs_dependency_issues st)"

definition state_for ::
  "work_snapshot \<Rightarrow> string \<Rightarrow> string option \<Rightarrow> hold_fact option \<Rightarrow> string list \<Rightarrow> route_state option" where
  "state_for s path effort hold stale_spec =
     (case item_at s path of
        None \<Rightarrow> None
      | Some item \<Rightarrow>
          let parent = wi_type item \<in> set PARENT_TYPES;
              rolled = child_rollup s path;
              structural = filter (\<lambda>i. issue_code i \<in> {''targets-parent'', ''targets-self''})
                (validate_dependencies (wi_dependency_edges item) (wi_parent_path item) (wi_path item))
          in Some \<lparr>rs_type = wi_type item,
                   rs_work_status = wi_work_status item,
                   rs_phase = wi_phase item,
                   rs_effort = py_or effort (wi_effort item),
                   rs_blast_radius = wi_blast_radius item,
                   rs_has_plan_doc = wi_has_plan_artifact item,
                   rs_has_spec_doc = wi_has_design_artifact item,
                   rs_hold = hold,
                   rs_stale_spec = stale_spec,
                   rs_dependency_edges = wi_dependency_edges item,
                   rs_dependency_facts = item_facts s (wi_dependency_edges item),
                   rs_dependency_issues = wi_dependency_issues item @ structural,
                   rs_child_rollup =
                     (if \<not> parent then None
                      else if wi_type item \<notin> set DECOMPOSING_TYPES \<and> total rolled = 0 then None
                      else Some rolled),
                   rs_open_descendants = (if parent then active_nonterminal_descendants s path else []),
                   rs_has_branch = (code_affects (wi_affects item) \<noteq> [])\<rparr>)"

definition route_attributes :: "route_state \<Rightarrow> attrs" where
  "route_attributes st =
     path_attributes (rs_type st) (rs_effort st) (rs_blast_radius st) (rs_has_spec_doc st)
       (rs_has_plan_doc st) (rs_stale_spec st \<noteq> [])"

subsection \<open>Where on the path\<close>

text \<open>\<open>next(stage for stage in stages if ordinals[stage] > ordinals[phase])\<close>.\<close>

fun next_after :: "string \<Rightarrow> stage list \<Rightarrow> stage result" where
  "next_after phase [] = Inl StopIteration"
| "next_after phase (stage # stages) =
     (case map_of phase_ordinals (stage_str stage) of
        None \<Rightarrow> Inl (KeyError (stage_str stage))
      | Some r \<Rightarrow>
          (case map_of phase_ordinals phase of
             None \<Rightarrow> Inl (KeyError phase)
           | Some q \<Rightarrow> if r > q then Inr stage else next_after phase stages))"

definition locate :: "stage list \<Rightarrow> string option \<Rightarrow> (stage \<times> bool) result" where
  "locate stages phase =
     (case phase of
        None \<Rightarrow> bind_res (first_stage stages) (\<lambda>s. Inr (s, False))
      | Some p \<Rightarrow>
          (case find (\<lambda>s. stage_str s = p) stages of
             Some s \<Rightarrow> Inr (s, False)
           | None \<Rightarrow> bind_res (next_after p stages) (\<lambda>s. Inr (s, True))))"

definition after :: "stage list \<Rightarrow> stage \<Rightarrow> string result" where
  "after stages stage =
     (case index_of stages stage of
        None \<Rightarrow> Inl (ValueError ''tuple.index(x): x not in tuple'')
      | Some i \<Rightarrow> Inr (if i + 1 < length stages then stage_str (stages ! (i + 1)) else ''done''))"

subsection \<open>Blockers\<close>

definition fork_label :: "string list \<Rightarrow> string list \<Rightarrow> string" where
  "fork_label un values =
     (case values of
        [v] \<Rightarrow> v
      | _ \<Rightarrow> join '', '' (map (\<lambda>(a, v). a @ ''='' @ v) (zip un values)))"

definition assigned :: "path_candidate \<Rightarrow> string \<Rightarrow> string result" where
  "assigned c a = (case map_of (assignment c) a of None \<Rightarrow> Inl (KeyError a) | Some v \<Rightarrow> Inr v)"

fun fork_groups ::
  "string list \<Rightarrow> (stage \<times> string list) list \<Rightarrow> (path_candidate \<times> stage) list \<Rightarrow>
     (stage \<times> string list) list result" where
  "fork_groups un groups [] = Inr groups"
| "fork_groups un groups ((c, stage) # rest) =
     bind_res (map_res (assigned c) un) (\<lambda>values.
       fork_groups un (append_at stage (fork_label un values) groups) rest)"

definition fork_blocker ::
  "route_state \<Rightarrow> path_resolution \<Rightarrow> (stage \<times> bool) list \<Rightarrow> route_result result" where
  "fork_blocker st resolution located =
     bind_res (fork_groups (unset resolution) [] (zip (candidates resolution) (map fst located))) (\<lambda>groups.
       let routes = join '' or '' (map (\<lambda>(s, labels). stage_str s @ '' ('' @ join ''/'' labels @ '')'') groups);
           names = join '', '' (unset resolution);
           effort_only = (unset resolution = [''effort'']);
           kind = (if effort_only \<or> ''effort'' \<in> set (unset resolution) then Effort_Required
                   else Attribute_Required);
           message = (if effort_only
             then ''effort required: '' @ rs_type st @ '' routes to '' @ routes
                    @ ''; size the item and advance with the effort''
             else names @ '' required: '' @ rs_type st @ '' routes to '' @ routes @ ''; set '' @ names
                    @ '' on the item and re-run'');
           reason = (if rs_type st = ''TestGap'' \<and> rs_phase st = None \<and> effort_only
             then ''test-gap entry forks on effort''
             else lower (rs_type st) @ '' path forks on '' @ names)
       in Inr (blocked kind reason message))"

definition dependency_blocker :: "route_state \<Rightarrow> string \<Rightarrow> stage list \<Rightarrow> route_result option" where
  "dependency_blocker st phase stages =
     (let pairs = unmet (rs_dependency_edges st) (rs_dependency_facts st) phase (Some stages)
      in if pairs = [] then None
         else Some (blocked Dependencies_Unmet (''blocked on dependencies ('' @ phase @ '')'')
                (''blocked on dependencies for '' @ phase @ '':'' @ [CHR 0x0A] @ ''  ''
                   @ join ([CHR 0x0A] @ ''  '') (map (case_prod describe) pairs))))"

subsection \<open>What a stage offers\<close>

definition children_requires :: "route_state \<Rightarrow> stage_row \<Rightarrow> string list" where
  "children_requires st r =
     (if rs_type st \<in> set (child_gated_types r) \<and> rs_type st \<notin> set DECOMPOSING_TYPES
         \<and> rs_open_descendants st \<noteq> []
      then [''children-terminal''] else [])"

definition on_dispatch_of :: "route_state \<Rightarrow> stage_row \<Rightarrow> transition option" where
  "on_dispatch_of st r =
     (let applies = (case on_enter r of
                       None \<Rightarrow> False | Some e \<Rightarrow> Some (rs_work_status st) \<noteq> eff_work_status e);
          enter_status = (case on_enter r of None \<Rightarrow> None | Some e \<Rightarrow> eff_work_status e);
          enter_requires = (case on_enter r of None \<Rightarrow> [] | Some e \<Rightarrow> eff_requires e)
      in if rs_phase st \<noteq> None
         then (if \<not> applies then None
               else Some (no_transition\<lparr>tr_work_status := enter_status, tr_requires := enter_requires\<rparr>))
         else Some (no_transition\<lparr>tr_phase := Some (stage_str (row_stage r)),
                tr_work_status := (if applies then enter_status else None),
                tr_document_status := (if row_stage r = Design then None else Some ''stable''),
                tr_requires := (if applies then enter_requires else [])\<rparr>))"

definition parent_execute_gate :: "route_state \<Rightarrow> string option \<Rightarrow> route_result" where
  "parent_execute_gate st next_phase =
     (let ty = lower (rs_type st)
      in case rs_child_rollup st of
           None \<Rightarrow> blocked No_Children (ty @ '' execute: no children'')
                     (ty @ '' has no children; run the plan stage to decompose it'')
         | Some rolled \<Rightarrow>
             if total rolled = 0
             then blocked No_Children (ty @ '' execute: no children'')
                    (ty @ '' has no children; run the plan stage to decompose it'')
             else if rs_open_descendants st \<noteq> []
             then blocked Waiting_On_Children (ty @ '' execute: waiting on children'')
                    (''waiting on children: '' @ nat_str (terminal_count rolled) @ ''/''
                       @ nat_str (total rolled) @ '' terminal; open: '' @ join '', '' (rs_open_descendants st))
             else (no_result (ty @ '' children complete''))
                    \<lparr>rr_on_complete := Some (no_transition\<lparr>tr_phase := next_phase\<rparr>)\<rparr>)"

fun opt_show :: "string option \<Rightarrow> string" where
  "opt_show None = ''None''"
| "opt_show (Some s) = s"

definition reason_of :: "route_state \<Rightarrow> stage \<Rightarrow> string" where
  "reason_of st stage =
     (if stage = Design
      then rs_type st @ '' '' @
        (if rs_has_spec_doc st
         then (if rs_phase st = None then ''entering design with a pre-seeded spec: reconciling''
               else ''at design stage with an existing spec: reconciling'')
         else (if rs_phase st = None then ''entering the pipeline at design'' else ''at design stage''))
      else if rs_phase st = None
      then rs_type st @ '' with effort '' @ opt_show (rs_effort st) @ '': enters at '' @ stage_str stage
      else if stage = Execute
      then (if rs_has_plan_doc st then ''execute stage with a written plan''
            else ''execute stage via the test-driven path (no plan)'')
      else rs_type st @ '' at '' @ stage_str stage @ '' stage'')"

fun extend_missing :: "string list \<Rightarrow> string list \<Rightarrow> string list" where
  "extend_missing requires [] = requires"
| "extend_missing requires (a # as) =
     extend_missing (if a \<in> set requires then requires else requires @ [a]) as"

definition emit_complete ::
  "route_state \<Rightarrow> stage_row \<Rightarrow> string option \<Rightarrow> string list \<Rightarrow> transition" where
  "emit_complete st r next_phase un =
     (let effect = row_on_complete r;
          requires = eff_requires effect
            @ (if row_stage r = Design \<and> rs_effort st = None then [''effort''] else []);
          work_status = (if eff_work_status effect = None \<and> next_phase = Some (stage_str Execute)
                            \<and> row_stage r \<noteq> Plan
                         then Some ''accepted'' else eff_work_status effect)
      in \<lparr>tr_phase = next_phase,
          tr_work_status = work_status,
          tr_document_status = eff_document_status effect,
          tr_requires = extend_missing requires un @ children_requires st r,
          tr_sync_plan_table = (eff_sync_plan_table effect \<and> rs_type st \<notin> set DECOMPOSING_TYPES),
          tr_stamp_source = eff_stamp_source effect,
          tr_stamp_baseline = eff_stamp_baseline effect\<rparr>)"

definition on_return_of :: "stage_row \<Rightarrow> stage list \<Rightarrow> transition option" where
  "on_return_of r stages =
     (case return_target r of
        None \<Rightarrow> None
      | Some target \<Rightarrow>
          if target \<in> set stages
          then Some (no_transition\<lparr>tr_phase := Some (stage_str target), tr_work_status := return_status r\<rparr>)
          else None)"

definition emit_dispatch ::
  "route_state \<Rightarrow> stage_row \<Rightarrow> stage list \<Rightarrow> string option \<Rightarrow> path_candidate list \<Rightarrow> string list \<Rightarrow> route_result" where
  "emit_dispatch st r stages next_phase forked un =
     (let stale = (row_stage r = Plan \<and> rs_phase st \<noteq> None \<and> rs_stale_spec st \<noteq> [])
      in \<lparr>rr_dispatch = Some (row_stage r),
          rr_reason = (if stale
             then ''spec baseline stale: '' @ join '', '' (rs_stale_spec st)
                    @ '' landed since with overlapping affects''
             else reason_of st (row_stage r)),
          rr_on_dispatch = on_dispatch_of st r,
          rr_on_complete = Some (if stale
             then no_transition\<lparr>tr_phase := Some ''plan'', tr_stamp_baseline := True\<rparr>
             else emit_complete st r next_phase un),
          rr_blockers = [],
          rr_on_return = on_return_of r stages,
          rr_repair = None,
          rr_path_candidates = forked\<rparr>)"

definition emit ::
  "route_state \<Rightarrow> stage_row \<Rightarrow> stage list \<Rightarrow> string option \<Rightarrow> path_candidate list \<Rightarrow> string list \<Rightarrow> route_result" where
  "emit st r stages next_phase forked un =
     (let decomposing = (rs_type st \<in> set DECOMPOSING_TYPES);
          gated = (decomposing \<and> rs_type st \<in> set (child_gated_types r));
          on_return = on_return_of r stages
      in if row_stage r = Execute \<and> gated then parent_execute_gate st next_phase
         else if row_stage r = Finish \<and> gated \<and> rs_open_descendants st \<noteq> []
         then (blocked Waiting_On_Children
                 (lower (rs_type st) @ '' at finish stage: reopened by later children'')
                 (''waiting on children filed after finish: '' @ join '', '' (rs_open_descendants st)))
                \<lparr>rr_on_return := on_return, rr_repair := on_return\<rparr>
         else if row_stage r = Finish \<and> gated \<and> \<not> rs_has_branch st
         then (no_result (lower (rs_type st) @ '' at finish stage''))
                \<lparr>rr_on_complete := Some (no_transition\<lparr>tr_phase := Some ''done'',
                                    tr_work_status := eff_work_status (row_on_complete r)\<rparr>),
                 rr_on_return := on_return\<rparr>
         else emit_dispatch st r stages next_phase forked un)"

subsection \<open>The interpreter\<close>

definition cannot_decompose :: "route_state \<Rightarrow> path_candidate \<Rightarrow> route_result" where
  "cannot_decompose st c =
     blocked Path_Invalid ''path cannot decompose''
       (rs_type st @ '' path ['' @ join '', '' (map stage_str (cand_stages c)) @ ''] (rule ''
          @ repr_opt (origin_name (cand_rule c)) @ '') lacks plan; a path rule may not stop decomposition'')"

definition off_path_result :: "route_state \<Rightarrow> path_candidate \<Rightarrow> stage \<Rightarrow> route_result" where
  "off_path_result st first stage =
     (blocked Phase_Off_Path (''phase '' @ opt_show (rs_phase st) @ '' is not on this item'' @ [CHR 0x27] @ ''s path'')
        (''phase '' @ repr_opt (rs_phase st) @ '' is not on this item'' @ [CHR 0x27] @ ''s path [''
           @ join '', '' (map stage_str (cand_stages first)) @ ''] (rule ''
           @ repr_opt (origin_name (cand_rule first)) @ ''); repair moves it to '' @ repr (stage_str stage)))
       \<lparr>rr_repair := Some (no_transition\<lparr>tr_phase := Some (stage_str stage)\<rparr>)\<rparr>"

definition route_on_path :: "route_state \<Rightarrow> path_resolution \<Rightarrow> stage \<Rightarrow> route_result result" where
  "route_on_path st resolution stage =
     (let cs = candidates resolution
      in case dependency_blocker st (stage_str stage) (concat (map cand_stages cs)) of
           Some r \<Rightarrow> Inr r
         | None \<Rightarrow>
             bind_res (map_res (\<lambda>c. after (cand_stages c) stage) cs) (\<lambda>all_nexts.
             bind_res (row (stage_str stage)) (\<lambda>r.
               let nexts = remdups all_nexts;
                   next_phase = (case nexts of [n] \<Rightarrow> Some n | _ \<Rightarrow> None);
                   forked = (if length nexts > 1 then cs else [])
               in Inr (emit st r (cand_stages (hd cs)) next_phase forked
                         (if forked \<noteq> [] then unset resolution else [])))))"

definition route_resolved :: "route_state \<Rightarrow> path_resolution \<Rightarrow> route_result result" where
  "route_resolved st resolution =
     (if \<not> complete resolution \<or> candidates resolution = []
      then Inr (blocked Path_Invalid ''no path rule matches''
             (''no path rule matches '' @ rs_type st @ ''; add a catch-all path rule (match: {})''))
      else case find (\<lambda>c. rs_type st \<in> set DECOMPOSING_TYPES \<and> Plan \<notin> set (cand_stages c))
                  (candidates resolution) of
             Some c \<Rightarrow> Inr (cannot_decompose st c)
           | None \<Rightarrow>
               bind_res (map_res (\<lambda>c. locate (cand_stages c) (rs_phase st)) (candidates resolution)) (\<lambda>located.
                 if length (remdups located) > 1 then fork_blocker st resolution located
                 else case hd located of
                        (stage, off_path) \<Rightarrow>
                          if off_path then Inr (off_path_result st (hd (candidates resolution)) stage)
                          else route_on_path st resolution stage))"

definition route :: "route_state \<Rightarrow> pipeline_definition \<Rightarrow> route_result result" where
  "route st d =
     (let problems = validate_state st
      in if problems \<noteq> []
         then Inr ((no_result ''invalid item'')
                \<lparr>rr_blockers := map (\<lambda>p. \<lparr>blk_kind = Invalid, blk_message = p\<rparr>) problems\<rparr>)
         else if rs_phase st = Some DONE
         then Inr (blocked Done_Phase ''pipeline complete''
                ''phase=done: nothing to dispatch; archive once the item ages out'')
         else if rs_work_status st \<in> set TERMINAL_STATUSES \<or> rs_work_status st = ''mitigated''
         then Inr (blocked Terminal ''disposition is human-owned''
                (''work_status '' @ repr (rs_work_status st) @ '' never dispatches; set it to ''
                   @ repr ''open'' @ '' to re-enter the pipeline''))
         else case rs_hold st of
           Some h \<Rightarrow> Inr (blocked Held (hold_reason h (rs_phase st)) (hold_blocker h))
         | None \<Rightarrow>
             if rs_phase st = None \<and> rs_work_status st \<noteq> ''open''
             then Inr (blocked Invalid_Entry ''invalid entry''
                    (''no phase and work_status '' @ repr (rs_work_status st) @ ''; set it to ''
                       @ repr ''open'' @ '' to enter at design, or hand-set phase (e.g. phase: execute ''
                       @ ''for an accepted item with a plan) to adopt an in-flight item mid-pipeline''))
             else route_resolved st (resolve_path d (route_attributes st)))"

subsection \<open>Locating a phase on a path\<close>

lemma less_stage_rank: "(a :: stage) < b \<longleftrightarrow> stage_rank a < stage_rank b"
  by (simp add: less_stage_def)

lemma next_after_stage:
  "next_after (stage_str q) ss =
     (case filter (\<lambda>s. q < s) ss of [] \<Rightarrow> Inl StopIteration | s # _ \<Rightarrow> Inr s)"
  by (induction ss) (auto simp: less_stage_rank)

lemma find_eq: "find (\<lambda>s. s = q) ss = (if q \<in> set ss then Some q else None)"
  by (induction ss) auto

lemma live_phase: "p \<in> set PHASES \<Longrightarrow> p \<noteq> DONE \<Longrightarrow> \<exists>q. p = stage_str q"
  by (erule phase_cases) auto

lemma locate_stage:
  "locate ss (Some (stage_str q)) =
     (if q \<in> set ss then Inr (q, False)
      else case filter (\<lambda>s. q < s) ss of [] \<Rightarrow> Inl StopIteration | s # _ \<Rightarrow> Inr (s, True))"
  by (auto simp: locate_def find_eq next_after_stage split: list.split)

lemma locate_entry: "locate ss None = (case ss of [] \<Rightarrow> Inl IndexError | s # _ \<Rightarrow> Inr (s, False))"
  by (auto simp: locate_def first_stage_def split: list.split)

lemma wf_stages_Finish: "wf_stages ss \<Longrightarrow> Finish \<in> set ss"
  by (metis last_in_set wf_stages_def)

lemma locate_total:
  assumes "wf_stages ss" and "\<And>p. phase = Some p \<Longrightarrow> p \<in> set PHASES \<and> p \<noteq> DONE"
  shows "\<exists>x. locate ss phase = Inr x"
proof (cases phase)
  case None
  with assms(1) show ?thesis by (cases ss) (auto simp: locate_entry wf_stages_def)
next
  case (Some p)
  from assms(2) [OF this] obtain q where q: "p = stage_str q" using live_phase by blast
  show ?thesis
  proof (cases "q \<in> set ss")
    case True
    show ?thesis unfolding Some q by (rule exI [of _ "(q, False)"]) (simp add: locate_stage True)
  next
    case False
    with wf_stages_Finish [OF assms(1)] have "q < Finish"
      by (metis stage_le_Finish order_le_less)
    with wf_stages_Finish [OF assms(1)] have "filter (\<lambda>s. q < s) ss \<noteq> []"
      by (auto simp: filter_empty_conv)
    with Some q False show ?thesis by (auto simp: locate_stage split: list.split)
  qed
qed

lemma locate_on_path:
  assumes "locate ss phase = Inr (stage, False)" and "\<And>p. phase = Some p \<Longrightarrow> p \<in> set PHASES \<and> p \<noteq> DONE"
  shows "stage \<in> set ss \<and> (case phase of None \<Rightarrow> stage = hd ss | Some p \<Rightarrow> p = stage_str stage)"
proof (cases phase)
  case None
  with assms(1) show ?thesis by (auto simp: locate_entry split: list.splits)
next
  case (Some p)
  from assms(2) [OF this] obtain q where "p = stage_str q" using live_phase by blast
  with assms(1) Some show ?thesis by (auto simp: locate_stage split: if_splits list.splits)
qed

lemma locate_off_path:
  assumes "locate ss phase = Inr (stage, True)" and "\<And>p. phase = Some p \<Longrightarrow> p \<in> set PHASES \<and> p \<noteq> DONE"
  shows "\<exists>q. phase = Some (stage_str q) \<and> q \<notin> set ss \<and> stage \<in> set ss \<and> q < stage"
proof (cases phase)
  case None
  with assms(1) show ?thesis by (auto simp: locate_entry split: list.splits)
next
  case (Some p)
  from assms(2) [OF this] obtain q where q: "p = stage_str q" using live_phase by blast
  with assms(1) Some have "q \<notin> set ss" and "\<exists>rest. filter (\<lambda>s. q < s) ss = stage # rest"
    by (auto simp: locate_stage split: if_splits list.splits)
  then have "stage \<in> set (filter (\<lambda>s. q < s) ss)" by (metis list.set_intros(1))
  with Some q \<open>q \<notin> set ss\<close> show ?thesis by auto
qed

text \<open>What follows a stage on a well-formed path lies strictly later in the phase order.\<close>

lemma after_later:
  assumes "wf_stages ss" and "stage \<in> set ss"
  shows "\<exists>n. after ss stage = Inr n \<and> (if stage = Finish then n = ''done'' else \<exists>s. n = stage_str s \<and> stage < s)"
proof -
  from assms(2) obtain i where i: "index_of ss stage = Some i" "i < length ss" "ss ! i = stage"
    by (metis index_of_None_iff index_of_Some not_None_eq)
  have sorted: "sorted_wrt (<) ss" and fin: "last ss = Finish" and ne: "ss \<noteq> []"
    using assms(1) by (auto simp: wf_stages_def)
  show ?thesis
  proof (cases "i + 1 < length ss")
    case True
    then have "stage < ss ! (i + 1)" using sorted i by (auto simp: sorted_wrt_iff_nth_less)
    moreover from this have "stage \<noteq> Finish"
      by (metis leD stage_le_Finish)
    ultimately show ?thesis using True i by (auto simp: after_def)
  next
    case False
    with i have "i = length ss - 1" by simp
    with i fin ne have "stage = Finish" by (simp add: last_conv_nth)
    with False i show ?thesis by (simp add: after_def)
  qed
qed

subsection \<open>The shape of every answer\<close>

definition offers_nothing :: "route_result \<Rightarrow> bool" where
  "offers_nothing r \<longleftrightarrow>
     rr_dispatch r = None \<and> rr_on_dispatch r = None \<and> rr_on_complete r = None \<and>
     rr_on_return r = None \<and> rr_repair r = None \<and> rr_blockers r \<noteq> []"

definition live_state :: "route_state \<Rightarrow> bool" where
  "live_state st \<longleftrightarrow>
     validate_state st = [] \<and> rs_phase st \<noteq> Some DONE \<and> rs_hold st = None \<and>
     rs_work_status st \<in> {''open'', ''accepted'', ''in-progress''} \<and>
     (rs_phase st = None \<longrightarrow> rs_work_status st = ''open'')"

lemma offers_nothing_blocked [simp]: "offers_nothing (blocked k reason m)"
  by (simp add: offers_nothing_def blocked_def no_result_def)

lemma validate_phase: "validate_state st = [] \<Longrightarrow> rs_phase st = Some p \<Longrightarrow> p \<in> set PHASES"
  by (auto simp: validate_state_def split: if_splits)

lemma validate_status: "validate_state st = [] \<Longrightarrow> rs_work_status st \<in> set WORK_STATUSES"
  by (auto simp: validate_state_def split: if_splits)

lemma validate_type: "validate_state st = [] \<Longrightarrow> rs_type st \<in> set TYPES"
  by (auto simp: validate_state_def split: if_splits)

lemma live_state_phase: "live_state st \<Longrightarrow> rs_phase st = Some p \<Longrightarrow> p \<in> set PHASES \<and> p \<noteq> DONE"
  by (auto simp: live_state_def dest: validate_phase)

lemma assigned_total:
  assumes "c \<in> set (candidates (resolve_path d attrs))"
  shows "\<exists>vs. map_res (assigned c) (unset_of d attrs) = Inr vs"
proof -
  from assms obtain vs where vs: "vs \<in> set (value_product (unset_of d attrs))"
    "assignment c = zip (unset_of d attrs) vs" by (blast elim: candidate_cases)
  then have "length vs = length (unset_of d attrs)"
    by (auto simp: value_product_def dest: in_set_product_lists_length)
  with vs(2) have "map fst (assignment c) = unset_of d attrs" by simp
  then have "map_of (assignment c) a \<noteq> None" if "a \<in> set (unset_of d attrs)" for a
    using that by (metis map_of_eq_None_iff list.set_map)
  then have "\<exists>v. assigned c a = Inr v" if "a \<in> set (unset_of d attrs)" for a
    using that by (fastforce simp: assigned_def split: option.split)
  then show ?thesis by (rule map_res_total)
qed

lemma fork_groups_total:
  "(\<And>c s. (c, s) \<in> set cs \<Longrightarrow> \<exists>vs. map_res (assigned c) un = Inr vs) \<Longrightarrow>
     \<exists>gs. fork_groups un groups cs = Inr gs"
proof (induction cs arbitrary: groups)
  case Nil
  then show ?case by simp
next
  case (Cons x cs)
  obtain c s where x: "x = (c, s)" by (cases x)
  with Cons.prems obtain vs where "map_res (assigned c) un = Inr vs" by fastforce
  moreover have "\<exists>gs. fork_groups un (append_at s (fork_label un vs) groups) cs = Inr gs"
    by (rule Cons.IH) (auto intro: Cons.prems)
  ultimately show ?case by (simp add: x)
qed

lemma fork_blocker_total:
  "\<exists>k reason m. fork_blocker st (resolve_path d attrs) located = Inr (blocked k reason m)"
proof -
  have "\<exists>vs. map_res (assigned c) (unset_of d attrs) = Inr vs"
    if "(c, s) \<in> set (zip (candidates (resolve_path d attrs)) (map fst located))" for c s
    using that by (auto dest!: set_zip_leftD intro: assigned_total)
  then obtain gs where "fork_groups (unset_of d attrs) []
      (zip (candidates (resolve_path d attrs)) (map fst located)) = Inr gs"
    using fork_groups_total by blast
  then show ?thesis by (auto simp: fork_blocker_def Let_def)
qed

lemma fork_blocker_kind:
  assumes "fork_blocker st res located = Inr r"
  shows "map blk_kind (rr_blockers r) =
    [if ''effort'' \<in> set (unset res) then Effort_Required else Attribute_Required]"
proof -
  from assms obtain reason m where "r = blocked (if unset res = [''effort''] \<or> ''effort'' \<in> set (unset res)
      then Effort_Required else Attribute_Required) reason m"
    unfolding fork_blocker_def Let_def bind_res_eq_Inr by blast
  then show ?thesis by (simp add: blocked_def)
qed

lemma dependency_blocker_nothing: "dependency_blocker st p ss = Some r \<Longrightarrow> offers_nothing r"
  by (auto simp: dependency_blocker_def Let_def split: if_splits)

lemma map_res_constant:
  assumes "map_res f xs = Inr ys" and "xs \<noteq> []" and "length (remdups ys) \<le> 1"
  shows "\<forall>x \<in> set xs. f x = Inr (hd ys)"
proof -
  from assms(1) have l2: "list_all2 (\<lambda>x y. f x = Inr y) xs ys" by (simp add: map_res_Inr_iff)
  with assms(2) have "ys \<noteq> []" by auto
  with assms(3) obtain z where "remdups ys = [z]"
    by (cases "remdups ys") (auto simp: le_Suc_eq)
  then have "set ys = {z}" by (metis set_remdups list.set(1) list.set(2))
  with \<open>ys \<noteq> []\<close> have "\<forall>y \<in> set ys. y = hd ys" using hd_in_set by fastforce
  with l2 show ?thesis by (fastforce simp: list_all2_conv_all_nth in_set_conv_nth)
qed

abbreviation state_candidates :: "route_state \<Rightarrow> pipeline_definition \<Rightarrow> path_candidate list" where
  "state_candidates st d \<equiv> candidates (resolve_path d (route_attributes st))"

text \<open>The facts that hold when the interpreter reached the stage on the path.\<close>

definition reaches :: "route_state \<Rightarrow> pipeline_definition \<Rightarrow> stage \<Rightarrow> bool" where
  "reaches st d stage \<longleftrightarrow>
     live_state st \<and> state_candidates st d \<noteq> [] \<and>
     (\<forall>c \<in> set (state_candidates st d). locate (cand_stages c) (rs_phase st) = Inr (stage, False)) \<and>
     (rs_type st \<in> set DECOMPOSING_TYPES \<longrightarrow> (\<forall>c \<in> set (state_candidates st d). Plan \<in> set (cand_stages c))) \<and>
     unmet (rs_dependency_edges st) (rs_dependency_facts st) (stage_str stage)
       (Some (concat (map cand_stages (state_candidates st d)))) = []"

definition next_of :: "route_state \<Rightarrow> pipeline_definition \<Rightarrow> stage \<Rightarrow> string option" where
  "next_of st d stage =
     (case remdups (map (\<lambda>c. projr (after (cand_stages c) stage)) (state_candidates st d)) of
        [n] \<Rightarrow> Some n | _ \<Rightarrow> None)"

lemma after_candidates:
  assumes "wf_definition d" and "reaches st d stage"
  shows "map_res (\<lambda>c. after (cand_stages c) stage) (state_candidates st d) =
    Inr (map (\<lambda>c. projr (after (cand_stages c) stage)) (state_candidates st d))"
proof (rule map_res_cong_pure)
  fix c
  assume c: "c \<in> set (state_candidates st d)"
  with assms(2) have "locate (cand_stages c) (rs_phase st) = Inr (stage, False)" and live: "live_state st"
    by (auto simp: reaches_def)
  with live_state_phase [OF live] locate_on_path have "stage \<in> set (cand_stages c)" by blast
  with after_later [OF candidate_wf [OF assms(1) c]] show "after (cand_stages c) stage =
      Inr (projr (after (cand_stages c) stage))" by fastforce
qed

lemma route_live:
  assumes "route st d = Inr r" and "\<not> offers_nothing r"
  shows "live_state st \<and> route_resolved st (resolve_path d (route_attributes st)) = Inr r"
proof -
  have "offers_nothing ((no_result m)\<lparr>rr_blockers := map f ps\<rparr>)" if "ps \<noteq> []" for m ps and f :: "string \<Rightarrow> blocker"
    using that by (simp add: offers_nothing_def no_result_def)
  with assms have 1: "validate_state st = []" "rs_phase st \<noteq> Some DONE" "rs_hold st = None"
      "\<not> (rs_work_status st \<in> set TERMINAL_STATUSES \<or> rs_work_status st = ''mitigated'')"
      "\<not> (rs_phase st = None \<and> rs_work_status st \<noteq> ''open'')"
      "route_resolved st (resolve_path d (route_attributes st)) = Inr r"
    by (auto simp: route_def Let_def split: if_splits option.splits)
  moreover from 1 live_status_cases [OF validate_status [OF 1(1)]]
  have "rs_work_status st \<in> {''open'', ''accepted'', ''in-progress''}" by blast
  ultimately show ?thesis by (auto simp: live_state_def)
qed

lemma route_cases:
  assumes "route st d = Inr r" and "wf_definition d"
  obtains (closed) "offers_nothing r"
  | (off_path) stage q where "live_state st" and "rs_phase st = Some (stage_str q)" and "q < stage"
      and "r = off_path_result st (hd (state_candidates st d)) stage"
      and "stage \<in> set (cand_stages (hd (state_candidates st d)))"
      and "q \<notin> set (cand_stages (hd (state_candidates st d)))"
  | (emitted) stage forked where "reaches st d stage"
      and "r = emit st (row_of stage) (cand_stages (hd (state_candidates st d))) (next_of st d stage) forked
             (if forked \<noteq> [] then unset_of d (route_attributes st) else [])"
      and "forked \<noteq> [] \<longrightarrow> next_of st d stage = None"
proof (cases "offers_nothing r")
  case True
  then show ?thesis by (rule closed)
next
  case False
  define cs where "cs = state_candidates st d"
  from route_live [OF assms(1) False] have live: "live_state st"
    and res: "route_resolved st (resolve_path d (route_attributes st)) = Inr r" by auto
  from res False have ne: "cs \<noteq> []"
    by (auto simp: route_resolved_def cs_def split: if_splits)
  from res False ne have dec: "find (\<lambda>c. rs_type st \<in> set DECOMPOSING_TYPES \<and> Plan \<notin> set (cand_stages c)) cs = None"
    by (auto simp: route_resolved_def cs_def cannot_decompose_def split: if_splits option.splits)
  with res False ne obtain located where
    loc: "map_res (\<lambda>c. locate (cand_stages c) (rs_phase st)) cs = Inr located"
    by (auto simp: route_resolved_def cs_def bind_res_eq_Inr split: if_splits)
  have one: "\<not> length (remdups located) > 1"
  proof
    assume "length (remdups located) > 1"
    with res ne dec loc False have "fork_blocker st (resolve_path d (route_attributes st)) located = Inr r"
      by (auto simp: route_resolved_def cs_def split: if_splits)
    with fork_blocker_total [of st d "route_attributes st" located] False show False by auto
  qed
  obtain stage off where hd: "hd located = (stage, off)" by (cases "hd located")
  with map_res_constant [OF loc ne] one
  have all: "\<forall>c \<in> set cs. locate (cand_stages c) (rs_phase st) = Inr (stage, off)" by simp
  have hdcs: "hd cs \<in> set cs" using ne by simp
  show ?thesis
  proof (cases off)
    case True
    with res ne dec loc one hd False have r: "r = off_path_result st (hd cs) stage"
      by (auto simp: route_resolved_def cs_def split: if_splits)
    from all hdcs True have "locate (cand_stages (hd cs)) (rs_phase st) = Inr (stage, True)" by simp
    from locate_off_path [OF this live_state_phase [OF live]] live r off_path show ?thesis
      by (auto simp: cs_def)
  next
    case False
    with res ne dec loc one hd \<open>\<not> offers_nothing r\<close>
    have on: "route_on_path st (resolve_path d (route_attributes st)) stage = Inr r"
      by (auto simp: route_resolved_def cs_def split: if_splits)
    with \<open>\<not> offers_nothing r\<close> have dep: "dependency_blocker st (stage_str stage) (concat (map cand_stages cs)) = None"
      by (auto simp: route_on_path_def cs_def Let_def dest: dependency_blocker_nothing split: option.splits)
    have reach: "reaches st d stage"
      using live ne all False dec dep
      by (auto simp: reaches_def cs_def find_None_iff dependency_blocker_def Let_def split: if_splits)
    define nexts where "nexts = remdups (map (\<lambda>c. projr (after (cand_stages c) stage)) cs)"
    define forked where "forked = (if length nexts > 1 then cs else [])"
    have "r = emit st (row_of stage) (cand_stages (hd cs)) (next_of st d stage) forked
        (if forked \<noteq> [] then unset_of d (route_attributes st) else [])"
      using on dep after_candidates [OF assms(2) reach] ne
      by (auto simp: route_on_path_def cs_def [symmetric] next_of_def nexts_def [symmetric] forked_def Let_def)
    moreover have "forked \<noteq> [] \<longrightarrow> next_of st d stage = None"
      by (auto simp: forked_def next_of_def nexts_def cs_def split: list.splits)
    ultimately show ?thesis using reach emitted by (simp add: cs_def)
  qed
qed

subsection \<open>Totality\<close>

lemma route_resolved_total:
  assumes "wf_definition d" and "live_state st"
  shows "\<exists>r. route_resolved st (resolve_path d (route_attributes st)) = Inr r"
proof -
  define cs where "cs = state_candidates st d"
  have wf: "wf_stages (cand_stages c)" if "c \<in> set cs" for c
    using candidate_wf [OF assms(1)] that by (simp add: cs_def)
  have "\<exists>y. locate (cand_stages c) (rs_phase st) = Inr y" if "c \<in> set cs" for c
    using locate_total [OF wf [OF that] live_state_phase [OF assms(2)]] by blast
  then have "\<exists>ys. map_res (\<lambda>c. locate (cand_stages c) (rs_phase st)) cs = Inr ys"
    by (rule map_res_total)
  then obtain located where
    loc: "map_res (\<lambda>c. locate (cand_stages c) (rs_phase st)) cs = Inr located" by blast
  obtain stage off where hd: "hd located = (stage, off)" by (cases "hd located")
  have onpath: "\<exists>r. route_on_path st (resolve_path d (route_attributes st)) stage = Inr r"
    if "cs \<noteq> []" "\<not> length (remdups located) > 1" "\<not> off"
  proof -
    have all: "locate (cand_stages c) (rs_phase st) = Inr (stage, False)" if "c \<in> set cs" for c
      using map_res_constant [OF loc \<open>cs \<noteq> []\<close>] \<open>\<not> length (remdups located) > 1\<close> \<open>\<not> off\<close> hd that by simp
    have "\<exists>n. after (cand_stages c) stage = Inr n" if "c \<in> set cs" for c
      using after_later [OF wf [OF that]] locate_on_path [OF all [OF that] live_state_phase [OF assms(2)]]
      by blast
    then have "\<exists>ns. map_res (\<lambda>c. after (cand_stages c) stage) cs = Inr ns"
      by (rule map_res_total)
    then show ?thesis
      by (auto simp: route_on_path_def cs_def Let_def split: option.split)
  qed
  from fork_blocker_total [of st d "route_attributes st" located] obtain fb where
    fork: "fork_blocker st (resolve_path d (route_attributes st)) located = Inr fb" by blast
  show ?thesis
    using loc onpath fork hd
    by (cases "cs = []"; cases off)
      (auto simp: route_resolved_def cs_def [symmetric] split: option.split)
qed

lemma route_total:
  assumes "wf_definition d"
  shows "\<exists>r. route st d = Inr r"
proof (cases "live_state st")
  case True
  then show ?thesis
    using route_resolved_total [OF assms True]
    by (auto simp: route_def live_state_def Let_def TERMINAL_STATUSES_def)
next
  case False
  then have "validate_state st = [] \<Longrightarrow> rs_work_status st \<notin> set TERMINAL_STATUSES \<Longrightarrow>
      rs_work_status st \<noteq> ''mitigated'' \<Longrightarrow> rs_phase st \<noteq> Some DONE \<Longrightarrow> rs_hold st = None \<Longrightarrow>
      rs_phase st = None \<and> rs_work_status st \<noteq> ''open''"
    using live_status_cases validate_status by (auto simp: live_state_def)
  then show ?thesis by (auto simp: route_def Let_def split: option.split)
qed

subsection \<open>What the transitions can do\<close>

lemma reaches_stage:
  assumes "reaches st d stage" and "c \<in> set (state_candidates st d)"
  shows "stage \<in> set (cand_stages c)"
    and "rs_phase st = None \<Longrightarrow> stage = hd (cand_stages c)"
    and "rs_phase st = Some p \<Longrightarrow> p = stage_str stage"
proof -
  have live: "live_state st" and "locate (cand_stages c) (rs_phase st) = Inr (stage, False)"
    using assms by (auto simp: reaches_def)
  from locate_on_path [OF this(2) live_state_phase [OF live]]
  have *: "stage \<in> set (cand_stages c) \<and>
      (case rs_phase st of None \<Rightarrow> stage = hd (cand_stages c) | Some p \<Rightarrow> p = stage_str stage)" by blast
  then show "stage \<in> set (cand_stages c)" by simp
  from * show "rs_phase st = None \<Longrightarrow> stage = hd (cand_stages c)" by simp
  from * show "rs_phase st = Some p \<Longrightarrow> p = stage_str stage" by simp
qed

lemma next_of_later:
  assumes "wf_definition d" and "reaches st d stage" and "next_of st d stage = Some n"
  shows "if stage = Finish then n = ''done'' else \<exists>s. n = stage_str s \<and> stage < s"
proof -
  let ?f = "\<lambda>c. projr (after (cand_stages c) stage)"
  from assms(3) have "remdups (map ?f (state_candidates st d)) = [n]"
    by (auto simp: next_of_def split: list.splits)
  then have "n \<in> ?f ` set (state_candidates st d)" by (metis list.set_intros(1) set_map set_remdups)
  then obtain c where c: "c \<in> set (state_candidates st d)" "n = ?f c" by blast
  from after_later [OF candidate_wf [OF assms(1) c(1)] reaches_stage(1) [OF assms(2) c(1)]] c(2)
  show ?thesis by auto
qed

lemma emit_cases:
  obtains (gate) "row_stage r = Execute" and "emit st r ss n f u = parent_execute_gate st n"
  | (reopened) "row_stage r = Finish" and "rs_open_descendants st \<noteq> []"
      and "\<exists>m m'. emit st r ss n f u = (blocked Waiting_On_Children m m')
        \<lparr>rr_on_return := on_return_of r ss, rr_repair := on_return_of r ss\<rparr>"
  | (unbranched) "row_stage r = Finish" and "\<not> rs_has_branch st"
      and "\<exists>m. emit st r ss n f u = (no_result m)\<lparr>rr_on_complete := Some (no_transition\<lparr>tr_phase := Some ''done'',
             tr_work_status := eff_work_status (row_on_complete r)\<rparr>), rr_on_return := on_return_of r ss\<rparr>"
  | (stage) "emit st r ss n f u = emit_dispatch st r ss n f u"
proof -
  define g where "g \<longleftrightarrow> rs_type st \<in> set DECOMPOSING_TYPES \<and> rs_type st \<in> set (child_gated_types r)"
  consider "row_stage r = Execute \<and> g" | "row_stage r = Finish \<and> g \<and> rs_open_descendants st \<noteq> []"
    | "row_stage r = Finish \<and> g \<and> rs_open_descendants st = [] \<and> \<not> rs_has_branch st"
    | "\<not> (row_stage r = Execute \<and> g)" "\<not> (row_stage r = Finish \<and> g \<and> rs_open_descendants st \<noteq> [])"
      "\<not> (row_stage r = Finish \<and> g \<and> \<not> rs_has_branch st)" by blast
  then show thesis
  proof cases
    case 1
    then show ?thesis by (intro gate) (simp_all add: emit_def g_def)
  next
    case 2
    then show ?thesis by (intro reopened) (auto simp: emit_def g_def Let_def intro!: exI)
  next
    case 3
    then show ?thesis by (intro unbranched) (auto simp: emit_def g_def Let_def intro!: exI)
  next
    case 4
    then show ?thesis unfolding g_def by (intro stage) (simp only: emit_def Let_def if_False simp_thms)
  qed
qed

lemma gate_offers:
  "rr_on_return (parent_execute_gate st n) = None" "rr_repair (parent_execute_gate st n) = None"
  "rr_dispatch (parent_execute_gate st n) = None" "rr_on_dispatch (parent_execute_gate st n) = None"
  "rr_on_complete (parent_execute_gate st n) = Some t \<Longrightarrow> tr_phase t = n"
  by (auto simp: parent_execute_gate_def blocked_def no_result_def no_transition_def Let_def
      split: option.splits if_splits)

lemma dispatch_offers:
  "rr_on_return (emit_dispatch st r ss n f u) = on_return_of r ss" "rr_repair (emit_dispatch st r ss n f u) = None"
  "rr_dispatch (emit_dispatch st r ss n f u) = Some (row_stage r)" "rr_blockers (emit_dispatch st r ss n f u) = []"
  by (simp_all add: emit_dispatch_def Let_def)

lemma dispatch_complete:
  assumes "rr_on_complete (emit_dispatch st r ss n f u) = Some t"
  shows "tr_phase t = n \<or>
    row_stage r = Plan \<and> rs_phase st \<noteq> None \<and> rs_stale_spec st \<noteq> [] \<and> tr_phase t = Some ''plan''"
proof (cases "row_stage r = Plan \<and> rs_phase st \<noteq> None \<and> rs_stale_spec st \<noteq> []")
  case True
  with assms have "t = no_transition\<lparr>tr_phase := Some ''plan'', tr_stamp_baseline := True\<rparr>"
    by (simp add: emit_dispatch_def Let_def)
  with True show ?thesis by simp
next
  case False
  with assms have "t = emit_complete st r n u" by (auto simp: emit_dispatch_def Let_def)
  then show ?thesis by (simp add: emit_complete_def Let_def)
qed

lemma emit_complete_phase:
  assumes "rr_on_complete (emit st r ss n f u) = Some t"
  shows "tr_phase t = n \<or> row_stage r = Finish \<and> tr_phase t = Some ''done'' \<or>
    row_stage r = Plan \<and> rs_phase st \<noteq> None \<and> rs_stale_spec st \<noteq> [] \<and> tr_phase t = Some ''plan''"
proof (cases rule: emit_cases [of r st ss n f u])
  case gate
  with assms gate_offers(5) show ?thesis by auto
next
  case reopened
  with assms show ?thesis by (auto simp: blocked_def no_result_def)
next
  case unbranched
  with assms show ?thesis by auto
next
  case stage
  with assms dispatch_complete show ?thesis by metis
qed

lemma emit_return: "rr_on_return (emit st r ss n f u) = Some t \<Longrightarrow> on_return_of r ss = Some t"
  by (cases rule: emit_cases [of r st ss n f u]) (auto simp: gate_offers dispatch_offers)

lemma emit_repair:
  "rr_repair (emit st r ss n f u) = Some t \<Longrightarrow>
     rr_on_return (emit st r ss n f u) = Some t \<and>
     map blk_kind (rr_blockers (emit st r ss n f u)) = [Waiting_On_Children]"
  by (cases rule: emit_cases [of r st ss n f u])
    (auto simp: gate_offers dispatch_offers blocked_def no_result_def)

lemma emit_dispatch_stage:
  "rr_dispatch (emit st r ss n f u) = Some stage \<Longrightarrow>
     stage = row_stage r \<and> rr_blockers (emit st r ss n f u) = []"
  by (cases rule: emit_cases [of r st ss n f u])
    (auto simp: gate_offers dispatch_offers blocked_def no_result_def)

definition RETURN_TO_EXECUTE :: transition where
  "RETURN_TO_EXECUTE = no_transition\<lparr>tr_phase := Some ''execute'', tr_work_status := Some ''in-progress''\<rparr>"

lemma on_return_of_row:
  "on_return_of (row_of s) ss = Some t \<longleftrightarrow> s = Finish \<and> Execute \<in> set ss \<and> t = RETURN_TO_EXECUTE"
  by (cases s) (auto simp: on_return_of_def row_defs RETURN_TO_EXECUTE_def)

lemma hd_Finish: "wf_stages ss \<Longrightarrow> hd ss = Finish \<Longrightarrow> set ss = {Finish}"
  by (cases ss) (auto simp: wf_stages_def leD [OF stage_le_Finish])

subsection \<open>Properties of the interpreter\<close>

text \<open>A concrete state: a small bug in its execute stage.\<close>

definition sample_state :: route_state where
  "sample_state =
     \<lparr>rs_type = ''Bug'', rs_work_status = ''accepted'', rs_phase = Some ''execute'', rs_effort = Some ''small'',
      rs_blast_radius = None, rs_has_plan_doc = False, rs_has_spec_doc = True, rs_hold = None,
      rs_stale_spec = [], rs_dependency_edges = [], rs_dependency_facts = [], rs_dependency_issues = [],
      rs_child_rollup = None, rs_open_descendants = [], rs_has_branch = True\<rparr>"

text \<open>C21. The interpreter never raises: whatever the state of the item, a definition whose
  rules the parser accepts gives it an answer (no missing key, no exhausted \<open>next\<close>, no
  missing index).\<close>

theorem route_returns:
  assumes "wf_definition d"
  shows "\<exists>r. route st d = Inr r"
  by (rule route_total [OF assms])

theorem route_returns_witness: "\<exists>r. route sample_state PACKAGED_DEFINITION = Inr r"
  by (rule route_returns [OF wf_packaged])

text \<open>C2. A stage is dispatched only to an item that can run it: the state is valid, neither
  done, terminal nor held, the stage is on every candidate path and is the phase the item is
  at (or the entry of every path), nothing blocks, and every dependency edge that blocks a
  stage of the path and gates this stage is satisfied.\<close>

theorem dispatch_sound:
  assumes "wf_definition d" and "route st d = Inr r" and "rr_dispatch r = Some stage"
  shows "rr_blockers r = [] \<and> validate_state st = [] \<and> rs_hold st = None \<and>
    rs_work_status st \<in> {''open'', ''accepted'', ''in-progress''} \<and>
    (\<forall>c \<in> set (state_candidates st d). stage \<in> set (cand_stages c) \<and>
       (case rs_phase st of None \<Rightarrow> stage = hd (cand_stages c) | Some p \<Rightarrow> p = stage_str stage)) \<and>
    (\<forall>e \<in> set (rs_dependency_edges st).
       (\<exists>c \<in> set (state_candidates st d). \<exists>s \<in> set (cand_stages c). blocks e = stage_str s) \<longrightarrow>
       gates e (stage_str stage) \<longrightarrow>
       satisfied e (lookup_fact (rs_dependency_facts st) (edge_path e)))"
proof (cases rule: route_cases [OF assms(2,1)])
  case 1
  with assms(3) show ?thesis by (simp add: offers_nothing_def)
next
  case (2 stage' q)
  with assms(3) show ?thesis by (simp add: off_path_result_def blocked_def no_result_def)
next
  case (3 stage' forked)
  from emit_dispatch_stage [OF assms(3) [unfolded 3(2)]] 3(2)
  have stage: "stage = stage'" and nb: "rr_blockers r = []" by simp_all
  note reach = 3(1) [folded stage]
  then have live: "live_state st"
    and un: "unmet (rs_dependency_edges st) (rs_dependency_facts st) (stage_str stage)
      (Some (concat (map cand_stages (state_candidates st d)))) = []"
    by (auto simp: reaches_def)
  have "satisfied e (lookup_fact (rs_dependency_facts st) (edge_path e))"
    if "e \<in> set (rs_dependency_edges st)" "c \<in> set (state_candidates st d)" "s \<in> set (cand_stages c)"
      "blocks e = stage_str s" "gates e (stage_str stage)" for e c s
  proof (rule ccontr)
    assume "\<not> satisfied e (lookup_fact (rs_dependency_facts st) (edge_path e))"
    with that have "(e, lookup_fact (rs_dependency_facts st) (edge_path e)) \<in> set (unmet
        (rs_dependency_edges st) (rs_dependency_facts st) (stage_str stage)
        (Some (concat (map cand_stages (state_candidates st d)))))"
      by (auto simp: unmet_iff)
    with un show False by simp
  qed
  moreover have "stage \<in> set (cand_stages c) \<and>
      (case rs_phase st of None \<Rightarrow> stage = hd (cand_stages c) | Some p \<Rightarrow> p = stage_str stage)"
    if "c \<in> set (state_candidates st d)" for c
    using reaches_stage [OF reach that] by (simp split: option.split)
  ultimately show ?thesis using nb live by (auto simp: live_state_def)
qed

theorem dispatch_sound_witness:
  "rr_blockers (projr (route sample_state PACKAGED_DEFINITION)) = [] \<and> rs_hold sample_state = None"
proof -
  have "route sample_state PACKAGED_DEFINITION = Inr (projr (route sample_state PACKAGED_DEFINITION))"
    and "rr_dispatch (projr (route sample_state PACKAGED_DEFINITION)) = Some Execute" by code_simp+
  from dispatch_sound [OF wf_packaged this] show ?thesis by blast
qed

text \<open>C19. Stages only advance: completing the current phase moves the item strictly later in
  the phase order, except that a plan whose spec went stale is planned again in place.\<close>

theorem completion_moves_forward:
  assumes "wf_definition d" and "route st d = Inr r" and "rr_on_complete r = Some t"
    and "tr_phase t = Some p" and "rs_phase st = Some q"
  shows "(\<exists>i j. PHASE_RANK q = Some i \<and> PHASE_RANK p = Some j \<and> i < j) \<or>
    (p = ''plan'' \<and> q = ''plan'' \<and> rs_stale_spec st \<noteq> [])"
proof (cases rule: route_cases [OF assms(2,1)])
  case 1
  with assms(3) show ?thesis by (simp add: offers_nothing_def)
next
  case (2 stage' q')
  with assms(3) show ?thesis by (simp add: off_path_result_def blocked_def no_result_def)
next
  case (3 stage forked)
  from 3(1) have ne: "hd (state_candidates st d) \<in> set (state_candidates st d)" by (simp add: reaches_def)
  from reaches_stage(3) [OF 3(1) ne assms(5)] have q: "q = stage_str stage" .
  have rank: "PHASE_RANK (stage_str s) = Some (stage_rank s)" for s
    by (simp add: PHASE_RANK_def phase_ordinals_def [symmetric])
  have fin: "PHASE_RANK ''done'' = Some 4" using PHASE_RANK_done by (simp add: DONE_def)
  have lt: "stage_rank stage < 4" by (cases stage) auto
  from emit_complete_phase [of st "row_of stage"] 3(2) assms(3,4)
  consider "next_of st d stage = Some p" | "stage = Finish" "p = ''done''"
    | "stage = Plan" "rs_stale_spec st \<noteq> []" "p = ''plan''" by fastforce
  then show ?thesis
  proof cases
    case 1
    from next_of_later [OF assms(1) 3(1) 1] show ?thesis
      using rank fin lt q by (auto simp: less_stage_rank split: if_splits)
  next
    case 2
    have "PHASE_RANK q = Some (stage_rank stage)" using rank q by simp
    with 2 fin lt show ?thesis by auto
  next
    case 3
    with q show ?thesis by simp
  qed
qed

theorem completion_moves_forward_witness:
  "(\<exists>i j. PHASE_RANK ''execute'' = Some i \<and> PHASE_RANK ''finish'' = Some j \<and> i < j) \<or>
     (''finish'' = ''plan'' \<and> ''execute'' = ''plan'' \<and> rs_stale_spec sample_state \<noteq> [])"
proof -
  let ?r = "projr (route sample_state PACKAGED_DEFINITION)"
  have "route sample_state PACKAGED_DEFINITION = Inr ?r" by code_simp
  moreover have "map_option tr_phase (rr_on_complete ?r) = Some (Some ''finish'')" by code_simp
  then obtain t where "rr_on_complete ?r = Some t" "tr_phase t = Some ''finish''" by auto
  moreover have "rs_phase sample_state = Some ''execute''" by (simp add: sample_state_def)
  ultimately show ?thesis by (rule completion_moves_forward [OF wf_packaged])
qed

text \<open>C20. The one backwards move is the return from finish to execute: it is offered only at
  the finish phase, always with status in-progress. A repair moves an off-path phase strictly
  later, or is that same return when later children reopened a finished container.\<close>

theorem only_return_goes_back:
  assumes "wf_definition d" and "route st d = Inr r"
  shows "(\<forall>t. rr_on_return r = Some t \<longrightarrow> rs_phase st = Some ''finish'' \<and> t = RETURN_TO_EXECUTE) \<and>
    (\<forall>t. rr_repair r = Some t \<longrightarrow>
       (map blk_kind (rr_blockers r) = [Phase_Off_Path] \<and>
          (\<exists>q s. rs_phase st = Some (stage_str q) \<and> tr_phase t = Some (stage_str s) \<and> q < s)) \<or>
       (map blk_kind (rr_blockers r) = [Waiting_On_Children] \<and> rr_on_return r = Some t))"
proof (cases rule: route_cases [OF assms(2,1)])
  case 1
  then show ?thesis by (simp add: offers_nothing_def)
next
  case (2 stage q)
  then show ?thesis by (auto simp: off_path_result_def blocked_def no_result_def no_transition_def)
next
  case (3 stage forked)
  let ?c = "hd (state_candidates st d)"
  from 3(1) have ne: "?c \<in> set (state_candidates st d)" by (simp add: reaches_def)
  have "rs_phase st = Some ''finish'' \<and> t = RETURN_TO_EXECUTE" if "rr_on_return r = Some t" for t
  proof -
    from that emit_return 3(2) have "on_return_of (row_of stage) (cand_stages ?c) = Some t" by metis
    then have *: "stage = Finish" "Execute \<in> set (cand_stages ?c)" "t = RETURN_TO_EXECUTE"
      by (simp_all add: on_return_of_row)
    have "rs_phase st \<noteq> None"
    proof
      assume "rs_phase st = None"
      with reaches_stage(2) [OF 3(1) ne] *(1) have "hd (cand_stages ?c) = Finish" by simp
      with hd_Finish candidate_wf [OF assms(1) ne] *(2) show False by auto
    qed
    with reaches_stage(3) [OF 3(1) ne] * show ?thesis by auto
  qed
  moreover from 3(2) emit_repair [of st "row_of stage"]
  have "rr_repair r = Some t \<Longrightarrow> map blk_kind (rr_blockers r) = [Waiting_On_Children] \<and> rr_on_return r = Some t"
    for t by metis
  ultimately show ?thesis by blast
qed

theorem only_return_goes_back_witness:
  "\<exists>t. rr_on_return (projr (route (sample_state\<lparr>rs_phase := Some ''finish''\<rparr>) PACKAGED_DEFINITION)) = Some t \<and>
     t = RETURN_TO_EXECUTE"
proof -
  let ?st = "sample_state\<lparr>rs_phase := Some ''finish''\<rparr>"
  let ?r = "projr (route ?st PACKAGED_DEFINITION)"
  have "route ?st PACKAGED_DEFINITION = Inr ?r" by code_simp
  note * = only_return_goes_back [OF wf_packaged this]
  have "map_option tr_phase (rr_on_return ?r) = Some (Some ''execute'')" by code_simp
  then obtain t where "rr_on_return ?r = Some t" by auto
  with * show ?thesis by blast
qed

text \<open>C0. A container (Release or Epic) with an open descendant neither runs nor completes its
  execute or finish stage.\<close>

lemma emit_container:
  assumes "rs_type st \<in> set DECOMPOSING_TYPES" and "rs_open_descendants st \<noteq> []"
    and "s = Execute \<or> s = Finish"
  shows "rr_dispatch (emit st (row_of s) ss n f u) = None \<and> rr_on_complete (emit st (row_of s) ss n f u) = None"
proof -
  have "rs_type st \<in> set (child_gated_types (row_of s))"
    using assms(1,3) by (auto simp: row_defs DECOMPOSING_TYPES_def PARENT_TYPES_def)
  with assms show ?thesis
    by (auto simp: emit_def Let_def parent_execute_gate_def blocked_def no_result_def split: option.split)
qed

theorem containers_wait:
  assumes "wf_definition d" and "route st d = Inr r" and "rs_type st \<in> set DECOMPOSING_TYPES"
    and "rs_open_descendants st \<noteq> []" and "rs_phase st = Some ''execute'' \<or> rs_phase st = Some ''finish''"
  shows "rr_dispatch r = None \<and> rr_on_complete r = None"
proof (cases rule: route_cases [OF assms(2,1)])
  case 1
  then show ?thesis by (simp add: offers_nothing_def)
next
  case (2 stage q)
  then show ?thesis by (simp add: off_path_result_def blocked_def no_result_def)
next
  case (3 stage forked)
  then have "hd (state_candidates st d) \<in> set (state_candidates st d)" by (simp add: reaches_def)
  from reaches_stage(3) [OF 3(1) this] assms(5) have "stage = Execute \<or> stage = Finish"
    by (cases stage) auto
  with emit_container [OF assms(3,4)] 3(2) show ?thesis by simp
qed

theorem containers_wait_witness:
  "rr_dispatch (projr (route (sample_state\<lparr>rs_type := ''Epic'', rs_open_descendants := [''work/e/children/c'']\<rparr>)
     PACKAGED_DEFINITION)) = None"
proof -
  let ?st = "sample_state\<lparr>rs_type := ''Epic'', rs_open_descendants := [''work/e/children/c'']\<rparr>"
  have "route ?st PACKAGED_DEFINITION = Inr (projr (route ?st PACKAGED_DEFINITION))" by code_simp
  from containers_wait [OF wf_packaged this] show ?thesis
    by (simp add: sample_state_def DECOMPOSING_TYPES_def)
qed

subsection \<open>Entry under the packaged rules\<close>

definition entry_of :: "string \<Rightarrow> string option \<Rightarrow> stage option" where
  "entry_of ty effort =
     (if ty \<noteq> ''TestGap'' then Some Design
      else case effort of
             None \<Rightarrow> None
           | Some e \<Rightarrow> if e \<in> set SMALL_EFFORTS then Some Execute else Some Plan)"

lemma packaged_candidates:
  "map cand_stages (state_candidates st PACKAGED_DEFINITION) =
     (case rs_effort st of
        None \<Rightarrow> map (packaged_stages (rs_type st)) (order_of ''effort'')
      | Some e \<Rightarrow> [packaged_stages (rs_type st) e])"
  by (auto simp: route_attributes_def packaged_resolve_sized packaged_resolve_unsized split: option.split)

lemma order_of_effort: "order_of ''effort'' = [''xtra-small'', ''small'', ''medium'', ''large'', ''xtra-large'']"
  by (simp add: order_of_def ATTRIBUTE_ORDER_def)

lemma packaged_hd:
  "hd (packaged_stages ty e) = (if ty \<noteq> ''TestGap'' then Design else if e \<in> set SMALL_EFFORTS then Execute else Plan)"
  by (simp add: packaged_stages_def)

lemma packaged_plan: "ty \<in> set DECOMPOSING_TYPES \<Longrightarrow> Plan \<in> set (packaged_stages ty e)"
  by (auto simp: packaged_stages_def DECOMPOSING_TYPES_def BUG_LIKE_TYPES_def)

lemma packaged_heads:
  "map (hd \<circ> cand_stages) (state_candidates st PACKAGED_DEFINITION) =
     (case rs_effort st of
        None \<Rightarrow> map (\<lambda>e. hd (packaged_stages (rs_type st) e)) (order_of ''effort'')
      | Some e \<Rightarrow> [hd (packaged_stages (rs_type st) e)])"
  using arg_cong [OF packaged_candidates, of "map hd" st] by (simp split: option.split)

lemma emit_dispatches:
  assumes "s = Execute \<or> s = Finish \<Longrightarrow> rs_type st \<notin> set DECOMPOSING_TYPES"
  shows "rr_dispatch (emit st (row_of s) ss n f u) = Some s"
  using assms by (cases s) (auto simp: emit_def Let_def emit_dispatch_def row_defs)

lemma route_on_path_emits:
  assumes "route_on_path st resolution stage = Inr r" and "rs_dependency_edges st = []"
  shows "\<exists>ss n f u. r = emit st (row_of stage) ss n f u"
  using assms
  by (auto simp: route_on_path_def dependency_blocker_def unmet_def List.map_filter_simps Let_def
      bind_res_eq_Inr)

lemma fresh_resolved:
  assumes "live_state st" and "rs_phase st = None"
  shows "route_resolved st (resolve_path PACKAGED_DEFINITION (route_attributes st)) =
    (let heads = map (hd \<circ> cand_stages) (state_candidates st PACKAGED_DEFINITION);
         located = map (\<lambda>s. (s, False)) heads
     in if length (remdups heads) > 1
        then fork_blocker st (resolve_path PACKAGED_DEFINITION (route_attributes st)) located
        else route_on_path st (resolve_path PACKAGED_DEFINITION (route_attributes st)) (hd heads))"
proof -
  let ?cs = "state_candidates st PACKAGED_DEFINITION"
  have wf: "cand_stages c \<noteq> []" if "c \<in> set ?cs" for c
    using candidate_wf [OF wf_packaged that] by (simp add: wf_stages_def)
  have ne: "?cs \<noteq> []" by (rule complete_has_candidates [OF packaged_complete])
  have "map_res (\<lambda>c. locate (cand_stages c) (rs_phase st)) ?cs = Inr (map (\<lambda>c. (hd (cand_stages c), False)) ?cs)"
    by (rule map_res_cong_pure) (use wf assms(2) in \<open>auto simp: locate_entry split: list.split\<close>)
  moreover have "Plan \<in> set (cand_stages c)" if "rs_type st \<in> set DECOMPOSING_TYPES" "c \<in> set ?cs" for c
  proof -
    from that(2) have "cand_stages c \<in> set (map cand_stages ?cs)" by simp
    with packaged_plan [OF that(1)] show ?thesis
      by (auto simp: packaged_candidates split: option.splits)
  qed
  then have "find (\<lambda>c. rs_type st \<in> set DECOMPOSING_TYPES \<and> Plan \<notin> set (cand_stages c)) ?cs = None"
    by (auto simp: find_None_iff)
  moreover have "length (remdups (map (\<lambda>c. (hd (cand_stages c), False)) ?cs)) =
      length (remdups (map (hd \<circ> cand_stages) ?cs))"
  proof -
    have "(\<lambda>c. (hd (cand_stages c), False)) ` set ?cs = (\<lambda>s. (s, False)) ` (hd \<circ> cand_stages) ` set ?cs"
      by (auto simp: image_image)
    then have "card ((\<lambda>c. (hd (cand_stages c), False)) ` set ?cs) = card ((hd \<circ> cand_stages) ` set ?cs)"
      by (simp only:) (rule card_image, simp add: inj_on_def)
    then show ?thesis by (simp add: length_remdups_card_conv)
  qed
  ultimately show ?thesis
    using ne packaged_complete by (simp add: route_resolved_def Let_def hd_map o_def)
qed

text \<open>Under the packaged rules a valid, open, unheld item without dependencies enters the
  pipeline at design, whatever its type and size; except a test gap, which enters at execute
  when small, at plan when larger, and is blocked for sizing while its effort is unset.\<close>

theorem fresh_item_entry:
  assumes "validate_state st = []" and "rs_phase st = None" and "rs_work_status st = ''open''"
    and "rs_hold st = None" and "rs_dependency_edges st = []"
  shows "\<exists>r. route st PACKAGED_DEFINITION = Inr r \<and> rr_dispatch r = entry_of (rs_type st) (rs_effort st) \<and>
    (rr_dispatch r = None \<longrightarrow> map blk_kind (rr_blockers r) = [Effort_Required])"
proof -
  have live: "live_state st" using assms by (simp add: live_state_def DONE_def)
  let ?res = "resolve_path PACKAGED_DEFINITION (route_attributes st)"
  have route: "route st PACKAGED_DEFINITION = route_resolved st ?res"
    using assms by (simp add: route_def Let_def TERMINAL_STATUSES_def)
  note heads = packaged_heads [of st] packaged_hd order_of_effort
  show ?thesis
  proof (cases "entry_of (rs_type st) (rs_effort st)")
    case (Some s)
    then have "map (hd \<circ> cand_stages) (state_candidates st PACKAGED_DEFINITION) \<in> {[s], [s, s, s, s, s]}"
      unfolding heads(1)
      by (cases "rs_effort st") (auto simp: order_of_effort packaged_hd entry_of_def split: if_split_asm)
    then have "remdups (map (hd \<circ> cand_stages) (state_candidates st PACKAGED_DEFINITION)) = [s]"
      and "hd (map (hd \<circ> cand_stages) (state_candidates st PACKAGED_DEFINITION)) = s" by auto
    with fresh_resolved [OF live assms(2)] have on: "route_resolved st ?res = route_on_path st ?res s"
      by (simp add: Let_def)
    from route_total [OF wf_packaged] obtain r where "route st PACKAGED_DEFINITION = Inr r" by blast
    with route on route_on_path_emits [OF _ assms(5)] obtain ss n f u where
      r: "route st PACKAGED_DEFINITION = Inr (emit st (row_of s) ss n f u)" by metis
    have "rs_type st \<notin> set DECOMPOSING_TYPES" if "s = Execute \<or> s = Finish"
      using Some that by (auto simp: entry_of_def DECOMPOSING_TYPES_def split: if_splits option.splits)
    from emit_dispatches [OF this] r Some show ?thesis by auto
  next
    case None
    then have tg: "rs_type st = ''TestGap''" "rs_effort st = None"
      by (auto simp: entry_of_def split: if_splits option.splits)
    then have hs: "map (hd \<circ> cand_stages) (state_candidates st PACKAGED_DEFINITION) =
        [Execute, Execute, Plan, Plan, Plan]"
      by (simp add: heads SMALL_EFFORTS_def)
    have un: "unset ?res = [''effort'']"
      using tg by (simp add: route_attributes_def packaged_unset)
    from fresh_resolved [OF live assms(2)] hs
    have "route_resolved st ?res = fork_blocker st ?res (map (\<lambda>s. (s, False)) [Execute, Execute, Plan, Plan, Plan])"
      by (simp add: Let_def)
    with fork_blocker_total [of st PACKAGED_DEFINITION "route_attributes st"] route obtain k reason m where
      r: "route st PACKAGED_DEFINITION = Inr (blocked k reason m)"
        "fork_blocker st ?res (map (\<lambda>s. (s, False)) [Execute, Execute, Plan, Plan, Plan]) = Inr (blocked k reason m)"
      by metis
    from fork_blocker_kind [OF r(2)] un have "map blk_kind (rr_blockers (blocked k reason m)) = [Effort_Required]"
      by simp
    with r(1) None show ?thesis by (simp add: blocked_def no_result_def)
  qed
qed

theorem fresh_item_entry_witness:
  "\<exists>r. route (sample_state\<lparr>rs_type := ''Feature'', rs_phase := None, rs_work_status := ''open''\<rparr>)
     PACKAGED_DEFINITION = Inr r \<and> rr_dispatch r = Some Design"
  using fresh_item_entry [of "sample_state\<lparr>rs_type := ''Feature'', rs_phase := None, rs_work_status := ''open''\<rparr>"]
  by (auto simp: sample_state_def validate_state_def entry_of_def TYPES_def WORK_STATUSES_def EFFORTS_def)

end
