(* ===== verification/Splitter.thy ===== *)
theory Splitter
  imports Prelude
begin

text \<open>
  The frontmatter splitter of a concept file (\<open>okf_io/_yaml.py\<close>: \<open>_lines\<close>,
  \<open>split\<close>, \<open>join\<close>). A file is cut into six verbatim pieces along line
  boundaries. Text is a list of code points here, since the byte order mark and the Unicode
  spaces of \<open>str.strip\<close> matter.
\<close>

type_synonym codes = "int list"

definition code_CR :: int where "code_CR = 13"
definition code_LF :: int where "code_LF = 10"

definition BOM :: codes where "BOM = [0xFEFF]"

text \<open>\<open>str.isspace\<close>, which \<open>strip\<close> and \<open>rstrip\<close> remove.\<close>

definition is_blank_code :: "int \<Rightarrow> bool" where
  "is_blank_code c \<longleftrightarrow>
     9 \<le> c \<and> c \<le> 13 \<or> 28 \<le> c \<and> c \<le> 32 \<or> 8192 \<le> c \<and> c \<le> 8202 \<or>
     c \<in> {133, 160, 5760, 8232, 8233, 8239, 8287, 12288}"

definition rstrip_codes :: "codes \<Rightarrow> codes" where
  "rstrip_codes s = rev (dropWhile is_blank_code (rev s))"

definition blank_line :: "codes \<Rightarrow> bool" where
  "blank_line s \<longleftrightarrow> list_all is_blank_code s"

subsection \<open>Lines\<close>

text \<open>A line keeps its own end; only CR, LF and CR LF end one.\<close>

fun push_code :: "int \<Rightarrow> codes list \<Rightarrow> codes list" where
  "push_code c [] = [[c]]"
| "push_code c (l # ls) = (c # l) # ls"

fun text_lines :: "codes \<Rightarrow> codes list" where
  "text_lines [] = []"
| "text_lines (c # cs) =
     (if c = code_LF then [c] # text_lines cs
      else if c = code_CR
      then (case cs of
              [] \<Rightarrow> [[c]]
            | d # ds \<Rightarrow> if d = code_LF then [c, d] # text_lines ds else [c] # text_lines cs)
      else push_code c (text_lines cs))"

definition DELIM :: codes where "DELIM = [45, 45, 45]"
definition CLOSE_DELIMS :: "codes list" where "CLOSE_DELIMS = [[45, 45, 45], [46, 46, 46]]"

record split_text =
  sp_bom :: codes
  sp_open_delim :: codes
  sp_fm_text :: codes
  sp_close_delim :: codes
  sp_gap :: codes
  sp_body :: codes
  sp_has_frontmatter :: bool
  sp_unterminated :: bool

text \<open>The index of the first closing delimiter among the lines after the opening one.\<close>

fun close_index :: "codes list \<Rightarrow> nat option" where
  "close_index [] = None"
| "close_index (l # ls) =
     (if rstrip_codes l \<in> set CLOSE_DELIMS then Some 0 else map_option Suc (close_index ls))"

definition bom_of :: "codes \<Rightarrow> codes" where
  "bom_of text = (if take (length BOM) text = BOM then BOM else [])"

definition split_frontmatter :: "codes \<Rightarrow> split_text" where
  "split_frontmatter text =
     (let bom = bom_of text;
          rest = drop (length bom) text
      in case text_lines rest of
           [] \<Rightarrow> \<lparr>sp_bom = bom, sp_open_delim = [], sp_fm_text = [], sp_close_delim = [], sp_gap = [],
                  sp_body = rest, sp_has_frontmatter = False, sp_unterminated = False\<rparr>
         | first # lines \<Rightarrow>
             if rstrip_codes first \<noteq> DELIM
             then \<lparr>sp_bom = bom, sp_open_delim = [], sp_fm_text = [], sp_close_delim = [], sp_gap = [],
                   sp_body = rest, sp_has_frontmatter = False, sp_unterminated = False\<rparr>
             else case close_index lines of
                    None \<Rightarrow>
                      \<lparr>sp_bom = bom, sp_open_delim = first, sp_fm_text = concat lines,
                       sp_close_delim = [], sp_gap = [], sp_body = [],
                       sp_has_frontmatter = True, sp_unterminated = True\<rparr>
                  | Some i \<Rightarrow>
                      let after = drop (Suc i) lines
                      in \<lparr>sp_bom = bom, sp_open_delim = first, sp_fm_text = concat (take i lines),
                          sp_close_delim = lines ! i, sp_gap = concat (takeWhile blank_line after),
                          sp_body = concat (dropWhile blank_line after),
                          sp_has_frontmatter = True, sp_unterminated = False\<rparr>)"

definition join_frontmatter :: "split_text \<Rightarrow> codes option \<Rightarrow> codes" where
  "join_frontmatter s fm_text =
     sp_bom s @ sp_open_delim s @ (case fm_text of None \<Rightarrow> sp_fm_text s | Some t \<Rightarrow> t)
       @ sp_close_delim s @ sp_gap s @ sp_body s"

subsection \<open>Lines and their concatenation\<close>

declare text_lines.simps(2) [simp del]

lemma CR_not_LF [simp]: "code_CR \<noteq> code_LF" "code_LF \<noteq> code_CR"
  by (simp_all add: code_CR_def code_LF_def)

lemma text_lines_step [simp]:
  "text_lines (code_LF # cs) = [code_LF] # text_lines cs"
  "text_lines (code_CR # code_LF # cs) = [code_CR, code_LF] # text_lines cs"
  "cs = [] \<or> hd cs \<noteq> code_LF \<Longrightarrow> text_lines (code_CR # cs) = [code_CR] # text_lines cs"
  "c \<noteq> code_LF \<Longrightarrow> c \<noteq> code_CR \<Longrightarrow> text_lines (c # cs) = push_code c (text_lines cs)"
  by (auto simp: text_lines.simps(2) split: list.split)

lemma text_lines_induct [case_names Nil LF CRLF CR other]:
  assumes "P []" and "\<And>cs. P cs \<Longrightarrow> P (code_LF # cs)" and "\<And>cs. P cs \<Longrightarrow> P (code_CR # code_LF # cs)"
    and "\<And>cs. cs = [] \<or> hd cs \<noteq> code_LF \<Longrightarrow> P cs \<Longrightarrow> P (code_CR # cs)"
    and "\<And>c cs. c \<noteq> code_LF \<Longrightarrow> c \<noteq> code_CR \<Longrightarrow> P cs \<Longrightarrow> P (c # cs)"
  shows "P s"
proof (induction s rule: length_induct)
  case (1 s)
  then have IH: "\<And>t. length t < length s \<Longrightarrow> P t" by blast
  show ?case
  proof (cases s)
    case Nil
    with assms(1) show ?thesis by simp
  next
    case (Cons c cs)
    consider "c = code_LF" | "c = code_CR" "cs = [] \<or> hd cs \<noteq> code_LF" | "c = code_CR" "cs \<noteq> []" "hd cs = code_LF"
      | "c \<noteq> code_LF" "c \<noteq> code_CR" by blast
    then show ?thesis
    proof cases
      case 3
      then obtain ds where "cs = code_LF # ds" by (cases cs) auto
      with 3 Cons IH [of ds] assms(3) show ?thesis by simp
    qed (use Cons IH [of cs] assms in auto)
  qed
qed

lemma concat_push_code [simp]: "concat (push_code c ls) = c # concat ls"
  by (cases ls) auto

lemma push_code_not_Nil [simp]: "push_code c ls \<noteq> []" "[] \<noteq> push_code c ls"
  by (cases ls; simp)+

lemma push_code_append: "ls \<noteq> [] \<Longrightarrow> push_code c (ls @ ms) = push_code c ls @ ms"
  by (cases ls) auto

lemma set_push_code: "l \<in> set (push_code c ls) \<Longrightarrow> l = [c] \<or> (\<exists>k. l = c # k \<and> k \<in> set ls) \<or> l \<in> set ls"
  by (cases ls) auto

lemma concat_text_lines [simp]: "concat (text_lines s) = s"
  by (induction s rule: text_lines_induct) auto

lemma text_lines_empty [simp]: "text_lines s = [] \<longleftrightarrow> s = []"
  by (metis concat_text_lines concat.simps(1) text_lines.simps(1))

text \<open>A text that ends with a line feed ends a line, so what follows it starts a new one.\<close>

lemma text_lines_append:
  "s = [] \<or> last s = code_LF \<Longrightarrow> text_lines (s @ t) = text_lines s @ text_lines t"
proof (induction s rule: text_lines_induct)
  case (CR cs)
  then show ?case by (cases cs) auto
next
  case (other c cs)
  then show ?case by (cases cs) (auto simp: push_code_append)
qed (auto split: if_splits)

text \<open>Each line is a line on its own.\<close>

lemma text_lines_line: "l \<in> set (text_lines s) \<Longrightarrow> text_lines l = [l]"
proof (induction s arbitrary: l rule: text_lines_induct)
  case (other c cs)
  then show ?case by (auto dest!: set_push_code)
qed auto

lemma text_lines_tl: "text_lines s = l # ls \<Longrightarrow> text_lines (concat ls) = ls"
proof (induction s arbitrary: l rule: text_lines_induct)
  case (other c cs)
  then show ?case by (cases "text_lines cs") auto
qed auto

lemma text_lines_drop: "text_lines (concat (drop k (text_lines s))) = drop k (text_lines s)"
proof (induction k)
  case (Suc k)
  show ?case
  proof (cases "drop k (text_lines s)")
    case Nil
    then have "drop (Suc k) (text_lines s) = []" by simp
    then show ?thesis by (simp only: concat.simps text_lines.simps)
  next
    case (Cons l ls)
    then have "drop (Suc k) (text_lines s) = ls"
      by (metis drop_Suc list.sel(3) tl_drop)
    with Suc Cons text_lines_tl [of "concat (l # ls)" l ls] show ?thesis by simp
  qed
qed simp

subsection \<open>Splitting\<close>

lemma close_index_Some:
  "close_index ls = Some i \<Longrightarrow>
     i < length ls \<and> rstrip_codes (ls ! i) \<in> set CLOSE_DELIMS \<and>
     (\<forall>l \<in> set (take i ls). rstrip_codes l \<notin> set CLOSE_DELIMS)"
  by (induction ls arbitrary: i) (auto split: if_splits)

lemma close_index_append:
  "\<forall>l \<in> set ks. rstrip_codes l \<notin> set CLOSE_DELIMS \<Longrightarrow> rstrip_codes l \<in> set CLOSE_DELIMS \<Longrightarrow>
     close_index (ks @ l # ls) = Some (length ks)"
  by (induction ks) auto

lemma concat_around:
  "i < length ls \<Longrightarrow> concat (take i ls) @ ls ! i @ concat (drop (Suc i) ls) = concat ls"
  by (metis append_assoc concat.simps(2) concat_append id_take_nth_drop)

lemma concat_while: "concat (takeWhile P ls) @ concat (dropWhile P ls) = concat ls"
  by (metis concat_append takeWhile_dropWhile_id)

lemma bom_of_rest: "bom_of text @ drop (length (bom_of text)) text = text"
  using append_take_drop_id [of "length BOM" "text"] by (auto simp: bom_of_def simp del: append_take_drop_id)

lemma join_split: "join_frontmatter (split_frontmatter text) None = text"
proof -
  let ?rest = "drop (length (bom_of text)) text"
  have "bom_of text @ concat (text_lines ?rest) = text" by (simp add: bom_of_rest)
  moreover have "join_frontmatter (split_frontmatter text) None = bom_of text @ concat (text_lines ?rest)"
  proof (cases "text_lines ?rest")
    case Nil
    then show ?thesis by (simp add: split_frontmatter_def join_frontmatter_def Let_def)
  next
    case (Cons first lines)
    then have "first @ concat lines = ?rest" by (metis concat.simps(2) concat_text_lines)
    moreover have "concat (take i lines) @ lines ! i @ concat (takeWhile blank_line (drop (Suc i) lines))
        @ concat (dropWhile blank_line (drop (Suc i) lines)) = concat lines" if "close_index lines = Some i" for i
      using close_index_Some [OF that] concat_around [of i lines] by (simp add: concat_while)
    ultimately show ?thesis using Cons
      by (simp add: split_frontmatter_def join_frontmatter_def Let_def split: option.split)
  qed
  ultimately show ?thesis by simp
qed

text \<open>A split with a closed block, as the lines it was cut along.\<close>

lemma split_closed:
  assumes "sp_has_frontmatter (split_frontmatter text)" and "\<not> sp_unterminated (split_frontmatter text)"
  obtains first ks l ls where
    "text_lines (drop (length (bom_of text)) text) = first # ks @ l # ls"
    and "rstrip_codes first = DELIM" and "rstrip_codes l \<in> set CLOSE_DELIMS"
    and "\<forall>k \<in> set ks. rstrip_codes k \<notin> set CLOSE_DELIMS"
    and "split_frontmatter text =
      \<lparr>sp_bom = bom_of text, sp_open_delim = first, sp_fm_text = concat ks, sp_close_delim = l,
       sp_gap = concat (takeWhile blank_line ls), sp_body = concat (dropWhile blank_line ls),
       sp_has_frontmatter = True, sp_unterminated = False\<rparr>"
proof -
  let ?rest = "drop (length (bom_of text)) text"
  from assms(1) obtain first lines where lines: "text_lines ?rest = first # lines" "rstrip_codes first = DELIM"
    by (auto simp: split_frontmatter_def Let_def split: list.splits if_splits)
  with assms(2) obtain i where i: "close_index lines = Some i"
    by (auto simp: split_frontmatter_def Let_def split: option.splits)
  note close = close_index_Some [OF i]
  then have "lines = take i lines @ lines ! i # drop (Suc i) lines" by (simp add: id_take_nth_drop)
  with lines i close show ?thesis
    by (intro that [of first "take i lines" "lines ! i" "drop (Suc i) lines"])
      (auto simp: split_frontmatter_def Let_def)
qed

lemma split_of_lines:
  assumes "text_lines rest = first # ks @ l # ls" and "rstrip_codes first = DELIM"
    and "rstrip_codes l \<in> set CLOSE_DELIMS" and "\<forall>k \<in> set ks. rstrip_codes k \<notin> set CLOSE_DELIMS"
    and "bom_of (bom @ rest) = bom"
  shows "split_frontmatter (bom @ rest) =
    \<lparr>sp_bom = bom, sp_open_delim = first, sp_fm_text = concat ks, sp_close_delim = l,
     sp_gap = concat (takeWhile blank_line ls), sp_body = concat (dropWhile blank_line ls),
     sp_has_frontmatter = True, sp_unterminated = False\<rparr>"
  using assms close_index_append [OF assms(4,3), of ls]
  by (simp add: split_frontmatter_def Let_def)

lemma bom_of_idem: "first \<noteq> [] \<Longrightarrow> drop (length (bom_of text)) text = first @ r \<Longrightarrow>
    bom_of (bom_of text @ first @ r') = bom_of text"
  by (cases first; cases "text") (auto simp: bom_of_def BOM_def split: if_splits)

lemma rstrip_delim_not_Nil: "rstrip_codes l = DELIM \<Longrightarrow> l \<noteq> []"
  by (auto simp: rstrip_codes_def DELIM_def)

lemma resplit_pieces:
  assumes "sp_has_frontmatter (split_frontmatter t)" and "\<not> sp_unterminated (split_frontmatter t)"
    and "last (sp_open_delim (split_frontmatter t)) = code_LF" and "fm = [] \<or> last fm = code_LF"
    and "\<forall>l \<in> set (text_lines fm). rstrip_codes l \<notin> set CLOSE_DELIMS"
  shows "split_frontmatter (join_frontmatter (split_frontmatter t) (Some fm)) =
    (split_frontmatter t)\<lparr>sp_fm_text := fm\<rparr>"
proof -
  from split_closed [OF assms(1,2)] obtain first ks l ls where *:
      "text_lines (drop (length (bom_of t)) t) = first # ks @ l # ls" "rstrip_codes first = DELIM"
      "rstrip_codes l \<in> set CLOSE_DELIMS"
      "split_frontmatter t =
        \<lparr>sp_bom = bom_of t, sp_open_delim = first, sp_fm_text = concat ks, sp_close_delim = l,
         sp_gap = concat (takeWhile blank_line ls), sp_body = concat (dropWhile blank_line ls),
         sp_has_frontmatter = True, sp_unterminated = False\<rparr>"
    by metis
  have first: "text_lines first = [first]" using *(1) by (intro text_lines_line [of _ "drop (length (bom_of t)) t"]) simp
  have tail: "text_lines (concat (l # ls)) = l # ls"
    using text_lines_drop [of "Suc (length ks)" "drop (length (bom_of t)) t"] by (simp add: *(1))
  have "text_lines (first @ fm @ concat (l # ls)) = first # text_lines fm @ l # ls"
    using text_lines_append [of first "fm @ concat (l # ls)"] text_lines_append [of fm "concat (l # ls)"]
      assms(3,4) *(4) first tail by simp
  moreover have "bom_of (bom_of t @ first @ fm @ concat (l # ls)) = bom_of t"
    using bom_of_idem rstrip_delim_not_Nil [OF *(2)] *(1) by (metis concat.simps(2) concat_text_lines)
  moreover have "join_frontmatter (split_frontmatter t) (Some fm) = bom_of t @ first @ fm @ concat (l # ls)"
    by (simp add: *(4) join_frontmatter_def concat_while)
  ultimately show ?thesis using split_of_lines [OF _ *(2,3) assms(5)] by (simp add: *(4))
qed

text \<open>C36. Splitting loses nothing: joining the pieces of any file gives the file back, code point
  for code point. In a closed block the delimiter lines are \<open>---\<close> (or \<open>...\<close> at the
  end) up to trailing space, no line of the frontmatter is a closing delimiter, the gap is blank
  lines only, and the body is empty or starts with a line that is not blank.\<close>

theorem split_roundtrip:
  "join_frontmatter (split_frontmatter t) None = t \<and>
   (let s = split_frontmatter t
    in sp_has_frontmatter s \<and> \<not> sp_unterminated s \<longrightarrow>
         rstrip_codes (sp_open_delim s) = DELIM \<and> rstrip_codes (sp_close_delim s) \<in> set CLOSE_DELIMS \<and>
         list_all is_blank_code (sp_gap s) \<and>
         (sp_body s = [] \<or> \<not> blank_line (hd (text_lines (sp_body s)))))"
proof (intro conjI join_split, unfold Let_def, intro impI)
  assume "sp_has_frontmatter (split_frontmatter t) \<and> \<not> sp_unterminated (split_frontmatter t)"
  then obtain first ks l ls where *:
      "text_lines (drop (length (bom_of t)) t) = first # ks @ l # ls" "rstrip_codes first = DELIM"
      "rstrip_codes l \<in> set CLOSE_DELIMS"
      "split_frontmatter t =
        \<lparr>sp_bom = bom_of t, sp_open_delim = first, sp_fm_text = concat ks, sp_close_delim = l,
         sp_gap = concat (takeWhile blank_line ls), sp_body = concat (dropWhile blank_line ls),
         sp_has_frontmatter = True, sp_unterminated = False\<rparr>"
    using split_closed by metis
  have gap: "list_all is_blank_code (concat (takeWhile blank_line ls))"
    by (auto simp: list_all_iff blank_line_def dest!: set_takeWhileD)
  have "dropWhile blank_line ls = drop (length (takeWhile blank_line ls)) ls" by (rule dropWhile_eq_drop)
  also have "\<dots> = drop (Suc (length ks) + 1 + length (takeWhile blank_line ls))
      (text_lines (drop (length (bom_of t)) t))"
    by (simp add: *(1))
  finally have lines: "text_lines (concat (dropWhile blank_line ls)) = dropWhile blank_line ls"
    by (metis text_lines_drop)
  have "\<not> blank_line (hd (text_lines (concat (dropWhile blank_line ls))))" if "concat (dropWhile blank_line ls) \<noteq> []"
    using that hd_dropWhile [of blank_line ls] by (simp only: lines) fastforce
  with * gap show "rstrip_codes (sp_open_delim (split_frontmatter t)) = DELIM \<and>
      rstrip_codes (sp_close_delim (split_frontmatter t)) \<in> set CLOSE_DELIMS \<and>
      list_all is_blank_code (sp_gap (split_frontmatter t)) \<and>
      (sp_body (split_frontmatter t) = [] \<or>
       \<not> blank_line (hd (text_lines (sp_body (split_frontmatter t)))))"
    by auto
qed

text \<open>A small closed file, as code points: a block with one key and a body after a blank line.\<close>

definition sample_text :: codes where
  "sample_text = map of_char ''---'' @ [10] @ map of_char ''a: 1'' @ [10] @ map of_char ''---'' @ [10, 10]
     @ map of_char ''Body'' @ [10]"

theorem split_roundtrip_witness:
  "rstrip_codes (sp_open_delim (split_frontmatter sample_text)) = DELIM \<and>
   sp_fm_text (split_frontmatter sample_text) = map of_char ''a: 1'' @ [10]"
proof -
  have "sp_has_frontmatter (split_frontmatter sample_text)" and "\<not> sp_unterminated (split_frontmatter sample_text)"
    and "sp_fm_text (split_frontmatter sample_text) = map of_char ''a: 1'' @ [10]" by code_simp+
  with split_roundtrip [of sample_text] show ?thesis by (simp add: Let_def)
qed

text \<open>Replacing the frontmatter of a closed file touches nothing else: if the new text is
  empty or ends with a line feed, and holds no delimiter line, the file it is joined into
  splits into the same pieces with the new frontmatter.\<close>

theorem resplit:
  assumes "sp_has_frontmatter (split_frontmatter t)" and "\<not> sp_unterminated (split_frontmatter t)"
    and "last (sp_open_delim (split_frontmatter t)) = code_LF" and "fm = [] \<or> last fm = code_LF"
    and "\<forall>l \<in> set (text_lines fm). rstrip_codes l \<notin> set CLOSE_DELIMS"
  shows "split_frontmatter (join_frontmatter (split_frontmatter t) (Some fm)) =
    (split_frontmatter t)\<lparr>sp_fm_text := fm\<rparr>"
  by (rule resplit_pieces [OF assms])

theorem resplit_witness:
  "sp_body (split_frontmatter (join_frontmatter (split_frontmatter sample_text) (Some (map of_char ''b: 2'' @ [10])))) =
     map of_char ''Body'' @ [10]"
proof -
  have "split_frontmatter (join_frontmatter (split_frontmatter sample_text) (Some (map of_char ''b: 2'' @ [10]))) =
      (split_frontmatter sample_text)\<lparr>sp_fm_text := map of_char ''b: 2'' @ [10]\<rparr>"
    by (rule resplit) code_simp+
  moreover have "sp_body (split_frontmatter sample_text) = map of_char ''Body'' @ [10]" by code_simp
  ultimately show ?thesis by simp
qed

end
