(* ===== verification/Document.thy ===== *)
theory Document
  imports Splitter
begin

text \<open>
  A concept file and its editable frontmatter (\<open>okf_io/document.py\<close>, with the emitter style
  of \<open>okf_io/_yaml.py\<close>). The YAML reader and writer (ruamel.yaml) and
  \<open>difflib.SequenceMatcher\<close> are parameters: \<open>load\<close>, \<open>dump\<close>,
  \<open>matcher\<close>. Keys of the frontmatter are text. The memos of \<open>Document\<close> (typed view,
  Markdown parse) are not part of the state: they are recomputed values.
\<close>

subsection \<open>Emitter style\<close>

record style =
  mapping_indent :: nat
  sequence_indent :: nat
  sequence_dash_offset :: nat
  padded_flow :: bool
  newline :: codes

text \<open>Lines for the multi-line anchor \<open>^\<close>, which follows a line feed only.\<close>

fun lf_lines :: "codes \<Rightarrow> codes list" where
  "lf_lines [] = [[]]"
| "lf_lines (c # cs) = (if c = code_LF then [] # lf_lines cs else push_code c (lf_lines cs))"

definition leading_spaces :: "codes \<Rightarrow> nat" where
  "leading_spaces l = length (takeWhile (\<lambda>c. c = 32) l)"

definition map_indent :: "codes \<Rightarrow> nat option" where
  "map_indent l =
     (case drop (leading_spaces l) l of
        c # _ \<Rightarrow> if 0 < leading_spaces l \<and> \<not> is_blank_code c then Some (leading_spaces l) else None
      | [] \<Rightarrow> None)"

definition dash_indent :: "codes \<Rightarrow> nat option" where
  "dash_indent l =
     (if take 2 (drop (leading_spaces l) l) = [45, 32] then Some (leading_spaces l) else None)"

fun occurs :: "codes \<Rightarrow> codes \<Rightarrow> bool" where
  "occurs p [] = (p = [])"
| "occurs p (c # cs) = (take (length p) (c # cs) = p \<or> occurs p cs)"

definition CRLF :: codes where "CRLF = [code_CR, code_LF]"

definition sniff_style :: "codes \<Rightarrow> style" where
  "sniff_style fm_text =
     (let indents = sort (List.map_filter map_indent (lf_lines fm_text));
          indent = (if indents \<noteq> [] \<and> 1 \<le> hd indents \<and> hd indents \<le> 10 then hd indents else 2);
          dashes = sort (List.map_filter dash_indent (lf_lines fm_text));
          dash = (if dashes \<noteq> [] then (hd dashes + 2, hd dashes) else (indent + 2, indent))
      in \<lparr>mapping_indent = indent, sequence_indent = fst dash, sequence_dash_offset = snd dash,
          padded_flow = occurs [123, 32] fm_text,
          newline = (if occurs CRLF fm_text then CRLF else [code_LF])\<rparr>)"

subsection \<open>The document\<close>

datatype parse_kind = Unterminated | Yaml | Not_A_Mapping

record parse_error =
  perr_kind :: parse_kind
  perr_message :: string
  perr_line :: "nat option"

text \<open>What the YAML reader answers: a mapping, or the exception it raises.\<close>

datatype load_failure =
    Load_Not_Mapping string
  | Load_Yaml string "nat option"
  | Load_Recursion string

record document =
  doc_raw_text :: codes
  doc_fm_raw :: ymap
  doc_body :: codes
  doc_parse_error :: "parse_error option"
  doc_split :: split_text
  doc_style :: style
  doc_dirty :: bool

fun load_error :: "load_failure \<Rightarrow> parse_error" where
  "load_error (Load_Not_Mapping msg) = \<lparr>perr_kind = Not_A_Mapping, perr_message = msg, perr_line = None\<rparr>"
| "load_error (Load_Yaml msg at) = \<lparr>perr_kind = Yaml, perr_message = msg, perr_line = at\<rparr>"
| "load_error (Load_Recursion msg) =
     \<lparr>perr_kind = Yaml, perr_message = ''Frontmatter nested too deeply to parse: '' @ msg, perr_line = None\<rparr>"

definition parse_document :: "(codes \<Rightarrow> load_failure + ymap) \<Rightarrow> codes \<Rightarrow> document" where
  "parse_document load input =
     (let s = split_frontmatter input;
          style0 = sniff_style (sp_fm_text s);
          style = (if \<not> sp_has_frontmatter s \<and> occurs CRLF (sp_body s)
                   then style0\<lparr>newline := CRLF\<rparr> else style0);
          loaded =
            (if sp_unterminated s
             then ([], Some \<lparr>perr_kind = Unterminated,
                             perr_message = ''Unterminated YAML frontmatter block'', perr_line = Some 1\<rparr>)
             else if sp_has_frontmatter s
             then (case load (sp_fm_text s) of Inl e \<Rightarrow> ([], Some (load_error e)) | Inr m \<Rightarrow> (m, None))
             else ([], None))
      in \<lparr>doc_raw_text = input, doc_fm_raw = fst loaded, doc_body = sp_body s,
          doc_parse_error = snd loaded, doc_split = s, doc_style = style, doc_dirty = False\<rparr>)"

subsection \<open>Editing\<close>

definition PREFERRED_KEY_ORDER :: "string list" where
  "PREFERRED_KEY_ORDER =
     [''type'', ''resource'', ''title'', ''description'', ''tags'', ''status'', ''generated'',
      ''verified'', ''stale_after'', ''sources'', ''usage_window'']"

fun last_lower :: "nat \<Rightarrow> nat \<Rightarrow> nat \<Rightarrow> string list \<Rightarrow> nat" where
  "last_lower rank i position [] = position"
| "last_lower rank i position (existing # keys) =
     last_lower rank (Suc i)
       (case index_of PREFERRED_KEY_ORDER existing of
          Some r \<Rightarrow> if r < rank then Suc i else position
        | None \<Rightarrow> position) keys"

definition insert_position :: "ymap \<Rightarrow> string \<Rightarrow> nat" where
  "insert_position m key =
     (case index_of PREFERRED_KEY_ORDER key of
        None \<Rightarrow> length m
      | Some rank \<Rightarrow> last_lower rank 0 0 (map fst m))"

definition fm_set :: "ymap \<Rightarrow> string \<Rightarrow> yval \<Rightarrow> ymap" where
  "fm_set m key value =
     (if has_key m key then map (\<lambda>(k, v). (k, if k = key then value else v)) m
      else take (insert_position m key) m @ (key, value) # drop (insert_position m key) m)"

definition fm_delete :: "ymap \<Rightarrow> string \<Rightarrow> ymap" where
  "fm_delete m key = filter (\<lambda>(k, v). k \<noteq> key) m"

definition require_mutable :: "document \<Rightarrow> unit result" where
  "require_mutable d =
     (case doc_parse_error d of
        None \<Rightarrow> Inr ()
      | Some e \<Rightarrow> Inl (ValueError (''Cannot mutate a document that failed to parse ('' @
          (case perr_kind e of
             Unterminated \<Rightarrow> ''unterminated'' | Yaml \<Rightarrow> ''yaml'' | Not_A_Mapping \<Rightarrow> ''not-a-mapping'')
          @ ''): '' @ perr_message e)))"

definition mark_dirty :: "document \<Rightarrow> document" where
  "mark_dirty d = d\<lparr>doc_dirty := True\<rparr>"

definition set_key :: "document \<Rightarrow> string \<Rightarrow> yval \<Rightarrow> document result" where
  "set_key d key value =
     bind_res (require_mutable d) (\<lambda>_. Inr (mark_dirty (d\<lparr>doc_fm_raw := fm_set (doc_fm_raw d) key value\<rparr>)))"

definition delete_key :: "document \<Rightarrow> string \<Rightarrow> document result" where
  "delete_key d key =
     bind_res (require_mutable d) (\<lambda>_.
       Inr (if has_key (doc_fm_raw d) key
            then mark_dirty (d\<lparr>doc_fm_raw := fm_delete (doc_fm_raw d) key\<rparr>) else d))"

definition set_body :: "document \<Rightarrow> codes \<Rightarrow> document result" where
  "set_body d body =
     bind_res (require_mutable d) (\<lambda>_.
       Inr (mark_dirty (d\<lparr>doc_body := body, doc_split := (doc_split d)\<lparr>sp_body := body\<rparr>\<rparr>)))"

text \<open>\<open>fm_data(dates="iso")\<close>.\<close>

fun plain_iso :: "yval \<Rightarrow> yval" where
  "plain_iso (YDate d) = YStr (isoformat d)"
| "plain_iso (YList xs) = YList (map plain_iso xs)"
| "plain_iso (YMap kvs) = YMap (map (\<lambda>(k, v). (k, plain_iso v)) kvs)"
| "plain_iso v = v"

definition fm_data :: "document \<Rightarrow> ymap" where
  "fm_data d = map (\<lambda>(k, v). (k, plain_iso v)) (doc_fm_raw d)"

subsection \<open>Rendering\<close>

text \<open>
  What \<open>SequenceMatcher(None, a, b)\<close> answers: its matching blocks, and its opcodes, of which the
  code reads whether the tag is \<open>equal\<close> and the four bounds.
\<close>

record opcode =
  op_equal :: bool
  op_i1 :: nat
  op_i2 :: nat
  op_j1 :: nat
  op_j2 :: nat

record matcher =
  matching_blocks :: "codes list \<Rightarrow> codes list \<Rightarrow> (nat \<times> nat \<times> nat) list"
  opcodes :: "codes list \<Rightarrow> codes list \<Rightarrow> opcode list"

fun to_orig :: "(nat \<times> nat \<times> nat) list \<Rightarrow> nat \<Rightarrow> nat \<Rightarrow> nat option" where
  "to_orig [] n index = Some n"
| "to_orig ((start, orig_start, len) # blocks) n index =
     (if start \<le> index \<and> index < start + len then Some (orig_start + (index - start))
      else if index < start then None
      else to_orig blocks n index)"

definition slice :: "nat \<Rightarrow> nat \<Rightarrow> 'a list \<Rightarrow> 'a list" where
  "slice i j xs = drop i (take j xs)"

fun splice_ops ::
  "(nat \<times> nat \<times> nat) list \<Rightarrow> codes list \<Rightarrow> codes list \<Rightarrow> opcode list \<Rightarrow> nat \<Rightarrow> codes list option" where
  "splice_ops blocks orig mutated [] cursor = Some (drop cursor orig)"
| "splice_ops blocks orig mutated (op # ops) cursor =
     (if op_equal op then splice_ops blocks orig mutated ops cursor
      else case to_orig blocks (length orig) (op_i1 op) of
             None \<Rightarrow> None
           | Some start \<Rightarrow>
               (case (if op_i1 op < op_i2 op
                      then map_option Suc (to_orig blocks (length orig) (op_i2 op - 1)) else Some start) of
                  None \<Rightarrow> None
                | Some end_line \<Rightarrow>
                    if start < cursor \<or> end_line < start then None
                    else map_option (\<lambda>rest. slice cursor start orig
                             @ slice (op_j1 op) (op_j2 op) mutated @ rest)
                           (splice_ops blocks orig mutated ops end_line)))"

definition splice :: "matcher \<Rightarrow> codes \<Rightarrow> codes \<Rightarrow> codes \<Rightarrow> codes option" where
  "splice sm orig pristine mutated =
     (let orig_lines = text_lines orig; pristine_lines = text_lines pristine;
          mutated_lines = text_lines mutated
      in map_option concat
           (splice_ops (matching_blocks sm pristine_lines orig_lines) orig_lines mutated_lines
              (opcodes sm pristine_lines mutated_lines) 0))"

definition pristine_render ::
  "(codes \<Rightarrow> load_failure + ymap) \<Rightarrow> (ymap \<Rightarrow> style \<Rightarrow> codes) \<Rightarrow> document \<Rightarrow> codes option result" where
  "pristine_render load dump d =
     (case load (sp_fm_text (doc_split d)) of
        Inl (Load_Recursion msg) \<Rightarrow> Inl (RecursionError msg)
      | Inl _ \<Rightarrow> Inr None
      | Inr m \<Rightarrow> Inr (Some (dump m (doc_style d))))"

definition synthesized :: "document \<Rightarrow> split_text" where
  "synthesized d =
     (let s = doc_split d; nl = newline (doc_style d)
      in s\<lparr>sp_open_delim := DELIM @ nl, sp_close_delim := DELIM @ nl,
           sp_gap := (if sp_gap s = [] then nl else sp_gap s),
           sp_has_frontmatter := True, sp_unterminated := False\<rparr>)"

definition serialize ::
  "(codes \<Rightarrow> load_failure + ymap) \<Rightarrow> (ymap \<Rightarrow> style \<Rightarrow> codes) \<Rightarrow> matcher \<Rightarrow> document \<Rightarrow> codes result" where
  "serialize load dump sm d =
     (if \<not> doc_dirty d then Inr (doc_raw_text d)
      else let mutated = dump (doc_fm_raw d) (doc_style d); s = doc_split d
           in if sp_has_frontmatter s \<and> \<not> sp_unterminated s
              then bind_res (pristine_render load dump d) (\<lambda>pristine.
                     Inr (join_frontmatter s (Some
                       (case pristine of
                          None \<Rightarrow> mutated
                        | Some p \<Rightarrow>
                            (case splice sm (sp_fm_text s) p mutated of
                               None \<Rightarrow> mutated
                             | Some spliced \<Rightarrow> spliced)))))
              else if \<not> sp_has_frontmatter s \<and> doc_fm_raw d = []
              then Inr (join_frontmatter s None)
              else Inr (join_frontmatter (synthesized d) (Some mutated)))"

definition rendered_with_body ::
  "(codes \<Rightarrow> load_failure + ymap) \<Rightarrow> (ymap \<Rightarrow> style \<Rightarrow> codes) \<Rightarrow> matcher \<Rightarrow> document \<Rightarrow> codes \<Rightarrow> codes result"
  where
  "rendered_with_body load dump sm d body = bind_res (set_body d body) (serialize load dump sm)"

subsection \<open>The frontmatter as an interface\<close>

lemma map_of_rev_distinct: "distinct (map fst kvs) \<Longrightarrow> map_of (rev kvs) = map_of kvs"
  by (rule map_of_inject_set [THEN iffD2]) (simp_all add: rev_map [symmetric])

text \<open>
  What a caller may rely on of an editable frontmatter: a key reads back what was put, and
  putting or deleting one key leaves every other key alone.
\<close>

locale frontmatter =
  fixes get :: "'d \<Rightarrow> string \<Rightarrow> 'v option" and put :: "'d \<Rightarrow> string \<Rightarrow> 'v \<Rightarrow> 'd"
    and del :: "'d \<Rightarrow> string \<Rightarrow> 'd"
  assumes get_put: "get (put d k v) k' = (if k' = k then Some v else get d k')"
    and get_del: "get (del d k) k' = (if k' = k then None else get d k')"
begin

lemma get_put_all:
  "get (fold (\<lambda>(k, v) d. put d k v) kvs d) k =
     (case map_of (rev kvs) k of Some v \<Rightarrow> Some v | None \<Rightarrow> get d k)"
  by (induction kvs arbitrary: d) (auto simp: get_put map_add_def split: option.splits)

lemma put_all_other: "k \<notin> fst ` set kvs \<Longrightarrow> get (fold (\<lambda>(k, v) d. put d k v) kvs d) k = get d k"
  by (force simp: get_put_all split: option.split dest: map_of_SomeD)

lemma put_all_distinct:
  "distinct (map fst kvs) \<Longrightarrow>
     get (fold (\<lambda>(k, v) d. put d k v) kvs d) k = (case map_of kvs k of Some v \<Rightarrow> Some v | None \<Rightarrow> get d k)"
  by (simp add: get_put_all map_of_rev_distinct)

lemma put_put: "get (put (put d k v) k w) = get (put d k w)"
  by (rule ext) (simp add: get_put)

lemma put_commute: "k \<noteq> k' \<Longrightarrow> get (put (put d k v) k' w) = get (put (put d k' w) k v)"
  by (rule ext) (simp add: get_put)

lemma del_put: "get (del (put d k v) k) = get (del d k)"
  by (rule ext) (simp add: get_put get_del)

end

lemma map_of_update: "map_of (map (\<lambda>(k, v). (k, if k = key then value else v)) m) k' =
    (if k' = key then map_option (\<lambda>_. value) (map_of m key) else map_of m k')"
  by (cases "k' = key"; induction m) (simp_all add: split_beta)

lemma map_of_filter_key: "map_of (filter (\<lambda>(k, v). k \<noteq> key) m) k' = (if k' = key then None else map_of m k')"
  by (induction m) auto

lemma map_of_insert_at:
  assumes "key \<notin> fst ` set m"
  shows "map_of (take n m @ (key, value) # drop n m) k' = (if k' = key then Some value else map_of m k')"
proof -
  have "map_of m k' = map_of (take n m @ drop n m) k'" by simp
  then have split: "map_of m k' = (case map_of (take n m) k' of None \<Rightarrow> map_of (drop n m) k' | Some v \<Rightarrow> Some v)"
    by (simp only: map_of_append map_add_def)
  from assms have "map_of (take n m) key = None" by (force simp: map_of_eq_None_iff dest: in_set_takeD)
  then show ?thesis unfolding split map_of_append map_add_def by (auto split: option.split)
qed

lemma map_of_fm_set: "map_of (fm_set m k v) k' = (if k' = k then Some v else map_of m k')"
proof (cases "has_key m k")
  case True
  then obtain w where "map_of m k = Some w" by (auto simp: has_key_def simp del: has_key_iff)
  with True show ?thesis by (simp add: fm_set_def map_of_update)
next
  case False
  then have "fm_set m k v = take (insert_position m k) m @ (k, v) # drop (insert_position m k) m"
    by (simp add: fm_set_def)
  with map_of_insert_at [of k m] False show ?thesis by simp
qed

lemma map_of_fm_delete: "map_of (fm_delete m k) k' = (if k' = k then None else map_of m k')"
  unfolding fm_delete_def by (rule map_of_filter_key)

interpretation fm: frontmatter map_of fm_set fm_delete
  by unfold_locales (simp_all only: map_of_fm_set map_of_fm_delete)

text \<open>A document that parsed: its mutators never raise, and act on the frontmatter.\<close>

definition doc_put :: "document \<Rightarrow> string \<Rightarrow> yval \<Rightarrow> document" where
  "doc_put d k v = mark_dirty (d\<lparr>doc_fm_raw := fm_set (doc_fm_raw d) k v\<rparr>)"

definition doc_del :: "document \<Rightarrow> string \<Rightarrow> document" where
  "doc_del d k =
     (if has_key (doc_fm_raw d) k then mark_dirty (d\<lparr>doc_fm_raw := fm_delete (doc_fm_raw d) k\<rparr>) else d)"

lemma set_key_mutable: "doc_parse_error d = None \<Longrightarrow> set_key d k v = Inr (doc_put d k v)"
  by (simp add: set_key_def require_mutable_def doc_put_def)

lemma delete_key_mutable: "doc_parse_error d = None \<Longrightarrow> delete_key d k = Inr (doc_del d k)"
  by (simp add: delete_key_def require_mutable_def doc_del_def)

lemma doc_put_keeps [simp]:
  "doc_parse_error (doc_put d k v) = doc_parse_error d" "doc_body (doc_put d k v) = doc_body d"
  "doc_split (doc_put d k v) = doc_split d" "doc_raw_text (doc_put d k v) = doc_raw_text d"
  "doc_fm_raw (doc_put d k v) = fm_set (doc_fm_raw d) k v" "doc_dirty (doc_put d k v)"
  "doc_style (doc_put d k v) = doc_style d"
  by (simp_all add: doc_put_def mark_dirty_def)

definition doc_get :: "document \<Rightarrow> string \<Rightarrow> yval option" where
  "doc_get d = map_of (doc_fm_raw d)"

lemma doc_get_del: "doc_get (doc_del d k) k' = (if k' = k then None else doc_get d k')"
proof (cases "has_key (doc_fm_raw d) k")
  case True
  then have "doc_del d k = mark_dirty (d\<lparr>doc_fm_raw := fm_delete (doc_fm_raw d) k\<rparr>)" by (simp only: doc_del_def if_True)
  then show ?thesis by (simp add: doc_get_def mark_dirty_def map_of_fm_delete)
next
  case False
  then have "doc_del d k = d" and "map_of (doc_fm_raw d) k = None"
    by (simp_all add: doc_del_def has_key_def del: has_key_iff)
  then show ?thesis by (simp add: doc_get_def)
qed

lemma doc_get_put: "doc_get (doc_put d k v) k' = (if k' = k then Some v else doc_get d k')"
  by (simp add: doc_get_def map_of_fm_set)

interpretation doc: frontmatter doc_get doc_put doc_del
  by unfold_locales (simp_all only: doc_get_put doc_get_del)

subsection \<open>Where a new key goes\<close>

definition rank_of :: "string \<Rightarrow> nat option" where
  "rank_of key = index_of PREFERRED_KEY_ORDER key"

definition ranked_below :: "nat \<Rightarrow> string \<Rightarrow> bool" where
  "ranked_below rank key = (case rank_of key of None \<Rightarrow> False | Some r \<Rightarrow> r < rank)"

definition preferred_ranks :: "string list \<Rightarrow> nat list" where
  "preferred_ranks keys = List.map_filter rank_of keys"

lemma preferred_ranks_append [simp]: "preferred_ranks (xs @ ys) = preferred_ranks xs @ preferred_ranks ys"
  by (induction xs) (auto simp: preferred_ranks_def List.map_filter_simps split: option.split)

lemma preferred_ranks_mem: "r \<in> set (preferred_ranks keys) \<longleftrightarrow> (\<exists>k \<in> set keys. rank_of k = Some r)"
  by (force simp: preferred_ranks_def map_filter_def)

lemma last_lower_eq:
  "last_lower rank i position keys =
     (if list_ex (ranked_below rank) keys
      then i + length (dropWhile (\<lambda>k. \<not> ranked_below rank k) (rev keys)) else position)"
proof (induction keys arbitrary: i position)
  case (Cons key keys)
  have step: "(case index_of PREFERRED_KEY_ORDER key of
         Some r \<Rightarrow> if r < rank then Suc i else position | None \<Rightarrow> position) =
       (if ranked_below rank key then Suc i else position)"
    by (simp add: ranked_below_def rank_of_def split: option.split)
  show ?case
  proof (cases "list_ex (ranked_below rank) keys")
    case True
    then obtain k where "k \<in> set (rev keys)" "\<not> \<not> ranked_below rank k" by (auto simp: list_ex_iff)
    then have "dropWhile (\<lambda>k. \<not> ranked_below rank k) (rev keys @ [key]) =
        dropWhile (\<lambda>k. \<not> ranked_below rank k) (rev keys) @ [key]"
      by (rule dropWhile_append1)
    with True show ?thesis by (simp add: step Cons.IH)
  next
    case False
    then have "dropWhile (\<lambda>k. \<not> ranked_below rank k) (rev keys @ [key]) =
        dropWhile (\<lambda>k. \<not> ranked_below rank k) [key]"
      by (intro dropWhile_append2) (auto simp: list_ex_iff)
    with False show ?thesis by (auto simp: step Cons.IH)
  qed
qed simp

text \<open>The insertion point: nothing ranked lower comes after it, and a key ranked lower, if there is
  one, comes right before it.\<close>

lemma last_lower_cut:
  fixes keys :: "string list" and rank :: nat
  defines "n \<equiv> last_lower rank 0 0 keys"
  shows "\<forall>k \<in> set (drop n keys). \<not> ranked_below rank k"
    and "take n keys = [] \<or> ranked_below rank (last (take n keys))"
proof -
  let ?P = "\<lambda>k. \<not> ranked_below rank k"
  have n: "n = length (dropWhile ?P (rev keys))"
    by (auto simp: n_def last_lower_eq list_ex_iff dropWhile_eq_Nil_conv)
  have keys: "keys = rev (dropWhile ?P (rev keys)) @ rev (takeWhile ?P (rev keys))"
    by (metis rev_append rev_rev_ident takeWhile_dropWhile_id)
  have "drop n keys = rev (takeWhile ?P (rev keys))"
    by (subst keys) (simp add: n)
  then show "\<forall>k \<in> set (drop n keys). \<not> ranked_below rank k"
    by (auto dest: set_takeWhileD)
  have "take n keys = rev (dropWhile ?P (rev keys))"
    by (subst keys) (simp add: n)
  then show "take n keys = [] \<or> ranked_below rank (last (take n keys))"
    using hd_dropWhile [of ?P "rev keys"] by (auto simp: last_rev)
qed

text \<open>Setting a frontmatter key changes that key only: it reads back as set, every other key
  keeps its value, the keys already there keep their order, and keys that stood in the
  preferred order still do once the new one is inserted.\<close>

theorem set_key_splices:
  assumes "set_key d key value = Inr d'"
  shows "(\<forall>k. map_of (doc_fm_raw d') k = (if k = key then Some value else map_of (doc_fm_raw d) k)) \<and>
    filter (\<lambda>k. k \<noteq> key) (map fst (doc_fm_raw d')) = filter (\<lambda>k. k \<noteq> key) (map fst (doc_fm_raw d)) \<and>
    doc_body d' = doc_body d \<and>
    (sorted (preferred_ranks (map fst (doc_fm_raw d))) \<longrightarrow> sorted (preferred_ranks (map fst (doc_fm_raw d'))))"
proof -
  let ?m = "doc_fm_raw d" and ?n = "insert_position (doc_fm_raw d) key"
  have mutable: "doc_parse_error d = None"
    using assms by (auto simp: set_key_def require_mutable_def split: option.splits)
  with assms have d': "d' = doc_put d key value" by (simp add: set_key_mutable)
  show ?thesis
  proof (cases "has_key ?m key")
    case True
    then have "map fst (fm_set ?m key value) = map fst ?m" by (simp add: fm_set_def comp_def split_beta)
    then show ?thesis by (simp add: d' fm.get_put)
  next
    case False
    then have m': "fm_set ?m key value = take ?n ?m @ (key, value) # drop ?n ?m" by (simp add: fm_set_def)
    have keys: "map fst (fm_set ?m key value) = take ?n (map fst ?m) @ key # drop ?n (map fst ?m)"
      by (simp add: m' take_map drop_map)
    have "filter (\<lambda>k. k \<noteq> key) (take ?n (map fst ?m)) @ filter (\<lambda>k. k \<noteq> key) (drop ?n (map fst ?m)) =
        filter (\<lambda>k. k \<noteq> key) (map fst ?m)"
      by (metis append_take_drop_id filter_append)
    moreover have "sorted (preferred_ranks (map fst (fm_set ?m key value)))"
      if sorted: "sorted (preferred_ranks (map fst ?m))"
    proof (cases "rank_of key")
      case None
      then have "preferred_ranks [key] = []" by (simp add: preferred_ranks_def List.map_filter_simps)
      moreover have "map fst (fm_set ?m key value) = map fst ?m @ [key]"
        using None by (simp add: keys insert_position_def rank_of_def)
      ultimately show ?thesis using sorted by simp
    next
      case (Some rank)
      then have n: "?n = last_lower rank 0 0 (map fst ?m)" by (simp add: insert_position_def rank_of_def)
      let ?a = "take ?n (map fst ?m)" and ?b = "drop ?n (map fst ?m)"
      have ab: "sorted (preferred_ranks ?a @ preferred_ranks ?b)"
        using sorted by (metis append_take_drop_id preferred_ranks_append)
      have after: "rank \<le> r" if "r \<in> set (preferred_ranks ?b)" for r
        using that last_lower_cut(1) [of rank "map fst ?m"] n
        by (auto simp: preferred_ranks_mem ranked_below_def split: option.splits)
      have before: "r \<le> rank" if r: "r \<in> set (preferred_ranks ?a)" for r
      proof -
        from r obtain k where "k \<in> set ?a" unfolding preferred_ranks_mem by blast
        then have "?a \<noteq> []" by (metis empty_iff list.set(1))
        with last_lower_cut(2) [of rank "map fst ?m"] n have "ranked_below rank (last ?a)" by simp
        then obtain q where q: "rank_of (last ?a) = Some q" "q < rank"
          by (auto simp: ranked_below_def split: option.splits)
        have "?a = butlast ?a @ [last ?a]" using \<open>?a \<noteq> []\<close> by simp
        moreover have "preferred_ranks [last ?a] = [q]"
          using q(1) by (simp add: preferred_ranks_def List.map_filter_simps)
        ultimately have "preferred_ranks ?a = preferred_ranks (butlast ?a) @ [q]"
          by (metis preferred_ranks_append)
        with r ab q(2) show ?thesis by (auto simp: sorted_append)
      qed
      from Some have "preferred_ranks [key] = [rank]" by (simp add: preferred_ranks_def List.map_filter_simps)
      moreover have "preferred_ranks (map fst (fm_set ?m key value)) =
          preferred_ranks ?a @ preferred_ranks [key] @ preferred_ranks ?b"
        unfolding keys by (metis append_Cons append_Nil preferred_ranks_append)
      moreover have "x \<le> y" if "x \<in> set (preferred_ranks ?a)" "y \<in> set (preferred_ranks ?b)" for x y
        using before [OF that(1)] after [OF that(2)] by simp
      ultimately show ?thesis using ab before after by (auto simp: sorted_append)
    qed
    ultimately show ?thesis by (simp add: d' fm.get_put keys)
  qed
qed

text \<open>A page without a status: the key goes between the title and the sources.\<close>

definition sample_document :: document where
  "sample_document =
     \<lparr>doc_raw_text = [], doc_fm_raw = [(''type'', YStr ''Bug''), (''title'', YStr ''T''), (''phase'', YStr ''plan''),
        (''sources'', YList [])],
      doc_body = [], doc_parse_error = None, doc_split = split_frontmatter [], doc_style = sniff_style [],
      doc_dirty = False\<rparr>"

theorem set_key_splices_witness:
  "map fst (doc_fm_raw (projr (set_key sample_document ''status'' (YStr ''draft'')))) =
     [''type'', ''title'', ''status'', ''phase'', ''sources''] \<and>
   map_of (doc_fm_raw (projr (set_key sample_document ''status'' (YStr ''draft'')))) ''status'' = Some (YStr ''draft'')"
proof
  let ?r = "set_key sample_document ''status'' (YStr ''draft'')"
  have "?r = Inr (projr ?r)" by (simp add: sample_document_def set_key_def require_mutable_def)
  from set_key_splices [OF this]
  show "map_of (doc_fm_raw (projr ?r)) ''status'' = Some (YStr ''draft'')" by simp
  show "map fst (doc_fm_raw (projr ?r)) = [''type'', ''title'', ''status'', ''phase'', ''sources'']"
    by code_simp
qed

subsection \<open>The line splice\<close>

lemma slice_split:
  assumes "i \<le> j" and "j \<le> k"
  shows "slice i k xs = slice i j xs @ slice j k xs"
proof -
  have "take k xs = take j xs @ drop j (take k xs)"
    using append_take_drop_id [of j "take k xs"] assms(2) by (simp add: min_absorb1)
  then have "drop i (take k xs) = drop i (take j xs) @ drop (i - length (take j xs)) (drop j (take k xs))"
    by (metis drop_append)
  moreover have "drop (i - length (take j xs)) (drop j (take k xs)) = drop j (take k xs)"
    using assms by (cases "length xs \<le> j") auto
  ultimately show ?thesis by (simp add: slice_def)
qed

lemma slice_to_end: "i \<le> j \<Longrightarrow> slice i j xs @ drop j xs = drop i xs"
  unfolding slice_def
  by (metis append_take_drop_id drop_drop drop_take le_add_diff_inverse2)

text \<open>
  The documented laws of \<open>SequenceMatcher\<close>: opcodes tile both sequences from the start, an
  \<open>equal\<close> one names equal slices; two equal sequences match in one block, before the block of
  length zero that always comes last (empty ones have that block alone), and have no opcode but
  \<open>equal\<close>.
\<close>

definition self_blocks :: "nat \<Rightarrow> (nat \<times> nat \<times> nat) list" where
  "self_blocks n = (if n = 0 then [(0, 0, 0)] else [(0, 0, n), (n, n, 0)])"

fun tiles :: "opcode list \<Rightarrow> nat \<Rightarrow> nat \<Rightarrow> 'a list \<Rightarrow> 'a list \<Rightarrow> bool" where
  "tiles [] i j a b = (i = length a \<and> j = length b)"
| "tiles (op # ops) i j a b =
     (op_i1 op = i \<and> op_j1 op = j \<and> i \<le> op_i2 op \<and> op_i2 op \<le> length a \<and> j \<le> op_j2 op \<and> op_j2 op \<le> length b
      \<and> (op_equal op \<longrightarrow> slice i (op_i2 op) a = slice j (op_j2 op) b)
      \<and> tiles ops (op_i2 op) (op_j2 op) a b)"

definition matcher_laws :: "matcher \<Rightarrow> bool" where
  "matcher_laws sm \<longleftrightarrow>
     (\<forall>a b. tiles (opcodes sm a b) 0 0 a b) \<and>
     (\<forall>a. matching_blocks sm a a = self_blocks (length a)) \<and>
     (\<forall>a. list_all op_equal (opcodes sm a a))"

lemma to_orig_identity: "index \<le> n \<Longrightarrow> to_orig (self_blocks n) n index = Some index"
  by (auto simp: self_blocks_def)

lemma splice_ops_exact:
  assumes "tiles ops i j orig mutated" and "cursor \<le> i" and "i \<le> length orig"
  shows "splice_ops (self_blocks (length orig)) orig mutated ops cursor =
    Some (slice cursor i orig @ drop j mutated)"
  using assms
proof (induction ops arbitrary: i j cursor)
  case Nil
  then show ?case by (simp add: slice_def)
next
  case (Cons op ops)
  let ?n = "length orig"
  let ?bs = "self_blocks ?n"
  show ?case
  proof (cases "op_equal op")
    case True
    with Cons have "splice_ops ?bs orig mutated (op # ops) cursor =
        Some (slice cursor (op_i2 op) orig @ drop (op_j2 op) mutated)" by simp
    also have "slice cursor (op_i2 op) orig = slice cursor i orig @ slice j (op_j2 op) mutated"
      using Cons.prems True slice_split [of cursor i "op_i2 op" orig] by simp
    also have "(slice cursor i orig @ slice j (op_j2 op) mutated) @ drop (op_j2 op) mutated =
        slice cursor i orig @ drop j mutated"
      using Cons.prems slice_to_end [of j "op_j2 op" mutated] by simp
    finally show ?thesis .
  next
    case False
    from Cons.prems have bounds: "op_i1 op = i" "op_j1 op = j" "i \<le> op_i2 op" "op_i2 op \<le> ?n"
      "j \<le> op_j2 op" "tiles ops (op_i2 op) (op_j2 op) orig mutated" by simp_all
    have start: "to_orig ?bs ?n (op_i1 op) = Some i"
      using to_orig_identity [of i ?n] Cons.prems(3) bounds(1) by simp
    have "(if op_i1 op < op_i2 op then map_option Suc (to_orig ?bs ?n (op_i2 op - 1)) else Some i) = Some (op_i2 op)"
      using to_orig_identity [of "op_i2 op - 1" ?n] bounds by auto
    moreover have "splice_ops ?bs orig mutated ops (op_i2 op) = Some (drop (op_j2 op) mutated)"
      using Cons.IH [OF bounds(6) order_refl bounds(4)] by (simp add: slice_def)
    ultimately have "splice_ops ?bs orig mutated (op # ops) cursor =
        Some (slice cursor i orig @ slice j (op_j2 op) mutated @ drop (op_j2 op) mutated)"
      using False start Cons.prems(2) bounds(1-3) by (simp del: to_orig.simps)
    then show ?thesis using slice_to_end [OF bounds(5), of mutated] by simp
  qed
qed

lemma splice_reproducible:
  assumes "matcher_laws sm"
  shows "splice sm orig orig mutated = Some mutated"
proof -
  have "tiles (opcodes sm (text_lines orig) (text_lines mutated)) 0 0 (text_lines orig) (text_lines mutated)"
    using assms by (simp add: matcher_laws_def)
  from splice_ops_exact [OF this] assms show ?thesis
    by (simp add: splice_def Let_def matcher_laws_def slice_def)
qed

lemma splice_ops_equal: "list_all op_equal ops \<Longrightarrow> splice_ops blocks orig mutated ops cursor = Some (drop cursor orig)"
  by (induction ops) auto

lemma splice_unchanged: "matcher_laws sm \<Longrightarrow> splice sm orig pristine pristine = Some orig"
  by (simp add: splice_def Let_def matcher_laws_def splice_ops_equal)

subsection \<open>Saving an edit\<close>

lemma parse_document_closed:
  assumes "doc_parse_error (parse_document load t) = None" and "sp_has_frontmatter (split_frontmatter t)"
  shows "\<not> sp_unterminated (split_frontmatter t)"
    and "load (sp_fm_text (split_frontmatter t)) = Inr (doc_fm_raw (parse_document load t))"
  using assms by (auto simp: parse_document_def Let_def split: if_splits sum.splits)

lemma parse_document_parts [simp]:
  "doc_split (parse_document load t) = split_frontmatter t"
  "doc_body (parse_document load t) = sp_body (split_frontmatter t)"
  "doc_raw_text (parse_document load t) = t" "\<not> doc_dirty (parse_document load t)"
  by (simp_all add: parse_document_def Let_def)

lemma parse_document_bare:
  "\<not> sp_has_frontmatter (split_frontmatter t) \<Longrightarrow> doc_fm_raw (parse_document load t) = []"
  by (auto simp: parse_document_def Let_def split_frontmatter_def split: list.splits option.splits if_splits)

text \<open>C37. A document that was parsed without an error and not edited is written back byte for byte,
  whatever the YAML writer would do with it; and rendering it with another body replaces the body
  alone: the byte order mark, the delimiters, every line of the frontmatter and the gap stay as they
  were, in any dialect, for any matcher that finds equal sequences equal (\<open>matcher_laws\<close>).\<close>

theorem body_edit_minimal:
  assumes "matcher_laws sm" and "doc_parse_error (parse_document load t) = None"
  shows "serialize load dump sm (parse_document load t) = Inr t \<and>
    rendered_with_body load dump sm (parse_document load t) body =
      Inr (join_frontmatter ((split_frontmatter t)\<lparr>sp_body := body\<rparr>) None)"
proof
  let ?d = "parse_document load t"
  show "serialize load dump sm ?d = Inr t" by (simp add: serialize_def)
  have set: "set_body ?d body = Inr (mark_dirty (?d\<lparr>doc_body := body, doc_split := (split_frontmatter t)\<lparr>sp_body := body\<rparr>\<rparr>))"
    using assms(2) by (simp add: set_body_def require_mutable_def)
  show "rendered_with_body load dump sm ?d body =
      Inr (join_frontmatter ((split_frontmatter t)\<lparr>sp_body := body\<rparr>) None)"
  proof (cases "sp_has_frontmatter (split_frontmatter t)")
    case True
    note closed = parse_document_closed [OF assms(2) True]
    with True splice_unchanged [OF assms(1)] show ?thesis
      by (simp add: rendered_with_body_def set serialize_def mark_dirty_def pristine_render_def
          join_frontmatter_def)
  next
    case False
    with parse_document_bare [OF False] show ?thesis
      by (simp add: rendered_with_body_def set serialize_def mark_dirty_def join_frontmatter_def)
  qed
qed

text \<open>A matcher that finds whole texts equal or unequal satisfies the laws; with it and a reader and
  writer that know two texts, the theorems of this part apply to a concrete file.\<close>

definition whole_matcher :: matcher where
  "whole_matcher =
     \<lparr>matching_blocks = (\<lambda>a b. if a = b then self_blocks (length a) else [(length a, length b, 0)]),
      opcodes = (\<lambda>a b. if a = [] \<and> b = [] then [] else [\<lparr>op_equal = (a = b), op_i1 = 0, op_i2 = length a, op_j1 = 0, op_j2 = length b\<rparr>])\<rparr>"

lemma whole_matcher_laws: "matcher_laws whole_matcher"
  by (simp add: matcher_laws_def whole_matcher_def)

definition text_b :: codes where "text_b = map of_char ''a: 1'' @ [10] @ map of_char ''b: 2'' @ [10]"

definition toy_load :: "codes \<Rightarrow> load_failure + ymap" where
  "toy_load s =
     (if s = sp_fm_text (split_frontmatter sample_text) then Inr [(''a'', YInt 1)]
      else if s = text_b then Inr [(''a'', YInt 1), (''b'', YInt 2)] else Inl (Load_Yaml [] None))"

definition toy_dump :: "ymap \<Rightarrow> style \<Rightarrow> codes" where
  "toy_dump m st = (if m = [(''a'', YInt 1)] then sp_fm_text (split_frontmatter sample_text) else text_b)"

lemma toy_parse: "doc_parse_error (parse_document toy_load sample_text) = None"
    and toy_raw: "doc_fm_raw (parse_document toy_load sample_text) = [(''a'', YInt 1)]"
  by code_simp+

theorem body_edit_minimal_witness:
  "rendered_with_body toy_load toy_dump whole_matcher (parse_document toy_load sample_text) [66] =
     Inr (take 14 sample_text @ [66])"
proof -
  have "join_frontmatter ((split_frontmatter sample_text)\<lparr>sp_body := [66]\<rparr>) None = take 14 sample_text @ [66]"
    by code_simp
  with body_edit_minimal [OF whole_matcher_laws toy_parse, of toy_dump "[66]"] show ?thesis by simp
qed



end
