(* ===== verification/Advance.thy ===== *)
theory Advance
  imports Workflow Document
begin

text \<open>
  Advancing an item (\<open>work_tracker_okf/advance.py\<close>): \<open>advance\<close> plans the next transition
  of an item or refuses, \<open>apply\<close> writes a plan into the item's document. A refusal is data;
  only an exception inside \<open>route\<close> is the \<open>Inl\<close> of the result.
\<close>

subsection \<open>Refusals\<close>

datatype refusal_reason =
    Unknown_Path | Unreadable_Member | Phase_Mismatch | Artifact_Missing | Blocked
  | Nothing_To_Advance | Needs_Effort | Needs_Attribute | Owner_Required | Resolved_In_Required
  | Finish_Open | Children_Open | Released_At_Required | Uncommitted_Work | No_Commits
  | Return_Not_Available | Return_Scope_Invalid | Return_Scope_Required | Return_Metadata_Invalid
  | Return_Pending | Return_Evidence_Missing | Return_Evidence_Stale | Return_Evidence_Incomplete
  | Return_Plan_Changed | No_Affects_Touched | No_Affects | No_Repo | Worktree_Missing
  | Git_Unavailable | Range_Unreadable | Gate_Bypass_Invalid | Gate_Bypass_Mismatch
  | Gate_Bypass_Unused | Gate_Bypass_Unrecorded | No_Gate_Receipt | Units_Invalid
  | Units_Command_Failed | No_Gate_Configured | Schema_Drift

fun refusal_text :: "refusal_reason \<Rightarrow> string" where
  "refusal_text Unknown_Path = ''unknown-path''"
| "refusal_text Unreadable_Member = ''unreadable-member''"
| "refusal_text Phase_Mismatch = ''phase-mismatch''"
| "refusal_text Artifact_Missing = ''artifact-missing''"
| "refusal_text Blocked = ''blocked''"
| "refusal_text Nothing_To_Advance = ''nothing-to-advance''"
| "refusal_text Needs_Effort = ''effort-required''"
| "refusal_text Needs_Attribute = ''attribute-required''"
| "refusal_text Owner_Required = ''owner-required''"
| "refusal_text Resolved_In_Required = ''resolved-in-required''"
| "refusal_text Finish_Open = ''finish-incomplete''"
| "refusal_text Children_Open = ''children-open''"
| "refusal_text Released_At_Required = ''released-at-required''"
| "refusal_text Uncommitted_Work = ''uncommitted-work''"
| "refusal_text No_Commits = ''no-commits''"
| "refusal_text Return_Not_Available = ''return-not-available''"
| "refusal_text Return_Scope_Invalid = ''return-scope-invalid''"
| "refusal_text Return_Scope_Required = ''return-scope-required''"
| "refusal_text Return_Metadata_Invalid = ''return-metadata-invalid''"
| "refusal_text Return_Pending = ''return-pending''"
| "refusal_text Return_Evidence_Missing = ''return-evidence-missing''"
| "refusal_text Return_Evidence_Stale = ''return-evidence-stale''"
| "refusal_text Return_Evidence_Incomplete = ''return-evidence-incomplete''"
| "refusal_text Return_Plan_Changed = ''return-plan-changed''"
| "refusal_text No_Affects_Touched = ''no-affects-touched''"
| "refusal_text No_Affects = ''no-affects''"
| "refusal_text No_Repo = ''no-repo''"
| "refusal_text Worktree_Missing = ''worktree-missing''"
| "refusal_text Git_Unavailable = ''git-unavailable''"
| "refusal_text Range_Unreadable = ''range-unreadable''"
| "refusal_text Gate_Bypass_Invalid = ''gate-bypass-invalid''"
| "refusal_text Gate_Bypass_Mismatch = ''gate-bypass-mismatch''"
| "refusal_text Gate_Bypass_Unused = ''gate-bypass-unused''"
| "refusal_text Gate_Bypass_Unrecorded = ''gate-bypass-unrecorded''"
| "refusal_text No_Gate_Receipt = ''no-gate-receipt''"
| "refusal_text Units_Invalid = ''units-invalid''"
| "refusal_text Units_Command_Failed = ''units-command-failed''"
| "refusal_text No_Gate_Configured = ''no-gate-configured''"
| "refusal_text Schema_Drift = ''schema-drift''"

definition COMMIT_GATE_REFUSALS :: "refusal_reason list" where
  "COMMIT_GATE_REFUSALS =
     [No_Affects, No_Repo, Worktree_Missing, Git_Unavailable, Uncommitted_Work, Range_Unreadable,
      No_Commits, No_Affects_Touched, No_Gate_Receipt, Units_Invalid, Units_Command_Failed,
      No_Gate_Configured]"

definition BYPASS_REFUSALS :: "refusal_reason list" where
  "BYPASS_REFUSALS =
     [Gate_Bypass_Invalid, Gate_Bypass_Mismatch, Gate_Bypass_Unused, Gate_Bypass_Unrecorded]"

definition GATE_REFUSALS :: "refusal_reason list" where
  "GATE_REFUSALS = COMMIT_GATE_REFUSALS @ BYPASS_REFUSALS @ [Finish_Open, Schema_Drift]"

datatype trigger = On_Dispatch | On_Complete | On_Return | On_Repair

record field_change =
  change_key :: string
  change_before :: yval
  change_after :: yval

record advance_plan =
  ap_path :: string
  ap_route :: route_result
  ap_transition :: "transition option"
  ap_changes :: "field_change list"
  ap_stamp_source :: "string option"
  ap_sync_plan_table :: bool
  ap_stamp_baseline :: bool
  ap_refusal :: "refusal_reason option"
  ap_detail :: string
  ap_trigger :: "trigger option"

definition plan_changed :: "advance_plan \<Rightarrow> bool" where
  "plan_changed p \<longleftrightarrow> ap_changes p \<noteq> []"

definition plan_diff :: "advance_plan \<Rightarrow> string" where
  "plan_diff p =
     (case ap_refusal p of
        Some r \<Rightarrow> ap_path p @ '': refused ('' @ refusal_text r @ '') -- '' @ ap_detail p
      | None \<Rightarrow>
          if ap_changes p = [] then ap_path p @ '': no change''
          else join [CHR 0x0A]
                 ((ap_path p @ '':'')
                  # map (\<lambda>c. ''  '' @ change_key c @ '': '' @ yrepr (change_before c) @ '' -> ''
                         @ yrepr (change_after c)) (ap_changes p)))"

subsection \<open>Planning\<close>

text \<open>The keyword arguments of \<open>advance\<close>; \<open>unreadable\<close> maps page paths to a reason.\<close>

record advance_request =
  rq_today :: date
  rq_expected_phase :: "string option"
  rq_effort :: "string option"
  rq_owner :: "string option"
  rq_resolved_in :: "string option"
  rq_released_at :: "date option"
  rq_return :: bool
  rq_unreadable :: "(string \<times> string) list"
  rq_hold :: "hold_fact option"
  rq_stale_spec :: "string list"

definition refused ::
  "string \<Rightarrow> route_result option \<Rightarrow> transition option \<Rightarrow> refusal_reason \<Rightarrow> string \<Rightarrow> advance_plan" where
  "refused path result transition reason detail =
     \<lparr>ap_path = path,
      ap_route = (case result of Some r \<Rightarrow> r | None \<Rightarrow> no_result detail),
      ap_transition = transition, ap_changes = [], ap_stamp_source = None,
      ap_sync_plan_table = False, ap_stamp_baseline = False, ap_refusal = Some reason,
      ap_detail = detail, ap_trigger = None\<rparr>"

definition change_candidates ::
  "work_item \<Rightarrow> transition \<Rightarrow> advance_request \<Rightarrow> (string \<times> yval \<times> yval) list" where
  "change_candidates item t rq =
     [(''phase'', opt_text (wi_phase item), opt_text (tr_phase t)),
      (''work_status'', YStr (wi_work_status item), opt_text (tr_work_status t)),
      (''status'', YStr (wi_status item), opt_text (tr_document_status t)),
      (''effort'', opt_text (wi_effort item), opt_text (rq_effort rq)),
      (''owner'', opt_text (wi_owner item), opt_text (rq_owner rq)),
      (''resolved_in'', opt_text (wi_resolved_in item), opt_text (rq_resolved_in rq)),
      (''released_at'', opt_text (wi_released_at item),
         (case rq_released_at rq of None \<Rightarrow> YNull | Some d \<Rightarrow> YDate d))]"

definition changes_of :: "work_item \<Rightarrow> transition \<Rightarrow> advance_request \<Rightarrow> field_change list" where
  "changes_of item t rq =
     map (\<lambda>(key, before, after). \<lparr>change_key = key, change_before = before, change_after = after\<rparr>)
       (filter (\<lambda>(key, before, after). after \<noteq> YNull \<and> after \<noteq> before) (change_candidates item t rq))
     @ (if wi_updated item \<noteq> isoformat (rq_today rq)
        then [\<lparr>change_key = ''updated'', change_before = YStr (wi_updated item),
               change_after = YDate (rq_today rq)\<rparr>]
        else [])"

text \<open>Which transition of the route is taken, or why none is.\<close>

definition repair_of :: "route_result \<Rightarrow> bool \<Rightarrow> transition option" where
  "repair_of r return =
     (if \<not> return \<and> map blk_kind (rr_blockers r) = [Phase_Off_Path] then rr_repair r else None)"

definition pick_transition ::
  "work_item \<Rightarrow> route_result \<Rightarrow> advance_request \<Rightarrow> (refusal_reason \<times> string) + (transition \<times> trigger)" where
  "pick_transition item r rq =
     (if rr_blockers r \<noteq> [] \<and> repair_of r (rq_return rq) = None
      then Inl (Blocked, join ''; '' (blocker_messages r))
      else case repair_of r (rq_return rq) of
        Some t \<Rightarrow> Inr (t, On_Repair)
      | None \<Rightarrow>
          if rq_return rq
          then (if rq_resolved_in rq \<noteq> None
                then Inl (Return_Not_Available,
                       ''--return is mutually exclusive with --resolved-in: a return is not a stage completion'')
                else case rr_on_return r of
                  None \<Rightarrow> Inl (Return_Not_Available,
                       ''no return path from phase '' @ repr_opt (wi_phase item)
                         @ '': --return applies to an item at phase '' @ repr ''finish'')
                | Some t \<Rightarrow> Inr (t, On_Return))
          else case rr_on_dispatch r of
            Some t \<Rightarrow> Inr (t, On_Dispatch)
          | None \<Rightarrow>
              (case rr_on_complete r of
                 Some t \<Rightarrow> Inr (t, On_Complete)
               | None \<Rightarrow> Inl (Nothing_To_Advance, ''nothing to advance: '' @ rr_reason r)))"

text \<open>The first requirement of the picked transition that is not met.\<close>

definition waiting_detail :: "string list \<Rightarrow> string" where
  "waiting_detail open_items = ''waiting on descendants: '' @ join '', '' open_items"

definition unmet_requirement ::
  "work_snapshot \<Rightarrow> work_item \<Rightarrow> string \<Rightarrow> transition \<Rightarrow> trigger \<Rightarrow> advance_request
     \<Rightarrow> (refusal_reason \<times> string) option" where
  "unmet_requirement s item ty t tg rq =
     (let open_items = active_nonterminal_descendants s (wi_path item)
      in if ''effort'' \<in> set (tr_requires t)
      then Some (Needs_Effort,
             ''effort required to advance: pass effort=xtra-small|small|medium|large|xtra-large'')
      else if tg = On_Complete \<and> tr_phase t = None
      then Some (Needs_Attribute, ''attribute required to advance: set '' @
             (let missing = filter (\<lambda>q. q \<noteq> ''effort'') (tr_requires t)
              in if missing \<noteq> [] then join '', '' missing else ''the unresolved path attribute''))
      else if ty \<in> set PARENT_TYPES \<and> tr_work_status t = Some ''resolved'' \<and> open_items \<noteq> []
      then Some (Children_Open, waiting_detail open_items)
      else if ''children-terminal'' \<in> set (tr_requires t) \<and> open_items \<noteq> []
      then Some (Children_Open, waiting_detail open_items)
      else if ty = ''Release'' \<and> tr_work_status t = Some ''resolved''
              \<and> rq_released_at rq = None \<and> \<not> truthy (wi_released_at item)
      then Some (Released_At_Required, ''released_at required to resolve a Release'')
      else if ''owner'' \<in> set (tr_requires t) \<and> \<not> truthy (py_or (rq_owner rq) (wi_owner item))
      then Some (Owner_Required, ''owner required to advance: pass owner=<handle>'')
      else if ''resolved_in'' \<in> set (tr_requires t)
              \<and> \<not> truthy (py_or (rq_resolved_in rq) (wi_resolved_in item))
      then Some (Resolved_In_Required,
             ''resolved_in required to advance: pass resolved_in=<pr or commit>'')
      else None)"

definition phase_text :: "work_item \<Rightarrow> string" where
  "phase_text item = (case wi_phase item of None \<Rightarrow> ''none'' | Some p \<Rightarrow> p)"

definition plan_of ::
  "work_snapshot \<Rightarrow> string \<Rightarrow> work_item \<Rightarrow> string \<Rightarrow> route_result \<Rightarrow> advance_request \<Rightarrow> advance_plan" where
  "plan_of s path item ty r rq =
     (case pick_transition item r rq of
        Inl (reason, detail) \<Rightarrow> refused path (Some r) None reason detail
      | Inr (t, tg) \<Rightarrow>
          (case unmet_requirement s item ty t tg rq of
             Some (reason, detail) \<Rightarrow> refused path (Some r) (Some t) reason detail
           | None \<Rightarrow>
               \<lparr>ap_path = path, ap_route = r, ap_transition = Some t, ap_changes = changes_of item t rq,
                ap_stamp_source = tr_stamp_source t, ap_sync_plan_table = tr_sync_plan_table t,
                ap_stamp_baseline = tr_stamp_baseline t, ap_refusal = None,
                ap_detail = rr_reason r, ap_trigger = Some tg\<rparr>))"

definition advance_routed ::
  "work_snapshot \<Rightarrow> string \<Rightarrow> work_item \<Rightarrow> string \<Rightarrow> route_result \<Rightarrow> advance_request \<Rightarrow> advance_plan" where
  "advance_routed s path item ty r rq =
     (case rq_expected_phase rq of
        Some e \<Rightarrow>
          if phase_text item \<noteq> e
          then refused path (Some r) None Phase_Mismatch
                 (''expected phase '' @ repr e @ ''; observed phase '' @ repr (phase_text item))
          else plan_of s path item ty r rq
      | None \<Rightarrow> plan_of s path item ty r rq)"

definition first_item :: "work_snapshot \<Rightarrow> string \<Rightarrow> work_item option" where
  "first_item s path = find (\<lambda>i. wi_path i = path) (snap_items s)"

definition advance ::
  "work_snapshot \<Rightarrow> string \<Rightarrow> advance_request \<Rightarrow> pipeline_definition \<Rightarrow> advance_plan result" where
  "advance s path rq d =
     (case (first_item s path, state_for s path (rq_effort rq) (rq_hold rq) (rq_stale_spec rq)) of
        (Some item, Some st) \<Rightarrow>
          bind_res (route st d) (\<lambda>r. Inr (advance_routed s path item (rs_type st) r rq))
      | _ \<Rightarrow>
          Inr (case map_of (rq_unreadable rq) (path @ ''.md'') of
                 Some detail \<Rightarrow> refused path None None Unreadable_Member (path @ ''.md '' @ detail)
               | None \<Rightarrow> refused path None None Unknown_Path (''unknown path '' @ repr path)))"

subsection \<open>Applying\<close>

fun apply_changes :: "document \<Rightarrow> field_change list \<Rightarrow> document result" where
  "apply_changes doc [] = Inr doc"
| "apply_changes doc (c # cs) =
     bind_res (if change_after c = YNull then delete_key doc (change_key c)
               else set_key doc (change_key c) (change_after c))
       (\<lambda>doc'. apply_changes doc' cs)"

definition apply_advance :: "document \<Rightarrow> advance_plan \<Rightarrow> document result" where
  "apply_advance doc p =
     (case ap_refusal p of
        Some r \<Rightarrow> Inl (AssertionError (''refused plan ('' @ refusal_text r @ '') must not be applied''))
      | None \<Rightarrow> apply_changes doc (ap_changes p))"

subsection \<open>What a plan is\<close>

lemma refused_simps [simp]:
  "ap_refusal (refused p r t reason detail) = Some reason" "ap_changes (refused p r t reason detail) = []"
  "ap_trigger (refused p r t reason detail) = None" "ap_path (refused p r t reason detail) = p"
  by (simp_all add: refused_def)

lemma advance_routed_cases:
  obtains (mismatch) e where "rq_expected_phase rq = Some e"
      "advance_routed s path item ty r rq = refused path (Some r) None Phase_Mismatch
         (''expected phase '' @ repr e @ ''; observed phase '' @ repr (phase_text item))"
  | (expected) "advance_routed s path item ty r rq = plan_of s path item ty r rq"
  by (cases "rq_expected_phase rq"; cases "rq_expected_phase rq = Some (phase_text item)")
     (auto simp: advance_routed_def)

lemma advance_cases:
  assumes "advance s path rq d = Inr p"
  obtains (absent) reason detail where "reason \<in> {Unknown_Path, Unreadable_Member}"
      "p = refused path None None reason detail"
  | (present) item st r where "first_item s path = Some item"
      "state_for s path (rq_effort rq) (rq_hold rq) (rq_stale_spec rq) = Some st"
      "route st d = Inr r" "p = advance_routed s path item (rs_type st) r rq"
proof (cases "first_item s path")
  case None
  with assms show ?thesis by (cases "map_of (rq_unreadable rq) (path @ ''.md'')") (auto simp: advance_def intro: absent)
next
  case (Some item)
  show ?thesis
  proof (cases "state_for s path (rq_effort rq) (rq_hold rq) (rq_stale_spec rq)")
    case None
    with Some assms show ?thesis
      by (cases "map_of (rq_unreadable rq) (path @ ''.md'')") (auto simp: advance_def intro: absent)
  next
    case st: (Some st)
    with Some assms show ?thesis by (auto simp: advance_def bind_res_eq_Inr intro: present)
  qed
qed

text \<open>Which of the route's transitions each trigger stands for.\<close>

definition offered_by :: "route_result \<Rightarrow> bool \<Rightarrow> trigger \<Rightarrow> transition \<Rightarrow> bool" where
  "offered_by r return tg t \<longleftrightarrow>
     (case tg of
        On_Dispatch \<Rightarrow> \<not> return \<and> rr_blockers r = [] \<and> rr_on_dispatch r = Some t
      | On_Complete \<Rightarrow> \<not> return \<and> rr_blockers r = [] \<and> rr_on_dispatch r = None \<and> rr_on_complete r = Some t
      | On_Return \<Rightarrow> return \<and> rr_blockers r = [] \<and> rr_on_return r = Some t
      | On_Repair \<Rightarrow> \<not> return \<and> map blk_kind (rr_blockers r) = [Phase_Off_Path] \<and> rr_repair r = Some t)"

lemma pick_transition_offered: "pick_transition item r rq = Inr (t, tg) \<Longrightarrow> offered_by r (rq_return rq) tg t"
  by (auto simp: pick_transition_def repair_of_def offered_by_def split: if_splits option.splits)

lemma pick_transition_refusal:
  "pick_transition item r rq = Inl (reason, detail) \<Longrightarrow> reason \<in> {Blocked, Return_Not_Available, Nothing_To_Advance}"
  by (auto simp: pick_transition_def split: if_splits option.splits)

lemma unmet_requirement_reason:
  "unmet_requirement s item ty t tg rq = Some (reason, detail) \<Longrightarrow>
     reason \<in> {Needs_Effort, Needs_Attribute, Children_Open, Released_At_Required, Owner_Required, Resolved_In_Required}"
  by (auto simp: unmet_requirement_def Let_def split: if_splits)

text \<open>What must hold before the transition is taken, as a specification: in no order, without
  the messages.\<close>

definition requirements_met ::
  "work_snapshot \<Rightarrow> work_item \<Rightarrow> string \<Rightarrow> transition \<Rightarrow> trigger \<Rightarrow> advance_request \<Rightarrow> bool" where
  "requirements_met s item ty t tg rq \<longleftrightarrow>
     ''effort'' \<notin> set (tr_requires t) \<and> (tg = On_Complete \<longrightarrow> tr_phase t \<noteq> None) \<and>
     (ty \<in> set PARENT_TYPES \<and> tr_work_status t = Some ''resolved'' \<or> ''children-terminal'' \<in> set (tr_requires t) \<longrightarrow>
        active_nonterminal_descendants s (wi_path item) = []) \<and>
     (ty = ''Release'' \<and> tr_work_status t = Some ''resolved'' \<longrightarrow>
        rq_released_at rq \<noteq> None \<or> truthy (wi_released_at item)) \<and>
     (''owner'' \<in> set (tr_requires t) \<longrightarrow> truthy (rq_owner rq) \<or> truthy (wi_owner item)) \<and>
     (''resolved_in'' \<in> set (tr_requires t) \<longrightarrow> truthy (rq_resolved_in rq) \<or> truthy (wi_resolved_in item))"

lemma unmet_requirement_None: "unmet_requirement s item ty t tg rq = None \<longleftrightarrow> requirements_met s item ty t tg rq"
  unfolding unmet_requirement_def requirements_met_def Let_def py_or_def by auto

lemma plan_of_cases:
  obtains (no_pick) reason detail where "reason \<in> {Blocked, Return_Not_Available, Nothing_To_Advance}"
      "plan_of s path item ty r rq = refused path (Some r) None reason detail"
  | (requirement) t tg reason detail where "pick_transition item r rq = Inr (t, tg)"
      "reason \<in> {Needs_Effort, Needs_Attribute, Children_Open, Released_At_Required, Owner_Required, Resolved_In_Required}"
      "plan_of s path item ty r rq = refused path (Some r) (Some t) reason detail"
  | (accepted) t tg where "pick_transition item r rq = Inr (t, tg)" "unmet_requirement s item ty t tg rq = None"
      "ap_refusal (plan_of s path item ty r rq) = None" "ap_transition (plan_of s path item ty r rq) = Some t"
      "ap_trigger (plan_of s path item ty r rq) = Some tg" "ap_route (plan_of s path item ty r rq) = r"
      "ap_changes (plan_of s path item ty r rq) = changes_of item t rq"
proof (cases "pick_transition item r rq")
  case (Inl x)
  obtain reason detail where x: "x = (reason, detail)" by (cases x)
  show ?thesis
    by (rule no_pick [OF pick_transition_refusal [OF Inl [unfolded x]]]) (simp add: plan_of_def Inl x)
next
  case (Inr x)
  obtain t tg where x: "x = (t, tg)" by (cases x)
  show ?thesis
  proof (cases "unmet_requirement s item ty t tg rq")
    case None
    with Inr x show ?thesis by (intro accepted [of t tg]) (simp_all add: plan_of_def)
  next
    case (Some y)
    obtain reason detail where y: "y = (reason, detail)" by (cases y)
    show ?thesis
      by (rule requirement [OF Inr [unfolded x] unmet_requirement_reason [OF Some [unfolded y]]])
        (simp add: plan_of_def Inr x Some y)
  qed
qed

subsection \<open>Properties\<close>

text \<open>An accepted plan is the plan of a picked transition.\<close>

lemma accepted_pick:
  assumes "advance s path rq d = Inr p" and "ap_refusal p = None"
  obtains item st t tg where "first_item s path = Some item"
    "state_for s path (rq_effort rq) (rq_hold rq) (rq_stale_spec rq) = Some st" "route st d = Inr (ap_route p)"
    "pick_transition item (ap_route p) rq = Inr (t, tg)" "unmet_requirement s item (rs_type st) t tg rq = None"
    "ap_transition p = Some t" "ap_trigger p = Some tg" "ap_changes p = changes_of item t rq"
    "rq_expected_phase rq \<in> {None, Some (phase_text item)}"
proof (cases rule: advance_cases [OF assms(1)])
  case (1 reason detail)
  with assms(2) show thesis by simp
next
  case (2 item st r)
  have expected: "rq_expected_phase rq \<in> {None, Some (phase_text item)}"
    using assms(2) 2(4) by (cases "rq_expected_phase rq") (auto simp: advance_routed_def split: if_splits)
  with assms(2) 2(4) have plan: "p = plan_of s path item (rs_type st) r rq"
    by (cases rule: advance_routed_cases [of rq s path item "rs_type st" r]) auto
  show thesis
  proof (cases rule: plan_of_cases [of s path item "rs_type st" r rq])
    case (accepted t tg)
    with that [of item st t tg] 2(1-3) plan expected show thesis by simp
  qed (use assms(2) plan in auto)
qed

lemma accepted_changes:
  assumes "advance s path rq d = Inr p" and "ap_refusal p = None"
  shows "\<exists>item t. first_item s path = Some item \<and> ap_transition p = Some t \<and> ap_changes p = changes_of item t rq"
  by (rule accepted_pick [OF assms]) blast

lemma offered_live: "offered_by r return tg t \<Longrightarrow> \<not> offers_nothing r"
  by (auto simp: offered_by_def offers_nothing_def split: trigger.splits)

text \<open>C33. An accepted plan is for an item that is valid, live and not held; it takes a transition the
  route offers for its trigger and only with every requirement met: nothing asked for effort, a
  completion knows its next phase, a container is not resolved over open descendants nor a Release
  without a release date, and an owner or resolution is there when the transition needs one.\<close>

theorem accepted_plan_sound:
  assumes "advance s path rq d = Inr p" and "ap_refusal p = None"
  shows "\<exists>item st t tg. first_item s path = Some item \<and>
    state_for s path (rq_effort rq) (rq_hold rq) (rq_stale_spec rq) = Some st \<and> route st d = Inr (ap_route p) \<and>
    validate_state st = [] \<and> rs_hold st = None \<and> rs_work_status st \<in> {''open'', ''accepted'', ''in-progress''} \<and>
    ap_transition p = Some t \<and> ap_trigger p = Some tg \<and> offered_by (ap_route p) (rq_return rq) tg t \<and>
    requirements_met s item (rs_type st) t tg rq \<and> rq_expected_phase rq \<in> {None, Some (phase_text item)}"
proof (rule accepted_pick [OF assms])
  fix item st t tg
  assume picked: "first_item s path = Some item"
    "state_for s path (rq_effort rq) (rq_hold rq) (rq_stale_spec rq) = Some st" "route st d = Inr (ap_route p)"
    "pick_transition item (ap_route p) rq = Inr (t, tg)" "unmet_requirement s item (rs_type st) t tg rq = None"
    "ap_transition p = Some t" "ap_trigger p = Some tg" "rq_expected_phase rq \<in> {None, Some (phase_text item)}"
  have offered: "offered_by (ap_route p) (rq_return rq) tg t" by (rule pick_transition_offered [OF picked(4)])
  have "live_state st" using route_live [OF picked(3) offered_live [OF offered]] by simp
  with picked offered show ?thesis unfolding unmet_requirement_None live_state_def by blast
qed

text \<open>Every refusal is inert and of this module's own vocabulary: it carries no change and no
  trigger, is never one of the gate refusals (which are raised elsewhere), and writing it is
  an error whatever the document.\<close>

theorem refusal_is_inert:
  assumes "advance s path rq d = Inr p" and "ap_refusal p = Some reason"
  shows "ap_changes p = [] \<and> ap_trigger p = None \<and> reason \<notin> set GATE_REFUSALS \<and>
    (\<exists>m. apply_advance doc p = Inl (AssertionError m))"
proof -
  let ?own = "{Unknown_Path, Unreadable_Member, Phase_Mismatch, Blocked, Return_Not_Available, Nothing_To_Advance,
    Needs_Effort, Needs_Attribute, Children_Open, Released_At_Required, Owner_Required, Resolved_In_Required}"
  have inert: "ap_changes p = [] \<and> ap_trigger p = None \<and> reason \<in> ?own"
  proof (cases rule: advance_cases [OF assms(1)])
    case 1
    with assms(2) show ?thesis by auto
  next
    case (2 item st r)
    note routed = 2(4)
    show ?thesis
    proof (cases rule: advance_routed_cases [of rq s path item "rs_type st" r])
      case (mismatch e)
      with routed assms(2) show ?thesis by auto
    next
      case expected
      from routed expected have "p = plan_of s path item (rs_type st) r rq" by simp
      with assms(2) show ?thesis by (cases rule: plan_of_cases [of s path item "rs_type st" r rq]) auto
    qed
  qed
  moreover have "?own \<inter> set GATE_REFUSALS = {}"
    by (auto simp: GATE_REFUSALS_def COMMIT_GATE_REFUSALS_def BYPASS_REFUSALS_def)
  ultimately show ?thesis using assms(2) by (auto simp: apply_advance_def)
qed

lemma advance_total:
  assumes "wf_definition d"
  shows "\<exists>p. advance s path rq d = Inr p \<and> ap_path p = path"
proof -
  have path: "ap_path (advance_routed s path item ty r rq) = path" for item ty r
    by (auto simp: advance_routed_def plan_of_def split: option.split sum.split)
  show ?thesis
  proof (cases "\<exists>item st. first_item s path = Some item \<and>
      state_for s path (rq_effort rq) (rq_hold rq) (rq_stale_spec rq) = Some st")
    case True
    then obtain item st where *: "first_item s path = Some item"
      "state_for s path (rq_effort rq) (rq_hold rq) (rq_stale_spec rq) = Some st" by blast
    from route_total [OF assms] obtain r where "route st d = Inr r" by blast
    with * path show ?thesis by (simp add: advance_def)
  next
    case False
    then show ?thesis
      by (cases "first_item s path"; cases "state_for s path (rq_effort rq) (rq_hold rq) (rq_stale_spec rq)")
        (auto simp: advance_def split: option.split)
  qed
qed

text \<open>Planning always answers: under a definition the parser accepts, \<open>advance\<close> returns a plan
  for every set of items, path and request, and raises nothing.\<close>

theorem advance_returns:
  assumes "wf_definition d"
  shows "\<exists>p. advance s path rq d = Inr p \<and> ap_path p = path"
  by (rule advance_total [OF assms])

subsection \<open>Applying a plan\<close>

text \<open>The effect of a plan on the item, without documents: each field the plan names takes its new
  value, read back the way the projection reads it, and every other field is left alone.\<close>

definition opt_default :: "'a \<Rightarrow> 'a option \<Rightarrow> 'a" where
  "opt_default x opt = (case opt of None \<Rightarrow> x | Some y \<Rightarrow> y)"

fun text_overlay :: "string option \<Rightarrow> string option \<Rightarrow> string option" where
  "text_overlay None old = old"
| "text_overlay (Some new) old = (if new = [] then None else Some new)"

definition advanced_item :: "work_item \<Rightarrow> transition \<Rightarrow> advance_request \<Rightarrow> work_item \<Rightarrow> bool" where
  "advanced_item item t rq item' \<longleftrightarrow>
     wi_phase item' = text_overlay (tr_phase t) (wi_phase item) \<and>
     wi_work_status item' = opt_default (wi_work_status item) (tr_work_status t) \<and>
     wi_status item' = opt_default (wi_status item) (tr_document_status t) \<and>
     wi_effort item' = text_overlay (rq_effort rq) (wi_effort item) \<and>
     wi_owner item' = text_overlay (rq_owner rq) (wi_owner item) \<and>
     wi_resolved_in item' = text_overlay (rq_resolved_in rq) (wi_resolved_in item) \<and>
     wi_released_at item' =
       (case rq_released_at rq of None \<Rightarrow> wi_released_at item | Some d \<Rightarrow> Some (isoformat d)) \<and>
     wi_updated item' = isoformat (rq_today rq) \<and>
     item'\<lparr>wi_phase := wi_phase item, wi_work_status := wi_work_status item, wi_status := wi_status item,
       wi_effort := wi_effort item, wi_owner := wi_owner item, wi_resolved_in := wi_resolved_in item,
       wi_released_at := wi_released_at item, wi_updated := wi_updated item,
       wi_invalid_optional_fields := wi_invalid_optional_fields item\<rparr> = item"

lemma apply_changes_fold:
  assumes "doc_parse_error d = None" and "\<forall>c \<in> set cs. change_after c \<noteq> YNull"
  shows "apply_changes d cs =
    Inr (fold (\<lambda>(k, v) d. doc_put d k v) (map (\<lambda>c. (change_key c, change_after c)) cs) d)"
  using assms by (induction cs arbitrary: d) (simp_all add: set_key_mutable)

lemma map_of_fm_data: "map_of (fm_data d) k = map_option plain_iso (doc_get d k)"
  by (simp add: fm_data_def doc_get_def map_of_map comp_def)

lemma candidate_keys:
  "map fst (change_candidates item t rq) =
     [''phase'', ''work_status'', ''status'', ''effort'', ''owner'', ''resolved_in'', ''released_at'']"
  by (simp add: change_candidates_def)

lemma changes_not_null: "c \<in> set (changes_of item t rq) \<Longrightarrow> change_after c \<noteq> YNull"
  by (auto simp: changes_of_def split: if_splits)

definition written :: "work_item \<Rightarrow> transition \<Rightarrow> advance_request \<Rightarrow> (string \<times> yval) list" where
  "written item t rq = map (\<lambda>c. (change_key c, change_after c)) (changes_of item t rq)"

lemma written_eq:
  "written item t rq =
     map (\<lambda>(k, b, a). (k, a)) (filter (\<lambda>(k, b, a). a \<noteq> YNull \<and> a \<noteq> b) (change_candidates item t rq))
     @ (if wi_updated item \<noteq> isoformat (rq_today rq) then [(''updated'', YDate (rq_today rq))] else [])"
  by (simp add: written_def changes_of_def comp_def split_beta)

lemma map_of_filter_candidates:
  "distinct (map fst cs) \<Longrightarrow> (k, b, a) \<in> set cs \<Longrightarrow>
     map_of (map (\<lambda>(k, b, a). (k, a)) (filter (\<lambda>(k, b, a). P b a) cs)) k = (if P b a then Some a else None)"
proof (induction cs)
  case (Cons c cs)
  obtain k' b' a' where c: "c = (k', b', a')" by (cases c)
  have absent: "map_of (map (\<lambda>(k, b, a). (k, a)) (filter (\<lambda>(k, b, a). P b a) cs)) k' = None"
    using Cons.prems(1) c by (auto simp: map_of_eq_None_iff image_iff)
  have "k = k' \<Longrightarrow> b = b' \<and> a = a'" using Cons.prems c by force
  with Cons c absent show ?case by (cases "k = k'") auto
qed simp

lemma written_candidate:
  assumes "(k, b, a) \<in> set (change_candidates item t rq)"
  shows "map_of (written item t rq) k = (if a \<noteq> YNull \<and> a \<noteq> b then Some a else None)"
proof -
  have distinct: "distinct (map fst (change_candidates item t rq))" by (simp add: candidate_keys)
  have "k \<in> set (map fst (change_candidates item t rq))" using assms by force
  then have "k \<noteq> ''updated''" by (auto simp: candidate_keys)
  then show ?thesis
    using map_of_filter_candidates [OF distinct assms, of "\<lambda>b a. a \<noteq> YNull \<and> a \<noteq> b"]
    by (simp add: written_eq map_add_def split: option.split)
qed

lemma written_other:
  assumes "k \<notin> set (map fst (change_candidates item t rq))" and "k \<noteq> ''updated''"
  shows "map_of (written item t rq) k = None"
  using assms by (force simp: written_eq map_of_eq_None_iff image_iff)

lemma written_distinct: "distinct (map fst (written item t rq))"
proof -
  have "map fst (written item t rq) =
      map fst (filter (\<lambda>(k, b, a). a \<noteq> YNull \<and> a \<noteq> b) (change_candidates item t rq))
      @ (if wi_updated item \<noteq> isoformat (rq_today rq) then [''updated''] else [])"
    by (simp add: written_eq comp_def split_beta)
  moreover have "distinct (map fst (change_candidates item t rq))" by (simp add: candidate_keys)
  moreover have "''updated'' \<notin> set (map fst (change_candidates item t rq))" by (simp add: candidate_keys)
  ultimately show ?thesis by (force simp: distinct_map_filter image_iff)
qed

lemma written_updated:
  "map_of (written item t rq) ''updated'' =
     (if wi_updated item \<noteq> isoformat (rq_today rq) then Some (YDate (rq_today rq)) else None)"
proof -
  have "''updated'' \<notin> set (map fst (change_candidates item t rq))" by (simp add: candidate_keys)
  then have "map_of (map (\<lambda>(k, b, a). (k, a))
      (filter (\<lambda>(k, b, a). a \<noteq> YNull \<and> a \<noteq> b) (change_candidates item t rq))) ''updated'' = None"
    by (force simp: map_of_eq_None_iff image_iff)
  then show ?thesis by (simp add: written_eq map_add_def)
qed

lemma opt_text_not_date [simp]: "opt_text o' \<noteq> YDate d" "YDate d \<noteq> opt_text o'"
  by (cases o'; simp)+

lemma project_more:
  "wi_status (project_item l d t s) = text_or_empty (yget d ''status'')"
  "wi_owner (project_item l d t s) = optional_text (yget d ''owner'')"
  "wi_resolved_in (project_item l d t s) = optional_text (yget d ''resolved_in'')"
  "wi_released_at (project_item l d t s) = optional_text (yget d ''released_at'')"
  "wi_updated (project_item l d t s) = text_or_empty (yget d ''updated'')"
  by (simp_all add: project_item_def split_beta Let_def)

lemma apply_advance_get:
  assumes "doc_parse_error d = None" and "ap_refusal p = None" and "ap_changes p = changes_of item t rq"
    and "apply_advance d p = Inr d'"
  shows "map_of (fm_data d') k =
    (case map_of (written item t rq) k of Some v \<Rightarrow> Some (plain_iso v) | None \<Rightarrow> map_of (fm_data d) k)"
proof -
  have "d' = fold (\<lambda>(k, v) d. doc_put d k v) (written item t rq) d"
    using assms apply_changes_fold [OF assms(1), of "changes_of item t rq"] changes_not_null
    by (auto simp: apply_advance_def written_def)
  then have "doc_get d' k = (case map_of (written item t rq) k of Some v \<Rightarrow> Some v | None \<Rightarrow> doc_get d k)"
    using doc.put_all_distinct [OF written_distinct] by simp
  then show ?thesis by (simp add: map_of_fm_data split: option.split)
qed

lemma overlay_text:
  assumes "optional_text v = old"
  shows "optional_text (if opt_text n \<noteq> YNull \<and> opt_text n \<noteq> opt_text old then plain_iso (opt_text n) else v) =
    text_overlay n old"
  using assms by (cases n; cases old) (auto simp: optional_text_Some)

lemma overlay_default:
  assumes "text_or_empty v = old"
  shows "text_or_empty (if opt_text n \<noteq> YNull \<and> opt_text n \<noteq> YStr old then plain_iso (opt_text n) else v) =
    opt_default old n"
  using assms by (cases n) (auto simp: opt_default_def)

lemma isoformat_not_Nil [simp]: "isoformat d \<noteq> []"
  by (simp add: isoformat_def)

lemma applied_changes:
  assumes "doc_parse_error doc = None" and "item = project_item loc (fm_data doc) tags srcs"
    and "ap_refusal p = None" and "ap_changes p = changes_of item t rq"
    and "apply_advance doc p = Inr doc'"
  shows "advanced_item item t rq (project_item loc (fm_data doc') tags srcs)"
proof -
  let ?item' = "project_item loc (fm_data doc') tags srcs"
  note get = apply_advance_get [OF assms(1,3,4,5)]
  have field: "yget (fm_data doc') k = (if a \<noteq> YNull \<and> a \<noteq> b then plain_iso a else yget (fm_data doc) k)"
    if "(k, b, a) \<in> set (change_candidates item t rq)" for k b a
    using written_candidate [OF that] by (simp add: yget_def get)
  have other: "map_of (fm_data doc') k = map_of (fm_data doc) k"
    if "k \<notin> {''phase'', ''work_status'', ''status'', ''effort'', ''owner'', ''resolved_in'', ''released_at'', ''updated''}"
    for k
    using that written_other [of k item t rq] by (simp add: get candidate_keys)
  have frame: "yget (fm_data doc') k = yget (fm_data doc) k \<and> has_key (fm_data doc') k = has_key (fm_data doc) k"
    if "k \<notin> {''phase'', ''work_status'', ''status'', ''effort'', ''owner'', ''resolved_in'', ''released_at'', ''updated''}"
    for k
    using other [OF that] by (simp add: yget_def has_key_def del: has_key_iff)
  have updated: "wi_updated ?item' = isoformat (rq_today rq)"
  proof -
    have "yget (fm_data doc') ''updated'' =
        (if wi_updated item \<noteq> isoformat (rq_today rq) then YStr (isoformat (rq_today rq))
         else yget (fm_data doc) ''updated'')"
      using written_updated [of item t rq] by (simp add: yget_def get)
    then show ?thesis by (simp add: assms(2) project_more)
  qed
  have texts: "wi_phase ?item' = text_overlay (tr_phase t) (wi_phase item)"
    "wi_effort ?item' = text_overlay (rq_effort rq) (wi_effort item)"
    "wi_owner ?item' = text_overlay (rq_owner rq) (wi_owner item)"
    "wi_resolved_in ?item' = text_overlay (rq_resolved_in rq) (wi_resolved_in item)"
    unfolding project_fields project_more assms(2)
    by (subst field [of _ "opt_text (wi_phase item)" "opt_text (tr_phase t)"]
          field [of _ "opt_text (wi_effort item)" "opt_text (rq_effort rq)"]
          field [of _ "opt_text (wi_owner item)" "opt_text (rq_owner rq)"]
          field [of _ "opt_text (wi_resolved_in item)" "opt_text (rq_resolved_in rq)"],
        simp add: change_candidates_def,
        simp only: assms(2) project_fields project_more overlay_text)+
  have defaults: "wi_work_status ?item' = opt_default (wi_work_status item) (tr_work_status t)"
    "wi_status ?item' = opt_default (wi_status item) (tr_document_status t)"
    unfolding project_fields project_more assms(2)
    by (subst field [of _ "YStr (wi_work_status item)" "opt_text (tr_work_status t)"]
          field [of _ "YStr (wi_status item)" "opt_text (tr_document_status t)"],
        simp add: change_candidates_def,
        simp only: assms(2) project_fields project_more overlay_default)+
  have released: "wi_released_at ?item' =
      (case rq_released_at rq of None \<Rightarrow> wi_released_at item | Some d \<Rightarrow> Some (isoformat d))"
    unfolding project_more assms(2)
    by (subst field [of _ "opt_text (wi_released_at item)"
          "case rq_released_at rq of None \<Rightarrow> YNull | Some d \<Rightarrow> YDate d"])
      (simp_all add: change_candidates_def assms(2) project_more opt_text_not_date split: option.split)
  have "?item'\<lparr>wi_phase := wi_phase item, wi_work_status := wi_work_status item, wi_status := wi_status item,
       wi_effort := wi_effort item, wi_owner := wi_owner item, wi_resolved_in := wi_resolved_in item,
       wi_released_at := wi_released_at item, wi_updated := wi_updated item,
       wi_invalid_optional_fields := wi_invalid_optional_fields item\<rparr> = item"
    unfolding assms(2) project_item_def Let_def split_beta by (simp add: frame RETURN_KEY_def del: has_key_iff)
  with updated texts defaults released show ?thesis by (simp only: advanced_item_def simp_thms)
qed


subsection \<open>The properties at a concrete item\<close>

text \<open>A small bug whose execute stage is complete, and the page it projects from.\<close>

definition bug_page :: ymap where
  "bug_page =
     [(''type'', YStr ''Bug''), (''title'', YStr ''T''), (''status'', YStr ''draft''),
      (''work_status'', YStr ''in-progress''), (''phase'', YStr ''execute''), (''effort'', YStr ''small''),
      (''updated'', YDate (Date 26 1 2))]"

definition bug_document :: document where
  "bug_document = sample_document\<lparr>doc_fm_raw := bug_page\<rparr>"

definition bug_snapshot :: work_snapshot where
  "bug_snapshot =
     from_bundle [(''work/b'', \<lparr>con_data = fm_data bug_document, con_tags = [], con_sources = []\<rparr>)]"

definition plain_request :: "date \<Rightarrow> advance_request" where
  "plain_request today =
     \<lparr>rq_today = today, rq_expected_phase = None, rq_effort = None, rq_owner = None, rq_resolved_in = None,
      rq_released_at = None, rq_return = False, rq_unreadable = [], rq_hold = None, rq_stale_spec = []\<rparr>"

definition bug_plan :: advance_plan where
  "bug_plan = projr (advance bug_snapshot ''work/b'' (plain_request (Date 26 3 4)) PACKAGED_DEFINITION)"

lemma bug_plan: "advance bug_snapshot ''work/b'' (plain_request (Date 26 3 4)) PACKAGED_DEFINITION = Inr bug_plan"
  using advance_total [OF wf_packaged, of bug_snapshot "''work/b''" "plain_request (Date 26 3 4)"]
  by (auto simp: bug_plan_def)

definition plan_summary ::
  "advance_plan \<Rightarrow> refusal_reason option \<times> trigger option \<times> transition option \<times> field_change list" where
  "plan_summary p = (ap_refusal p, ap_trigger p, ap_transition p, ap_changes p)"

definition bug_transition :: transition where
  "bug_transition = no_transition\<lparr>tr_phase := Some ''finish''\<rparr>"

definition bug_changes :: "field_change list" where
  "bug_changes =
     [\<lparr>change_key = ''phase'', change_before = YStr ''execute'', change_after = YStr ''finish''\<rparr>,
      \<lparr>change_key = ''updated'', change_before = YStr ''0026-01-02'', change_after = YDate (Date 26 3 4)\<rparr>]"

lemma bug_plan_summary: "plan_summary bug_plan = (None, Some On_Complete, Some bug_transition, bug_changes)"
  by code_simp

lemma bug_plan_facts:
  "ap_refusal bug_plan = None" "ap_trigger bug_plan = Some On_Complete" "ap_transition bug_plan = Some bug_transition"
  "ap_changes bug_plan = bug_changes"
  using bug_plan_summary by (simp_all add: plan_summary_def)

theorem accepted_plan_sound_witness:
  "\<exists>st t. route st PACKAGED_DEFINITION = Inr (ap_route bug_plan) \<and> rs_hold st = None \<and>
     ap_transition bug_plan = Some t \<and> ''effort'' \<notin> set (tr_requires t) \<and> rr_on_complete (ap_route bug_plan) = Some t"
proof -
  obtain item st t tg where st: "route st PACKAGED_DEFINITION = Inr (ap_route bug_plan)" "rs_hold st = None"
    and t: "ap_transition bug_plan = Some t" "ap_trigger bug_plan = Some tg" "offered_by (ap_route bug_plan) False tg t"
    and met: "requirements_met bug_snapshot item (rs_type st) t tg (plain_request (Date 26 3 4))"
    using accepted_plan_sound [OF bug_plan bug_plan_facts(1)] by (auto simp: plain_request_def)
  have "rr_on_complete (ap_route bug_plan) = Some t" using t(2,3) bug_plan_facts(2) by (simp add: offered_by_def)
  moreover have "''effort'' \<notin> set (tr_requires t)" using met by (simp add: requirements_met_def)
  ultimately show ?thesis using st t(1) by (intro exI conjI)
qed

theorem refusal_is_inert_witness:
  "ap_changes (projr (advance bug_snapshot ''work/c'' (plain_request (Date 26 3 4)) PACKAGED_DEFINITION)) = []"
proof -
  let ?a = "advance bug_snapshot ''work/c'' (plain_request (Date 26 3 4)) PACKAGED_DEFINITION"
  have "?a = Inr (projr ?a)" and "ap_refusal (projr ?a) = Some Unknown_Path" by code_simp+
  from refusal_is_inert [OF this] show ?thesis by blast
qed

theorem advance_returns_witness:
  "\<exists>p. advance bug_snapshot ''work/b'' (plain_request (Date 26 3 4)) PACKAGED_DEFINITION = Inr p \<and> ap_path p = ''work/b''"
  by (rule advance_returns [OF wf_packaged])

definition bug_item :: work_item where
  "bug_item = project_item (the (parse_item_path ''work/b'')) (fm_data bug_document) [] []"


end
