(* ===== verification/Placement.thy ===== *)
theory Placement
  imports Advance
begin

text \<open>
  The pure planners that write one frontmatter key of an item: its execute baseline
  (\<open>work_tracker_okf/placement.py\<close>), its finish obligations (the second half of
  \<open>obligations.py\<close>) and its execute return (\<open>returns.py\<close>), and the checks before a hold is
  filed (\<open>holds.py\<close>). A plan is data; applying a refused one raises.
\<close>

subsection \<open>The execute baseline\<close>

datatype baseline_refusal =
    Baseline_Unknown_Path | Invalid_Item | Baseline_Terminal | Not_Execute | Invalid_Baseline
  | Baseline_Conflict | Baseline_No_Repo | Outside_Repository | Baseline_Git_Unavailable
  | Wrong_Checkout | Already_Started

fun baseline_refusal_text :: "baseline_refusal \<Rightarrow> string" where
  "baseline_refusal_text Baseline_Unknown_Path = ''unknown-path''"
| "baseline_refusal_text Invalid_Item = ''invalid-item''"
| "baseline_refusal_text Baseline_Terminal = ''terminal''"
| "baseline_refusal_text Not_Execute = ''not-execute''"
| "baseline_refusal_text Invalid_Baseline = ''invalid-baseline''"
| "baseline_refusal_text Baseline_Conflict = ''baseline-conflict''"
| "baseline_refusal_text Baseline_No_Repo = ''no-repo''"
| "baseline_refusal_text Outside_Repository = ''outside-repository''"
| "baseline_refusal_text Baseline_Git_Unavailable = ''git-unavailable''"
| "baseline_refusal_text Wrong_Checkout = ''wrong-checkout''"
| "baseline_refusal_text Already_Started = ''already-started''"

record baseline_plan =
  bp_path :: string
  bp_before :: "string option"
  bp_after :: "string option"
  bp_changes :: ymap
  bp_refusal :: "baseline_refusal option"
  bp_detail :: string

definition baseline_changed :: "baseline_plan \<Rightarrow> bool" where
  "baseline_changed p \<longleftrightarrow> bp_changes p \<noteq> []"

definition vocabulary_problem :: "work_item \<Rightarrow> (string \<times> string option \<times> string list) list \<Rightarrow> string option" where
  "vocabulary_problem item checks =
     map_option (\<lambda>(field, v, allowed).
         wi_path item @ '' has invalid '' @ field @ '' '' @ repr_opt v @ ''; repair it first'')
       (find (\<lambda>(field, v, allowed).
           \<not> (v = None \<and> field \<in> {''phase'', ''effort''}) \<and> (\<forall>s \<in> set allowed. v \<noteq> Some s)) checks)"

definition item_problem :: "work_item \<Rightarrow> string option" where
  "item_problem item =
     (let lossy = filter (\<lambda>field. field \<in> {''phase'', ''effort''}) (wi_invalid_optional_fields item)
      in if lossy \<noteq> []
         then Some (wi_path item @ '' has invalid '' @ join '', '' lossy
                @ ''; expected nonempty text or null; repair it first'')
         else vocabulary_problem item
                [(''type'', Some (wi_type item), TYPES),
                 (''work_status'', Some (wi_work_status item), WORK_STATUSES),
                 (''phase'', wi_phase item, PHASES),
                 (''effort'', wi_effort item, EFFORTS)])"

definition baseline_refused ::
  "string \<Rightarrow> string option \<Rightarrow> baseline_refusal \<Rightarrow> string \<Rightarrow> baseline_plan" where
  "baseline_refused path before reason detail =
     \<lparr>bp_path = path, bp_before = before, bp_after = before, bp_changes = [],
      bp_refusal = Some reason, bp_detail = detail\<rparr>"

definition baseline_refusal_of :: "work_item \<Rightarrow> string \<Rightarrow> string \<Rightarrow> (baseline_refusal \<times> string) option" where
  "baseline_refusal_of item path observed_head =
     (case item_problem item of
        Some problem \<Rightarrow> Some (Invalid_Item, problem)
      | None \<Rightarrow>
          if ''start_sha'' \<in> set (wi_invalid_optional_fields item)
          then Some (Invalid_Item, path @ '' has a malformed start_sha; repair it first'')
          else if wi_work_status item \<in> set TERMINAL_STATUSES \<or> wi_work_status item = ''mitigated''
                  \<or> wi_phase item = Some DONE
          then Some (Baseline_Terminal,
                 path @ '' is '' @ wi_work_status item @ '' at phase '' @ repr_opt (wi_phase item))
          else if wi_phase item \<noteq> Some (stage_str Execute)
          then Some (Not_Execute, path @ '' is at phase '' @ repr_opt (wi_phase item)
                 @ ''; a baseline is recorded as execute starts'')
          else if \<not> is_commit_oid (YStr observed_head)
          then Some (Invalid_Baseline,
                 ''observed HEAD '' @ repr observed_head @ '' is not a full commit object ID'')
          else None)"

definition plan_baseline ::
  "work_item list \<Rightarrow> string \<Rightarrow> string \<Rightarrow> bool \<Rightarrow> date \<Rightarrow> baseline_plan" where
  "plan_baseline items path observed_head head_descends today =
     (case find (\<lambda>i. wi_path i = path) items of
        None \<Rightarrow> baseline_refused path None Baseline_Unknown_Path (''unknown work item '' @ repr path)
      | Some item \<Rightarrow>
          (case baseline_refusal_of item path observed_head of
             Some (reason, detail) \<Rightarrow> baseline_refused path (wi_start_sha item) reason detail
           | None \<Rightarrow>
               (case wi_start_sha item of
                  None \<Rightarrow>
                    \<lparr>bp_path = path, bp_before = None, bp_after = Some observed_head,
                     bp_changes = (''start_sha'', YStr observed_head)
                       # (if wi_updated item \<noteq> isoformat today then [(''updated'', YDate today)] else []),
                     bp_refusal = None, bp_detail = []\<rparr>
                | Some before \<Rightarrow>
                    if before = observed_head \<or> head_descends
                    then \<lparr>bp_path = path, bp_before = Some before, bp_after = Some before, bp_changes = [],
                          bp_refusal = None, bp_detail = []\<rparr>
                    else baseline_refused path (Some before) Baseline_Conflict
                           (path @ '' records start_sha '' @ before @ '', and HEAD '' @ observed_head
                              @ '' does not descend from it; inspect where this stage's work started ''
                              @ ''before recording''))))"

fun set_keys :: "document \<Rightarrow> ymap \<Rightarrow> document result" where
  "set_keys doc [] = Inr doc"
| "set_keys doc ((k, v) # kvs) = bind_res (set_key doc k v) (\<lambda>doc'. set_keys doc' kvs)"

definition apply_baseline :: "document \<Rightarrow> baseline_plan \<Rightarrow> document result" where
  "apply_baseline doc p =
     (case bp_refusal p of
        Some r \<Rightarrow> Inl (AssertionError
          (''refused baseline ('' @ baseline_refusal_text r @ '') must not be applied''))
      | None \<Rightarrow> set_keys doc (bp_changes p))"

subsection \<open>Finish obligations\<close>

datatype obligation_refusal = Obligation_Unknown_Path | Empty_Text | Terminal_Item

fun obligation_refusal_text :: "obligation_refusal \<Rightarrow> string" where
  "obligation_refusal_text Obligation_Unknown_Path = ''unknown-path''"
| "obligation_refusal_text Empty_Text = ''empty-text''"
| "obligation_refusal_text Terminal_Item = ''terminal-item''"

record obligation_plan =
  op_path :: string
  op_before :: "obligation list"
  op_after :: "obligation list"
  op_refusal :: "obligation_refusal option"
  op_detail :: string

definition obligations_changed :: "obligation_plan \<Rightarrow> bool" where
  "obligations_changed p \<longleftrightarrow> op_refusal p = None \<and> op_before p \<noteq> op_after p"

definition plan_add :: "work_item list \<Rightarrow> string \<Rightarrow> string \<Rightarrow> date \<Rightarrow> obligation_plan" where
  "plan_add items path text on =
     (case find (\<lambda>i. wi_path i = path) items of
        None \<Rightarrow> \<lparr>op_path = path, op_before = [], op_after = [], op_refusal = Some Obligation_Unknown_Path,
                 op_detail = ''unknown work item '' @ repr path\<rparr>
      | Some item \<Rightarrow>
          let before = wi_finish_obligations item
          in case single_line (YStr text) of
               None \<Rightarrow> \<lparr>op_path = path, op_before = before, op_after = before, op_refusal = Some Empty_Text,
                        op_detail = ''--text must be one non-empty line''\<rparr>
             | Some cleaned \<Rightarrow>
                 if wi_work_status item \<in> set TERMINAL_STATUSES \<or> wi_phase item = Some DONE
                 then \<lparr>op_path = path, op_before = before, op_after = before, op_refusal = Some Terminal_Item,
                       op_detail = path @ '' is '' @ wi_work_status item @ '' at phase ''
                         @ repr_opt (wi_phase item)\<rparr>
                 else \<lparr>op_path = path, op_before = before,
                       op_after = before @ [\<lparr>ob_text = cleaned, ob_origin = ''deferred'',
                         ob_recorded = isoformat on\<rparr>],
                       op_refusal = None, op_detail = []\<rparr>)"

definition plan_derive :: "work_item \<Rightarrow> string option \<Rightarrow> date \<Rightarrow> obligation_plan" where
  "plan_derive item coverage_text on =
     (let before = wi_finish_obligations item
      in \<lparr>op_path = wi_path item, op_before = before, op_after = derive before coverage_text on,
          op_refusal = None, op_detail = []\<rparr>)"

definition OBLIGATIONS_KEY :: string where "OBLIGATIONS_KEY = ''finish_obligations''"

definition invalid_isoformat :: "string \<Rightarrow> py_exn" where
  "invalid_isoformat s = ValueError (''Invalid isoformat string: '' @ repr s)"

definition stored_obligation :: "obligation \<Rightarrow> yval result" where
  "stored_obligation ob =
     (case date_fromiso (ob_recorded ob) of
        None \<Rightarrow> Inl (invalid_isoformat (ob_recorded ob))
      | Some d \<Rightarrow> Inr (YMap [(''text'', YStr (ob_text ob)), (''origin'', YStr (ob_origin ob)),
                             (''recorded'', YDate d)]))"

definition apply_obligations :: "document \<Rightarrow> obligation_plan \<Rightarrow> document result" where
  "apply_obligations doc p =
     (case op_refusal p of
        Some r \<Rightarrow> Inl (ValueError
          (''refused obligation plan ('' @ obligation_refusal_text r @ '') must not be applied''))
      | None \<Rightarrow>
          if op_after p = []
          then (if has_key (doc_fm_raw doc) OBLIGATIONS_KEY then delete_key doc OBLIGATIONS_KEY else Inr doc)
          else bind_res (map_res stored_obligation (op_after p)) (\<lambda>es. set_key doc OBLIGATIONS_KEY (YList es)))"

definition apply_execute_return :: "document \<Rightarrow> execute_return \<Rightarrow> document result" where
  "apply_execute_return doc r =
     (case date_fromiso (ret_recorded r) of
        None \<Rightarrow> Inl (invalid_isoformat (ret_recorded r))
      | Some d \<Rightarrow>
          set_key doc RETURN_KEY
            (YMap (map (\<lambda>(k, v). (k, if k = ''recorded'' then YDate d else v)) (return_to_data r))))"

subsection \<open>Filing a hold\<close>

datatype hold_refusal_kind = Hold_Status | Hold_Affects | Hold_Terminal | Hold_Phase_Mismatch | Hold_Checkpoint
  | Checkpoint_Invalid

definition current_phase :: "work_item \<Rightarrow> string" where
  "current_phase item = (if truthy (wi_phase item) then the (wi_phase item) else ''entry'')"

definition check_hold ::
  "work_item \<Rightarrow> string \<Rightarrow> string \<Rightarrow> string option \<Rightarrow> string list \<Rightarrow> bool \<Rightarrow> (hold_refusal_kind \<times> string) option" where
  "check_hold item status hold phase affects has_checkpoint =
     (if status \<noteq> ''open''
      then Some (Hold_Status, ''a hold must be filed open, not '' @ repr status)
      else if affects \<noteq> [wi_path item]
      then Some (Hold_Affects, ''a hold names exactly its own item '' @ repr (wi_path item) @ ''; got ''
             @ repr_list affects)
      else if wi_work_status item \<in> set TERMINAL_STATUSES \<or> wi_phase item = Some DONE
      then Some (Hold_Terminal, wi_path item @ '' is '' @ wi_work_status item @ '' at phase ''
             @ repr_opt (wi_phase item) @ ''; nothing to hold'')
      else if phase \<noteq> Some (current_phase item)
      then Some (Hold_Phase_Mismatch, wi_path item @ '' is at phase '' @ repr (current_phase item)
             @ '', not '' @ repr_opt phase @ ''; re-file deliberately'')
      else if hold = ''park'' \<and> current_phase item = ''entry''
      then Some (Hold_Phase_Mismatch,
             wi_path item @ '' has no running stage to park (entry); file a skip'')
      else if (hold = ''park'') \<noteq> has_checkpoint
      then Some (Hold_Checkpoint,
             if hold = ''park'' then ''a park requires --checkpoint'' else ''a skip takes no --checkpoint'')
      else None)"

subsection \<open>Stored text and dates are canonical\<close>

lemma nat_str_length: "n < 10 ^ Suc k \<Longrightarrow> length (nat_str n) \<le> Suc k"
proof (induction k arbitrary: n)
  case 0
  then show ?case by (simp add: nat_str.simps [of n])
next
  case (Suc k)
  then have "n div 10 < 10 ^ Suc k" by (simp add: div_less_iff_less_mult)
  from Suc.IH [OF this] show ?case by (simp add: nat_str.simps [of n])
qed

lemma zpad_length: "length s \<le> n \<Longrightarrow> length (zpad n s) = n"
  by (simp add: zpad_def)

lemma digits_nat_zpad [simp]: "digits_nat 0 (zpad n (nat_str m)) = m"
proof -
  have "digits_nat 0 (replicate k (CHR ''0'') @ s) = digits_nat 0 s" for k s
    by (induction k) simp_all
  then show ?thesis by (simp add: zpad_def)
qed

lemma zpad_digits: "c \<in> set (zpad n (nat_str m)) \<Longrightarrow> is_digit c"
  by (auto simp: zpad_def nat_str_digits, simp add: is_digit_def)

lemma rx_in_times_all: "list_all p s \<Longrightarrow> length s = n \<Longrightarrow> rx_in s (rx_times n (RChr p))"
proof (induction n arbitrary: s)
  case 0
  then show ?case by (auto intro: rx_in.intros)
next
  case (Suc n)
  then obtain c t where s: "s = [c] @ t" and "p c" "list_all p t" "length t = n"
    by (auto simp: length_Suc_conv)
  from Suc.IH [OF this(3,4)] \<open>p c\<close> show ?case unfolding s by (auto intro: rx_in.intros simp del: append_Cons append_Nil)
qed

lemma valid_date_bounds:
  "valid_date d \<Longrightarrow> year d < 10 ^ Suc 3 \<and> month d < 10 ^ Suc 1 \<and> day d < 10 ^ Suc 1"
  by (auto simp: valid_date_def days_in_month_def split: if_splits)

lemma date_fromiso_isoformat:
  assumes "valid_date d"
  shows "date_fromiso (isoformat d) = Some d"
proof -
  let ?y = "zpad 4 (nat_str (year d))" and ?m = "zpad 2 (nat_str (month d))" and ?d = "zpad 2 (nat_str (day d))"
  have "length (nat_str (year d)) \<le> 4" "length (nat_str (month d)) \<le> 2" "length (nat_str (day d)) \<le> 2"
    using valid_date_bounds [OF assms] nat_str_length [of "year d" 3] nat_str_length [of "month d" 1]
      nat_str_length [of "day d" 1]
    by (simp_all add: numeral_2_eq_2)
  then have lengths: "length ?y = 4" "length ?m = 2" "length ?d = 2" by (simp_all only: zpad_length)
  have iso: "isoformat d = ?y @ ''-'' @ ?m @ ''-'' @ ?d" by (simp add: isoformat_def)
  have "rx_in ?y (rx_times 4 (RChr is_digit))" "rx_in ?m (rx_times 2 (RChr is_digit))"
    "rx_in ?d (rx_times 2 (RChr is_digit))"
    using lengths by (auto intro!: rx_in_times_all simp: list_all_iff dest: zpad_digits)
  moreover have "rx_in ''-'' (rx_lit ''-'')" by (simp add: fullmatch_iff [symmetric])
  ultimately have "fullmatch iso_date_rx (isoformat d)"
    unfolding fullmatch_iff iso iso_date_rx_def by (intro rx_in.intros)
  moreover have "Date (digits_nat 0 (take 4 (isoformat d))) (digits_nat 0 (take 2 (drop 5 (isoformat d))))
      (digits_nat 0 (take 2 (drop 8 (isoformat d)))) = d"
    unfolding iso using lengths by (cases d) simp
  ultimately show ?thesis using assms by (simp add: date_fromiso_def)
qed

lemma strip_ends:
  assumes "strip s \<noteq> []"
  shows "\<not> is_space (hd (strip s)) \<and> \<not> is_space (last (strip s))"
proof -
  let ?l = "lstrip s"
  have "rev (takeWhile is_space (rev ?l) @ dropWhile is_space (rev ?l)) = ?l"
    by (simp only: takeWhile_dropWhile_id rev_rev_ident)
  then have parts: "?l = strip s @ rev (takeWhile is_space (rev ?l))"
    by (simp only: strip_def lstrip_def [of "rev (lstrip s)"] rev_append)
  then have "hd (strip s) = hd ?l" and "?l \<noteq> []" using assms by (metis hd_append2, auto)
  then have "\<not> is_space (hd (strip s))" using hd_dropWhile [of is_space s] by (simp add: lstrip_def)
  moreover have "\<not> is_space (last (strip s))"
    using assms hd_dropWhile [of is_space "rev ?l"]
    by (simp add: strip_def lstrip_def [of "rev (lstrip s)"] last_rev)
  ultimately show ?thesis by simp
qed

lemma lstrip_keep: "t = [] \<or> \<not> is_space (hd t) \<Longrightarrow> lstrip t = t"
  by (cases t) (auto simp: lstrip_def)

lemma strip_idempotent [simp]: "strip (strip s) = strip s"
  using strip_ends [of s] lstrip_keep [of "strip s"] lstrip_keep [of "rev (strip s)"]
  by (cases "strip s = []") (simp_all add: strip_def [of "strip s"] hd_rev strip_def [of "[]"])

lemma set_strip: "set (strip s) \<subseteq> set s"
  by (auto simp: strip_def lstrip_def dest!: set_dropWhileD)

lemma single_line_canonical: "single_line v = Some t \<Longrightarrow> single_line (YStr t) = Some t"
  using set_strip by (cases v) (auto split: if_splits)

lemma iso_date_canonical:
  assumes "iso_date (plain_iso v) = Some t"
  shows "iso_date (YStr t) = Some t"
proof -
  have valid: "date_fromiso s = Some d \<Longrightarrow> valid_date d" for s d
    by (simp add: date_fromiso_def Let_def split: if_splits)
  from assms obtain s d where "date_fromiso s = Some d" "t = isoformat d" by (cases v) auto
  with valid show ?thesis by (simp add: date_fromiso_isoformat)
qed

subsection \<open>Writing obligations\<close>

lemma yget_plain [simp]:
  "yget (map (\<lambda>(k, v). (k, plain_iso v)) m) k = plain_iso (yget m k)"
  by (simp add: yget_def map_of_map split: option.split)

lemma parse_obligation_wf:
  assumes "parse_obligation (plain_iso v) = Some ob"
  shows "wf_obligation ob"
proof -
  from assms obtain m where v: "v = YMap m" by (cases v) auto
  from assms obtain t d where "single_line (plain_iso (yget m ''text'')) = Some t"
      "iso_date (plain_iso (yget m ''recorded'')) = Some d" "ob_text ob = t" "ob_recorded ob = d"
      "ob_origin ob \<in> set ORIGINS"
    by (auto simp: v split: if_splits option.splits yval.splits simp del: iso_date.simps single_line.simps plain_iso.simps(1))
  then show ?thesis
    by (auto simp: wf_obligation_def single_line_canonical iso_date_canonical
        simp del: iso_date.simps single_line.simps)
qed

lemma parse_obligations_wf: "list_all wf_obligation (fst (parse_obligations (plain_iso v)))"
  by (cases v) (auto simp: list_all_iff List.map_filter_def dest: parse_obligation_wf)

lemma splitlines_from_no_break:
  "\<forall>c \<in> set acc. \<not> is_line_break c \<Longrightarrow> w \<in> set (splitlines_from acc s) \<Longrightarrow> c \<in> set w \<Longrightarrow> \<not> is_line_break c"
  by (induction acc s rule: splitlines_from.induct) (auto split: if_splits)

lemma unchecked_line_single:
  assumes "t \<in> set (unchecked_lines cov)"
  shows "single_line (YStr t) = Some t"
proof -
  from assms obtain w where w: "w \<in> set (splitlines cov)" "unchecked_text w = Some t" "t \<noteq> []"
    by (auto simp: unchecked_lines_def List.map_filter_def split: option.splits if_splits)
  then have t: "t = strip (drop 5 (lstrip w))"
    by (auto simp: unchecked_text_def Let_def split: list.splits if_splits)
  have "set t \<subseteq> set w"
    using set_strip [of "drop 5 (lstrip w)"] set_drop_subset [of 5 "lstrip w"]
    by (auto simp: t lstrip_def dest: set_dropWhileD)
  moreover have "\<not> is_line_break c" if "c \<in> set w" for c
    using w(1) that splitlines_from_no_break [of "[]"] by (auto simp: splitlines_def)
  moreover have "is_line_break (CHR 0x0A)" "is_line_break (CHR 0x0D)" by (simp_all add: is_line_break_def)
  ultimately have "CHR 0x0A \<notin> set t" "CHR 0x0D \<notin> set t" by blast+
  moreover have "strip t = t" by (simp add: t)
  ultimately show ?thesis using w(3) by simp
qed

lemma derive_wf:
  assumes "list_all wf_obligation existing" and "valid_date on"
  shows "list_all wf_obligation (derive existing cov on)"
proof -
  have "wf_obligation (coverage_entry (prior existing) (isoformat on) t)"
    if "t \<in> set (unchecked_lines c)" for t c
    using assms unchecked_line_single [OF that]
    by (auto simp: coverage_entry_def wf_obligation_def ORIGINS_def list_all_iff date_fromiso_isoformat
        split: option.split dest: prior_text simp del: single_line.simps)
  then show ?thesis using assms(1) by (auto simp: derive_eq list_all_iff split: option.splits)
qed

lemma stored_obligation_wf:
  assumes "wf_obligation ob"
  shows "\<exists>v. stored_obligation ob = Inr v \<and> plain_iso v = YMap (obligation_to_data ob)"
proof -
  from assms obtain d where "date_fromiso (ob_recorded ob) = Some d" "isoformat d = ob_recorded ob"
    by (auto simp: wf_obligation_def)
  then show ?thesis by (simp add: stored_obligation_def obligation_to_data_def)
qed

lemma stored_obligations_wf:
  "list_all wf_obligation obs \<Longrightarrow>
     \<exists>es. map_res stored_obligation obs = Inr es \<and> map plain_iso es = map (YMap \<circ> obligation_to_data) obs"
proof (induction obs)
  case (Cons ob obs)
  then obtain v es where "stored_obligation ob = Inr v" "plain_iso v = YMap (obligation_to_data ob)"
    "map_res stored_obligation obs = Inr es" "map plain_iso es = map (YMap \<circ> obligation_to_data) obs"
    using stored_obligation_wf by (metis list.pred_inject(2))
  then show ?case by simp
qed simp

lemma fm_data_put: "yget (fm_data (doc_put d k v)) k' = (if k' = k then plain_iso v else yget (fm_data d) k')"
  by (simp add: yget_def map_of_fm_data doc.get_put split: option.split)

lemma fm_data_del: "yget (fm_data (doc_del d k)) k' = (if k' = k then YNull else yget (fm_data d) k')"
  by (simp add: yget_def map_of_fm_data doc.get_del split: option.split)

lemma apply_obligations_wf:
  assumes "doc_parse_error doc = None" and "op_refusal p = None" and "list_all wf_obligation (op_after p)"
  shows "\<exists>doc'. apply_obligations doc p = Inr doc' \<and>
    parse_obligations (yget (fm_data doc') OBLIGATIONS_KEY) = (op_after p, False) \<and>
    (\<forall>k. k \<noteq> OBLIGATIONS_KEY \<longrightarrow> yget (fm_data doc') k = yget (fm_data doc) k)"
proof (cases "op_after p")
  case Nil
  have "apply_obligations doc p = Inr (doc_del doc OBLIGATIONS_KEY)"
    using Nil assms(2) delete_key_mutable [OF assms(1)]
    by (simp add: apply_obligations_def doc_del_def del: has_key_iff)
  then show ?thesis by (simp add: fm_data_del Nil)
next
  case (Cons ob obs)
  obtain es where es: "map_res stored_obligation (op_after p) = Inr es"
    "map plain_iso es = map (YMap \<circ> obligation_to_data) (op_after p)"
    using stored_obligations_wf [OF assms(3)] by blast
  have "apply_obligations doc p = Inr (doc_put doc OBLIGATIONS_KEY (YList es))"
    using Cons es(1) assms(2) set_key_mutable [OF assms(1)] by (simp add: apply_obligations_def)
  moreover have "parse_obligations (plain_iso (YList es)) = (op_after p, False)"
    using parse_obligations_roundtrip [OF assms(3)] es(2) by (simp add: comp_def)
  ultimately show ?thesis by (simp add: fm_data_put)
qed

lemma project_obligations:
  "wi_finish_obligations (project_item l d t s) = fst (parse_obligations (yget d ''finish_obligations''))"
  by (simp add: project_item_def split_beta Let_def)

lemma projected_obligations_wf:
  "list_all wf_obligation (wi_finish_obligations (project_item l (fm_data doc) t s))"
  unfolding project_obligations fm_data_def yget_plain by (rule parse_obligations_wf)

lemma plan_add_wf:
  assumes "list_all wf_obligation (wi_finish_obligations item)" and "valid_date on"
    and "find (\<lambda>i. wi_path i = path) items = Some item" and "op_refusal (plan_add items path text on) = None"
  shows "list_all wf_obligation (op_after (plan_add items path text on))"
  using assms
  by (auto simp: plan_add_def Let_def wf_obligation_def ORIGINS_def date_fromiso_isoformat single_line_canonical
      simp del: single_line.simps split: option.splits if_splits)

subsection \<open>Writing a baseline\<close>

lemma set_keys_fold:
  "doc_parse_error doc = None \<Longrightarrow> set_keys doc kvs = Inr (fold (\<lambda>(k, v) d. doc_put d k v) kvs doc)"
  by (induction kvs arbitrary: doc) (auto simp: set_key_mutable)

lemma plan_baseline_cases:
  assumes "find (\<lambda>i. wi_path i = path) items = Some item"
    and "bp_refusal (plan_baseline items path head desc today) = None"
  obtains (fresh) "wi_start_sha item = None" "is_commit_oid (YStr head)"
      "baseline_refusal_of item path head = None"
      "bp_after (plan_baseline items path head desc today) = Some head"
      "bp_changes (plan_baseline items path head desc today) =
         (''start_sha'', YStr head)
           # (if wi_updated item \<noteq> isoformat today then [(''updated'', YDate today)] else [])"
  | (kept) before where "wi_start_sha item = Some before" "before = head \<or> desc"
      "baseline_refusal_of item path head = None"
      "bp_after (plan_baseline items path head desc today) = Some before"
      "bp_changes (plan_baseline items path head desc today) = []"
proof (cases "baseline_refusal_of item path head")
  case (Some a)
  with assms show ?thesis by (simp add: plan_baseline_def baseline_refused_def split_beta)
next
  case None
  show ?thesis
  proof (cases "wi_start_sha item")
    case no_sha: None
    from None have "is_commit_oid (YStr head)"
      by (simp add: baseline_refusal_of_def split: option.splits if_splits)
    with no_sha None assms show ?thesis by (intro fresh) (simp_all add: plan_baseline_def)
  next
    case (Some before)
    with None assms have "before = head \<or> desc"
      by (auto simp: plan_baseline_def baseline_refused_def split: if_splits)
    with Some None assms show ?thesis by (intro kept) (auto simp: plan_baseline_def)
  qed
qed

lemma baseline_accepts:
  assumes "baseline_refusal_of item path head = None"
  shows "wi_phase item = Some (stage_str Execute) \<and> wi_work_status item \<notin> set TERMINAL_STATUSES \<and>
    wi_type item \<in> set TYPES \<and> ''start_sha'' \<notin> set (wi_invalid_optional_fields item)"
proof -
  from assms have problem: "item_problem item = None"
    by (simp add: baseline_refusal_of_def split: option.splits)
  then have "vocabulary_problem item [(''type'', Some (wi_type item), TYPES),
      (''work_status'', Some (wi_work_status item), WORK_STATUSES), (''phase'', wi_phase item, PHASES),
      (''effort'', wi_effort item, EFFORTS)] = None"
    by (simp add: item_problem_def Let_def split: if_splits)
  then have "wi_type item \<in> set TYPES" by (auto simp: vocabulary_problem_def split: if_splits)
  with assms problem show ?thesis by (auto simp: baseline_refusal_of_def split: if_splits)
qed

subsection \<open>Writing an execute return\<close>

definition wf_return :: "execute_return \<Rightarrow> bool" where
  "wf_return r \<longleftrightarrow>
     fullmatch return_id_rx (ret_id r) \<and> ret_state r \<in> {''active'', ''completed''} \<and>
     starts_with (ret_coverage r) ''/'' \<and> plan_pair_ok (opt_text (ret_plan r)) (opt_text (ret_plan_sha256 r)) \<and>
     ret_scope r \<noteq> [] \<and> iso_date (YStr (ret_recorded r)) = Some (ret_recorded r) \<and>
     map row_id (ret_scope r) = map (\<lambda>i. ''R'' @ nat_str i) [1..<Suc (length (ret_scope r))] \<and>
     list_all (\<lambda>entry. single_line (YStr (row_text entry)) = Some (row_text entry)) (ret_scope r)"

definition scope_data :: "scope_row \<Rightarrow> yval" where
  "scope_data entry = YMap [(''id'', YStr (row_id entry)), (''text'', YStr (row_text entry))]"

lemma parse_scope_rows_data:
  assumes "map row_id rows = map (\<lambda>i. ''R'' @ nat_str i) [k..<k + length rows]"
    and "list_all (\<lambda>entry. single_line (YStr (row_text entry)) = Some (row_text entry)) rows"
  shows "parse_scope_rows k (map scope_data rows) = Some rows"
  using assms
proof (induction rows arbitrary: k)
  case (Cons entry rows)
  from Cons.prems have "row_id entry = ''R'' @ nat_str k" "map row_id rows = map (\<lambda>i. ''R'' @ nat_str i) [Suc k..<Suc k + length rows]"
    by (simp_all add: upt_rec [of k] del: upt_Suc)
  with Cons show ?case
    by (cases entry) (auto simp: scope_data_def yget_def simp del: single_line.simps)
qed simp

lemma yget_opt_text: "text_opt (opt_text o') = o'"
  by (cases o') auto

lemma return_roundtrip:
  assumes "wf_return r" and "iso_date rec = Some (ret_recorded r)"
  shows "parse_execute_return (YMap (map (\<lambda>(k, v). (k, if k = ''recorded'' then rec else v)) (return_to_data r))) =
    (Some r, False)"
proof -
  let ?m = "map (\<lambda>(k, v). (k, if k = ''recorded'' then rec else v)) (return_to_data r)"
  have pair: "(ret_plan r = None) = (ret_plan_sha256 r = None)"
    using assms(1) by (cases "ret_plan r"; cases "ret_plan_sha256 r") (auto simp: wf_return_def)
  have keys: "set RETURN_REQUIRED \<subseteq> set (map fst ?m)" "set (map fst ?m) \<subseteq> set RETURN_FIELDS"
    by (auto simp: return_to_data_def RETURN_REQUIRED_def RETURN_FIELDS_def)
  have fields: "yget ?m ''id'' = YStr (ret_id r)" "yget ?m ''state'' = YStr (ret_state r)"
    "yget ?m ''coverage'' = YStr (ret_coverage r)" "yget ?m ''recorded'' = rec"
    "yget ?m ''scope'' = YList (map scope_data (ret_scope r))"
    "yget ?m ''plan'' = opt_text (ret_plan r)" "yget ?m ''plan_sha256'' = opt_text (ret_plan_sha256 r)"
    using pair by (auto simp: yget_def return_to_data_def scope_data_def)
  have scope: "parse_scope_rows 1 (map scope_data (ret_scope r)) = Some (ret_scope r)"
    using assms(1) by (intro parse_scope_rows_data) (simp_all add: wf_return_def)
  have "parse_return_fields ?m = Some r"
    unfolding parse_return_fields_def fields
    using assms keys scope by (simp add: wf_return_def yget_opt_text)
  then show ?thesis by simp
qed

lemma clean_scope_single:
  "clean_scope cleaned vs = Inr out \<Longrightarrow> list_all (\<lambda>t. single_line (YStr t) = Some t) cleaned \<Longrightarrow>
     list_all (\<lambda>t. single_line (YStr t) = Some t) out \<and> (cleaned \<noteq> [] \<or> vs \<noteq> [] \<longrightarrow> out \<noteq> [])"
proof (induction cleaned vs rule: clean_scope.induct)
  case (2 cleaned v vs)
  then obtain t where t: "single_line (YStr v) = Some t"
    by (cases "single_line (YStr v)") (simp_all del: single_line.simps)
  have "clean_scope (if t \<in> set cleaned then cleaned else cleaned @ [t]) vs = Inr out"
    using "2.prems"(1) t by (simp del: single_line.simps)
  with "2.IH" [OF t] "2.prems"(2) single_line_canonical [OF t] show ?case
    by (auto simp del: single_line.simps split: if_splits)
qed simp

lemma accepted_scope:
  assumes "plan_refusal (plan_scope explicit obs malformed) = None" and "list_all wf_obligation obs"
  shows "plan_scope_rows (plan_scope explicit obs malformed) \<noteq> [] \<and>
    list_all (\<lambda>t. single_line (YStr t) = Some t) (plan_scope_rows (plan_scope explicit obs malformed))"
proof (cases "explicit = []")
  case True
  have "list_all (\<lambda>t. single_line (YStr t) = Some t)
      (first_seen (map ob_text (filter (\<lambda>e. ob_origin e = ''coverage'') obs)))"
    using assms(2) by (auto simp: list_all_iff wf_obligation_def simp del: single_line.simps)
  with True assms(1) show ?thesis by (auto simp: plan_scope_def Let_def simp del: single_line.simps split: if_splits)
next
  case False
  then obtain out where "clean_scope [] explicit = Inr out"
    using assms(1) by (auto simp: plan_scope_def Let_def split: sum.splits)
  with False clean_scope_single [of "[]" explicit out] show ?thesis
    by (auto simp: plan_scope_def Let_def simp del: single_line.simps)
qed

lemma new_record_wf:
  assumes "fullmatch return_id_rx rid" and "starts_with cov ''/''" and "valid_date on"
    and "plan_pair_ok (opt_text plan) (opt_text sha)" and "scope \<noteq> []"
    and "list_all (\<lambda>t. single_line (YStr t) = Some t) scope"
  shows "wf_return (new_record rid scope on cov plan sha)"
proof -
  have "map row_id (map (\<lambda>(i, text). \<lparr>row_id = ''R'' @ nat_str i, row_text = text\<rparr>) (enumerate n scope)) =
      map (\<lambda>i. ''R'' @ nat_str i) [n..<n + length scope]" for n
    by (induction scope arbitrary: n) (simp_all add: upt_conv_Cons del: upt_Suc)
  moreover have "list_all (\<lambda>entry. single_line (YStr (row_text entry)) = Some (row_text entry))
      (map (\<lambda>(i, text). \<lparr>row_id = ''R'' @ nat_str i, row_text = text\<rparr>) (enumerate n scope))" for n
    using assms(6) by (auto simp: list_all_iff in_set_enumerate_eq simp del: single_line.simps)
  ultimately have rows: "map row_id (ret_scope (new_record rid scope on cov plan sha)) =
      map (\<lambda>i. ''R'' @ nat_str i) [1..<1 + length scope]"
    "list_all (\<lambda>entry. single_line (YStr (row_text entry)) = Some (row_text entry))
      (ret_scope (new_record rid scope on cov plan sha))"
    by (simp_all only: new_record_def execute_return.select_convs)
  have size: "length (ret_scope (new_record rid scope on cov plan sha)) = length scope"
    by (simp add: new_record_def)
  with assms(5) have "ret_scope (new_record rid scope on cov plan sha) \<noteq> []" by auto
  with rows size assms(1-4) show ?thesis
    by (simp add: wf_return_def date_fromiso_isoformat new_record_def del: single_line.simps upt_Suc)
qed

lemma apply_execute_return_wf:
  assumes "doc_parse_error doc = None" and "wf_return r"
  shows "\<exists>doc'. apply_execute_return doc r = Inr doc' \<and>
    parse_execute_return (yget (fm_data doc') RETURN_KEY) = (Some r, False)"
proof -
  obtain d where d: "date_fromiso (ret_recorded r) = Some d" "isoformat d = ret_recorded r"
    using assms(2) by (auto simp: wf_return_def)
  let ?v = "YMap (map (\<lambda>(k, v). (k, if k = ''recorded'' then YDate d else v)) (return_to_data r))"
  have "plain_iso ?v = YMap (map (\<lambda>(k, v). (k, if k = ''recorded'' then YStr (ret_recorded r) else v)) (return_to_data r))"
    using d(2) by (cases "ret_plan r"; cases "ret_plan_sha256 r") (auto simp: return_to_data_def)
  moreover have "apply_execute_return doc r = Inr (doc_put doc RETURN_KEY ?v)"
    using d(1) set_key_mutable [OF assms(1)] by (simp add: apply_execute_return_def)
  moreover have "iso_date (YStr (ret_recorded r)) = Some (ret_recorded r)"
    using assms(2) by (simp add: wf_return_def)
  ultimately show ?thesis
    using return_roundtrip [OF assms(2)] by (simp add: fm_data_put del: plain_iso.simps)
qed

subsection \<open>Properties\<close>

text \<open>An accepted obligation plan can be written, and the page it leaves projects to exactly the
  planned obligations; no other field of the page has changed.\<close>

theorem obligation_plan_written:
  assumes "doc_parse_error doc = None" and "item = project_item loc (fm_data doc) tags srcs"
    and "valid_date on" and "op_refusal p = None"
    and "p = plan_derive item cov on \<or>
         find (\<lambda>i. wi_path i = path) items = Some item \<and> p = plan_add items path txt on"
  shows "\<exists>doc'. apply_obligations doc p = Inr doc' \<and>
    wi_finish_obligations (project_item loc (fm_data doc') tags srcs) = op_after p \<and>
    (\<forall>k. k \<noteq> OBLIGATIONS_KEY \<longrightarrow> yget (fm_data doc') k = yget (fm_data doc) k)"
proof -
  have wf: "list_all wf_obligation (wi_finish_obligations item)"
    unfolding assms(2) by (rule projected_obligations_wf)
  have "list_all wf_obligation (op_after p)"
    using assms(5,4) derive_wf [OF wf assms(3)] plan_add_wf [OF wf assms(3)]
    by (auto simp: plan_derive_def Let_def)
  from apply_obligations_wf [OF assms(1,4) this] show ?thesis
    by (auto simp: project_obligations OBLIGATIONS_KEY_def)
qed

text \<open>An accepted baseline plan is for an item at execute that is not terminal; written, the page
  projects to the planned start. A recorded start is kept and the page untouched; only an absent
  one is filled, with the observed head, a full commit id, and today as the update date.\<close>

theorem baseline_written:
  assumes "doc_parse_error doc = None" and "item = project_item loc (fm_data doc) tags srcs"
    and "find (\<lambda>i. wi_path i = path) items = Some item"
    and "p = plan_baseline items path head desc today" and "bp_refusal p = None"
  shows "wi_phase item = Some (stage_str Execute) \<and> wi_work_status item \<notin> set TERMINAL_STATUSES \<and>
    (\<exists>doc'. apply_baseline doc p = Inr doc' \<and>
       (let item' = project_item loc (fm_data doc') tags srcs in
          wi_start_sha item' = bp_after p \<and>
          (case wi_start_sha item of
             Some before \<Rightarrow> doc' = doc \<and> bp_after p = Some before \<and> (before = head \<or> desc)
           | None \<Rightarrow> bp_after p = Some head \<and> is_commit_oid (YStr head) \<and> wi_updated item' = isoformat today)))"
proof (cases rule: plan_baseline_cases [OF assms(3), of head desc today, unfolded assms(4) [symmetric], OF assms(5)])
  case 1
  let ?doc' = "fold (\<lambda>(k, v) d. doc_put d k v) (bp_changes p) doc"
  have "apply_baseline doc p = Inr ?doc'"
    using assms(1,5) by (simp add: apply_baseline_def set_keys_fold)
  moreover have "wi_start_sha (project_item loc (fm_data ?doc') tags srcs) = Some head"
    using 1 by (simp add: project_fields fm_data_put)
  moreover have "wi_updated (project_item loc (fm_data ?doc') tags srcs) = isoformat today"
    using 1 by (auto simp: project_more fm_data_put assms(2))
  ultimately show ?thesis using 1 baseline_accepts [OF 1(3)] by (auto simp: Let_def)
next
  case (2 before)
  have "apply_baseline doc p = Inr doc" using 2 assms(5) by (simp add: apply_baseline_def)
  with 2 baseline_accepts [OF 2(3)] assms(2) show ?thesis by auto
qed

text \<open>C35. A return whose scope plan was accepted is stored and reads back: the page written with
  the new record projects to exactly that record, and is not called malformed.\<close>

theorem return_record_written:
  assumes "doc_parse_error doc = None" and "item = project_item loc (fm_data doc) tags srcs"
    and "plan_refusal (plan_scope explicit (wi_finish_obligations item) malformed) = None"
    and "r = new_record rid (plan_scope_rows (plan_scope explicit (wi_finish_obligations item) malformed)) on cov plan sha"
    and "fullmatch return_id_rx rid" and "starts_with cov ''/''" and "valid_date on"
    and "plan_pair_ok (opt_text plan) (opt_text sha)"
  shows "\<exists>doc'. apply_execute_return doc r = Inr doc' \<and>
    parse_execute_return (yget (fm_data doc') RETURN_KEY) = (Some r, False) \<and>
    wi_execute_return (project_item loc (fm_data doc') tags srcs) = Some r"
proof -
  have "list_all wf_obligation (wi_finish_obligations item)"
    unfolding assms(2) by (rule projected_obligations_wf)
  from accepted_scope [OF assms(3) this] have "wf_return r"
    unfolding assms(4) using assms(5-8) by (intro new_record_wf) simp_all
  from apply_execute_return_wf [OF assms(1) this] show ?thesis
    by (auto simp: project_item_def split_beta Let_def)
qed

subsection \<open>The properties at a concrete item\<close>

abbreviation bug_location :: item_location where
  "bug_location \<equiv> the (parse_item_path ''work/b'')"

lemma bug_parses: "doc_parse_error bug_document = None"
  by (simp add: bug_document_def sample_document_def)

definition bug_addition :: obligation_plan where
  "bug_addition = plan_add [bug_item] ''work/b'' '' x '' (Date 26 3 4)"

theorem obligation_plan_written_witness:
  "\<exists>doc'. apply_obligations bug_document bug_addition = Inr doc' \<and>
     map ob_text (wi_finish_obligations (project_item bug_location (fm_data doc') [] [])) = [''x'']"
proof -
  have "find (\<lambda>i. wi_path i = ''work/b'') [bug_item] = Some bug_item" "valid_date (Date 26 3 4)" by code_simp+
  moreover have "op_refusal bug_addition = None" "map ob_text (op_after bug_addition) = [''x'']" by code_simp+
  ultimately show ?thesis
    using obligation_plan_written [OF bug_parses bug_item_def, of "Date 26 3 4" bug_addition None "''work/b''"
        "[bug_item]" "'' x ''"]
    by (auto simp: bug_addition_def)
qed

definition bug_head :: string where "bug_head = replicate 40 (CHR ''a'')"

definition bug_baseline :: baseline_plan where
  "bug_baseline = plan_baseline [bug_item] ''work/b'' bug_head False (Date 26 3 4)"

theorem baseline_written_witness:
  "\<exists>doc'. apply_baseline bug_document bug_baseline = Inr doc' \<and>
     wi_start_sha (project_item bug_location (fm_data doc') [] []) = Some bug_head"
proof -
  have found: "find (\<lambda>i. wi_path i = ''work/b'') [bug_item] = Some bug_item" by code_simp
  have plan: "bp_refusal bug_baseline = None" "bp_after bug_baseline = Some bug_head" by code_simp+
  from baseline_written [OF bug_parses bug_item_def found bug_baseline_def plan(1)] plan(2)
  show ?thesis by (auto simp: Let_def)
qed

definition bug_return :: execute_return where
  "bug_return = new_record ''ret-20260101-0000000a'' (plan_scope_rows (plan_scope ['' redo ''] [] False))
     (Date 26 3 4) ''/c'' None None"

theorem return_record_written_witness:
  "\<exists>doc'. apply_execute_return bug_document bug_return = Inr doc' \<and>
     wi_execute_return (project_item bug_location (fm_data doc') [] []) = Some bug_return"
proof -
  have none: "wi_finish_obligations bug_item = []" by code_simp
  have accepted: "plan_refusal (plan_scope ['' redo ''] (wi_finish_obligations bug_item) False) = None"
    unfolding none by code_simp
  have r: "bug_return = new_record ''ret-20260101-0000000a''
      (plan_scope_rows (plan_scope ['' redo ''] (wi_finish_obligations bug_item) False))
      (Date 26 3 4) ''/c'' None None"
    unfolding none by (rule bug_return_def)
  have "fullmatch return_id_rx ''ret-20260101-0000000a''" "starts_with ''/c'' ''/''" "valid_date (Date 26 3 4)"
    "plan_pair_ok (opt_text None) (opt_text None)" by code_simp+
  from return_record_written [OF bug_parses bug_item_def accepted r this] show ?thesis by blast
qed

end
