(* ===== verification/Moves.thy ===== *)
theory Moves
  imports Hierarchy "HOL-Library.AList"
begin

text \<open>
  Moving work items: the path mappings and domain refusals of archiving, reparenting and
  release adoption (\<open>archive.py\<close>, \<open>reparent.py\<close>), and the pure part of the path
  mutation they are handed to (\<open>mutation.py\<close>): which bundle members move where, rebased
  source pointers, collisions. What is on disk is the parameter \<open>exists_on_disk\<close>; a bundle
  is its sorted member list. Reading, hashing and writing files is not modelled.
\<close>

record mutation_refusal =
  mr_path :: string
  mr_kind :: string
  mr_detail :: string

definition refusal :: "string \<Rightarrow> string \<Rightarrow> string \<Rightarrow> mutation_refusal" where
  "refusal path kind detail = \<lparr>mr_path = path, mr_kind = kind, mr_detail = detail\<rparr>"

text \<open>What a planner hands to \<open>_plan_path_mutation\<close>; a mapping is a dict.\<close>

type_synonym path_mapping = "(string \<times> string) list"

record move_request =
  mv_operation :: string
  mv_mapping :: path_mapping
  mv_roots :: "string list"
  mv_refusals :: "mutation_refusal list"

definition dict_update :: "path_mapping \<Rightarrow> path_mapping \<Rightarrow> path_mapping" where
  "dict_update m new = fold (\<lambda>(k, v) m. AList.update k v m) new m"

lemma set_update_subset: "set (AList.update k v m) \<subseteq> insert (k, v) (set m)"
  by (induction m) auto

lemma set_dict_update: "set (dict_update m new) \<subseteq> set m \<union> set new"
proof (induction new arbitrary: m)
  case Nil
  then show ?case by (simp add: dict_update_def)
next
  case (Cons kv new)
  obtain k v where kv: "kv = (k, v)" by (cases kv)
  have "set (dict_update m (kv # new)) \<subseteq> set (AList.update k v m) \<union> set new"
    using Cons [of "AList.update k v m"] by (simp add: dict_update_def kv)
  with set_update_subset [of k v m] show ?case by (auto simp: kv)
qed

lemma set_fold_dict_update:
  "set (fold (\<lambda>p m. dict_update m (snd p)) plans m) \<subseteq> set m \<union> (\<Union>p \<in> set plans. set (snd p))"
proof (induction plans arbitrary: m)
  case (Cons p plans)
  have "set (fold (\<lambda>p m. dict_update m (snd p)) (p # plans) m) \<subseteq>
      set (dict_update m (snd p)) \<union> (\<Union>p \<in> set plans. set (snd p))"
    using Cons [of "dict_update m (snd p)"] by simp
  with set_dict_update [of m "snd p"] show ?case by auto
qed simp

definition subtree_items :: "work_snapshot \<Rightarrow> string list \<Rightarrow> work_item list" where
  "subtree_items s roots = sort_key wi_path (visit (by_path s) (\<lambda>_. True) wi_child_paths [] roots)"

subsection \<open>Archiving\<close>

definition archive_destination :: "string \<Rightarrow> string" where
  "archive_destination path = ''work/_archive/'' @ last (split_on (CHR ''/'') path)"

definition default_targets :: "work_snapshot \<Rightarrow> string list" where
  "default_targets s = sort (map wi_path (filter (sweep_eligible s) (snap_items s)))"

definition child_destination :: "string \<Rightarrow> work_item \<Rightarrow> string" where
  "child_destination mapped child = mapped @ ''/children/'' @ wi_basename child"

lemma unmapped_decreases:
  "p \<notin> fst ` set m \<Longrightarrow> map_of index p = Some v \<Longrightarrow>
     card (fst ` set index - insert p (fst ` set m)) < card (fst ` set index - fst ` set m)"
  using unseen_decreases [of p "map fst m" index v] by simp

function (sequential) archive_mapping_loop ::
  "(string \<times> work_item) list \<Rightarrow> path_mapping \<Rightarrow> path_mapping \<Rightarrow> path_mapping" where
  "archive_mapping_loop index mapping [] = mapping"
| "archive_mapping_loop index mapping ((path, mapped) # pending) =
     (if path \<in> set (map fst mapping) then archive_mapping_loop index mapping pending
      else (case map_of index path of
              None \<Rightarrow> archive_mapping_loop index mapping pending
            | Some item \<Rightarrow>
                archive_mapping_loop index (AList.update path mapped mapping)
                  (List.map_filter
                     (\<lambda>c. map_option (\<lambda>child. (c, child_destination mapped child)) (map_of index c))
                     (wi_child_paths item) @ pending)))"
  by pat_completeness auto
termination
  by (relation "inv_image (less_than <*lex*> less_than)
        (\<lambda>(index, mapping, pending). (card (fst ` set index - set (map fst mapping)), length pending))")
    (auto simp: dom_update dest: unmapped_decreases)

definition archive_subtree_mapping :: "work_snapshot \<Rightarrow> string \<Rightarrow> string \<Rightarrow> path_mapping" where
  "archive_subtree_mapping s target_path destination =
     archive_mapping_loop (by_path s) [] [(target_path, destination)]"

definition open_subtree_refusals :: "work_snapshot \<Rightarrow> string \<Rightarrow> mutation_refusal list" where
  "open_subtree_refusals s path =
     List.map_filter
       (\<lambda>i. if wi_path i \<noteq> path \<and> \<not> terminal_item i
            then Some (refusal (wi_path i) ''nonterminal-descendant''
                   (''descendant work_status '' @ repr (wi_work_status i) @ '' is not terminal''))
            else None)
       (subtree_items s [path])"

fun archive_paths ::
  "work_snapshot \<Rightarrow> string list \<Rightarrow> mutation_refusal list \<Rightarrow> path_mapping \<Rightarrow> string list
     \<Rightarrow> mutation_refusal list \<times> path_mapping \<times> string list" where
  "archive_paths s [] refusals mapping roots = (refusals, mapping, roots)"
| "archive_paths s (path # paths) refusals mapping roots =
     (case item_at s path of
        None \<Rightarrow>
          archive_paths s paths
            (refusals @ [refusal path ''unknown-source'' ''no work item exists at this path'']) mapping roots
      | Some target \<Rightarrow>
          if wi_archived target
          then archive_paths s paths
                 (refusals @ [refusal path ''already-archived'' ''the item is already in an archive lane''])
                 mapping roots
          else if wi_ancestor_paths target \<noteq> []
          then archive_paths s paths
                 (refusals @ [refusal path ''not-top-level''
                    (''only top-level items are archived; children move with their root -- archive ''
                       @ hd (wi_ancestor_paths target))])
                 mapping roots
          else archive_paths s paths
                 (refusals
                  @ (if terminal_item target then []
                     else [refusal path ''not-terminal''
                             (''work_status '' @ repr (wi_work_status target) @ '' is not terminal'')])
                  @ open_subtree_refusals s path)
                 (dict_update mapping (archive_subtree_mapping s path (archive_destination path)))
                 (roots @ [path]))"

definition plan_archive :: "work_snapshot \<Rightarrow> string list option \<Rightarrow> move_request" where
  "plan_archive s paths =
     (let selected = (case paths of None \<Rightarrow> default_targets s | Some ps \<Rightarrow> first_seen ps);
          planned = archive_paths s selected [] [] []
      in \<lparr>mv_operation = ''archive'', mv_mapping = fst (snd planned), mv_roots = snd (snd planned),
          mv_refusals = fst planned\<rparr>)"

subsection \<open>Reparenting\<close>

definition subtree_mapping :: "work_snapshot \<Rightarrow> string \<Rightarrow> string \<Rightarrow> path_mapping" where
  "subtree_mapping s source_path destination =
     map (\<lambda>i. (wi_path i, destination @ drop (length source_path) (wi_path i))) (subtree_items s [source_path])"

definition parent_refusals :: "work_item option \<Rightarrow> string \<Rightarrow> mutation_refusal list" where
  "parent_refusals parent parent_path =
     (case parent of
        None \<Rightarrow> [refusal parent_path ''unknown-parent'' ''no work item exists at the destination parent'']
      | Some p \<Rightarrow>
          (if wi_type p \<notin> set PARENT_TYPES
           then [refusal (wi_path p) ''invalid-parent-type''
                   (''type '' @ repr (wi_type p) @ '' cannot own a child lane'')] else [])
          @ (if wi_type p = ''Release'' \<and> wi_parent_path p \<noteq> None
             then [refusal (wi_path p) ''nested-release'' ''Release items remain root-only''] else [])
          @ (if wi_archived p \<or> terminal_item p
             then [refusal (wi_path p) ''inactive-parent'' ''the destination parent is inactive''] else []))"

definition beneath :: "string \<Rightarrow> string \<Rightarrow> bool" where
  "beneath path other \<longleftrightarrow> starts_with path (other @ ''/children/'')"

definition release_refusals :: "work_item list \<Rightarrow> mutation_refusal list" where
  "release_refusals subtree =
     map (\<lambda>i. refusal (wi_path i) ''nested-release'' ''Release items remain root-only'')
       (filter (\<lambda>i. wi_type i = ''Release'') subtree)"

definition source_plan ::
  "work_snapshot \<Rightarrow> work_item option \<Rightarrow> string \<Rightarrow> string \<Rightarrow> mutation_refusal list \<times> path_mapping" where
  "source_plan s source source_path parent_path =
     (case source of
        None \<Rightarrow> ([refusal source_path ''unknown-source'' ''no work item exists at the source path''], [])
      | Some src \<Rightarrow>
          ((if wi_archived src
            then [refusal (wi_path src) ''archived-source'' ''an archived item cannot be reparented''] else [])
           @ (if source_path = parent_path \<or> beneath parent_path source_path
              then [refusal parent_path ''descendant-destination''
                      ''a subtree cannot be placed beneath itself''] else [])
           @ release_refusals (subtree_items s [source_path]),
           subtree_mapping s source_path (child_lane parent_path @ ''/'' @ wi_basename src)))"

fun duplicate_refusals :: "string list \<Rightarrow> string list \<Rightarrow> mutation_refusal list" where
  "duplicate_refusals seen [] = []"
| "duplicate_refusals seen (p # ps) =
     (if p \<in> set seen then [refusal p ''duplicate-source'' ''the source path is given twice''] else [])
     @ duplicate_refusals (p # seen) ps"

definition overlap_refusals :: "string list \<Rightarrow> mutation_refusal list" where
  "overlap_refusals source_paths =
     (let seen = sort (remdups source_paths)
      in List.map_filter
           (\<lambda>p. map_option (\<lambda>a. refusal p ''overlapping-sources'' (''the source lies beneath '' @ repr a))
              (find (beneath p) seen))
           seen)"

definition plan_reparent_many :: "work_snapshot \<Rightarrow> string list \<Rightarrow> string \<Rightarrow> move_request" where
  "plan_reparent_many s source_paths parent_path =
     (let plans = map (\<lambda>p. source_plan s (item_at s p) p parent_path) source_paths;
          mapping = fold (\<lambda>p m. dict_update m (snd p)) plans []
      in \<lparr>mv_operation = ''reparent'', mv_mapping = mapping,
          mv_roots = (if mapping \<noteq> [] then source_paths else []),
          mv_refusals =
            parent_refusals (item_at s parent_path) parent_path
            @ (if source_paths = [] then [refusal [] ''empty-batch'' ''at least one source path is required'']
               else [])
            @ duplicate_refusals [] source_paths
            @ overlap_refusals source_paths
            @ concat (map fst plans)\<rparr>)"

definition plan_reparent :: "work_snapshot \<Rightarrow> string \<Rightarrow> string \<Rightarrow> move_request" where
  "plan_reparent s source_path parent_path = plan_reparent_many s [source_path] parent_path"

definition plan_release_adoption :: "work_snapshot \<Rightarrow> string \<Rightarrow> string \<Rightarrow> move_request" where
  "plan_release_adoption s source_path release_path =
     (let release_part =
            (case item_at s release_path of
               None \<Rightarrow> [refusal release_path ''unknown-release'' ''no work item exists at this path'']
             | Some r \<Rightarrow>
                 (if wi_type r \<noteq> ''Release''
                  then [refusal (wi_path r) ''not-a-release'' (''type is '' @ repr (wi_type r))] else [])
                 @ (if wi_parent_path r \<noteq> None
                    then [refusal (wi_path r) ''nested-release'' ''Release items remain root-only''] else [])
                 @ (if wi_archived r \<or> terminal_item r
                    then [refusal (wi_path r) ''inactive-parent'' ''the Release is inactive''] else []));
          source_part =
            (case item_at s source_path of
               None \<Rightarrow> ([refusal source_path ''unknown-source'' ''no work item exists at this path''], [])
             | Some src \<Rightarrow>
                 (release_refusals (subtree_items s [source_path])
                  @ (if wi_parent_path src \<noteq> None \<or> wi_archived src
                     then [refusal (wi_path src) ''not-a-root''
                             ''Release adoption accepts active root items only''] else [])
                  @ (if terminal_item src
                     then [refusal (wi_path src) ''inactive-source'' ''the source root is inactive''] else []),
                  dict_update [] (subtree_mapping s (wi_path src)
                    (child_lane release_path @ ''/'' @ wi_basename src))))
      in \<lparr>mv_operation = ''adopt'', mv_mapping = snd source_part,
          mv_roots = (if item_at s source_path = None then [] else [source_path]),
          mv_refusals = release_part @ fst source_part\<rparr>)"

subsection \<open>Members of a moved subtree\<close>

text \<open>The moved paths, deepest first: \<open>sorted(path_mapping, key=(count of "/", length), reverse=True)\<close>.\<close>

definition deepest_first :: "path_mapping \<Rightarrow> string list" where
  "deepest_first m =
     sort_key (\<lambda>p. (- int (length (filter (\<lambda>c. c = CHR ''/'') p)), - int (length p))) (map fst m)"

definition owns :: "string \<Rightarrow> string \<Rightarrow> bool" where
  "owns source member = (member = source \<or> starts_with member (source @ ''/''))"

definition prefix_rebase :: "string \<Rightarrow> path_mapping \<Rightarrow> string option" where
  "prefix_rebase pointer m =
     (if \<not> starts_with pointer ''/'' then None
      else let stripped = tl pointer
           in case find (\<lambda>source. owns source stripped) (deepest_first m) of
                None \<Rightarrow> None
              | Some source \<Rightarrow>
                  (case map_of m source of
                     None \<Rightarrow> None
                   | Some destination \<Rightarrow>
                       let rebased = ''/'' @ destination @ drop (length source) stripped
                       in if rebased = pointer then None else Some rebased))"

definition path_name :: "string \<Rightarrow> string" where
  "path_name member = last (split_on (CHR ''/'') member)"

definition path_parent :: "string \<Rightarrow> string" where
  "path_parent member = join ''/'' (butlast (split_on (CHR ''/'') member))"

fun contains_text :: "string \<Rightarrow> string \<Rightarrow> bool" where
  "contains_text p [] = (p = [])"
| "contains_text p (c # cs) = (starts_with (c # cs) p \<or> contains_text p cs)"

definition foreign_index :: "string \<Rightarrow> bool" where
  "foreign_index member \<longleftrightarrow>
     path_name member = ''index.md'' \<and> \<not> contains_text ''/references/'' member
     \<and> parse_item_path (path_parent member) = None"

definition member_destination :: "path_mapping \<Rightarrow> string \<Rightarrow> string option" where
  "member_destination m member =
     (case find (\<lambda>source. member = source @ ''.md'' \<or> starts_with member (source @ ''/'')) (deepest_first m) of
        None \<Rightarrow> None
      | Some source \<Rightarrow>
          map_option (\<lambda>destination. destination @ drop (length source) member) (map_of m source))"

definition member_mapping :: "string list \<Rightarrow> path_mapping \<Rightarrow> path_mapping" where
  "member_mapping members m =
     List.map_filter
       (\<lambda>member. if foreign_index member then None
                 else map_option (\<lambda>d. (member, d)) (member_destination m member)) members"

definition non_canonical_destination_refusals :: "path_mapping \<Rightarrow> mutation_refusal list" where
  "non_canonical_destination_refusals m =
     List.map_filter
       (\<lambda>(source, destination).
          if parse_item_path destination = None
          then Some (refusal source ''non-canonical-destination''
                 (repr destination @ '' is not a canonical work-item path'')) else None)
       (sort m)"

fun collisions ::
  "(string \<Rightarrow> bool) \<Rightarrow> string list \<Rightarrow> (string \<times> string) list \<Rightarrow> path_mapping \<Rightarrow> mutation_refusal list" where
  "collisions exists_on_disk sources destinations [] = []"
| "collisions exists_on_disk sources destinations ((source, destination) # rest) =
     (case map_of destinations destination of
        Some claimed \<Rightarrow>
          if claimed \<noteq> source
          then [refusal source ''dest-exists'' (repr destination @ '' is also claimed by '' @ repr claimed)] else []
      | None \<Rightarrow> [])
     @ (if destination \<notin> set sources \<and> exists_on_disk destination
        then [refusal source ''dest-exists'' (repr destination @ '' already exists'')] else [])
     @ collisions exists_on_disk sources (AList.update destination source destinations) rest"

definition collision_refusals :: "(string \<Rightarrow> bool) \<Rightarrow> path_mapping \<Rightarrow> mutation_refusal list" where
  "collision_refusals exists_on_disk m = collisions exists_on_disk (map fst m) [] (sort m)"

subsection \<open>Carried subtrees\<close>

text \<open>
  The abstract effect of a move: \<open>old\<close> lies in the subtree of \<open>source\<close>, some
  \<open>children\<close> steps below it, and \<open>new\<close> the same steps below the destination.
\<close>

definition carried :: "string \<Rightarrow> string \<Rightarrow> string \<Rightarrow> string \<Rightarrow> bool" where
  "carried source dest old new \<longleftrightarrow>
     (\<exists>bs. list_all is_basename bs \<and> old = foldl child_of source bs \<and> new = foldl child_of dest bs)"

lemma carried_root [simp]: "carried source dest source dest"
  unfolding carried_def by (rule exI [of _ "[]"]) simp

lemma carried_child: "carried source dest p p' \<Longrightarrow> is_basename b \<Longrightarrow> carried source dest (child_of p b) (child_of p' b)"
  unfolding carried_def by (elim exE, rule_tac x = "bs @ [b]" in exI) simp

lemma foldl_child_of: "foldl child_of p bs = p @ concat (map (\<lambda>b. ''/children/'' @ b) bs)"
  by (induction bs arbitrary: p) (simp_all add: child_of_def child_lane_def)

lemma carried_drop: "carried source dest old new \<Longrightarrow> new = dest @ drop (length source) old"
  by (auto simp: carried_def foldl_child_of)

lemma carried_prefix: "carried source dest old new \<Longrightarrow> old = source \<or> beneath old source"
proof -
  assume "carried source dest old new"
  then obtain bs where bs: "old = foldl child_of source bs" by (auto simp: carried_def)
  show ?thesis
  proof (cases bs)
    case Nil
    with bs show ?thesis by simp
  next
    case (Cons b cs)
    have "starts_with old (source @ ''/children/'')"
      unfolding bs foldl_child_of starts_with_iff
      by (rule exI [of _ "b @ concat (map (\<lambda>b. ''/children/'' @ b) cs)"])
        (simp only: Cons list.map concat.simps append_assoc)
    then show ?thesis by (simp add: beneath_def)
  qed
qed

lemma beneath_trans: "beneath p q \<Longrightarrow> q = r \<or> beneath q r \<Longrightarrow> beneath p r"
  by (auto simp: beneath_def starts_with_iff)

lemma carried_inject: "carried source dest old new \<Longrightarrow> carried source dest old' new \<Longrightarrow> old = old'"
  by (auto simp: carried_def foldl_child_of)

lemma parse_child_of:
  assumes "parse_item_path p = Some l" and "is_basename b"
  obtains l' where "parse_item_path (child_of p b) = Some l'" "loc_archived l' = loc_archived l"
    "loc_ancestor_paths l' = loc_ancestor_paths l @ [p]" "loc_basename l' = b" "loc_parent_path l' = Some p"
  using parse_child [OF assms] by (simp add: child_of_def)

text \<open>A subtree carried below a canonical item keeps its shape there.\<close>

lemma carried_parses:
  assumes "parse_item_path parent = Some lp" and "is_basename b" and "carried source (child_of parent b) old new"
  shows "\<exists>l. parse_item_path new = Some l \<and> loc_archived l = loc_archived lp \<and>
    parent \<in> set (loc_ancestor_paths l)"
proof -
  from assms(3) obtain bs where bs: "list_all is_basename bs" "new = foldl child_of (child_of parent b) bs"
    by (auto simp: carried_def)
  from bs(1) have "\<exists>l. parse_item_path (foldl child_of (child_of parent b) bs) = Some l \<and>
      loc_archived l = loc_archived lp \<and> parent \<in> set (loc_ancestor_paths l)"
  proof (induction bs rule: rev_induct)
    case Nil
    from parse_child_of [OF assms(1,2)] obtain l' where "parse_item_path (child_of parent b) = Some l'"
      "loc_archived l' = loc_archived lp" "loc_ancestor_paths l' = loc_ancestor_paths lp @ [parent]" by metis
    then show ?case by auto
  next
    case (snoc c bs)
    then obtain l where l: "parse_item_path (foldl child_of (child_of parent b) bs) = Some l"
      "loc_archived l = loc_archived lp" "parent \<in> set (loc_ancestor_paths l)" by auto
    from snoc.prems have "is_basename c" by simp
    from parse_child_of [OF l(1) this] obtain l' where
      "parse_item_path (child_of (foldl child_of (child_of parent b) bs) c) = Some l'"
      "loc_archived l' = loc_archived l"
      "loc_ancestor_paths l' = loc_ancestor_paths l @ [foldl child_of (child_of parent b) bs]" by metis
    with l(2,3) show ?case by auto
  qed
  with bs(2) show ?thesis by blast
qed

lemma loaded_basename:
  assumes "item_at (from_bundle concepts) p = Some i" and "parse_item_path p = Some l"
  shows "wi_basename i = loc_basename l"
proof -
  from item_at_path assms(1) have "wi_path i = p" "i \<in> set (link_items (loaded_items concepts))"
    by (auto simp: from_bundle_eq)
  then obtain j kd where j: "i = linked (loaded_items concepts) j" "project_concept kd = Some j" "wi_path j = p"
    by (auto dest!: link_items_mem simp: loaded_items_def List.map_filter_def)
  with assms(2) show ?thesis
    by (auto simp: project_concept_def parse_item_path_loc project_item_def Let_def split_beta)
qed

text \<open>On a loaded projection the child links of an item spell its children's paths.\<close>

lemma loaded_child_link:
  assumes "item_at (from_bundle concepts) p = Some i" and "q \<in> set (wi_child_paths i)"
    and "item_at (from_bundle concepts) q = Some j"
  shows "q = child_of p (wi_basename j) \<and> is_basename (wi_basename j)"
proof -
  have "j \<in> set (child_items (from_bundle concepts) p)"
    using assms by (force simp: child_items_def List.map_filter_def)
  from loaded.child_parent [OF this] have parent: "wi_parent_path j = Some p" .
  from loaded_location [OF assms(3)] obtain l where l: "parse_item_path q = Some l"
    "wi_path j = q" "wi_parent_path j = loc_parent_path l" by blast
  have "wi_basename j = loc_basename l"
    using loaded_basename [OF assms(3)] l(1) by simp
  with l parent show ?thesis
    by (cases rule: parse_item_path_cases [OF l(1)]) (auto simp: child_of_def)
qed

lemma reached_carried:
  assumes "reached (by_path (from_bundle concepts)) (\<lambda>_. True) wi_child_paths {} {source} p"
    and "item_at (from_bundle concepts) p \<noteq> None"
  shows "\<exists>bs. list_all is_basename bs \<and> p = foldl child_of source bs"
  using assms
proof (induction rule: reached.induct)
  case (start p)
  then show ?case by (intro exI [of _ "[]"]) simp
next
  case (step p v q)
  have v: "item_at (from_bundle concepts) p = Some v" using step.hyps by (simp add: item_at_def)
  with step.IH obtain bs where bs: "list_all is_basename bs" "p = foldl child_of source bs" by auto
  from step.prems obtain j where "item_at (from_bundle concepts) q = Some j" by auto
  from loaded_child_link [OF v step.hyps(4) this] bs show ?case
    by (intro exI [of _ "bs @ [wi_basename j]"]) simp
qed

lemma subtree_items_mem:
  "i \<in> set (subtree_items s [p]) \<longleftrightarrow>
     (\<exists>q. reached (by_path s) (\<lambda>_. True) wi_child_paths {} {p} q \<and> item_at s q = Some i)"
  by (simp add: subtree_items_def set_visit item_at_def del: visit.simps)

lemma subtree_carried:
  assumes "i \<in> set (subtree_items (from_bundle concepts) [source])"
  shows "\<exists>bs. list_all is_basename bs \<and> wi_path i = foldl child_of source bs"
proof -
  from assms obtain q where q: "reached (by_path (from_bundle concepts)) (\<lambda>_. True) wi_child_paths {} {source} q"
    "item_at (from_bundle concepts) q = Some i" by (auto simp: subtree_items_mem)
  from reached_carried [OF q(1)] q(2) loaded.at_path [OF q(2)] show ?thesis by auto
qed

lemma subtree_mapping_carried:
  assumes "(old, new) \<in> set (subtree_mapping (from_bundle concepts) source dest)"
  shows "carried source dest old new"
proof -
  from assms obtain i where i: "i \<in> set (subtree_items (from_bundle concepts) [source])"
    "old = wi_path i" "new = dest @ drop (length source) (wi_path i)"
    by (auto simp: subtree_mapping_def)
  from subtree_carried [OF i(1)] obtain bs where "list_all is_basename bs" "wi_path i = foldl child_of source bs" by blast
  with i show ?thesis unfolding carried_def by (intro exI [of _ bs]) (simp add: foldl_child_of)
qed

text \<open>The walk of an archived subtree carries every item it maps.\<close>

lemma archive_mapping_loop_carried:
  assumes "\<forall>(old, new) \<in> set mapping. carried source dest old new"
    and "\<forall>(old, new) \<in> set pending. carried source dest old new"
  shows "(old, new) \<in> set (archive_mapping_loop (by_path (from_bundle concepts)) mapping pending) \<Longrightarrow>
    carried source dest old new"
  using assms
proof (induction "by_path (from_bundle concepts)" mapping pending arbitrary: old new rule: archive_mapping_loop.induct)
  case (1 mapping)
  then show ?case by auto
next
  case (2 mapping path mapped pending)
  let ?index = "by_path (from_bundle concepts)"
  show ?case
  proof (cases "path \<in> set (map fst mapping)")
    case True
    with 2 show ?thesis by auto
  next
    case False
    show ?thesis
    proof (cases "map_of ?index path")
      case None
      with False 2 show ?thesis by auto
    next
      case (Some item)
      let ?kids = "List.map_filter (\<lambda>c. map_option (\<lambda>child. (c, child_destination mapped child)) (map_of ?index c))
        (wi_child_paths item)"
      have path: "carried source dest path mapped" using "2.prems"(3) by simp
      have "carried source dest c c'" if c: "(c, c') \<in> set ?kids" for c c'
      proof -
        from c obtain child where child: "c \<in> set (wi_child_paths item)" "map_of ?index c = Some child"
          "c' = child_destination mapped child"
          by (auto simp: List.map_filter_def)
        from loaded_child_link [of concepts path item c child] Some child
        have "c = child_of path (wi_basename child)" "is_basename (wi_basename child)"
          by (simp_all add: item_at_def)
        moreover have "c' = child_of mapped (wi_basename child)"
          by (simp add: child(3) child_destination_def child_of_def child_lane_def)
        ultimately show ?thesis using carried_child [OF path] by simp
      qed
      with "2.prems"(3) have kids: "\<forall>(o', n') \<in> set (?kids @ pending). carried source dest o' n'" by auto
      have updated: "\<forall>(o', n') \<in> set (AList.update path mapped mapping). carried source dest o' n'"
        using "2.prems"(2) path set_update_subset [of path mapped mapping] by blast
      from "2.prems"(1) False Some
      have "(old, new) \<in> set (archive_mapping_loop ?index (AList.update path mapped mapping) (?kids @ pending))"
        by simp
      from "2.hyps"(3) [OF False Some this updated kids] show ?thesis .
    qed
  qed
qed

lemma archive_subtree_carried:
  "(old, new) \<in> set (archive_subtree_mapping (from_bundle concepts) source dest) \<Longrightarrow> carried source dest old new"
  using archive_mapping_loop_carried [of "[]" source dest "[(source, dest)]" old new concepts]
  by (simp add: archive_subtree_mapping_def del: archive_mapping_loop.simps)

subsection \<open>Archive plans\<close>

lemma archive_paths_mapping:
  assumes "archive_paths (from_bundle concepts) paths refusals mapping roots = (refusals', mapping', roots')"
    and "(old, new) \<in> set mapping'"
  shows "(old, new) \<in> set mapping \<or>
    (\<exists>r \<in> set paths. carried r (archive_destination r) old new \<and>
       (\<exists>t. item_at (from_bundle concepts) r = Some t \<and> wi_ancestor_paths t = [] \<and> \<not> wi_archived t))"
  using assms
proof (induction "from_bundle concepts" paths refusals mapping roots rule: archive_paths.induct)
  case (1 refusals mapping roots)
  then show ?case by simp
next
  case (2 path paths refusals mapping roots)
  show ?case
  proof (cases "item_at (from_bundle concepts) path")
    case None
    with 2 show ?thesis by auto
  next
    case (Some t)
    show ?thesis
    proof (cases "wi_archived t \<or> wi_ancestor_paths t \<noteq> []")
      case True
      with Some 2 show ?thesis by (auto split: if_splits)
    next
      case False
      let ?new = "archive_subtree_mapping (from_bundle concepts) path (archive_destination path)"
      from False Some 2 have "(old, new) \<in> set (dict_update mapping ?new) \<or>
          (\<exists>r \<in> set paths. carried r (archive_destination r) old new \<and>
             (\<exists>t. item_at (from_bundle concepts) r = Some t \<and> wi_ancestor_paths t = [] \<and> \<not> wi_archived t))"
        by auto
      with set_dict_update [of mapping ?new] archive_subtree_carried [of old new concepts path] False Some
      show ?thesis by auto
    qed
  qed
qed

lemma archive_destination_root:
  assumes "item_at (from_bundle concepts) r = Some t" and "wi_ancestor_paths t = []"
  obtains l where "parse_item_path r = Some l" "archive_destination r = root_path True (loc_basename l)"
    "is_basename (loc_basename l)" "r = root_path (loc_archived l) (loc_basename l)"
proof -
  from loaded_location [OF assms(1)] obtain l where l: "parse_item_path r = Some l" "loc_ancestor_paths l = []"
    using assms(2) by auto
  from parse_item_path_cases [OF l(1)] l(2) have r: "r = root_lane (loc_archived l) @ ''/'' @ loc_basename l"
    "is_basename (loc_basename l)" by auto
  then have "last (split_on (CHR ''/'') r) = loc_basename l"
    using split_on_append_sep [of "CHR ''/''" "root_lane (loc_archived l)" "loc_basename l"]
    by (simp add: split_basename)
  with l r that show ?thesis by (simp add: archive_destination_def root_path_def root_lane_def)
qed

lemma root_carried_parses:
  assumes "is_basename b" and "carried source (root_path a b) old new"
  shows "\<exists>l. parse_item_path new = Some l \<and> loc_archived l = a"
proof -
  from assms(2) obtain bs where bs: "list_all is_basename bs" "new = foldl child_of (root_path a b) bs"
    by (auto simp: carried_def)
  from parse_item_path_complete [OF assms(1) bs(1), of a] bs(2) show ?thesis
    by (simp add: item_path_def location_at_def Let_def)
qed

lemma dict_of_loaded_item:
  assumes "distinct (map fst concepts)" and "i \<in> set (snap_items (from_bundle concepts))"
  shows "item_at (from_bundle concepts) (wi_path i) = Some i"
proof -
  have "distinct (map wi_path (link_items (loaded_items concepts)))"
    using distinct_loaded [OF assms(1)] by (simp add: link_items_paths)
  with assms(2) show ?thesis by (simp add: from_bundle_eq item_at_distinct)
qed

lemma reached_self_below:
  assumes "item_at s p = Some i"
    and "reached (by_path s) (\<lambda>_. True) wi_child_paths {} {p} q"
  shows "q = p \<or> below (\<lambda>_. True) s p q"
  using assms(2,1)
proof (induction rule: reached.induct)
  case (start q)
  then show ?case by simp
next
  case (step q v r)
  then show ?case by (auto intro: below.child below.deeper simp: item_at_def)
qed

lemma eligible_archives_clean:
  assumes "distinct (map fst concepts)" and "i \<in> set (snap_items (from_bundle concepts))"
    and "sweep_eligible (from_bundle concepts) i"
  shows "item_at (from_bundle concepts) (wi_path i) = Some i \<and> \<not> wi_archived i \<and> wi_ancestor_paths i = [] \<and>
    terminal_item i \<and> open_subtree_refusals (from_bundle concepts) (wi_path i) = []"
proof -
  note at = dict_of_loaded_item [OF assms(1,2)]
  note elig = assms(3) [unfolded sweep_eligible_iff [OF from_bundle_eq at]]
  have "terminal_item j" if j: "j \<in> set (subtree_items (from_bundle concepts) [wi_path i])" for j
  proof -
    from j obtain q where "reached (by_path (from_bundle concepts)) (\<lambda>_. True) wi_child_paths {} {wi_path i} q"
      "item_at (from_bundle concepts) q = Some j" by (auto simp: subtree_items_mem)
    with reached_self_below [OF at] elig at show ?thesis by fastforce
  qed
  then have "open_subtree_refusals (from_bundle concepts) (wi_path i) = []"
    by (auto simp: open_subtree_refusals_def List.map_filter_def filter_empty_conv)
  with at elig show ?thesis by simp
qed

lemma archive_paths_clean:
  assumes "\<forall>p \<in> set paths. \<exists>t. item_at s p = Some t \<and> \<not> wi_archived t \<and> wi_ancestor_paths t = [] \<and>
      terminal_item t \<and> open_subtree_refusals s p = []"
  shows "fst (archive_paths s paths refusals mapping roots) = refusals \<and>
    snd (snd (archive_paths s paths refusals mapping roots)) = roots @ paths"
  using assms by (induction s paths refusals mapping roots rule: archive_paths.induct) auto

subsection \<open>Properties\<close>

text \<open>The sweep and the archive planner agree: archiving without naming items refuses nothing on
  a loaded bundle, and archives exactly the roots the sweep selects.\<close>

theorem default_archive_is_clean:
  assumes "distinct (map fst concepts)"
  shows "mv_refusals (plan_archive (from_bundle concepts) None) = [] \<and>
    mv_roots (plan_archive (from_bundle concepts) None) =
      sort (map wi_path (filter (sweep_eligible (from_bundle concepts)) (snap_items (from_bundle concepts))))"
proof -
  have "\<forall>p \<in> set (default_targets (from_bundle concepts)). \<exists>t. item_at (from_bundle concepts) p = Some t \<and>
      \<not> wi_archived t \<and> wi_ancestor_paths t = [] \<and> terminal_item t \<and>
      open_subtree_refusals (from_bundle concepts) p = []"
    using eligible_archives_clean [OF assms] by (auto simp: default_targets_def)
  from archive_paths_clean [OF this] show ?thesis
    by (simp add: plan_archive_def Let_def default_targets_def)
qed

text \<open>C39. An archive plan moves whole subtrees into the archive and changes nothing else about them:
  every moved path keeps its \<open>children\<close> steps below the archived root, and lands on a
  canonical path that is archived.\<close>

theorem archive_carries_subtrees:
  assumes "(old, new) \<in> set (mv_mapping (plan_archive (from_bundle concepts) paths))"
  shows "\<exists>r b. carried r (root_path True b) old new \<and> r = root_path False b \<and> is_basename b \<and>
    (\<exists>l. parse_item_path new = Some l \<and> loc_archived l)"
proof -
  let ?s = "from_bundle concepts"
  define sel where "sel = (case paths of None \<Rightarrow> default_targets ?s | Some ps \<Rightarrow> first_seen ps)"
  obtain rf mp rt where plan: "archive_paths ?s sel [] [] [] = (rf, mp, rt)"
    by (cases "archive_paths ?s sel [] [] []") auto
  with assms have "(old, new) \<in> set mp" by (simp add: plan_archive_def sel_def [symmetric] Let_def)
  from archive_paths_mapping [OF plan this] obtain r t where r: "carried r (archive_destination r) old new"
    "item_at ?s r = Some t" "wi_ancestor_paths t = []" "\<not> wi_archived t" by auto
  from archive_destination_root [OF r(2,3)] obtain l where l: "parse_item_path r = Some l"
    "archive_destination r = root_path True (loc_basename l)" "is_basename (loc_basename l)"
    "r = root_path (loc_archived l) (loc_basename l)" by metis
  from loaded_location [OF r(2)] l(1) r(4) have "\<not> loc_archived l" by auto
  with l r root_carried_parses [OF l(3)] show ?thesis by metis
qed

text \<open>An accepted reparent is a move below the destination and never makes a cycle: every moved
  path keeps its steps below the source's new place in the parent's child lane, lands on a
  canonical active path with the parent among its ancestors, and neither the parent nor
  anything above it moves.\<close>

theorem reparent_carries_subtrees:
  assumes "mv_refusals (plan_reparent_many (from_bundle concepts) sources parent) = []"
    and "(old, new) \<in> set (mv_mapping (plan_reparent_many (from_bundle concepts) sources parent))"
  shows "\<exists>src \<in> set sources. \<exists>b. is_basename b \<and> carried src (child_of parent b) old new \<and> old \<noteq> parent \<and>
    \<not> beneath parent old \<and>
    (\<exists>l. parse_item_path new = Some l \<and> \<not> loc_archived l \<and> parent \<in> set (loc_ancestor_paths l))"
proof -
  let ?s = "from_bundle concepts"
  let ?plan = "\<lambda>src. source_plan ?s (item_at ?s src) src parent"
  from assms(2) have "(old, new) \<in> set (fold (\<lambda>p m. dict_update m (snd p)) (map ?plan sources) [])"
    by (simp add: plan_reparent_many_def Let_def)
  then obtain src where src: "src \<in> set sources" "(old, new) \<in> set (snd (?plan src))"
    using set_fold_dict_update [of "map ?plan sources" "[]"] by auto
  then obtain it where it: "item_at ?s src = Some it"
    by (cases "item_at ?s src") (auto simp: source_plan_def)
  have moved: "carried src (child_of parent (wi_basename it)) old new"
    using src(2) subtree_mapping_carried by (simp add: source_plan_def it child_of_def)
  from assms(1) have none: "parent_refusals (item_at ?s parent) parent = []" "fst (?plan src) = []"
    using src(1) by (auto simp: plan_reparent_many_def Let_def)
  then obtain p where p: "item_at ?s parent = Some p" "\<not> wi_archived p"
    by (cases "item_at ?s parent") (auto simp: parent_refusals_def split: if_splits)
  from none(2) it have apart: "src \<noteq> parent" "\<not> beneath parent src"
    by (auto simp: source_plan_def split: if_splits)
  from loaded_location [OF p(1)] p(2) obtain lp where lp: "parse_item_path parent = Some lp" "\<not> loc_archived lp" by auto
  from loaded_location [OF it] obtain l where l: "parse_item_path src = Some l" by blast
  have b: "is_basename (wi_basename it)"
    using loaded_basename [OF it l] parse_item_path_cases [OF l] by metis
  from carried_prefix [OF moved] apart beneath_trans [of parent old src]
  have "old \<noteq> parent" "\<not> beneath parent old" by auto
  with src(1) b moved carried_parses [OF lp(1) b moved] lp(2) show ?thesis by blast
qed

text \<open>Two paths that hold the same member are one, or one holds the other.\<close>

lemma holders_comparable:
  assumes "starts_with v (x @ ''/'')" and "starts_with v (y @ ''/'')"
  shows "x = y \<or> starts_with x (y @ ''/'') \<or> starts_with y (x @ ''/'')"
proof -
  obtain a b where "(x @ ''/'') @ a = (y @ ''/'') @ b" using assms by (auto simp: starts_with_iff)
  then have "(\<exists>us. x @ ''/'' = (y @ ''/'') @ us) \<or> (\<exists>us. y @ ''/'' = (x @ ''/'') @ us)"
    unfolding append_eq_append_conv2 by metis
  then consider us where "x @ ''/'' = (y @ ''/'') @ us" | us where "y @ ''/'' = (x @ ''/'') @ us" by blast
  then show ?thesis
  proof cases
    case 1
    then show ?thesis by (cases us rule: rev_cases) (auto simp: starts_with_iff)
  next
    case 2
    then show ?thesis by (cases us rule: rev_cases) (auto simp: starts_with_iff)
  qed
qed

lemma page_holder: "starts_with (x @ ''.md'') (y @ ''/'') \<Longrightarrow> starts_with x (y @ ''/'')"
  by (auto simp: starts_with_iff append_eq_append_conv2 append_eq_Cons_conv Cons_eq_append_conv)

definition carried_by :: "(string \<times> string) list \<Rightarrow> path_mapping \<Rightarrow> bool" where
  "carried_by roots m \<longleftrightarrow>
     (\<forall>(old, new) \<in> set m. \<exists>(s, t) \<in> set roots. carried s t old new) \<and>
     (\<forall>(s, t) \<in> set roots. \<forall>(s', t') \<in> set roots. (s = s' \<longrightarrow> t = t') \<and> s \<noteq> s' @ ''.md'' \<and> \<not> starts_with s (s' @ ''/''))"

definition page_or_below :: "string \<Rightarrow> string \<Rightarrow> bool" where
  "page_or_below path member \<longleftrightarrow> member = path @ ''.md'' \<or> starts_with member (path @ ''/'')"

lemma carried_by_root:
  assumes "carried_by roots m" and "(s, t) \<in> set roots" and "owns s member \<or> page_or_below s member"
    and "(old, new) \<in> set m" and "owns old member \<or> page_or_below old member"
  shows "carried s t old new"
proof -
  obtain s' t' where root: "(s', t') \<in> set roots" "carried s' t' old new"
    using assms(1,4) unfolding carried_by_def by blast
  have old: "old = s' \<or> starts_with old (s' @ ''/'')"
    using carried_prefix [OF root(2)] by (auto simp: beneath_def starts_with_iff)
  have apart: "\<not> starts_with s (s' @ ''/'')" "\<not> starts_with s' (s @ ''/'')" "s = s' \<longrightarrow> t = t'"
    "s \<noteq> s' @ ''.md''" "s' \<noteq> s @ ''.md''"
    using assms(1,2) root(1) unfolding carried_by_def by blast+
  have holder: "member = p \<or> member = p @ ''.md'' \<or> starts_with member (p @ ''/'')"
    if "owns p member \<or> page_or_below p member" for p
    using that by (auto simp: owns_def page_or_below_def)
  have below: "x = y" if "starts_with member (x @ ''/'')" "member = y \<or> member = y @ ''.md'' \<or> starts_with member (y @ ''/'')"
    "\<not> starts_with x (y @ ''/'')" "\<not> starts_with y (x @ ''/'')" for x y
    using that holders_comparable [of member x y] page_holder [of y x] by blast
  have "member = s' \<or> member = s' @ ''.md'' \<or> starts_with member (s' @ ''/'')"
    using old holder [OF assms(5)] by (auto simp: starts_with_iff)
  with holder [OF assms(3)] have "s = s'"
    using below [of s s'] below [of s' s] apart by (elim disjE) auto
  with apart(3) root(2) show ?thesis by simp
qed

lemma find_deepest:
  assumes "find P (deepest_first m) = r"
  shows "(r = None \<longrightarrow> (\<forall>old \<in> fst ` set m. \<not> P old)) \<and>
    (\<forall>old. r = Some old \<longrightarrow> P old \<and> (\<exists>new. map_of m old = Some new \<and> (old, new) \<in> set m))"
proof (intro conjI impI allI)
  assume "r = None"
  with assms show "\<forall>old \<in> fst ` set m. \<not> P old" by (auto simp: find_None_iff deepest_first_def)
next
  fix old assume "r = Some old"
  with assms obtain k where "k < length (deepest_first m)" "P old" "old = deepest_first m ! k"
    by (auto simp: find_Some_iff)
  moreover from this have "old \<in> fst ` set m" using nth_mem [of k "deepest_first m"] by (simp add: deepest_first_def)
  then obtain new where "map_of m old = Some new" by (metis map_of_eq_None_iff not_None_eq)
  ultimately show "P old" "\<exists>new. map_of m old = Some new \<and> (old, new) \<in> set m" by (auto dest: map_of_SomeD)
qed


subsection \<open>The properties at a concrete bundle\<close>

text \<open>A finished epic with a finished feature, and an open feature to move.\<close>

definition moves_bundle :: "(string \<times> concept) list" where
  "moves_bundle =
     [(''work/e'', sample_page ''Epic'' ''resolved'' ''done''),
      (''work/e/children/f'', sample_page ''Feature'' ''resolved'' ''done''),
      (''work/g'', sample_page ''Epic'' ''open'' ''plan''),
      (''work/h'', sample_page ''Feature'' ''open'' ''plan''),
      (''work/h/children/b'', sample_page ''Bug'' ''open'' ''execute'')]"

theorem default_archive_is_clean_witness:
  "mv_refusals (plan_archive (from_bundle moves_bundle) None) = [] \<and>
   mv_roots (plan_archive (from_bundle moves_bundle) None) = [''work/e'']"
proof -
  have "distinct (map fst moves_bundle)" by code_simp
  moreover have "sort (map wi_path (filter (sweep_eligible (from_bundle moves_bundle))
      (snap_items (from_bundle moves_bundle)))) = [''work/e'']" by code_simp
  ultimately show ?thesis using default_archive_is_clean by simp
qed

theorem archive_carries_subtrees_witness:
  "\<exists>l. parse_item_path ''work/_archive/e/children/f'' = Some l \<and> loc_archived l"
proof -
  have "(''work/e/children/f'', ''work/_archive/e/children/f'') \<in>
      set (mv_mapping (plan_archive (from_bundle moves_bundle) None))" by code_simp
  from archive_carries_subtrees [OF this] show ?thesis by blast
qed

theorem reparent_carries_subtrees_witness:
  "\<exists>l. parse_item_path ''work/g/children/h/children/b'' = Some l \<and> ''work/g'' \<in> set (loc_ancestor_paths l)"
proof -
  have "mv_refusals (plan_reparent_many (from_bundle moves_bundle) [''work/h''] ''work/g'') = []"
    and "(''work/h/children/b'', ''work/g/children/h/children/b'') \<in>
      set (mv_mapping (plan_reparent_many (from_bundle moves_bundle) [''work/h''] ''work/g''))" by code_simp+
  from reparent_carries_subtrees [OF this] show ?thesis by blast
qed

definition moves_mapping :: path_mapping where
  "moves_mapping = [(''work/h'', ''work/g/children/h''), (''work/h/children/b'', ''work/g/children/h/children/b'')]"

lemma moves_mapping_carried:
  "\<forall>(old, new) \<in> set moves_mapping. carried ''work/h'' ''work/g/children/h'' old new"
proof -
  have "is_basename ''b''" by code_simp
  from carried_child [OF carried_root this, of "''work/h''" "''work/g/children/h''"]
  have "carried ''work/h'' ''work/g/children/h'' ''work/h/children/b'' ''work/g/children/h/children/b''"
    by (simp add: child_of_def child_lane_def)
  then show ?thesis by (simp add: moves_mapping_def)
qed


end
