(* ===== verification/Graph.thy ===== *)
theory Graph
  imports Prelude "HOL-Library.AList"
begin

text \<open>
  Cycles of the dependency graph (\<open>work_tracker_okf/graph.py\<close>): an iterative depth-first search
  with three colours. A graph is a dict from a node to its successors. The search reports
  something exactly when the graph has a cycle, and only nodes on cycles; it does not report
  every node on a cycle (\<open>cycle_nodes_partial\<close>).
\<close>

datatype colour = White | Gray | Black

type_synonym graph = "(string \<times> string list) list"

definition successors :: "graph \<Rightarrow> string \<Rightarrow> string list" where
  "successors g n = (case map_of g n of None \<Rightarrow> [] | Some ns \<Rightarrow> ns)"

text \<open>The local variables of the search; \<open>df_frames\<close> has the top of the stack first.\<close>

record search =
  df_colour :: "(string \<times> colour) list"
  df_cycles :: "string list"
  df_path :: "string list"
  df_positions :: "(string \<times> nat) list"
  df_frames :: "(string \<times> nat) list"

definition search_step :: "graph \<Rightarrow> search \<Rightarrow> search result option" where
  "search_step g s =
     (case df_frames s of
        [] \<Rightarrow> None
      | (node, next_child) # below \<Rightarrow>
          let children = successors g node
          in if length children \<le> next_child
             then Some (Inr (s\<lparr>df_frames := below, df_positions := AList.delete node (df_positions s),
                               df_path := butlast (df_path s),
                               df_colour := AList.update node Black (df_colour s)\<rparr>))
             else
               let nxt = children ! next_child; s' = s\<lparr>df_frames := (node, Suc next_child) # below\<rparr>
               in (case map_of (df_colour s) nxt of
                     None \<Rightarrow> Some (Inr s')
                   | Some Gray \<Rightarrow>
                       (case map_of (df_positions s) nxt of
                          None \<Rightarrow> Some (Inl (KeyError nxt))
                        | Some i \<Rightarrow> Some (Inr (s'\<lparr>df_cycles := df_cycles s @ drop i (df_path s)\<rparr>)))
                   | Some White \<Rightarrow>
                       Some (Inr (s'\<lparr>df_colour := AList.update nxt Gray (df_colour s),
                                    df_positions := AList.update nxt (length (df_path s)) (df_positions s),
                                    df_path := df_path s @ [nxt],
                                    df_frames := (nxt, 0) # df_frames s'\<rparr>))
                   | Some Black \<Rightarrow> Some (Inr s')))"

definition whites :: "(string \<times> colour) list \<Rightarrow> string set" where
  "whites colours = {k \<in> fst ` set colours. map_of colours k = Some White}"

lemma finite_whites [simp]: "finite (whites colours)"
  by (simp add: whites_def)

lemma whites_update_dark: "c \<noteq> White \<Longrightarrow> whites (AList.update k c colours) = whites colours - {k}"
  by (auto simp: whites_def update_conv' dom_update image_iff)

definition frames_left :: "graph \<Rightarrow> search \<Rightarrow> nat" where
  "frames_left g s = (\<Sum>(n, i) \<leftarrow> df_frames s. Suc (length (successors g n) - i))"

definition search_order :: "graph \<Rightarrow> (search \<times> search) set" where
  "search_order g = measures [\<lambda>s. card (whites (df_colour s)), frames_left g]"

lemma wf_search_order: "wf (search_order g)"
  by (simp add: search_order_def)

lemma search_step_decreases:
  assumes "search_step g s = Some (Inr s')"
  shows "(s', s) \<in> search_order g"
proof -
  obtain node i below where frames: "df_frames s = (node, i) # below"
    using assms by (cases "df_frames s") (auto simp: search_step_def)
  have le: "card (whites colours - {k}) \<le> card (whites colours)" for k colours
    by (simp add: card_mono)
  have less: "card (whites colours - {k}) < card (whites colours)" if "map_of colours k = Some White" for k colours
    using that by (intro card_Diff1_less) (auto simp: whites_def dest: map_of_SomeD intro: rev_image_eqI)
  show ?thesis
  proof (cases "length (successors g node) \<le> i")
    case True
    with assms frames le [of "df_colour s" node] show ?thesis
      by (auto simp: search_step_def search_order_def frames_left_def whites_update_dark Let_def)
  next
    case False
    with assms frames less [of "df_colour s" "successors g node ! i"] show ?thesis
      by (auto simp: search_step_def search_order_def frames_left_def whites_update_dark Let_def
          split: option.splits colour.splits)
  qed
qed

function search_loop :: "graph \<Rightarrow> search \<Rightarrow> search result" where
  "search_loop g s =
     (case search_step g s of None \<Rightarrow> Inr s | Some r \<Rightarrow> bind_res r (search_loop g))"
  by pat_completeness auto
termination
  by (relation "same_fst (\<lambda>_. True) search_order")
    (auto intro!: wf_same_fst wf_search_order search_step_decreases)

declare search_loop.simps [simp del]

definition search_from :: "string \<Rightarrow> search \<Rightarrow> search" where
  "search_from root s =
     s\<lparr>df_colour := AList.update root Gray (df_colour s), df_path := [root], df_positions := [(root, 0)],
       df_frames := [(root, 0)]\<rparr>"

fun search_roots :: "graph \<Rightarrow> string list \<Rightarrow> search \<Rightarrow> search result" where
  "search_roots g [] s = Inr s"
| "search_roots g (root # roots) s =
     (if map_of (df_colour s) root \<noteq> Some White then search_roots g roots s
      else bind_res (search_loop g (search_from root s)) (search_roots g roots))"

definition cycle_nodes :: "graph \<Rightarrow> string list result" where
  "cycle_nodes g =
     bind_res (search_roots g (map fst g)
         \<lparr>df_colour = map (\<lambda>(k, _). (k, White)) g, df_cycles = [], df_path = [], df_positions = [], df_frames = []\<rparr>)
       (\<lambda>s. Inr (sort (remdups (df_cycles s))))"

subsection \<open>The invariant of the search\<close>

definition edges_of :: "graph \<Rightarrow> (string \<times> string) set" where
  "edges_of g = {(a, b). b \<in> set (successors g a) \<and> a \<in> fst ` set g \<and> b \<in> fst ` set g}"

definition black :: "search \<Rightarrow> string set" where
  "black s = {k. map_of (df_colour s) k = Some Black}"

text \<open>The children a frame has passed are black, but for the one the frame above it stands for.\<close>

fun frames_ok :: "graph \<Rightarrow> string set \<Rightarrow> string option \<Rightarrow> (string \<times> nat) list \<Rightarrow> bool" where
  "frames_ok g B upper [] = True"
| "frames_ok g B upper ((n, i) # below) =
     ((\<forall>c \<in> set (take i (successors g n)). c \<in> fst ` set g \<longrightarrow> c \<in> B \<or> upper = Some c)
      \<and> frames_ok g B (Some n) below)"

definition search_inv :: "graph \<Rightarrow> string set \<Rightarrow> search \<Rightarrow> bool" where
  "search_inv g passed s \<longleftrightarrow>
     map fst (df_frames s) = rev (df_path s) \<and> distinct (df_path s) \<and>
     (\<forall>p. map_of (df_positions s) p = index_of (df_path s) p) \<and>
     (\<forall>c. map_of (df_colour s) c = Some Gray \<longleftrightarrow> c \<in> set (df_path s)) \<and>
     fst ` set (df_colour s) = fst ` set g \<and>
     successively (\<lambda>a b. (a, b) \<in> edges_of g) (df_path s) \<and>
     set (df_cycles s) \<subseteq> {c. (c, c) \<in> (edges_of g)\<^sup>+} \<and>
     (\<forall>c \<in> passed. map_of (df_colour s) c \<noteq> Some White) \<and>
     (df_cycles s = [] \<longrightarrow>
        edges_of g `` black s \<subseteq> black s \<and> acyclic (edges_of g \<inter> black s \<times> black s) \<and>
        frames_ok g (black s) None (df_frames s))"

lemma frames_ok_mono:
  "frames_ok g B upper fs \<Longrightarrow> B \<subseteq> B' \<Longrightarrow> (\<And>c. upper = Some c \<Longrightarrow> c \<in> B' \<or> upper' = Some c) \<Longrightarrow>
     frames_ok g B' upper' fs"
proof (induction g B upper fs arbitrary: upper' rule: frames_ok.induct)
  case (2 g B upper n i below)
  have "frames_ok g B' (Some n) below" using "2.prems" by (intro "2.IH") auto
  with "2.prems" show ?case by fastforce
qed simp

lemma index_of_snoc:
  "index_of (xs @ [y]) z = (case index_of xs z of Some i \<Rightarrow> Some i | None \<Rightarrow> if z = y then Some (length xs) else None)"
  by (induction xs) (auto split: option.splits)

lemma trancl_within:
  assumes "(x, y) \<in> (E \<inter> insert n B \<times> insert n B)\<^sup>+" and "x \<in> B" and "E `` B \<subseteq> B"
  shows "(x, y) \<in> (E \<inter> B \<times> B)\<^sup>+ \<and> y \<in> B"
  using assms(1)
proof (induction rule: trancl_induct)
  case (base y)
  with assms(2,3) show ?case by blast
next
  case (step y z)
  with assms(3) have "(y, z) \<in> E \<inter> B \<times> B" "z \<in> B" by blast+
  with step show ?case by (meson trancl_into_trancl)
qed

lemma acyclic_insert_source:
  assumes "acyclic (E \<inter> B \<times> B)" and "E `` B \<subseteq> B" and "E `` {n} \<subseteq> B"
  shows "acyclic (E \<inter> insert n B \<times> insert n B)"
proof (rule acyclicI, intro allI notI)
  fix x assume cycle: "(x, x) \<in> (E \<inter> insert n B \<times> insert n B)\<^sup>+"
  then obtain w where "(w, x) \<in> E \<inter> insert n B \<times> insert n B" by (meson tranclE)
  with assms(2,3) have "x \<in> B" by blast
  from trancl_within [OF cycle this assms(2)] assms(1) show False by (auto simp: acyclic_def)
qed

lemma path_segment_cycle:
  assumes "successively (\<lambda>a b. (a, b) \<in> E) (xs @ [c] @ ys)" and "(last ([c] @ ys), c) \<in> E" and "d \<in> set ([c] @ ys)"
  shows "(d, d) \<in> E\<^sup>+"
proof -
  have seg: "successively (\<lambda>a b. (a, b) \<in> E) ([c] @ ys)"
    using assms(1) by (simp add: successively_append_iff)
  have reach: "(hd zs, last zs) \<in> E\<^sup>*" if "successively (\<lambda>a b. (a, b) \<in> E) zs" "zs \<noteq> []" for zs
    using that
  proof (induction zs)
    case (Cons z zs)
    then show ?case by (cases zs) (auto simp: successively_Cons intro: converse_rtrancl_into_rtrancl)
  qed simp
  from assms(3) obtain us vs where split: "[c] @ ys = us @ d # vs" by (meson split_list)
  with seg have parts: "successively (\<lambda>a b. (a, b) \<in> E) (us @ [d])" "successively (\<lambda>a b. (a, b) \<in> E) (d # vs)"
    by (auto simp: successively_append_iff)
  have "hd (us @ [d]) = c" using split by (cases us) auto
  then have "(c, d) \<in> E\<^sup>*" using reach [OF parts(1)] by simp
  moreover have "(d, last ([c] @ ys)) \<in> E\<^sup>*" using reach [OF parts(2)] split by simp
  ultimately show ?thesis using assms(2) by (meson r_into_trancl rtrancl_trancl_trancl trancl_rtrancl_trancl)
qed

lemma search_invI:
  assumes "map fst (df_frames s) = rev (df_path s)" and "distinct (df_path s)"
    and "\<And>p. map_of (df_positions s) p = index_of (df_path s) p"
    and "\<And>c. map_of (df_colour s) c = Some Gray \<longleftrightarrow> c \<in> set (df_path s)"
    and "fst ` set (df_colour s) = fst ` set g"
    and "successively (\<lambda>a b. (a, b) \<in> edges_of g) (df_path s)"
    and "set (df_cycles s) \<subseteq> {c. (c, c) \<in> (edges_of g)\<^sup>+}"
    and "\<And>c. c \<in> passed \<Longrightarrow> map_of (df_colour s) c \<noteq> Some White"
    and "df_cycles s = [] \<Longrightarrow> edges_of g `` black s \<subseteq> black s"
    and "df_cycles s = [] \<Longrightarrow> acyclic (edges_of g \<inter> black s \<times> black s)"
    and "df_cycles s = [] \<Longrightarrow> frames_ok g (black s) None (df_frames s)"
  shows "search_inv g passed s"
  unfolding search_inv_def using assms by (intro conjI impI allI ballI; blast)

lemma inv_parts:
  assumes "search_inv g passed s"
  shows "map fst (df_frames s) = rev (df_path s)" and "distinct (df_path s)"
    and "map_of (df_positions s) p = index_of (df_path s) p"
    and "map_of (df_colour s) c = Some Gray \<longleftrightarrow> c \<in> set (df_path s)"
    and "fst ` set (df_colour s) = fst ` set g"
    and "successively (\<lambda>a b. (a, b) \<in> edges_of g) (df_path s)"
    and "set (df_cycles s) \<subseteq> {c. (c, c) \<in> (edges_of g)\<^sup>+}"
    and "c \<in> passed \<Longrightarrow> map_of (df_colour s) c \<noteq> Some White"
    and "df_cycles s = [] \<Longrightarrow> edges_of g `` black s \<subseteq> black s"
    and "df_cycles s = [] \<Longrightarrow> acyclic (edges_of g \<inter> black s \<times> black s)"
    and "df_cycles s = [] \<Longrightarrow> frames_ok g (black s) None (df_frames s)"
  using assms unfolding search_inv_def by blast+

lemma inv_known: "search_inv g passed s \<Longrightarrow> map_of (df_colour s) c = Some x \<Longrightarrow> c \<in> fst ` set g"
  unfolding search_inv_def by (metis domI dom_map_of_conv_image_fst)

lemma inv_frames:
  assumes "search_inv g passed s" and "df_frames s = (node, i) # below"
  obtains q where "df_path s = q @ [node]" "map fst below = rev q" "node \<notin> set q" "node \<in> fst ` set g"
    "map_of (df_colour s) node = Some Gray"
proof -
  from assms have path: "rev (df_path s) = node # map fst below" and "distinct (df_path s)"
    by (simp_all add: search_inv_def)
  then have q: "df_path s = rev (map fst below) @ [node]" by (metis rev.simps(2) rev_rev_ident)
  with assms(1) have gray: "map_of (df_colour s) node = Some Gray" by (simp add: search_inv_def)
  then have "node \<in> fst ` set g" by (rule inv_known [OF assms(1)])
  with q gray \<open>distinct (df_path s)\<close> that [of "rev (map fst below)"] show ?thesis by simp
qed

text \<open>Popping an exhausted frame blackens its node.\<close>

lemma inv_pop:
  assumes inv: "search_inv g passed s" and frames: "df_frames s = (node, i) # below"
    and all: "length (successors g node) \<le> i"
  shows "search_inv g passed (s\<lparr>df_frames := below, df_positions := AList.delete node (df_positions s),
    df_path := butlast (df_path s), df_colour := AList.update node Black (df_colour s)\<rparr>)" (is "search_inv g passed ?s")
proof -
  obtain q where q: "df_path s = q @ [node]" "map fst below = rev q" "node \<notin> set q" "node \<in> fst ` set g"
    "map_of (df_colour s) node = Some Gray" using inv_frames [OF inv frames] .
  note parts = inv_parts [OF inv]
  have B: "black ?s = insert node (black s)" by (auto simp: black_def update_conv')
  have ok: "frames_ok g (black s) None ((node, i) # below)" if "df_cycles s = []"
    using parts(11) [OF that] by (simp only: frames)
  then have out: "edges_of g `` {node} \<subseteq> black s" if "df_cycles s = []"
    using that all by (auto simp: edges_of_def)
  show ?thesis
  proof (rule search_invI)
    show "map fst (df_frames ?s) = rev (df_path ?s)" "distinct (df_path ?s)"
      using q parts(2) by simp_all
    show "map_of (df_positions ?s) p = index_of (df_path ?s) p" for p
      using q(1,3) parts(3) [of p] index_of_None_iff [of q p]
      by (auto simp: delete_conv' index_of_snoc split: option.splits)
    show "map_of (df_colour ?s) c = Some Gray \<longleftrightarrow> c \<in> set (df_path ?s)" for c
      using q(1,3) parts(4) [of c] by (auto simp: update_conv')
    show "fst ` set (df_colour ?s) = fst ` set g" using q(4) parts(5) by (auto simp: dom_update)
    show "successively (\<lambda>a b. (a, b) \<in> edges_of g) (df_path ?s)"
      using parts(6) q(1) by (simp add: successively_append_iff)
    show "set (df_cycles ?s) \<subseteq> {c. (c, c) \<in> (edges_of g)\<^sup>+}" using parts(7) by simp
    show "map_of (df_colour ?s) c \<noteq> Some White" if "c \<in> passed" for c
      using parts(8) [OF that] by (simp add: update_conv')
    assume "df_cycles ?s = []"
    then have none: "df_cycles s = []" by simp
    show "edges_of g `` black ?s \<subseteq> black ?s" using parts(9) [OF none] out [OF none] unfolding B by blast
    show "acyclic (edges_of g \<inter> black ?s \<times> black ?s)"
      unfolding B by (rule acyclic_insert_source [OF parts(10) [OF none] parts(9) [OF none] out [OF none]])
    have "frames_ok g (black s) (Some node) below" using ok [OF none] by simp
    then show "frames_ok g (black ?s) None (df_frames ?s)"
      unfolding B by (auto elim!: frames_ok_mono)
  qed
qed

text \<open>A child that is unknown, or black already, is passed.\<close>

lemma inv_advance:
  assumes inv: "search_inv g passed s" and frames: "df_frames s = (node, i) # below"
    and child: "i < length (successors g node)" "nxt = successors g node ! i"
    and seen: "map_of (df_colour s) nxt = None \<or> map_of (df_colour s) nxt = Some Black"
  shows "search_inv g passed (s\<lparr>df_frames := (node, Suc i) # below\<rparr>)"
proof -
  have "map_of (df_colour s) nxt \<noteq> None" if "nxt \<in> fst ` set g"
    using that inv_parts(5) [OF inv] by (simp add: map_of_eq_None_iff)
  then have "nxt \<in> fst ` set g \<Longrightarrow> nxt \<in> black s" using seen by (auto simp: black_def)
  moreover have "take (Suc i) (successors g node) = take i (successors g node) @ [nxt]"
    using child by (simp add: take_Suc_conv_app_nth)
  ultimately show ?thesis
    using inv frames unfolding search_inv_def by (simp add: black_def)
qed

text \<open>A gray child closes a cycle: the path from it on, and back.\<close>

lemma inv_close:
  assumes inv: "search_inv g passed s" and frames: "df_frames s = (node, i) # below"
    and child: "i < length (successors g node)" "nxt = successors g node ! i"
    and gray: "map_of (df_colour s) nxt = Some Gray"
  obtains k where "map_of (df_positions s) nxt = Some k"
    "search_inv g passed (s\<lparr>df_frames := (node, Suc i) # below, df_cycles := df_cycles s @ drop k (df_path s)\<rparr>)"
proof -
  note parts = inv_parts [OF inv]
  have "nxt \<in> set (df_path s)" using gray parts(4) by blast
  then obtain k where k: "index_of (df_path s) nxt = Some k"
    using index_of_None_iff [of "df_path s" nxt] by (cases "index_of (df_path s) nxt") auto
  from index_of_Some [OF k] have at: "k < length (df_path s)" "df_path s ! k = nxt" by simp_all
  then have split: "df_path s = take k (df_path s) @ [nxt] @ drop (Suc k) (df_path s)"
    by (metis append_Cons append_Nil id_take_nth_drop)
  have dropk: "drop k (df_path s) = [nxt] @ drop (Suc k) (df_path s)"
    using at by (metis Cons_nth_drop_Suc append_Cons append_Nil)
  obtain q where q: "df_path s = q @ [node]" "node \<in> fst ` set g" using inv_frames [OF inv frames] .
  have "last (drop k (df_path s)) = node" using at q(1) by (simp add: last_drop)
  then have edge: "(last (drop k (df_path s)), nxt) \<in> edges_of g"
    using child q(2) inv_known [OF inv gray] by (simp add: edges_of_def)
  have "successively (\<lambda>a b. (a, b) \<in> edges_of g) (take k (df_path s) @ [nxt] @ drop (Suc k) (df_path s))"
    by (simp only: split [symmetric] parts(6))
  then have "(d, d) \<in> (edges_of g)\<^sup>+" if "d \<in> set (drop k (df_path s))" for d
    using edge that unfolding dropk by (rule path_segment_cycle)
  then have cycle: "set (drop k (df_path s)) \<subseteq> {c. (c, c) \<in> (edges_of g)\<^sup>+}" by blast
  have nonempty: "drop k (df_path s) \<noteq> []" using at by simp
  have "search_inv g passed (s\<lparr>df_frames := (node, Suc i) # below, df_cycles := df_cycles s @ drop k (df_path s)\<rparr>)"
    (is "search_inv g passed ?s")
  proof (rule search_invI)
    show "map fst (df_frames ?s) = rev (df_path ?s)" using parts(1) frames by simp
    show "map_of (df_positions ?s) p = index_of (df_path ?s) p" for p using parts(3) by simp
    show "map_of (df_colour ?s) c = Some Gray \<longleftrightarrow> c \<in> set (df_path ?s)" for c using parts(4) by simp
    show "map_of (df_colour ?s) c \<noteq> Some White" if "c \<in> passed" for c using parts(8) [OF that] by simp
    show "set (df_cycles ?s) \<subseteq> {c. (c, c) \<in> (edges_of g)\<^sup>+}" using parts(7) cycle by simp
  qed (use parts nonempty in simp_all)
  with k that show ?thesis by (simp add: parts(3))
qed

text \<open>A white child becomes the top of the stack.\<close>

lemma inv_push:
  assumes inv: "search_inv g passed s" and frames: "df_frames s = (node, i) # below"
    and child: "i < length (successors g node)" "nxt = successors g node ! i"
    and white: "map_of (df_colour s) nxt = Some White"
  shows "search_inv g passed (s\<lparr>df_frames := (nxt, 0) # (node, Suc i) # below,
    df_colour := AList.update nxt Gray (df_colour s),
    df_positions := AList.update nxt (length (df_path s)) (df_positions s), df_path := df_path s @ [nxt]\<rparr>)"
    (is "search_inv g passed ?s")
proof -
  note parts = inv_parts [OF inv]
  obtain q where q: "df_path s = q @ [node]" "node \<in> fst ` set g" using inv_frames [OF inv frames] .
  have fresh: "nxt \<notin> set (df_path s)" "nxt \<in> fst ` set g"
    using white parts(4) [of nxt] inv_known [OF inv white] by simp_all
  have B: "black ?s = black s" using white by (auto simp: black_def update_conv')
  have edge: "(node, nxt) \<in> edges_of g" using child q(2) fresh(2) by (simp add: edges_of_def)
  have passed: "take (Suc i) (successors g node) = take i (successors g node) @ [nxt]"
    using child by (simp add: take_Suc_conv_app_nth)
  show ?thesis
  proof (rule search_invI)
    show "map fst (df_frames ?s) = rev (df_path ?s)" using parts(1) frames by simp
    show "distinct (df_path ?s)" using parts(2) fresh by simp
    show "map_of (df_positions ?s) p = index_of (df_path ?s) p" for p
      using parts(3) [of p] index_of_None_iff [of "df_path s" nxt] fresh
      by (auto simp: update_conv' index_of_snoc split: option.splits)
    show "map_of (df_colour ?s) c = Some Gray \<longleftrightarrow> c \<in> set (df_path ?s)" for c
      using parts(4) [of c] by (simp add: update_conv')
    show "fst ` set (df_colour ?s) = fst ` set g" using fresh(2) parts(5) by (auto simp: dom_update)
    show "successively (\<lambda>a b. (a, b) \<in> edges_of g) (df_path ?s)"
      using parts(6) q(1) edge by (simp add: successively_append_iff)
    show "map_of (df_colour ?s) c \<noteq> Some White" if "c \<in> passed" for c
      using parts(8) [OF that] by (simp add: update_conv')
    assume "df_cycles ?s = []"
    then have none: "df_cycles s = []" by simp
    show "frames_ok g (black ?s) None (df_frames ?s)"
      using parts(11) [OF none] unfolding B frames by (auto simp: passed)
    show "edges_of g `` black ?s \<subseteq> black ?s" "acyclic (edges_of g \<inter> black ?s \<times> black ?s)"
      unfolding B by (fact parts(9) [OF none], fact parts(10) [OF none])
  next
    show "set (df_cycles ?s) \<subseteq> {c. (c, c) \<in> (edges_of g)\<^sup>+}" using parts(7) by simp
  qed
qed

text \<open>So the search from one root never raises, and keeps the invariant.\<close>

lemma search_step_inv:
  assumes "search_inv g passed s" and "search_step g s = Some r"
  obtains s' where "r = Inr s'" "search_inv g passed s'"
proof (cases "df_frames s")
  case Nil
  with assms(2) show ?thesis by (simp add: search_step_def)
next
  case (Cons f below)
  obtain node i where frames: "df_frames s = (node, i) # below" using Cons by (cases f) simp
  let ?nxt = "successors g node ! i"
  show ?thesis
  proof (cases "length (successors g node) \<le> i")
    case True
    with assms(2) frames inv_pop [OF assms(1) frames] that show ?thesis by (auto simp: search_step_def)
  next
    case False
    then have child: "i < length (successors g node)" by simp
    note step = assms(2) [unfolded search_step_def frames list.case prod.case Let_def if_not_P [OF False]]
    show ?thesis
    proof (cases "map_of (df_colour s) ?nxt")
      case None
      with step inv_advance [OF assms(1) frames child refl] that show ?thesis by auto
    next
      case (Some c)
      show ?thesis
      proof (cases c)
        case White
        with Some step have "r = Inr (s\<lparr>df_frames := (?nxt, 0) # (node, Suc i) # below,
            df_colour := AList.update ?nxt Gray (df_colour s),
            df_positions := AList.update ?nxt (length (df_path s)) (df_positions s), df_path := df_path s @ [?nxt]\<rparr>)"
          by (cases s) simp
        moreover have "map_of (df_colour s) ?nxt = Some White" using Some White by simp
        ultimately show ?thesis using inv_push [OF assms(1) frames child refl] that by blast
      next
        case Gray
        with Some have "map_of (df_colour s) ?nxt = Some Gray" by simp
        then obtain k where k: "map_of (df_positions s) ?nxt = Some k"
          "search_inv g passed (s\<lparr>df_frames := (node, Suc i) # below, df_cycles := df_cycles s @ drop k (df_path s)\<rparr>)"
          using inv_close [OF assms(1) frames child refl] by blast
        with Some Gray step have "r = Inr (s\<lparr>df_frames := (node, Suc i) # below,
            df_cycles := df_cycles s @ drop k (df_path s)\<rparr>)" by simp
        with k(2) that show ?thesis by blast
      next
        case Black
        with Some step inv_advance [OF assms(1) frames child refl] that show ?thesis by auto
      qed
    qed
  qed
qed

lemma search_loop_inv:
  "search_inv g passed s \<Longrightarrow> \<exists>s'. search_loop g s = Inr s' \<and> search_inv g passed s' \<and> df_frames s' = []"
proof (induction g s rule: search_loop.induct)
  case (1 g s)
  show ?case
  proof (cases "search_step g s")
    case None
    then have "df_frames s = []"
      by (auto simp: search_step_def Let_def split: list.splits option.splits colour.splits if_splits)
    with None 1 show ?thesis by (simp add: search_loop.simps [of g s])
  next
    case (Some r)
    obtain s' where "r = Inr s'" "search_inv g passed s'" using search_step_inv [OF "1.prems" Some] .
    with "1.IH" [OF Some] Some show ?thesis by (simp add: search_loop.simps [of g s])
  qed
qed

lemma no_frames_no_gray:
  assumes "search_inv g passed s" and "df_frames s = []"
  shows "map_of (df_colour s) c \<noteq> Some Gray" and "df_path s = []"
  using inv_parts(1) [OF assms(1)] inv_parts(4) [OF assms(1), of c] assms(2) by simp_all

lemma search_from_inv:
  assumes inv: "search_inv g passed s" and frames: "df_frames s = []"
    and white: "map_of (df_colour s) root = Some White"
  shows "search_inv g (insert root passed) (search_from root s)" (is "search_inv g _ ?s")
proof -
  note parts = inv_parts [OF inv]
  have B: "black ?s = black s" using white by (auto simp: black_def search_from_def update_conv')
  show ?thesis
  proof (rule search_invI)
    show "map fst (df_frames ?s) = rev (df_path ?s)" "distinct (df_path ?s)" by (simp_all add: search_from_def)
    show "map_of (df_positions ?s) p = index_of (df_path ?s) p" for p by (simp add: search_from_def)
    show "map_of (df_colour ?s) c = Some Gray \<longleftrightarrow> c \<in> set (df_path ?s)" for c
      using no_frames_no_gray(1) [OF inv frames, of c] by (simp add: search_from_def update_conv')
    show "fst ` set (df_colour ?s) = fst ` set g"
      using parts(5) inv_known [OF inv white] by (auto simp: search_from_def dom_update)
    show "successively (\<lambda>a b. (a, b) \<in> edges_of g) (df_path ?s)" by (simp add: search_from_def)
    show "set (df_cycles ?s) \<subseteq> {c. (c, c) \<in> (edges_of g)\<^sup>+}" using parts(7) by (simp add: search_from_def)
    show "map_of (df_colour ?s) c \<noteq> Some White" if "c \<in> insert root passed" for c
      using parts(8) [of c] that by (auto simp: search_from_def update_conv')
    assume "df_cycles ?s = []"
    then have none: "df_cycles s = []" by (simp add: search_from_def)
    show "edges_of g `` black ?s \<subseteq> black ?s" "acyclic (edges_of g \<inter> black ?s \<times> black ?s)"
      unfolding B by (fact parts(9) [OF none], fact parts(10) [OF none])
    show "frames_ok g (black ?s) None (df_frames ?s)" by (simp add: search_from_def)
  qed
qed

lemma search_inv_passed: "search_inv g passed s \<Longrightarrow> map_of (df_colour s) c \<noteq> Some White \<Longrightarrow> search_inv g (insert c passed) s"
  by (simp add: search_inv_def)

lemma search_roots_inv:
  "search_inv g passed s \<Longrightarrow> df_frames s = [] \<Longrightarrow>
     \<exists>s'. search_roots g roots s = Inr s' \<and> search_inv g (set roots \<union> passed) s' \<and> df_frames s' = []"
proof (induction roots arbitrary: s passed)
  case (Cons root roots)
  show ?case
  proof (cases "map_of (df_colour s) root = Some White")
    case True
    obtain s' where "search_loop g (search_from root s) = Inr s'" "search_inv g (insert root passed) s'" "df_frames s' = []"
      using search_loop_inv [OF search_from_inv [OF Cons.prems True]] by blast
    with Cons.IH [of "insert root passed" s'] True show ?thesis by simp
  next
    case False
    with Cons.IH [OF search_inv_passed [OF Cons.prems(1) False] Cons.prems(2)] show ?thesis by simp
  qed
qed simp

lemma cycle_nodes_spec:
  "\<exists>ns. cycle_nodes g = Inr ns \<and> sorted ns \<and> distinct ns \<and> set ns \<subseteq> {n. (n, n) \<in> (edges_of g)\<^sup>+} \<and>
     (ns = [] \<longleftrightarrow> acyclic (edges_of g))"
proof -
  let ?s = "\<lparr>df_colour = map (\<lambda>(k, _). (k, White)) g, df_cycles = [], df_path = [], df_positions = [], df_frames = []\<rparr>"
  have whites: "map_of (map (\<lambda>(k, _). (k, White)) g) c \<in> {None, Some White}" for c
    by (induction g) auto
  have "search_inv g {} ?s"
  proof (rule search_invI)
    show "map_of (df_colour ?s) c = Some Gray \<longleftrightarrow> c \<in> set (df_path ?s)" for c
      using whites [of c] by auto
    have "map_of (df_colour ?s) c \<noteq> Some Black" for c using whites [of c] by auto
    then have none: "black ?s = {}" by (simp add: black_def)
    show "edges_of g `` black ?s \<subseteq> black ?s" "acyclic (edges_of g \<inter> black ?s \<times> black ?s)"
      unfolding none by (simp, simp add: acyclic_def)
  qed (auto simp: image_image split_beta)
  then obtain s where s: "search_roots g (map fst g) ?s = Inr s" "search_inv g (fst ` set g) s" "df_frames s = []"
    using search_roots_inv [of g "{}" ?s "map fst g"] by auto
  note parts = inv_parts [OF s(2)]
  have "map_of (df_colour s) c = Some Black" if "c \<in> fst ` set g" for c
  proof -
    from that parts(5) obtain x where "map_of (df_colour s) c = Some x" by (metis map_of_eq_None_iff not_Some_eq)
    with parts(8) [OF that] no_frames_no_gray(1) [OF s(2,3), of c] show ?thesis by (cases x) auto
  qed
  then have "edges_of g \<inter> black s \<times> black s = edges_of g" by (auto simp: edges_of_def black_def)
  then have "df_cycles s = [] \<Longrightarrow> acyclic (edges_of g)" using parts(10) by simp
  moreover have "df_cycles s \<noteq> [] \<Longrightarrow> \<not> acyclic (edges_of g)"
    using parts(7) by (cases "df_cycles s") (auto simp: acyclic_def)
  moreover have "sort (remdups xs) = [] \<longleftrightarrow> xs = []" for xs :: "string list"
    by (metis remdups_eq_nil_iff set_empty set_sort)
  ultimately show ?thesis using s(1) parts(7) by (auto simp: cycle_nodes_def)
qed

subsection \<open>Properties\<close>

text \<open>The cycle search returns on every graph; what it reports is sorted, without repeats, and
  lies on cycles, and it reports nothing exactly when the graph has no cycle.\<close>

theorem cycle_nodes_detect:
  "\<exists>ns. cycle_nodes g = Inr ns \<and> sorted ns \<and> distinct ns \<and> set ns \<subseteq> {n. (n, n) \<in> (edges_of g)\<^sup>+} \<and>
     (ns = [] \<longleftrightarrow> acyclic (edges_of g))"
  by (rule cycle_nodes_spec)

text \<open>The search does not report every node on a cycle: here \<open>c\<close> lies on the cycle a, c, b, a,
  but its only successor is black when \<open>c\<close> is reached.\<close>

theorem cycle_nodes_partial:
  "cycle_nodes [(''a'', [''b'', ''c'']), (''b'', [''a'']), (''c'', [''b''])] = Inr [''a'', ''b''] \<and>
   (''c'', ''c'') \<in> (edges_of [(''a'', [''b'', ''c'']), (''b'', [''a'']), (''c'', [''b''])])\<^sup>+"
proof -
  let ?E = "edges_of [(''a'', [''b'', ''c'']), (''b'', [''a'']), (''c'', [''b''])]"
  have "(''c'', ''b'') \<in> ?E" "(''b'', ''a'') \<in> ?E" "(''a'', ''c'') \<in> ?E"
    by (simp_all add: edges_of_def successors_def)
  then have "(''c'', ''c'') \<in> ?E\<^sup>+" by (meson trancl.simps)
  moreover have "cycle_nodes [(''a'', [''b'', ''c'']), (''b'', [''a'']), (''c'', [''b''])] = Inr [''a'', ''b'']"
    by code_simp
  ultimately show ?thesis by simp
qed

end
