(* ===== verification/Ledger.thy ===== *)
theory Ledger
  imports Splitter
begin

text \<open>
  The text layer of the decision ledgers (\<open>work_tracker_okf/decisions.py\<close>): the tolerant parser
  of a ledger, its renderer, and the prose helpers. Text is a list of code points, since the
  rendered ledger holds em dashes; digits are the ASCII ones, blanks and line boundaries those
  of Python. A message is a list of pieces, \<open>Quoted s\<close> standing for \<open>repr(s)\<close>. The set of
  present keys is a list.
\<close>

subsection \<open>Text over code points\<close>

definition lit :: "string \<Rightarrow> codes" where
  "lit s = map of_char s"

definition lstrip_codes :: "codes \<Rightarrow> codes" where
  "lstrip_codes s = dropWhile is_blank_code s"

text \<open>\<open>str.strip\<close> for a class of characters: \<open>strip()\<close> and \<open>strip(newline)\<close>.\<close>

definition strip_by :: "('a \<Rightarrow> bool) \<Rightarrow> 'a list \<Rightarrow> 'a list" where
  "strip_by P s = rev (dropWhile P (rev (dropWhile P s)))"

definition strip_codes :: "codes \<Rightarrow> codes" where
  "strip_codes s = strip_by is_blank_code s"

definition strip_lf :: "codes \<Rightarrow> codes" where
  "strip_lf s = strip_by (\<lambda>c. c = code_LF) s"

definition is_break_code :: "int \<Rightarrow> bool" where
  "is_break_code c \<longleftrightarrow> 10 \<le> c \<and> c \<le> 13 \<or> 28 \<le> c \<and> c \<le> 30 \<or> c \<in> {133, 8232, 8233}"

definition is_digit_code :: "int \<Rightarrow> bool" where
  "is_digit_code c \<longleftrightarrow> 48 \<le> c \<and> c \<le> 57"

definition is_dash :: "int \<Rightarrow> bool" where
  "is_dash c \<longleftrightarrow> c \<in> {0x2D, 0x2013, 0x2014}"

fun digits_value :: "nat \<Rightarrow> codes \<Rightarrow> nat" where
  "digits_value acc [] = acc"
| "digits_value acc (c # cs) = digits_value (10 * acc + nat (c - 48)) cs"

text \<open>\<open>str.splitlines\<close>: a carriage return and a line feed end one line together.\<close>

function code_splitlines :: "codes \<Rightarrow> codes \<Rightarrow> codes list" where
  "code_splitlines acc [] = (if acc = [] then [] else [rev acc])"
| "code_splitlines acc (c # cs) =
     (if is_break_code c
      then rev acc # code_splitlines [] (if c = code_CR \<and> starts_with cs [code_LF] then tl cs else cs)
      else code_splitlines (c # acc) cs)"
  by pat_completeness auto
termination
  by (relation "measure (\<lambda>(acc, s). length s)") auto

definition ledger_lines :: "codes \<Rightarrow> codes list" where
  "ledger_lines text = code_splitlines [] text"

datatype piece = Txt codes | Quoted codes

type_synonym message = "piece list"

abbreviation say :: "string \<Rightarrow> piece" where
  "say s \<equiv> Txt (lit s)"

subsection \<open>Entries\<close>

definition VALID_STATUSES :: "codes list" where
  "VALID_STATUSES = [lit ''answered'', lit ''assumed'', lit ''open'', lit ''superseded'']"

definition STATUS_LIST :: string where
  "STATUS_LIST = ''['answered', 'assumed', 'open', 'superseded']''"

definition RECOGNIZED_KEYS :: "codes list" where
  "RECOGNIZED_KEYS =
     [lit ''status'', lit ''affects'', lit ''decided'', lit ''supersedes'', lit ''hold'', lit ''phase'',
      lit ''checkpoint'']"

definition HOLD_SHAPES :: "codes list" where
  "HOLD_SHAPES = [lit ''park'', lit ''skip'']"

text \<open>\<open>hold_phases()\<close>: the stages, \<open>done\<close>, and \<open>entry\<close>; sorted, as the messages show it.\<close>

definition HOLD_PHASES :: "codes list" where
  "HOLD_PHASES = map lit [''design'', ''done'', ''entry'', ''execute'', ''finish'', ''plan'']"

definition EM_DASH :: codes where "EM_DASH = [0x2014]"

definition EMPTY_VALUES :: "codes list" where
  "EMPTY_VALUES = [[], EM_DASH, [0x2013], lit ''-'', lit ''none'', lit ''None'']"

record decision =
  de_id :: codes
  de_number :: nat
  de_question :: codes
  de_status :: codes
  de_affects :: "codes list"
  de_decided :: "codes option"
  de_supersedes :: "codes option"
  de_hold :: "codes option"
  de_phase :: "codes option"
  de_checkpoint :: "codes option"
  de_prose :: codes
  de_extra :: "(codes \<times> codes) list"
  de_present :: "codes list"

record ledger_parse =
  lp_preamble :: codes
  lp_entries :: "decision list"
  lp_warnings :: "message list"

subsection \<open>Parsing\<close>

text \<open>\<open>_HEADING_RE\<close> on one line: the digits and the stripped question.\<close>

definition heading_match :: "codes \<Rightarrow> (codes \<times> codes) option" where
  "heading_match line =
     (let a = drop 2 line; b = lstrip_codes a; digits = takeWhile is_digit_code (drop 2 b);
          t = lstrip_codes (drop (length digits) (drop 2 b))
      in if \<not> starts_with line (lit ''##'') \<or> b = a \<or> \<not> starts_with b (lit ''D-'') \<or> digits = [] then None
         else if t = [] then Some (digits, [])
         else if is_dash (hd t) then Some (digits, strip_codes (dropWhile is_dash t))
         else None)"

definition is_heading :: "codes \<Rightarrow> bool" where
  "is_heading line \<longleftrightarrow> heading_match line \<noteq> None"

definition is_key_start :: "int \<Rightarrow> bool" where
  "is_key_start c \<longleftrightarrow> 65 \<le> c \<and> c \<le> 90 \<or> 97 \<le> c \<and> c \<le> 122 \<or> c = 95"

definition is_key_char :: "int \<Rightarrow> bool" where
  "is_key_char c \<longleftrightarrow> is_key_start c \<or> is_digit_code c \<or> c = 45"

text \<open>\<open>_KEY_RE\<close> on one line: the key and the stripped value.\<close>

definition key_match :: "codes \<Rightarrow> (codes \<times> codes) option" where
  "key_match line =
     (let k = takeWhile is_key_char line; rest = drop (length k) line
      in if k = [] \<or> \<not> is_key_start (hd k) \<or> \<not> starts_with rest (lit '':'') \<or> starts_with (tl rest) (lit ''//'')
         then None else Some (k, strip_codes (tl rest)))"

definition parse_affects :: "codes \<Rightarrow> codes list" where
  "parse_affects raw =
     (let v = strip_codes raw;
          inner = (if starts_with v (lit ''['') \<and> starts_with (rev v) (lit '']'') then butlast (tl v) else v)
      in filter (\<lambda>p. p \<noteq> []) (map strip_codes (split_on 0x2C inner)))"

definition optional_value :: "codes \<Rightarrow> codes option" where
  "optional_value raw = (if strip_codes raw \<in> set EMPTY_VALUES then None else Some (strip_codes raw))"

text \<open>The contiguous run of key lines below the heading, and the lines after it.\<close>

fun key_run :: "codes list \<Rightarrow> (codes \<times> codes) list \<times> codes list" where
  "key_run [] = ([], [])"
| "key_run (l # ls) =
     (if strip_codes l = [] then ([], l # ls)
      else (case key_match l of
              None \<Rightarrow> ([], l # ls)
            | Some p \<Rightarrow> (p # fst (key_run ls), snd (key_run ls))))"

fun known_keys ::
  "(codes \<times> codes) list \<Rightarrow> (codes \<times> codes) list \<Rightarrow> (codes \<times> codes) list \<times> (codes \<times> codes) list" where
  "known_keys known [] = (known, [])"
| "known_keys known ((k, v) # pairs) =
     (if k \<in> set RECOGNIZED_KEYS \<and> map_of known k = None then known_keys (known @ [(k, v)]) pairs
      else (fst (known_keys known pairs), (k, v) # snd (known_keys known pairs)))"

definition known_value :: "(codes \<times> codes) list \<Rightarrow> string \<Rightarrow> codes" where
  "known_value known k = (case map_of known (lit k) of None \<Rightarrow> [] | Some v \<Rightarrow> v)"

text \<open>The status field: a trailing comment is dropped, an unknown status read as missing.\<close>

definition uncommented :: "codes \<Rightarrow> codes" where
  "uncommented raw = (if 0x23 \<in> set raw then strip_codes (takeWhile (\<lambda>c. c \<noteq> 0x23) raw) else raw)"

definition parse_status :: "codes \<Rightarrow> codes" where
  "parse_status raw = (if uncommented raw \<in> set VALID_STATUSES then uncommented raw else [])"

definition status_warnings :: "codes \<Rightarrow> codes \<Rightarrow> message list" where
  "status_warnings entry_id raw =
     (if 0x23 \<in> set raw
      then [[Txt entry_id, say '': dropped trailing comment from status (comments are not part of the format)'']]
      else [])
     @ (if uncommented raw = [] then [[Txt entry_id, say '': missing status; expected one of '', say STATUS_LIST]]
        else if uncommented raw \<notin> set VALID_STATUSES
        then [[Txt entry_id, say '': invalid status '', Quoted (uncommented raw), say ''; expected one of '',
               say STATUS_LIST]]
        else [])"

definition hold_warnings :: "codes \<Rightarrow> codes option \<Rightarrow> codes option \<Rightarrow> message list" where
  "hold_warnings entry_id hold phase =
     (case hold of
        Some h \<Rightarrow> if h \<in> set HOLD_SHAPES then []
                   else [[Txt entry_id, say '': invalid hold '', Quoted h, say ''; expected one of ['park', 'skip']'']]
      | None \<Rightarrow> [])
     @ (case phase of
          Some p \<Rightarrow> if p \<in> set HOLD_PHASES then []
                     else [[Txt entry_id, say '': invalid phase '', Quoted p,
                       say ''; expected one of ['design', 'done', 'entry', 'execute', 'finish', 'plan']'']]
        | None \<Rightarrow> [])"

text \<open>One section; its first line is a heading, so the \<open>None\<close> is the code's assertion.\<close>

definition parse_entry :: "codes list \<Rightarrow> (decision \<times> message list) option" where
  "parse_entry block =
     (case block of
        [] \<Rightarrow> None
      | first # below \<Rightarrow>
          (case heading_match first of
             None \<Rightarrow> None
           | Some (digits, question) \<Rightarrow>
               let entry_id = lit ''D-'' @ digits;
                   (pairs, rest) = key_run below;
                   (known, extra) = known_keys [] pairs;
                   raw = known_value known ''status'';
                   hold = optional_value (known_value known ''hold'');
                   phase = optional_value (known_value known ''phase'')
               in Some
                    (\<lparr>de_id = entry_id, de_number = digits_value 0 digits, de_question = question,
                      de_status = parse_status raw,
                      de_affects = parse_affects (known_value known ''affects''),
                      de_decided = optional_value (known_value known ''decided''),
                      de_supersedes = optional_value (known_value known ''supersedes''),
                      de_hold = hold, de_phase = phase,
                      de_checkpoint = optional_value (known_value known ''checkpoint''),
                      de_prose = strip_lf (join [code_LF] rest),
                      de_extra = extra, de_present = map fst known\<rparr>,
                     (if question = [] then [[Txt entry_id, say '': heading has no question text'']] else [])
                     @ status_warnings entry_id raw @ hold_warnings entry_id hold phase)))"

text \<open>The sections: each heading with the lines up to the next one.\<close>

fun sections :: "codes list \<Rightarrow> codes list list" where
  "sections [] = []"
| "sections (l # ls) =
     (if is_heading l then (l # takeWhile (\<lambda>x. \<not> is_heading x) ls) # sections ls else sections ls)"

fun collect_entries :: "nat list \<Rightarrow> (decision \<times> message list) list \<Rightarrow> message list" where
  "collect_entries seen [] = []"
| "collect_entries seen ((entry, warnings) # rest) =
     warnings
     @ (if de_number entry \<in> set seen then [[Txt (de_id entry), say '': duplicate id'']] else [])
     @ collect_entries (de_number entry # seen) rest"

definition parse_ledger :: "codes \<Rightarrow> ledger_parse" where
  "parse_ledger text =
     (let lines = ledger_lines text; parsed = List.map_filter parse_entry (sections lines)
      in if \<not> list_ex is_heading lines
         then \<lparr>lp_preamble = text, lp_entries = [], lp_warnings = []\<rparr>
         else \<lparr>lp_preamble = join [code_LF] (takeWhile (\<lambda>l. \<not> is_heading l) lines),
               lp_entries = map fst parsed, lp_warnings = collect_entries [] parsed\<rparr>)"

subsection \<open>Rendering\<close>

definition present :: "decision \<Rightarrow> string \<Rightarrow> bool" where
  "present d key \<longleftrightarrow> lit key \<in> set (de_present d)"

text \<open>\<open>value or em dash\<close>.\<close>

definition or_dash :: "codes option \<Rightarrow> codes" where
  "or_dash v = (case v of None \<Rightarrow> EM_DASH | Some s \<Rightarrow> if s = [] then EM_DASH else s)"

definition key_line :: "codes \<Rightarrow> codes \<Rightarrow> codes" where
  "key_line k v = k @ lit '': '' @ v"

definition recognized_pairs :: "decision \<Rightarrow> (codes \<times> codes) list" where
  "recognized_pairs d =
     [(lit ''status'', de_status d)]
     @ (if present d ''affects''
        then [(lit ''affects'', lit ''['' @ join (lit '', '') (de_affects d) @ lit '']'')] else [])
     @ (if present d ''decided'' then [(lit ''decided'', or_dash (de_decided d))] else [])
     @ (if present d ''supersedes'' then [(lit ''supersedes'', or_dash (de_supersedes d))] else [])
     @ (if present d ''hold'' then [(lit ''hold'', or_dash (de_hold d))] else [])
     @ (if present d ''phase'' then [(lit ''phase'', or_dash (de_phase d))] else [])
     @ (if present d ''checkpoint'' then [(lit ''checkpoint'', or_dash (de_checkpoint d))] else [])"

definition heading_line :: "decision \<Rightarrow> codes" where
  "heading_line d =
     lit ''## '' @ de_id d @ (if de_question d = [] then [] else lit '' '' @ EM_DASH @ lit '' '' @ de_question d)"

definition render_entry :: "decision \<Rightarrow> codes" where
  "render_entry d =
     (let ls = heading_line d # map (\<lambda>(k, v). key_line k v) (recognized_pairs d @ de_extra d);
          prose = strip_lf (de_prose d)
      in join [code_LF] ls @ (if prose = [] then [] else [code_LF, code_LF] @ prose) @ [code_LF])"

definition render_ledger :: "codes \<Rightarrow> decision list \<Rightarrow> codes" where
  "render_ledger preamble entries =
     (let head = strip_lf preamble
      in join [code_LF] ((if head = [] then [] else [head @ [code_LF]])
           @ map render_entry (sort_key de_number entries)))"

subsection \<open>Lines\<close>

definition no_breaks :: "codes \<Rightarrow> bool" where
  "no_breaks s \<longleftrightarrow> (\<forall>c \<in> set s. \<not> is_break_code c)"

lemma no_breaks_simps [simp]:
  "no_breaks []" "no_breaks (c # s) \<longleftrightarrow> \<not> is_break_code c \<and> no_breaks s"
  "no_breaks (s @ t) \<longleftrightarrow> no_breaks s \<and> no_breaks t"
  by (auto simp: no_breaks_def)

lemma LF_is_break [simp]: "is_break_code code_LF" "is_break_code 10"
  by (simp_all add: is_break_code_def code_LF_def)

lemma CR_not_code_LF [simp]: "code_CR \<noteq> code_LF" "code_LF \<noteq> code_CR"
  by (simp_all add: code_CR_def code_LF_def)

lemma no_breaks_LF: "no_breaks s \<Longrightarrow> code_LF \<notin> set s"
  by (auto simp: no_breaks_def)

lemma splitlines_line:
  "no_breaks w \<Longrightarrow> code_splitlines acc (w @ code_LF # s) = (rev acc @ w) # code_splitlines [] s"
  by (induction w arbitrary: acc) auto

lemma ledger_lines_join:
  "list_all no_breaks ls \<Longrightarrow> ls \<noteq> [] \<Longrightarrow> ledger_lines (join [code_LF] ls @ [code_LF]) = ls"
proof (induction ls)
  case (Cons l ls)
  then show ?case
    by (cases "ls = []") (simp_all add: ledger_lines_def splitlines_line join_Cons)
qed simp

lemma splitlines_no_breaks:
  "no_breaks acc \<Longrightarrow> list_all no_breaks (code_splitlines acc s)"
  by (induction acc s rule: code_splitlines.induct) (auto simp: no_breaks_def)

lemma ledger_lines_no_breaks: "list_all no_breaks (ledger_lines s)"
  by (simp add: ledger_lines_def splitlines_no_breaks)

lemma splitlines_LFs: "set (code_splitlines [] (replicate n code_LF)) \<subseteq> {[]}"
  by (induction n) auto

lemma splitlines_trailing:
  "insert [] (set (code_splitlines acc (s @ replicate n code_LF))) = insert [] (set (code_splitlines acc s))"
proof (induction acc s rule: code_splitlines.induct)
  case (1 acc)
  then show ?case using splitlines_LFs [of "n - 1"] by (cases n) auto
next
  case (2 acc c cs)
  show ?case
  proof (cases "is_break_code c")
    case True
    show ?thesis
    proof (cases "c = code_CR \<and> cs = []")
      case True
      then show ?thesis using splitlines_LFs [of n] splitlines_LFs [of "n - 1"] \<open>is_break_code c\<close>
        by (cases n) (auto simp: starts_with_def)
    next
      case False
      then have same: "(if c = code_CR \<and> starts_with (cs @ replicate n code_LF) [code_LF]
          then tl (cs @ replicate n code_LF) else cs @ replicate n code_LF) =
        (if c = code_CR \<and> starts_with cs [code_LF] then tl cs else cs) @ replicate n code_LF"
        by (cases cs) (auto simp: starts_with_def)
      have "insert [] (insert (rev acc) X) = insert (rev acc) (insert [] X)" for X :: "codes set" by blast
      with "2.IH"(1) [OF True] True show ?thesis by (simp only: append_Cons code_splitlines.simps if_True same list.set)
    qed
  next
    case False
    with "2.IH"(2) [OF False] show ?thesis by simp
  qed
qed

subsection \<open>Stripping\<close>

lemma LF_blank [simp]: "is_blank_code code_LF" "is_blank_code 32"
  by (simp_all add: is_blank_code_def code_LF_def)

lemma break_is_blank: "is_break_code c \<Longrightarrow> is_blank_code c"
  by (auto simp: is_break_code_def is_blank_code_def)

lemma strip_by_Nil [simp]: "strip_by P [] = []"
  by (simp add: strip_by_def)

lemma strip_by_Cons: "P c \<Longrightarrow> strip_by P (c # s) = strip_by P s"
  by (simp add: strip_by_def)

lemma strip_by_snoc: "P c \<Longrightarrow> strip_by P (s @ [c]) = strip_by P s"
proof (cases "\<forall>x \<in> set s. P x")
  case True
  assume "P c"
  with True have "dropWhile P (s @ [c]) = []" "dropWhile P s = []" by auto
  then show ?thesis by (simp only: strip_by_def)
next
  case False
  assume "P c"
  with False show ?thesis by (auto simp: strip_by_def dropWhile_append1)
qed

lemma strip_by_keep:
  assumes "s = [] \<or> \<not> P (hd s) \<and> \<not> P (last s)"
  shows "strip_by P s = s"
proof (cases "s = []")
  case False
  with assms have "dropWhile P s = s" by (cases s) auto
  moreover have "dropWhile P (rev s) = rev s" using assms False by (cases "rev s") (auto simp: hd_rev [symmetric])
  ultimately show ?thesis by (simp add: strip_by_def)
qed simp

lemma strip_by_parts:
  obtains a b where "s = a @ strip_by P s @ b" "\<forall>c \<in> set a. P c" "\<forall>c \<in> set b. P c"
proof (rule that)
  let ?t = "dropWhile P s"
  have "?t = rev (dropWhile P (rev ?t)) @ rev (takeWhile P (rev ?t))"
    by (metis rev_append rev_rev_ident takeWhile_dropWhile_id)
  then show "s = takeWhile P s @ strip_by P s @ rev (takeWhile P (rev ?t))"
    unfolding strip_by_def by (metis takeWhile_dropWhile_id)
qed (auto dest: set_takeWhileD)

lemma strip_by_ends:
  assumes "strip_by P s \<noteq> []"
  shows "\<not> P (hd (strip_by P s)) \<and> \<not> P (last (strip_by P s))"
proof -
  let ?t = "dropWhile P s"
  have "?t = strip_by P s @ rev (takeWhile P (rev ?t))"
    unfolding strip_by_def by (metis rev_append rev_rev_ident takeWhile_dropWhile_id)
  then have "hd (strip_by P s) = hd ?t" "?t \<noteq> []"
    using assms by (metis hd_append2) (use assms in \<open>force simp: strip_by_def simp del: dropWhile_eq_Nil_conv\<close>)
  moreover have "last (strip_by P s) = hd (dropWhile P (rev ?t))" using assms by (simp add: strip_by_def last_rev)
  ultimately show ?thesis
    using hd_dropWhile [of P s] hd_dropWhile [of P "rev ?t"] assms by (auto simp: strip_by_def)
qed

lemma strip_by_idem [simp]: "strip_by P (strip_by P s) = strip_by P s"
  using strip_by_ends [of P s] by (intro strip_by_keep) blast

lemma set_strip_by: "set (strip_by P s) \<subseteq> set s"
  by (auto simp: strip_by_def dest!: set_dropWhileD)

lemma strip_codes_simps [simp]:
  "strip_codes [] = []" "is_blank_code c \<Longrightarrow> strip_codes (c # s) = strip_codes s"
  "strip_codes (strip_codes s) = strip_codes s"
  by (simp_all add: strip_codes_def strip_by_Cons)

lemma strip_lf_simps [simp]:
  "strip_lf [] = []" "strip_lf (code_LF # s) = strip_lf s" "strip_lf (s @ [code_LF]) = strip_lf s"
  "strip_lf (strip_lf s) = strip_lf s"
  by (simp_all add: strip_lf_def strip_by_Cons strip_by_snoc)

lemma no_breaks_strip: "no_breaks s \<Longrightarrow> no_breaks (strip_codes s)"
  using set_strip_by by (fastforce simp: no_breaks_def strip_codes_def)

lemma strip_lf_parts:
  obtains a b where "s = replicate a code_LF @ strip_lf s @ replicate b code_LF"
proof -
  obtain a b where "s = a @ strip_lf s @ b" "\<forall>c \<in> set a. c = code_LF" "\<forall>c \<in> set b. c = code_LF"
    unfolding strip_lf_def by (rule strip_by_parts)
  with that show ?thesis by (metis replicate_length_same)
qed

lemma split_on_LFs:
  "split_on d (replicate a d @ s @ replicate b d) = replicate a [] @ split_on d s @ replicate b []"
proof -
  have "split_on d (replicate b d) = replicate (Suc b) []" by (induction b) simp_all
  then have "split_on d (s @ replicate b d) = split_on d s @ replicate b []"
    by (cases b) (simp_all add: split_on_append_sep del: split_on.simps, metis split_on.simps(2) list.inject)
  then show ?thesis by (induction a) simp_all
qed

lemma set_split_strip_lf: "set (split_on code_LF (strip_lf s)) \<subseteq> set (split_on code_LF s)"
proof -
  obtain a b where "s = replicate a code_LF @ strip_lf s @ replicate b code_LF" by (rule strip_lf_parts)
  then have "split_on code_LF s = replicate a [] @ split_on code_LF (strip_lf s) @ replicate b []"
    by (metis split_on_LFs)
  then show ?thesis by auto
qed

lemma ledger_lines_strip_lf:
  "insert [] (set (ledger_lines (strip_lf s @ [code_LF]))) = insert [] (set (ledger_lines s))"
proof -
  obtain a b where s: "s = replicate a code_LF @ strip_lf s @ replicate b code_LF" by (rule strip_lf_parts)
  have lead: "insert [] (set (code_splitlines [] (replicate n code_LF @ t))) = insert [] (set (code_splitlines [] t))" for n t
    by (induction n) auto
  have "insert [] (set (ledger_lines s)) = insert [] (set (ledger_lines (strip_lf s)))"
    unfolding ledger_lines_def by (subst s) (simp only: lead splitlines_trailing)
  moreover have "insert [] (set (ledger_lines (strip_lf s @ [code_LF]))) = insert [] (set (ledger_lines (strip_lf s)))"
    using splitlines_trailing [of "[]" "strip_lf s" 1] by (simp add: ledger_lines_def)
  ultimately show ?thesis by simp
qed

subsection \<open>Reading a rendered entry\<close>

definition wf_value :: "codes \<Rightarrow> bool" where
  "wf_value v \<longleftrightarrow> strip_codes v = v \<and> no_breaks v"

definition wf_key :: "codes \<Rightarrow> bool" where
  "wf_key k \<longleftrightarrow> k \<noteq> [] \<and> is_key_start (hd k) \<and> list_all is_key_char k"

definition wf_field :: "decision \<Rightarrow> string \<Rightarrow> codes option \<Rightarrow> bool" where
  "wf_field d key v \<longleftrightarrow>
     (case v of None \<Rightarrow> True | Some x \<Rightarrow> x \<notin> set EMPTY_VALUES \<and> wf_value x \<and> present d key)"

definition wf_affects :: "codes list \<Rightarrow> bool" where
  "wf_affects as \<longleftrightarrow> list_all (\<lambda>a. wf_value a \<and> a \<noteq> [] \<and> 0x2C \<notin> set a) as"

text \<open>What the parser answers, and all that the renderer needs to be inverted.\<close>

definition wf_decision :: "decision \<Rightarrow> bool" where
  "wf_decision d \<longleftrightarrow>
     (\<exists>ds. ds \<noteq> [] \<and> list_all is_digit_code ds \<and> de_id d = lit ''D-'' @ ds \<and> de_number d = digits_value 0 ds) \<and>
     wf_value (de_question d) \<and> (de_status d = [] \<or> de_status d \<in> set VALID_STATUSES) \<and>
     wf_affects (de_affects d) \<and> (de_affects d \<noteq> [] \<longrightarrow> present d ''affects'') \<and>
     wf_field d ''decided'' (de_decided d) \<and> wf_field d ''supersedes'' (de_supersedes d) \<and>
     wf_field d ''hold'' (de_hold d) \<and> wf_field d ''phase'' (de_phase d) \<and>
     wf_field d ''checkpoint'' (de_checkpoint d) \<and>
     list_all (\<lambda>(k, v). wf_key k \<and> wf_value v \<and>
       (k \<in> set RECOGNIZED_KEYS \<longrightarrow> k = lit ''status'' \<or> k \<in> set (de_present d))) (de_extra d) \<and>
     strip_lf (de_prose d) = de_prose d \<and>
     list_all (\<lambda>l. no_breaks l \<and> \<not> is_heading l) (split_on code_LF (de_prose d))"

text \<open>The rendered entry keeps everything but the record of which keys were written.\<close>

definition restored :: "decision \<Rightarrow> decision" where
  "restored d = d\<lparr>de_present := map fst (recognized_pairs d)\<rparr>"

lemma key_match_line:
  assumes "wf_key k" and "strip_codes v = v"
  shows "key_match (key_line k v) = Some (k, v)"
proof -
  have "\<not> is_key_char 58" by (simp add: is_key_char_def is_key_start_def is_digit_code_def)
  then have "takeWhile is_key_char (key_line k v) = k"
    using assms(1) by (simp add: key_line_def lit_def wf_key_def list_all_iff)
  then show ?thesis
    using assms by (simp add: key_match_def key_line_def lit_def wf_key_def starts_with_def)
qed

lemma key_line_not_heading: "wf_key k \<Longrightarrow> \<not> is_heading (key_line k v)"
  by (cases k) (auto simp: is_heading_def heading_match_def key_line_def lit_def wf_key_def starts_with_def
      is_key_start_def Let_def)

lemma key_start_not_blank: "is_key_char c \<Longrightarrow> \<not> is_blank_code c"
  by (auto simp: is_key_char_def is_key_start_def is_digit_code_def is_blank_code_def)

lemma key_line_not_blank:
  assumes "wf_key k"
  shows "strip_codes (key_line k v) \<noteq> []"
proof -
  obtain c s where k: "k = c # s" "is_key_char c" using assms by (cases k) (auto simp: wf_key_def)
  obtain a b where "key_line k v = a @ strip_codes (key_line k v) @ b" "\<forall>c \<in> set a. is_blank_code c" "\<forall>c \<in> set b. is_blank_code c"
    unfolding strip_codes_def by (rule strip_by_parts)
  moreover have "c \<in> set (key_line k v)" by (simp add: key_line_def k)
  ultimately show ?thesis using key_start_not_blank [OF k(2)] by (metis Un_iff append_Nil set_append)
qed

lemma key_run_lines:
  assumes "list_all (\<lambda>(k, v). wf_key k \<and> strip_codes v = v) pairs" and "rest = [] \<or> strip_codes (hd rest) = []"
  shows "key_run (map (\<lambda>(k, v). key_line k v) pairs @ rest) = (pairs, rest)"
  using assms
proof (induction pairs)
  case Nil
  then show ?case by (cases rest) auto
next
  case (Cons p pairs)
  then show ?case by (cases p) (simp add: key_match_line key_line_not_blank)
qed

lemma known_keys_extra:
  "list_all (\<lambda>(k, v). k \<in> set RECOGNIZED_KEYS \<longrightarrow> map_of known k \<noteq> None) extra \<Longrightarrow>
     known_keys known extra = (known, extra)"
  by (induction extra) auto

lemma known_keys_pairs:
  "set (map fst pairs) \<subseteq> set RECOGNIZED_KEYS \<Longrightarrow> distinct (map fst (known @ pairs)) \<Longrightarrow>
     known_keys known (pairs @ extra) = known_keys (known @ pairs) extra"
proof (induction pairs arbitrary: known)
  case (Cons p pairs)
  obtain k v where p: "p = (k, v)" by (cases p)
  from Cons.prems have "map_of known k = None" by (auto simp: p map_of_eq_None_iff)
  with Cons.prems Cons.IH [of "known @ [p]"] show ?case by (simp add: p)
qed simp

lemma heading_match_line:
  assumes "ds \<noteq> []" and "list_all is_digit_code ds" and "strip_codes q = q"
  shows "heading_match (lit ''## '' @ (lit ''D-'' @ ds) @
    (if q = [] then [] else lit '' '' @ EM_DASH @ lit '' '' @ q)) = Some (ds, q)"
proof -
  let ?tail = "if q = [] then [] else lit '' '' @ EM_DASH @ lit '' '' @ q"
  have D: "\<not> is_blank_code 68" "\<not> is_digit_code 32" by (simp_all add: is_blank_code_def is_digit_code_def)
  have "takeWhile is_digit_code (ds @ ?tail) = ds"
    using assms(2) D by (simp add: list_all_iff lit_def)
  moreover have "lstrip_codes ?tail = (if q = [] then [] else EM_DASH @ lit '' '' @ q)"
    by (simp add: lstrip_codes_def lit_def EM_DASH_def is_blank_code_def)
  moreover have "is_dash 0x2014" "\<not> is_dash 32" by (simp_all add: is_dash_def)
  ultimately show ?thesis
    using assms(1,3) D
    by (simp add: heading_match_def Let_def starts_with_def lit_def lstrip_codes_def EM_DASH_def)
qed

lemma split_affects:
  assumes "wf_affects as" and "as \<noteq> []"
  shows "map strip_codes (split_on 0x2C (join (lit '', '') as)) = as"
  using assms
proof (induction as)
  case (Cons a as)
  then have a: "strip_codes a = a" "0x2C \<notin> set a" and as: "wf_affects as"
    by (simp_all add: wf_affects_def wf_value_def)
  show ?case
  proof (cases "as = []")
    case True
    with a show ?thesis by (simp add: split_on_single)
  next
    case False
    have blank: "map strip_codes (split_on 0x2C (32 # s)) = map strip_codes (split_on 0x2C s)" for s
      by (cases "split_on 0x2C s") simp_all
    have "join (lit '', '') (a # as) = a @ 0x2C # 32 # join (lit '', '') as"
      using False by (simp add: join_Cons lit_def)
    with a Cons.IH [OF as False] show ?thesis
      by (simp only: split_on_append [OF a(2)] list.map blank)
  qed
qed simp

lemma parse_affects_rendered:
  assumes "wf_affects as"
  shows "parse_affects (lit ''['' @ join (lit '', '') as @ lit '']'') = as"
proof -
  let ?inner = "join (lit '', '') as"
  have strip: "strip_codes (lit ''['' @ ?inner @ lit '']'') = lit ''['' @ ?inner @ lit '']''"
    unfolding strip_codes_def by (rule strip_by_keep) (simp add: lit_def is_blank_code_def)
  have "butlast (tl (lit ''['' @ ?inner @ lit '']'')) = ?inner" "starts_with (lit ''['' @ ?inner @ lit '']'') (lit ''['')"
    "starts_with (rev (lit ''['' @ ?inner @ lit '']'')) (lit '']'')"
    by (simp_all add: lit_def starts_with_def)
  then have "parse_affects (lit ''['' @ ?inner @ lit '']'') =
      filter (\<lambda>p. p \<noteq> []) (map strip_codes (split_on 0x2C ?inner))"
    by (simp only: parse_affects_def strip Let_def if_True simp_thms)
  also have "\<dots> = as"
  proof (cases "as = []")
    case False
    then show ?thesis
      unfolding split_affects [OF assms False] using assms by (simp add: wf_affects_def filter_id_conv list_all_iff)
  qed simp
  finally show ?thesis .
qed

lemma empty_values_stripped: "v \<in> set EMPTY_VALUES \<Longrightarrow> strip_codes v = v"
  by (auto simp: EMPTY_VALUES_def EM_DASH_def lit_def strip_codes_def is_blank_code_def intro!: strip_by_keep)

lemma or_dash_simps [simp]: "or_dash None = EM_DASH" "s \<noteq> [] \<Longrightarrow> or_dash (Some s) = s"
  by (simp_all add: or_dash_def)

lemma field_rendered:
  assumes "wf_field d key v"
  shows "strip_codes (or_dash v) = or_dash v" "no_breaks (or_dash v)" "optional_value (or_dash v) = v"
proof -
  have dash: "EM_DASH \<in> set EMPTY_VALUES" by (simp add: EMPTY_VALUES_def)
  have none: "optional_value EM_DASH = None" "no_breaks EM_DASH"
    using empty_values_stripped [OF dash] dash by (simp_all add: optional_value_def EM_DASH_def is_break_code_def)
  have nil: "[] \<in> set EMPTY_VALUES" by (simp add: EMPTY_VALUES_def)
  show "strip_codes (or_dash v) = or_dash v" "no_breaks (or_dash v)" "optional_value (or_dash v) = v"
    using assms none empty_values_stripped [OF dash] nil
    by (cases v; fastforce simp: wf_field_def wf_value_def or_dash_def optional_value_def)+
qed

text \<open>The recognized pairs of an entry, key by key.\<close>

lemma lit_inject [simp]: "lit s = lit t \<longleftrightarrow> s = t"
  by (simp add: lit_def inj_map_eq_map [OF inj_of_char])

lemma recognized_pairs_keys:
  "map fst (recognized_pairs d) =
     filter (\<lambda>k. k = lit ''status'' \<or> k \<in> set (de_present d)) RECOGNIZED_KEYS"
  by (simp add: recognized_pairs_def RECOGNIZED_KEYS_def present_def)

lemma distinct_recognized [simp]: "distinct RECOGNIZED_KEYS"
  by (simp add: RECOGNIZED_KEYS_def)

lemma recognized_value:
  "known_value (recognized_pairs d) ''status'' = de_status d"
  "known_value (recognized_pairs d) ''affects'' =
     (if present d ''affects'' then lit ''['' @ join (lit '', '') (de_affects d) @ lit '']'' else [])"
  "known_value (recognized_pairs d) ''decided'' = (if present d ''decided'' then or_dash (de_decided d) else [])"
  "known_value (recognized_pairs d) ''supersedes'' = (if present d ''supersedes'' then or_dash (de_supersedes d) else [])"
  "known_value (recognized_pairs d) ''hold'' = (if present d ''hold'' then or_dash (de_hold d) else [])"
  "known_value (recognized_pairs d) ''phase'' = (if present d ''phase'' then or_dash (de_phase d) else [])"
  "known_value (recognized_pairs d) ''checkpoint'' = (if present d ''checkpoint'' then or_dash (de_checkpoint d) else [])"
  by (simp_all add: known_value_def recognized_pairs_def)

lemma optional_value_Nil [simp]: "optional_value [] = None"
  by (simp add: optional_value_def EMPTY_VALUES_def)

lemma field_known:
  "wf_field d key v \<Longrightarrow> optional_value (if present d key then or_dash v else []) = v"
  using field_rendered(3) [of d key v] by (cases v) (simp_all add: wf_field_def)

lemma status_rendered:
  assumes "s = [] \<or> s \<in> set VALID_STATUSES"
  shows "strip_codes s = s" "no_breaks s" "parse_status s = s"
  using assms
  by (auto simp: VALID_STATUSES_def lit_def parse_status_def uncommented_def strip_codes_def is_blank_code_def
      is_break_code_def intro!: strip_by_keep)

lemma recognized_wf_key: "k \<in> set RECOGNIZED_KEYS \<Longrightarrow> wf_key k"
  by (auto simp: RECOGNIZED_KEYS_def wf_key_def lit_def is_key_char_def is_key_start_def)

lemma wf_affects_line:
  assumes "wf_affects as"
  shows "strip_codes (lit ''['' @ join (lit '', '') as @ lit '']'') = lit ''['' @ join (lit '', '') as @ lit '']''"
    and "no_breaks (lit ''['' @ join (lit '', '') as @ lit '']'')"
proof -
  show "strip_codes (lit ''['' @ join (lit '', '') as @ lit '']'') = lit ''['' @ join (lit '', '') as @ lit '']''"
    unfolding strip_codes_def by (rule strip_by_keep) (simp add: lit_def is_blank_code_def)
  have "no_breaks (join (lit '', '') as)"
    using assms
  proof (induction as)
    case (Cons a as)
    then show ?case
      by (cases "as = []") (auto simp: wf_affects_def wf_value_def join_Cons lit_def is_break_code_def)
  qed simp
  then show "no_breaks (lit ''['' @ join (lit '', '') as @ lit '']'')" by (simp add: lit_def is_break_code_def)
qed

lemma recognized_pairs_wf:
  assumes "wf_decision d"
  shows "list_all (\<lambda>(k, v). wf_key k \<and> strip_codes v = v \<and> no_breaks v) (recognized_pairs d)"
proof -
  have keys: "wf_key (lit k)" if "lit k \<in> set RECOGNIZED_KEYS" for k using that by (rule recognized_wf_key)
  have mem: "lit ''status'' \<in> set RECOGNIZED_KEYS" "lit ''affects'' \<in> set RECOGNIZED_KEYS"
    "lit ''decided'' \<in> set RECOGNIZED_KEYS" "lit ''supersedes'' \<in> set RECOGNIZED_KEYS" "lit ''hold'' \<in> set RECOGNIZED_KEYS"
    "lit ''phase'' \<in> set RECOGNIZED_KEYS" "lit ''checkpoint'' \<in> set RECOGNIZED_KEYS"
    by (simp_all add: RECOGNIZED_KEYS_def)
  note wf = assms [unfolded wf_decision_def]
  have affects: "wf_affects (de_affects d)" and status: "de_status d = [] \<or> de_status d \<in> set VALID_STATUSES"
    and fields: "wf_field d ''decided'' (de_decided d)" "wf_field d ''supersedes'' (de_supersedes d)"
    "wf_field d ''hold'' (de_hold d)" "wf_field d ''phase'' (de_phase d)" "wf_field d ''checkpoint'' (de_checkpoint d)"
    using wf by blast+
  show ?thesis
    unfolding recognized_pairs_def
    using keys mem wf_affects_line [OF affects] status_rendered [OF status] field_rendered(1,2) [OF fields(1)]
      field_rendered(1,2) [OF fields(2)] field_rendered(1,2) [OF fields(3)] field_rendered(1,2) [OF fields(4)]
      field_rendered(1,2) [OF fields(5)]
    by simp
qed

subsection \<open>Entries of a rendered ledger\<close>

definition prose_lines :: "decision \<Rightarrow> codes list" where
  "prose_lines d = (if de_prose d = [] then [] else [] # split_on code_LF (de_prose d))"

definition entry_lines :: "decision \<Rightarrow> codes list" where
  "entry_lines d =
     heading_line d # map (\<lambda>(k, v). key_line k v) (recognized_pairs d @ de_extra d) @ prose_lines d"

lemma render_entry_lines:
  assumes "wf_decision d"
  shows "render_entry d = join [code_LF] (entry_lines d) @ [code_LF]"
proof -
  have "strip_lf (de_prose d) = de_prose d" using assms by (simp add: wf_decision_def)
  moreover have "join [code_LF] (ls @ [] # split_on code_LF p) = join [code_LF] ls @ [code_LF, code_LF] @ p"
    if "ls \<noteq> []" for ls p
    using that by (simp add: join_append join_Cons)
  ultimately show ?thesis
    unfolding render_entry_def entry_lines_def prose_lines_def Let_def append_Cons [symmetric]
    by (cases "de_prose d = []") (simp_all del: append_Cons map_append)
qed

lemma all_pairs_wf:
  assumes "wf_decision d"
  shows "list_all (\<lambda>(k, v). wf_key k \<and> strip_codes v = v \<and> no_breaks v) (recognized_pairs d @ de_extra d)"
  using recognized_pairs_wf [OF assms] assms
  by (auto simp: wf_decision_def wf_value_def list_all_iff)

lemma known_rendered:
  assumes "wf_decision d"
  shows "known_keys [] (recognized_pairs d @ de_extra d) = (recognized_pairs d, de_extra d)"
proof -
  have keys: "set (map fst (recognized_pairs d)) \<subseteq> set RECOGNIZED_KEYS" "distinct (map fst (recognized_pairs d))"
    unfolding recognized_pairs_keys by auto
  have "list_all (\<lambda>(k, v). k \<in> set RECOGNIZED_KEYS \<longrightarrow> map_of (recognized_pairs d) k \<noteq> None) (de_extra d)"
  proof -
    have "map_of (recognized_pairs d) k \<noteq> None" if "k \<in> set RECOGNIZED_KEYS" "k = lit ''status'' \<or> k \<in> set (de_present d)" for k
    proof -
      have "k \<in> set (map fst (recognized_pairs d))" unfolding recognized_pairs_keys using that by simp
      then show ?thesis by (simp add: map_of_eq_None_iff)
    qed
    with assms show ?thesis by (fastforce simp: wf_decision_def list_all_iff)
  qed
  then show ?thesis
    using known_keys_pairs [of "recognized_pairs d" "[]" "de_extra d"] keys known_keys_extra [of "recognized_pairs d" "de_extra d"]
    by simp
qed

lemma heading_line_match:
  assumes "wf_decision d"
  shows "\<exists>ds. heading_match (heading_line d) = Some (ds, de_question d) \<and> de_id d = lit ''D-'' @ ds \<and>
    de_number d = digits_value 0 ds"
proof -
  obtain ds where ds: "ds \<noteq> []" "list_all is_digit_code ds" "de_id d = lit ''D-'' @ ds" "de_number d = digits_value 0 ds"
    using assms by (auto simp: wf_decision_def)
  have "strip_codes (de_question d) = de_question d" using assms by (simp add: wf_decision_def wf_value_def)
  from heading_match_line [OF ds(1,2) this] ds show ?thesis by (simp add: heading_line_def)
qed

lemma parse_entry_rendered:
  assumes "wf_decision d" and "blank = [] \<or> blank = [[]]"
  shows "\<exists>w. parse_entry (entry_lines d @ blank) = Some (restored d, w)"
proof -
  obtain ds where ds: "heading_match (heading_line d) = Some (ds, de_question d)" "de_id d = lit ''D-'' @ ds"
    "de_number d = digits_value 0 ds" using heading_line_match [OF assms(1)] by blast
  let ?pairs = "recognized_pairs d @ de_extra d" and ?rest = "prose_lines d @ blank"
  have "?rest = [] \<or> strip_codes (hd ?rest) = []" using assms(2) by (auto simp: prose_lines_def)
  then have run: "key_run (map (\<lambda>(k, v). key_line k v) ?pairs @ ?rest) = (?pairs, ?rest)"
    using all_pairs_wf [OF assms(1)] by (intro key_run_lines) (auto simp: list_all_iff)
  note wf = assms(1) [unfolded wf_decision_def]
  have prose: "strip_lf (join [code_LF] ?rest) = de_prose d"
  proof (cases "de_prose d = []")
    case True
    with assms(2) show ?thesis by (auto simp: prose_lines_def)
  next
    case False
    have "join [code_LF] (split_on code_LF p @ blank) = p \<or> join [code_LF] (split_on code_LF p @ blank) = p @ [code_LF]" for p
      using assms(2) by (auto simp: join_append)
    then have "strip_lf (join [code_LF] (split_on code_LF (de_prose d) @ blank)) = strip_lf (de_prose d)"
      by (metis strip_lf_simps(3))
    then show ?thesis using False wf by (simp add: prose_lines_def join_Cons)
  qed
  have affects: "parse_affects (known_value (recognized_pairs d) ''affects'') = de_affects d"
  proof (cases "present d ''affects''")
    case True
    then show ?thesis using wf parse_affects_rendered by (simp add: recognized_value)
  next
    case False
    then show ?thesis using wf by (auto simp: recognized_value parse_affects_def starts_with_def)
  qed
  have status: "parse_status (known_value (recognized_pairs d) ''status'') = de_status d"
    using wf status_rendered(3) by (simp only: recognized_value)
  have fields: "optional_value (known_value (recognized_pairs d) ''decided'') = de_decided d"
    "optional_value (known_value (recognized_pairs d) ''supersedes'') = de_supersedes d"
    "optional_value (known_value (recognized_pairs d) ''hold'') = de_hold d"
    "optional_value (known_value (recognized_pairs d) ''phase'') = de_phase d"
    "optional_value (known_value (recognized_pairs d) ''checkpoint'') = de_checkpoint d"
    using wf field_known by (simp_all only: recognized_value)
  have lines: "entry_lines d @ blank = heading_line d # (map (\<lambda>(k, v). key_line k v) ?pairs @ ?rest)"
    by (simp add: entry_lines_def)
  show ?thesis
    unfolding parse_entry_def lines list.case ds(1) option.case prod.case run Let_def known_rendered [OF assms(1)]
      prose affects status fields
    using ds(2,3) by (cases d) (simp add: restored_def)
qed

subsection \<open>A rendered ledger reads back\<close>

text \<open>The lines of the parts of a ledger, a blank line between two parts.\<close>

fun spaced :: "codes list list \<Rightarrow> codes list" where
  "spaced [] = []"
| "spaced [b] = b"
| "spaced (b # bs) = b @ [] # spaced bs"

lemma spaced_Cons: "bs \<noteq> [] \<Longrightarrow> spaced (b # bs) = b @ [] # spaced bs"
  by (cases bs) auto

lemma join_spaced:
  "list_all (\<lambda>b. b \<noteq> []) bs \<Longrightarrow> bs \<noteq> [] \<Longrightarrow>
     join [code_LF] (map (\<lambda>b. join [code_LF] b @ [code_LF]) bs) = join [code_LF] (spaced bs) @ [code_LF] \<and> spaced bs \<noteq> []"
proof (induction bs)
  case (Cons b bs)
  then show ?case
    by (cases "bs = []") (simp_all add: join_Cons join_append spaced_Cons)
qed simp

lemma spaced_no_breaks: "list_all (list_all no_breaks) bs \<Longrightarrow> list_all no_breaks (spaced bs)"
  by (induction bs rule: spaced.induct) auto

lemma not_heading_blank [simp]: "\<not> is_heading []"
  by (simp add: is_heading_def heading_match_def starts_with_def lit_def)

lemma sections_skip: "list_all (\<lambda>l. \<not> is_heading l) pre \<Longrightarrow> sections (pre @ ls) = sections ls"
  by (induction pre) auto

lemma entry_lines_shape:
  assumes "wf_decision d"
  shows "is_heading (heading_line d)" "list_all (\<lambda>l. \<not> is_heading l) (tl (entry_lines d))"
    "entry_lines d = heading_line d # tl (entry_lines d)" "list_all no_breaks (entry_lines d)"
proof -
  show "is_heading (heading_line d)" using heading_line_match [OF assms] by (auto simp: is_heading_def)
  show "entry_lines d = heading_line d # tl (entry_lines d)" by (simp add: entry_lines_def)
  have pairs: "list_all (\<lambda>l. no_breaks l \<and> \<not> is_heading l)
      (map (\<lambda>(k, v). key_line k v) (recognized_pairs d @ de_extra d))"
  proof -
    have "no_breaks (key_line k v) \<and> \<not> is_heading (key_line k v)" if "wf_key k" "no_breaks v" for k v
    proof -
      have "no_breaks k"
        using that(1) break_is_blank key_start_not_blank by (auto simp: wf_key_def no_breaks_def list_all_iff)
      with that key_line_not_heading show ?thesis by (simp add: key_line_def lit_def is_break_code_def)
    qed
    with all_pairs_wf [OF assms] show ?thesis by (fastforce simp: list_all_iff)
  qed
  have prose: "list_all (\<lambda>l. no_breaks l \<and> \<not> is_heading l) (prose_lines d)"
    using assms by (simp add: prose_lines_def wf_decision_def)
  from pairs prose show "list_all (\<lambda>l. \<not> is_heading l) (tl (entry_lines d))"
    by (auto simp: entry_lines_def list_all_iff)
  obtain ds where "list_all is_digit_code ds" "de_id d = lit ''D-'' @ ds" using assms by (auto simp: wf_decision_def)
  moreover have "is_digit_code c \<Longrightarrow> \<not> is_break_code c" for c by (auto simp: is_digit_code_def is_break_code_def)
  ultimately have "no_breaks (heading_line d)"
    using assms by (auto simp: heading_line_def wf_decision_def wf_value_def lit_def EM_DASH_def no_breaks_def
        list_all_iff is_break_code_def)
  with pairs prose show "list_all no_breaks (entry_lines d)" by (auto simp: entry_lines_def list_all_iff)
qed

lemma takeWhile_not_heading:
  assumes "list_all (\<lambda>l. \<not> is_heading l) ls" and "rest = [] \<or> is_heading (hd rest)"
  shows "takeWhile (\<lambda>l. \<not> is_heading l) (ls @ rest) = ls"
  using assms by (cases rest) (auto simp: list_all_iff)

lemma sections_entries:
  assumes "list_all wf_decision ds"
  shows "sections (spaced (map entry_lines ds)) =
    (if ds = [] then [] else map (\<lambda>d. entry_lines d @ [[]]) (butlast ds) @ [entry_lines (last ds)])"
  using assms
proof (induction ds)
  case (Cons d ds)
  then have wf: "wf_decision d" and rest: "list_all wf_decision ds" by simp_all
  note shape = entry_lines_shape [OF wf]
  have step: "sections (entry_lines d @ tail) = (entry_lines d @ takeWhile (\<lambda>l. \<not> is_heading l) tail) # sections tail"
    if "tail = [] \<or> hd tail = []" for tail
  proof -
    have "sections (heading_line d # tl (entry_lines d) @ tail) =
        (heading_line d # takeWhile (\<lambda>l. \<not> is_heading l) (tl (entry_lines d) @ tail)) # sections tail"
      using shape(1,2) by (simp add: sections_skip)
    moreover have "takeWhile (\<lambda>l. \<not> is_heading l) (tl (entry_lines d) @ tail) =
        tl (entry_lines d) @ takeWhile (\<lambda>l. \<not> is_heading l) tail"
      using shape(2) by (simp add: list_all_iff)
    ultimately show ?thesis using shape(3) by (metis append_Cons)
  qed
  show ?case
  proof (cases ds)
    case Nil
    with step [of "[]"] show ?thesis by simp
  next
    case (Cons e es)
    have "wf_decision e" using rest Cons by simp
    then have e: "is_heading (heading_line e)" "entry_lines e = heading_line e # tl (entry_lines e)"
      using entry_lines_shape by blast+
    have "spaced (map entry_lines ds) =
        entry_lines e @ (if es = [] then [] else [] # spaced (map entry_lines es))"
      unfolding Cons by (cases es) simp_all
    then obtain x xs where x: "spaced (map entry_lines ds) = x # xs" "is_heading x"
      using e by (metis append_Cons)
    have "sections (spaced (map entry_lines (d # ds))) =
        (entry_lines d @ [[]]) # sections (spaced (map entry_lines ds))"
      using step [of "[] # spaced (map entry_lines ds)"] x Cons by (simp add: spaced_Cons)
    with Cons.IH [OF rest] Cons show ?thesis by simp
  qed
qed simp

lemma map_filter_append: "List.map_filter f (xs @ ys) = List.map_filter f xs @ List.map_filter f ys"
  by (simp add: List.map_filter_def)

lemma parse_sections:
  assumes "list_all wf_decision ds"
  shows "map fst (List.map_filter parse_entry (sections (spaced (map entry_lines ds)))) = map restored ds"
proof (cases ds rule: rev_cases)
  case (snoc es e)
  have "map fst (List.map_filter parse_entry (map (\<lambda>d. entry_lines d @ [[]]) es)) = map restored es"
    if "list_all wf_decision es" for es
    using that
  proof (induction es)
    case (Cons d es)
    then obtain w where "parse_entry (entry_lines d @ [[]]) = Some (restored d, w)"
      using parse_entry_rendered [of d "[[]]"] by auto
    with Cons show ?case by (simp add: List.map_filter_simps)
  qed (simp add: List.map_filter_simps)
  moreover obtain w where "parse_entry (entry_lines e) = Some (restored e, w)"
    using parse_entry_rendered [of e "[]"] assms snoc by auto
  moreover have "sections (spaced (map entry_lines ds)) = map (\<lambda>d. entry_lines d @ [[]]) es @ [entry_lines e]"
    using sections_entries [OF assms] by (simp add: snoc)
  ultimately show ?thesis
    using assms snoc by (simp add: List.map_filter_simps map_filter_append)
qed (simp add: List.map_filter_simps)

lemma splitlines_append_LF:
  "code_splitlines acc (x @ code_LF # s) = code_splitlines acc (x @ [code_LF]) @ code_splitlines [] s"
proof (induction acc x rule: code_splitlines.induct)
  case (2 acc c cs)
  show ?case
  proof (cases "is_break_code c")
    case True
    show ?thesis
    proof (cases "c = code_CR \<and> cs = []")
      case False
      then have "(if c = code_CR \<and> starts_with (cs @ u) [code_LF] then tl (cs @ u) else cs @ u) =
          (if c = code_CR \<and> starts_with cs [code_LF] then tl cs else cs) @ u" for u
        by (cases cs) (auto simp: starts_with_def)
      with "2.IH"(1) [OF True] True show ?thesis by simp
    qed (use True in \<open>simp add: starts_with_def\<close>)
  qed (use "2.IH"(2) in simp)
qed simp

lemma ledger_lines_blank:
  "ledger_lines (u @ code_LF # code_LF # v) = ledger_lines (u @ [code_LF]) @ [] # ledger_lines v"
proof -
  have "code_splitlines [] (code_LF # v) = [] # code_splitlines [] v"
    by (simp add: is_break_code_def code_LF_def code_CR_def)
  then show ?thesis
    unfolding ledger_lines_def splitlines_append_LF [of "[]" u "code_LF # v"] by simp
qed

lemma parse_rendered:
  assumes "list_all wf_decision ds" and "list_all (\<lambda>l. \<not> is_heading l) (ledger_lines (strip_lf pre @ [code_LF]))"
  shows "lp_entries (parse_ledger (render_ledger pre ds)) = map restored (sort_key de_number ds)"
proof (cases "ds = []")
  case True
  then have "ledger_lines (render_ledger pre ds) = [] \<or>
      ledger_lines (render_ledger pre ds) = ledger_lines (strip_lf pre @ [code_LF])"
    by (simp add: render_ledger_def Let_def ledger_lines_def)
  with assms(2) have "\<not> list_ex is_heading (ledger_lines (render_ledger pre ds))"
    by (auto simp: list_all_iff list_ex_iff)
  with True show ?thesis by (simp add: parse_ledger_def Let_def)
next
  case False
  let ?ds = "sort_key de_number ds" and ?head = "strip_lf pre"
  let ?body = "spaced (map entry_lines ?ds)"
  let ?before = "if ?head = [] then [] else ledger_lines (?head @ [code_LF]) @ [[]]"
  have wf: "list_all wf_decision ?ds" using assms(1) by (simp add: list_all_iff)
  have nonempty: "?ds \<noteq> []" using False by (metis set_empty set_sort)
  have blocks: "list_all (\<lambda>b. b \<noteq> []) (map entry_lines ?ds)" "map entry_lines ?ds \<noteq> []"
    using nonempty by (auto simp: list_all_iff entry_lines_def)
  have rendered: "map render_entry ?ds = map (\<lambda>b. join [code_LF] b @ [code_LF]) (map entry_lines ?ds)"
    using wf render_entry_lines by (auto simp: list_all_iff)
  have body: "join [code_LF] (map render_entry ?ds) = join [code_LF] ?body @ [code_LF]" "?body \<noteq> []"
    unfolding rendered using join_spaced [OF blocks] by blast+
  have "list_all no_breaks ?body"
    using wf entry_lines_shape(4) by (intro spaced_no_breaks) (auto simp: list_all_iff)
  then have body_lines: "ledger_lines (join [code_LF] ?body @ [code_LF]) = ?body"
    using body(2) by (rule ledger_lines_join)
  have lines: "ledger_lines (render_ledger pre ds) = ?before @ ?body"
  proof (cases "?head = []")
    case True
    then show ?thesis
      by (simp only: render_ledger_def Let_def if_True refl append_Nil body(1) body_lines simp_thms)
  next
    case False
    have "render_ledger pre ds = ?head @ code_LF # code_LF # join [code_LF] ?body @ [code_LF]"
    proof -
      have some: "map render_entry ?ds \<noteq> []" using nonempty by simp
      show ?thesis
        by (simp only: render_ledger_def Let_def if_not_P [OF False] append_Cons append_Nil join_Cons [OF some]
            body(1) append_assoc)
    qed
    then have "ledger_lines (render_ledger pre ds) = ledger_lines (?head @ [code_LF]) @ [] # ?body"
      using ledger_lines_blank [of ?head "join [code_LF] ?body @ [code_LF]"] unfolding body_lines
      by (rule trans [OF arg_cong [of _ _ ledger_lines]])
    then show ?thesis using False by simp
  qed
  have before: "list_all (\<lambda>l. \<not> is_heading l) ?before" using assms(2) by (simp add: list_all_iff)
  have "list_ex is_heading ?body"
  proof (rule ccontr)
    assume "\<not> list_ex is_heading ?body"
    then have "list_all (\<lambda>l. \<not> is_heading l) ?body" by (simp add: list_all_iff list_ex_iff)
    then have "sections ?body = []" using sections_skip [of ?body "[]"] by simp
    with parse_sections [OF wf] nonempty show False by (simp add: List.map_filter_simps)
  qed
  then show ?thesis
    unfolding parse_ledger_def Let_def lines
    using before by (simp add: sections_skip parse_sections [OF wf])
qed

subsection \<open>What the parser answers is well formed\<close>

lemma heading_match_wf:
  assumes "heading_match line = Some (ds, q)" and "no_breaks line"
  shows "ds \<noteq> []" "list_all is_digit_code ds" "wf_value q"
proof -
  let ?b = "lstrip_codes (drop 2 line)"
  let ?t = "lstrip_codes (drop (length (takeWhile is_digit_code (drop 2 ?b))) (drop 2 ?b))"
  from assms(1) have ds: "ds = takeWhile is_digit_code (drop 2 ?b)" "ds \<noteq> []"
    and q: "q = [] \<or> q = strip_codes (dropWhile is_dash ?t)"
    by (auto simp: heading_match_def Let_def split: if_splits)
  show "ds \<noteq> []" by (rule ds(2))
  show "list_all is_digit_code ds" unfolding ds(1) by (auto simp: list_all_iff dest: set_takeWhileD)
  have "set (dropWhile is_dash ?t) \<subseteq> set line"
    by (auto simp: lstrip_codes_def dest!: set_dropWhileD in_set_dropD)
  then have "no_breaks (dropWhile is_dash ?t)" using assms(2) by (auto simp: no_breaks_def)
  with q show "wf_value q" by (auto simp: wf_value_def no_breaks_strip)
qed

lemma key_match_wf:
  assumes "key_match l = Some (k, v)" and "no_breaks l"
  shows "wf_key k \<and> wf_value v"
proof -
  let ?rest = "drop (length (takeWhile is_key_char l)) l"
  from assms(1) have k: "k = takeWhile is_key_char l" "k \<noteq> []" "is_key_start (hd k)" "v = strip_codes (tl ?rest)"
    by (auto simp: key_match_def Let_def split: if_splits)
  have "set (tl ?rest) \<subseteq> set l" by (metis set_drop_subset drop_Suc tl_drop order_trans)
  then have "no_breaks (tl ?rest)" using assms(2) by (auto simp: no_breaks_def)
  with k show ?thesis
    by (auto simp: wf_key_def wf_value_def no_breaks_strip list_all_iff dest: set_takeWhileD)
qed

lemma key_run_wf:
  "list_all no_breaks ls \<Longrightarrow> list_all (\<lambda>(k, v). wf_key k \<and> wf_value v) (fst (key_run ls)) \<and> set (snd (key_run ls)) \<subseteq> set ls"
proof (induction ls)
  case (Cons l ls)
  then show ?case using key_match_wf [of l] by (auto split: option.split)
qed simp

lemma known_keys_wf:
  "set (map fst known) \<subseteq> set RECOGNIZED_KEYS \<Longrightarrow>
     set known \<subseteq> set (fst (known_keys known pairs)) \<and>
     set (fst (known_keys known pairs)) \<subseteq> set known \<union> set pairs \<and> set (snd (known_keys known pairs)) \<subseteq> set pairs \<and>
     set (map fst (fst (known_keys known pairs))) \<subseteq> set RECOGNIZED_KEYS \<and>
     list_all (\<lambda>(k, v). k \<in> set RECOGNIZED_KEYS \<longrightarrow> k \<in> set (map fst (fst (known_keys known pairs))))
       (snd (known_keys known pairs))"
proof (induction known pairs rule: known_keys.induct)
  case (2 known k v pairs)
  show ?case
  proof (cases "k \<in> set RECOGNIZED_KEYS \<and> map_of known k = None")
    case True
    with "2.IH"(1) "2.prems" show ?thesis by auto
  next
    case False
    then have "k \<in> set RECOGNIZED_KEYS \<Longrightarrow> k \<in> fst ` set known" by (auto simp: map_of_eq_None_iff)
    with False "2.IH"(2) "2.prems" show ?thesis by (auto simp: image_iff) 
  qed
qed simp

lemma wf_affects_parsed:
  assumes "no_breaks raw"
  shows "wf_affects (parse_affects raw)"
proof -
  let ?v = "strip_codes raw"
  let ?inner = "if starts_with ?v (lit ''['') \<and> starts_with (rev ?v) (lit '']'') then butlast (tl ?v) else ?v"
  have "set ?inner \<subseteq> set ?v" by (cases ?v) (auto dest: in_set_butlastD)
  then have inner: "no_breaks ?inner" using no_breaks_strip [OF assms] by (auto simp: no_breaks_def)
  have "wf_value (strip_codes p) \<and> 0x2C \<notin> set (strip_codes p)" if "p \<in> set (split_on 0x2C ?inner)" for p
  proof -
    have "set p \<subseteq> set (join [0x2C] (split_on 0x2C ?inner))"
    proof -
      have "set w \<subseteq> set (join sep ws)" if "w \<in> set ws" for w :: codes and sep ws
        using that by (induction ws rule: join.induct [of _ sep]) auto
      with that show ?thesis by blast
    qed
    then have "no_breaks p" using inner by (auto simp: no_breaks_def)
    moreover have "0x2C \<notin> set (strip_codes p)"
      using split_on_no_sep [OF that] set_strip_by by (fastforce simp: strip_codes_def)
    ultimately show ?thesis by (simp add: wf_value_def no_breaks_strip)
  qed
  then show ?thesis by (auto simp: wf_affects_def parse_affects_def Let_def list_all_iff)
qed

lemma known_value_present:
  assumes "known_value known key \<noteq> []"
  shows "lit key \<in> set (map fst known)" "(lit key, known_value known key) \<in> set known"
  using assms by (auto simp: known_value_def dest: map_of_SomeD split: option.splits) (force dest: map_of_SomeD)

lemma parse_entry_wf:
  assumes "parse_entry block = Some (d, w)" and "list_all no_breaks block" and "list_all (\<lambda>l. \<not> is_heading l) (tl block)"
  shows "wf_decision d"
proof -
  obtain first below where block: "block = first # below" using assms(1) by (cases block) (auto simp: parse_entry_def)
  obtain ds q where h: "heading_match first = Some (ds, q)"
    using assms(1) by (auto simp: parse_entry_def block split: option.splits)
  obtain pairs rest where run: "key_run below = (pairs, rest)" by (cases "key_run below")
  obtain known extra where keys: "known_keys [] pairs = (known, extra)" by (cases "known_keys [] pairs")
  have d: "d = \<lparr>de_id = lit ''D-'' @ ds, de_number = digits_value 0 ds, de_question = q,
      de_status = parse_status (known_value known ''status''),
      de_affects = parse_affects (known_value known ''affects''),
      de_decided = optional_value (known_value known ''decided''),
      de_supersedes = optional_value (known_value known ''supersedes''),
      de_hold = optional_value (known_value known ''hold''),
      de_phase = optional_value (known_value known ''phase''),
      de_checkpoint = optional_value (known_value known ''checkpoint''),
      de_prose = strip_lf (join [code_LF] rest), de_extra = extra, de_present = map fst known\<rparr>"
    using assms(1) by (simp add: parse_entry_def block h run keys Let_def)
  note head = heading_match_wf [OF h]
  have clean: "no_breaks first" "list_all no_breaks below" using assms(2) by (simp_all add: block)
  from key_run_wf [OF clean(2)] have pairs: "list_all (\<lambda>(k, v). wf_key k \<and> wf_value v) pairs" "set rest \<subseteq> set below"
    by (simp_all add: run)
  from known_keys_wf [of "[]" pairs] have known: "set known \<subseteq> set pairs" "set extra \<subseteq> set pairs"
    "list_all (\<lambda>(k, v). k \<in> set RECOGNIZED_KEYS \<longrightarrow> k \<in> set (map fst known)) extra"
    by (simp_all add: keys)
  have raw: "wf_value (known_value known key)" for key
  proof (cases "known_value known key = []")
    case False
    then have "(lit key, known_value known key) \<in> set pairs" using known_value_present(2) known(1) by blast
    with pairs(1) show ?thesis by (auto simp: list_all_iff)
  qed (simp add: wf_value_def)
  have field: "wf_field d key (optional_value (known_value known key))" for key
  proof (cases "optional_value (known_value known key)")
    case (Some x)
    then have "known_value known key \<noteq> []" by auto
    then have "present d key" using known_value_present(1) by (simp add: present_def d)
    with Some raw [of key] show ?thesis
      by (auto simp: wf_field_def optional_value_def wf_value_def split: if_splits)
  qed (simp add: wf_field_def)
  have affects: "wf_affects (de_affects d)" using wf_affects_parsed raw [of "''affects''"] by (simp add: d wf_value_def)
  have affects_present: "de_affects d \<noteq> [] \<longrightarrow> present d ''affects''"
  proof
    assume "de_affects d \<noteq> []"
    then have "known_value known ''affects'' \<noteq> []" by (auto simp: d parse_affects_def starts_with_def)
    then show "present d ''affects''" using known_value_present(1) by (simp add: present_def d)
  qed
  have prose: "list_all (\<lambda>l. no_breaks l \<and> \<not> is_heading l) (split_on code_LF (de_prose d))"
  proof -
    have below: "\<forall>l \<in> set below. no_breaks l \<and> \<not> is_heading l" using clean(2) assms(3) by (simp add: block list_all_iff)
    have "set (split_on code_LF (join [code_LF] rest)) \<subseteq> insert [] (set rest)"
    proof (cases "rest = []")
      case False
      then have "split_on code_LF (join [code_LF] rest) = rest"
        using pairs(2) below by (intro split_on_join) (auto dest: no_breaks_LF)
      then show ?thesis by auto
    qed simp
    then have "set (split_on code_LF (de_prose d)) \<subseteq> insert [] (set below)"
      using set_split_strip_lf [of "join [code_LF] rest"] pairs(2) by (auto simp: d)
    then show ?thesis using below by (auto simp: list_all_iff)
  qed
  have extra: "list_all (\<lambda>(k, v). wf_key k \<and> wf_value v \<and>
      (k \<in> set RECOGNIZED_KEYS \<longrightarrow> k = lit ''status'' \<or> k \<in> set (de_present d))) (de_extra d)"
    using known(2,3) pairs(1) by (fastforce simp: d list_all_iff)
  have status: "de_status d = [] \<or> de_status d \<in> set VALID_STATUSES" by (simp add: d parse_status_def)
  have fields: "wf_field d ''decided'' (de_decided d)" "wf_field d ''supersedes'' (de_supersedes d)"
    "wf_field d ''hold'' (de_hold d)" "wf_field d ''phase'' (de_phase d)" "wf_field d ''checkpoint'' (de_checkpoint d)"
    using field by (simp_all add: d)
  have ids: "\<exists>ds. ds \<noteq> [] \<and> list_all is_digit_code ds \<and> de_id d = lit ''D-'' @ ds \<and> de_number d = digits_value 0 ds"
    using head clean(1) by (auto simp: d)
  have "wf_value (de_question d)" "strip_lf (de_prose d) = de_prose d" using head(3) clean(1) by (simp_all add: d)
  with ids status affects affects_present fields extra prose show ?thesis unfolding wf_decision_def by blast
qed

lemma sections_blocks:
  "b \<in> set (sections ls) \<Longrightarrow>
     set b \<subseteq> set ls \<and> list_all (\<lambda>l. \<not> is_heading l) (tl b) \<and> b \<noteq> [] \<and> is_heading (hd b)"
proof (induction ls)
  case (Cons l ls)
  then show ?case by (auto simp: list_all_iff dest: set_takeWhileD split: if_splits)
qed simp

lemma parse_entry_heading: "b \<noteq> [] \<Longrightarrow> is_heading (hd b) \<Longrightarrow> parse_entry b \<noteq> None"
  by (cases b) (auto simp: parse_entry_def is_heading_def Let_def split_beta split: option.splits)

lemma parsed_entries_wf: "list_all wf_decision (lp_entries (parse_ledger t))"
proof -
  have "wf_decision d" if "(d, w) \<in> set (List.map_filter parse_entry (sections (ledger_lines t)))" for d w
  proof -
    from that obtain b where b: "b \<in> set (sections (ledger_lines t))" "parse_entry b = Some (d, w)"
      by (auto simp: List.map_filter_def)
    with sections_blocks [OF b(1)] ledger_lines_no_breaks [of t] show ?thesis
      by (intro parse_entry_wf [OF b(2)]) (auto simp: list_all_iff)
  qed
  then show ?thesis by (auto simp: parse_ledger_def Let_def list_all_iff)
qed

lemma no_heading_no_entries: "\<not> list_ex is_heading ls \<Longrightarrow> sections ls = []"
  by (induction ls) auto

lemma heading_entries:
  assumes "list_ex is_heading (ledger_lines t)"
  shows "lp_entries (parse_ledger t) \<noteq> []"
proof -
  have "sections ls \<noteq> []" if "list_ex is_heading ls" for ls using that by (induction ls) auto
  then obtain b where b: "b \<in> set (sections (ledger_lines t))" using assms by (metis hd_in_set)
  with sections_blocks [OF b] parse_entry_heading [of b] obtain e where "parse_entry b = Some e" by auto
  with b have "e \<in> set (List.map_filter parse_entry (sections (ledger_lines t)))"
    by (force simp: List.map_filter_def)
  then show ?thesis using assms by (auto simp: parse_ledger_def Let_def)
qed

lemma parsed_preamble:
  "list_all (\<lambda>l. \<not> is_heading l) (ledger_lines (strip_lf (lp_preamble (parse_ledger t)) @ [code_LF]))"
proof -
  have key: "list_all (\<lambda>l. \<not> is_heading l) (ledger_lines (strip_lf p @ [code_LF]))"
    if "list_all (\<lambda>l. \<not> is_heading l) (ledger_lines p)" for p
  proof -
    have "set (ledger_lines (strip_lf p @ [code_LF])) \<subseteq> insert [] (set (ledger_lines p))"
      using ledger_lines_strip_lf [of p] by blast
    with that show ?thesis by (auto simp: list_all_iff)
  qed
  show ?thesis
  proof (cases "list_ex is_heading (ledger_lines t)")
    case False
    then show ?thesis by (intro key) (auto simp: parse_ledger_def Let_def list_all_iff list_ex_iff)
  next
    case True
    let ?pre = "takeWhile (\<lambda>l. \<not> is_heading l) (ledger_lines t)"
    have pre: "list_all no_breaks ?pre" "list_all (\<lambda>l. \<not> is_heading l) ?pre"
      using ledger_lines_no_breaks [of t] by (auto simp: list_all_iff dest: set_takeWhileD)
    have "list_all (\<lambda>l. \<not> is_heading l) (ledger_lines (join [code_LF] ?pre))"
    proof (cases "?pre = []")
      case False
      have "set (ledger_lines (join [code_LF] ?pre)) \<subseteq> insert [] (set (ledger_lines (join [code_LF] ?pre @ [code_LF])))"
        using splitlines_trailing [of "[]" "join [code_LF] ?pre" 1] by (auto simp: ledger_lines_def)
      with pre ledger_lines_join [OF pre(1) False] show ?thesis by (auto simp: list_all_iff)
    qed (simp add: ledger_lines_def)
    with True show ?thesis by (intro key) (simp add: parse_ledger_def Let_def)
  qed
qed

text \<open>Rewriting a ledger: the preamble of any text with any well-formed entries.\<close>

lemma rewritten_entries:
  "list_all wf_decision ds \<Longrightarrow>
     lp_entries (parse_ledger (render_ledger (lp_preamble (parse_ledger t)) ds)) = map restored (sort_key de_number ds)"
  by (rule parse_rendered [OF _ parsed_preamble])

subsection \<open>Properties\<close>

text \<open>C26. Rewriting a ledger loses nothing, whatever text it was parsed from: the entries of the
  rendered parse are the parsed entries in order of their numbers, field by field (only the
  record of which keys were written may gain the status key).\<close>

theorem ledger_rewrite_lossless:
  "lp_entries (parse_ledger (render_ledger (lp_preamble (parse_ledger t)) (lp_entries (parse_ledger t)))) =
     map restored (sort_key de_number (lp_entries (parse_ledger t)))"
  by (rule rewritten_entries [OF parsed_entries_wf])

end
