(* ===== verification/Decisions.thy ===== *)
theory Decisions
  imports Ledger
begin

text \<open>
  The mutations of the decision ledgers (\<open>work_tracker_okf/decisions.py\<close>): the planners, each
  from an exact snapshot of the text, the stale-safe application, the loop that re-plans after
  another writer, and the queries. The ledger file is its text, absent read as empty; the lock
  is the atomicity of \<open>apply_plan\<close>. A \<open>ValueError\<close> or \<open>AssertionError\<close> is the \<open>Inl\<close> of a
  sum. The one path of a ledger is left out of its plans.
\<close>

subsection \<open>Prose\<close>

definition MARK :: "codes \<Rightarrow> codes" where
  "MARK label = lit ''**'' @ label @ lit '':**''"

definition PROSE_LABELS :: "codes list" where
  "PROSE_LABELS = [lit ''Answer'', lit ''Rationale'', lit ''If wrong'']"

definition PARAGRAPH :: codes where "PARAGRAPH = [code_LF, code_LF]"

definition compose_prose :: "codes option \<Rightarrow> codes option \<Rightarrow> codes option \<Rightarrow> codes" where
  "compose_prose answer rationale if_wrong =
     join PARAGRAPH
       (List.map_filter (\<lambda>(label, v). map_option (\<lambda>x. MARK label @ lit '' '' @ strip_codes x) v)
          (zip PROSE_LABELS [answer, rationale, if_wrong]))"

text \<open>Prose between blank lines: a line feed, blanks and tabs, and a line feed separate.\<close>

definition is_tab_blank :: "int \<Rightarrow> bool" where
  "is_tab_blank c \<longleftrightarrow> c = 0x20 \<or> c = 9"

function paragraphs :: "codes \<Rightarrow> codes \<Rightarrow> codes list" where
  "paragraphs acc [] = [rev acc]"
| "paragraphs acc (c # cs) =
     (let rest = dropWhile is_tab_blank cs
      in if c = code_LF \<and> starts_with rest [code_LF] then rev acc # paragraphs [] (tl rest)
         else paragraphs (c # acc) cs)"
  by pat_completeness auto
termination
  by (relation "measure (\<lambda>(acc, s). length s)")
    (auto simp: length_dropWhile_le le_imp_less_Suc less_imp_diff_less)

definition prose_blocks :: "codes \<Rightarrow> codes list" where
  "prose_blocks prose =
     map strip_lf (filter (\<lambda>b. strip_codes b \<noteq> []) (paragraphs [] (strip_lf prose)))"

definition prose_label :: "codes \<Rightarrow> codes option" where
  "prose_label block =
     (let first_line = lstrip_codes (hd (ledger_lines block))
      in find (\<lambda>label. starts_with first_line (MARK label)) PROSE_LABELS)"

text \<open>The position after the last block with an earlier label, for a label not there yet.\<close>

fun after_earlier :: "codes list \<Rightarrow> nat \<Rightarrow> codes list \<Rightarrow> nat" where
  "after_earlier earlier i [] = 0"
| "after_earlier earlier i (b # bs) =
     max (if \<exists>l \<in> set earlier. prose_label b = Some l then i + 1 else 0) (after_earlier earlier (i + 1) bs)"

definition earlier_labels :: "codes \<Rightarrow> codes list" where
  "earlier_labels label = takeWhile (\<lambda>l. l \<noteq> label) PROSE_LABELS"

definition insert_block :: "codes \<Rightarrow> codes \<Rightarrow> codes list \<Rightarrow> codes list" where
  "insert_block label new bs =
     (let i = after_earlier (earlier_labels label) 0 bs in take i bs @ new # drop i bs)"

text \<open>The first block of the label is replaced, later ones of it are dropped.\<close>

fun replace_block :: "(codes \<Rightarrow> bool) \<Rightarrow> codes \<Rightarrow> codes list \<Rightarrow> codes list" where
  "replace_block P new [] = []"
| "replace_block P new (b # bs) = (if P b then new # filter (\<lambda>x. \<not> P x) bs else b # replace_block P new bs)"

definition merge_label :: "(codes \<times> codes) list \<Rightarrow> codes list \<Rightarrow> codes \<Rightarrow> codes list" where
  "merge_label replacements bs label =
     (case dict_of replacements label of
        None \<Rightarrow> bs
      | Some new \<Rightarrow>
          if list_ex (\<lambda>b. prose_label b = Some label) bs
          then replace_block (\<lambda>b. prose_label b = Some label) new bs
          else insert_block label new bs)"

definition merge_prose :: "codes \<Rightarrow> codes \<Rightarrow> codes" where
  "merge_prose existing replacement =
     (let new = prose_blocks replacement;
          replacements = List.map_filter (\<lambda>b. map_option (\<lambda>l. (l, b)) (prose_label b)) new
      in join PARAGRAPH
           (foldl (merge_label replacements) (prose_blocks existing) PROSE_LABELS
            @ filter (\<lambda>b. prose_label b = None) new))"

definition without_prose_labels :: "codes \<Rightarrow> codes list \<Rightarrow> codes" where
  "without_prose_labels prose labels =
     join PARAGRAPH (filter (\<lambda>b. \<not> (\<exists>l \<in> set labels. prose_label b = Some l)) (prose_blocks prose))"

text \<open>\<open>prose_block\<close>: the paragraph of a label, its lines stripped.\<close>

fun labelled_block :: "codes \<Rightarrow> codes list \<Rightarrow> codes option" where
  "labelled_block marker [] = None"
| "labelled_block marker (l # ls) =
     (let s = lstrip_codes l
      in if \<not> starts_with s marker then labelled_block marker ls
         else Some (strip_codes (join [code_LF] (filter (\<lambda>p. p \<noteq> [])
           (strip_codes (drop (length marker) s) # map strip_codes (takeWhile (\<lambda>f. strip_codes f \<noteq> []) ls))))))"

definition prose_block :: "decision \<Rightarrow> codes \<Rightarrow> codes option" where
  "prose_block d label =
     (let starless = strip_by (\<lambda>c. c = 0x2A) (strip_codes label);
          name = strip_codes (rev (dropWhile (\<lambda>c. c = 0x3A) (rev starless)))
      in labelled_block (MARK name) (ledger_lines (de_prose d)))"

definition decided_stamp :: "date \<Rightarrow> codes \<Rightarrow> codes" where
  "decided_stamp on decided_by = lit (isoformat on) @ lit '' by '' @ decided_by"

subsection \<open>Identifiers\<close>

datatype ledger_error = ValueError message | AssertionError message

definition is_capital_D :: "int \<Rightarrow> bool" where
  "is_capital_D c \<longleftrightarrow> c = 0x44 \<or> c = 0x64"

definition id_number :: "codes \<Rightarrow> ledger_error + nat" where
  "id_number decision_id =
     (let s = strip_codes decision_id;
          digits = (if s \<noteq> [] \<and> is_capital_D (hd s) \<and> starts_with (tl s) (lit ''-'') then drop 2 s else s)
      in if digits = [] \<or> \<not> list_all is_digit_code digits
         then Inl (ValueError [say ''malformed decision id '', Quoted decision_id,
                Txt (lit ''; expected a form like 'D-014'' @ [0x27])])
         else Inr (digits_value 0 digits))"

definition decision_label :: "nat \<Rightarrow> codes" where
  "decision_label number = lit ''D-'' @ lit (zpad 3 (nat_str number))"

definition next_id :: "decision list \<Rightarrow> codes \<times> nat" where
  "next_id entries =
     (let number = foldr (\<lambda>d. max (de_number d)) entries 0 + 1 in (decision_label number, number))"

fun find_number :: "nat \<Rightarrow> decision list \<Rightarrow> nat \<Rightarrow> (decision \<times> nat) option" where
  "find_number i [] number = None"
| "find_number i (d # ds) number = (if de_number d = number then Some (d, i) else find_number (i + 1) ds number)"

definition find_decision :: "decision list \<Rightarrow> codes \<Rightarrow> (decision \<times> nat) option" where
  "find_decision entries decision_id =
     (case id_number decision_id of Inl _ \<Rightarrow> None | Inr number \<Rightarrow> find_number 0 entries number)"

definition require_decision :: "decision list \<Rightarrow> codes \<Rightarrow> ledger_error + (decision \<times> nat)" where
  "require_decision entries decision_id =
     bind_res (id_number decision_id) (\<lambda>number.
       case find_number 0 entries number of
         Some found \<Rightarrow> Inr found
       | None \<Rightarrow> Inl (ValueError [say ''no decision '', Quoted decision_id, say '' in this ledger; known ids: '',
           if join (lit '', '') (map de_id entries) = [] then say ''(the ledger is empty)''
           else Txt (join (lit '', '') (map de_id entries))]))"

subsection \<open>Plans\<close>

datatype decision_refusal =
  Answer_required | Note_required | If_wrong_required | Answer_unchanged | Status_disallowed
| Transition_disallowed | Unknown_decision | Superseded_decision | Hold_status | Hold_affects
| Hold_phase_mismatch | Hold_terminal | Hold_checkpoint | Checkpoint_invalid | Checkpoint_exists

record decision_plan =
  dp_snapshot :: codes
  dp_before :: "decision list"
  dp_after :: "decision list"
  dp_primary :: "decision option"
  dp_superseded :: "decision option"
  dp_warnings :: "message list"
  dp_refusal :: "decision_refusal option"
  dp_detail :: message

definition present_keys_for ::
  "codes list \<Rightarrow> codes option \<Rightarrow> codes option \<Rightarrow> codes option \<Rightarrow> codes option \<Rightarrow> codes option \<Rightarrow> codes list" where
  "present_keys_for affects decided supersedes hold phase checkpoint =
     (if affects = [] then [] else [lit ''affects''])
     @ (if decided = None then [] else [lit ''decided''])
     @ (if supersedes = None then [] else [lit ''supersedes''])
     @ (if hold = None then [] else [lit ''hold''])
     @ (if phase = None then [] else [lit ''phase''])
     @ (if checkpoint = None then [] else [lit ''checkpoint''])"

text \<open>\<open>_plan_refusal\<close>; \<open>plan_refusal\<close> is it on the current text.\<close>

definition refused_plan :: "codes \<Rightarrow> decision_refusal \<Rightarrow> message \<Rightarrow> decision_plan" where
  "refused_plan snapshot refusal detail =
     (let parsed = parse_ledger snapshot
      in \<lparr>dp_snapshot = snapshot, dp_before = lp_entries parsed, dp_after = lp_entries parsed, dp_primary = None,
          dp_superseded = None, dp_warnings = lp_warnings parsed, dp_refusal = Some refusal, dp_detail = detail\<rparr>)"

definition planned ::
  "codes \<Rightarrow> decision list \<Rightarrow> decision \<Rightarrow> decision option \<Rightarrow> message \<Rightarrow> decision_plan" where
  "planned snapshot after primary superseded detail =
     (let parsed = parse_ledger snapshot
      in \<lparr>dp_snapshot = snapshot, dp_before = lp_entries parsed, dp_after = after, dp_primary = Some primary,
          dp_superseded = superseded, dp_warnings = lp_warnings parsed, dp_refusal = None, dp_detail = detail\<rparr>)"

definition blank_opt :: "codes option \<Rightarrow> bool" where
  "blank_opt v = (case v of None \<Rightarrow> True | Some s \<Rightarrow> strip_codes s = [])"

text \<open>The call of \<open>plan_append\<close>.\<close>

record append_request =
  ap_question :: codes
  ap_status :: codes
  ap_answer :: "codes option"
  ap_rationale :: "codes option"
  ap_if_wrong :: "codes option"
  ap_affects :: "codes list"
  ap_on :: date
  ap_by :: codes
  ap_hold :: "codes option"
  ap_phase :: "codes option"
  ap_checkpoint :: "codes option"

definition append_refusal :: "append_request \<Rightarrow> (decision_refusal \<times> message) option" where
  "append_refusal rq =
     (if ap_status rq \<notin> {lit ''open'', lit ''assumed'', lit ''answered''}
      then Some (Status_disallowed, [say ''status '', Quoted (ap_status rq), say '' cannot be appended''])
      else if ap_hold rq \<noteq> None \<and> ap_status rq \<noteq> lit ''open''
      then Some (Hold_status, [say ''a hold must be filed open, not '', Quoted (ap_status rq)])
      else if ap_status rq \<in> {lit ''assumed'', lit ''answered''} \<and> blank_opt (ap_answer rq)
      then Some (Answer_required, [say ''status '', Quoted (ap_status rq), say '' requires an answer''])
      else if ap_status rq = lit ''assumed'' \<and> blank_opt (ap_if_wrong rq)
      then Some (If_wrong_required, [say ''status 'assumed' requires an if-wrong consequence''])
      else None)"

definition append_entry :: "append_request \<Rightarrow> codes \<Rightarrow> nat \<Rightarrow> decision" where
  "append_entry rq entry_id number =
     (let decided = (if ap_status rq \<in> {lit ''answered'', lit ''assumed''}
                     then Some (decided_stamp (ap_on rq) (ap_by rq)) else None)
      in \<lparr>de_id = entry_id, de_number = number, de_question = strip_codes (ap_question rq),
          de_status = ap_status rq, de_affects = ap_affects rq, de_decided = decided, de_supersedes = None,
          de_hold = ap_hold rq, de_phase = ap_phase rq, de_checkpoint = ap_checkpoint rq,
          de_prose = compose_prose (ap_answer rq) (ap_rationale rq) (ap_if_wrong rq), de_extra = [],
          de_present = present_keys_for (ap_affects rq) decided None (ap_hold rq) (ap_phase rq) (ap_checkpoint rq)\<rparr>)"

definition plan_append :: "append_request \<Rightarrow> codes \<Rightarrow> decision_plan" where
  "plan_append rq snapshot =
     (let parsed = parse_ledger snapshot
      in case append_refusal rq of
           Some (refusal, detail) \<Rightarrow> refused_plan snapshot refusal detail
         | None \<Rightarrow>
             let (entry_id, number) = next_id (lp_entries parsed); entry = append_entry rq entry_id number
             in planned snapshot (lp_entries parsed @ [entry]) entry None [say ''append '', Txt entry_id])"

definition unknown_decision :: "codes \<Rightarrow> codes \<Rightarrow> decision_plan" where
  "unknown_decision snapshot decision_id =
     refused_plan snapshot Unknown_decision [say ''no decision '', Quoted decision_id, say '' in this ledger'']"

definition answered_entry :: "decision \<Rightarrow> codes \<Rightarrow> codes option \<Rightarrow> date \<Rightarrow> codes \<Rightarrow> decision" where
  "answered_entry entry answer rationale on decided_by =
     (let retained = without_prose_labels (de_prose entry) [lit ''Answer'', lit ''Rationale'']
      in entry\<lparr>de_status := lit ''answered'', de_decided := Some (decided_stamp on decided_by),
           de_prose := merge_prose retained (compose_prose (Some answer) rationale None),
           de_present := de_present entry @ [lit ''decided'']\<rparr>)"

definition plan_update :: "codes \<Rightarrow> codes \<Rightarrow> codes option \<Rightarrow> date \<Rightarrow> codes \<Rightarrow> codes \<Rightarrow> decision_plan" where
  "plan_update decision_id answer rationale on decided_by snapshot =
     (let entries = lp_entries (parse_ledger snapshot)
      in case find_decision entries decision_id of
           None \<Rightarrow> unknown_decision snapshot decision_id
         | Some (entry, i) \<Rightarrow>
             if de_status entry = lit ''superseded''
             then refused_plan snapshot Superseded_decision
                    [Txt (de_id entry), say '' is superseded; answer the entry that replaced it'']
             else if de_status entry \<notin> {lit ''open'', lit ''assumed''}
             then refused_plan snapshot Transition_disallowed
                    [Txt (de_id entry), say '' has status '', Quoted (de_status entry),
                     say ''; only open or assumed decisions can be answered'']
             else if strip_codes answer = []
             then refused_plan snapshot Answer_required [say ''answer must not be empty'']
             else let updated = answered_entry entry answer rationale on decided_by
                  in planned snapshot (entries[i := updated]) updated None [say ''answer '', Txt (de_id updated)])"

definition replacement_entry ::
  "decision \<Rightarrow> codes \<Rightarrow> codes \<Rightarrow> codes option \<Rightarrow> codes list option \<Rightarrow> date \<Rightarrow> codes \<Rightarrow> codes \<times> nat \<Rightarrow> decision" where
  "replacement_entry old question answer rationale affects on decided_by fresh =
     (let final_affects = (case affects of Some a \<Rightarrow> a | None \<Rightarrow> de_affects old);
          stamp = decided_stamp on decided_by
      in \<lparr>de_id = fst fresh, de_number = snd fresh, de_question = strip_codes question,
          de_status = lit ''answered'', de_affects = final_affects, de_decided = Some stamp,
          de_supersedes = Some (de_id old), de_hold = None, de_phase = None, de_checkpoint = None,
          de_prose = compose_prose (Some answer) rationale None, de_extra = [],
          de_present = present_keys_for final_affects (Some stamp) (Some (de_id old)) None None None\<rparr>)"

definition plan_supersede ::
  "codes \<Rightarrow> codes \<Rightarrow> codes \<Rightarrow> codes option \<Rightarrow> codes list option \<Rightarrow> date \<Rightarrow> codes \<Rightarrow> codes \<Rightarrow> decision_plan" where
  "plan_supersede old_id question answer rationale affects on decided_by snapshot =
     (let entries = lp_entries (parse_ledger snapshot)
      in case find_decision entries old_id of
           None \<Rightarrow> unknown_decision snapshot old_id
         | Some (old, i) \<Rightarrow>
             if de_status old = lit ''superseded''
             then refused_plan snapshot Superseded_decision
                    [Txt (de_id old), say '' is already superseded; supersede the entry that replaced it'']
             else if strip_codes answer = []
             then refused_plan snapshot Answer_required [say ''answer must not be empty'']
             else let retired = old\<lparr>de_status := lit ''superseded''\<rparr>;
                      replacement =
                        replacement_entry old question answer rationale affects on decided_by (next_id entries)
                  in planned snapshot (entries[i := retired] @ [replacement]) replacement (Some retired)
                       [say ''supersede '', Txt (de_id retired), say '' with '', Txt (de_id replacement)])"

subsection \<open>Amendments\<close>

fun code_words :: "codes \<Rightarrow> codes \<Rightarrow> codes list" where
  "code_words acc [] = (if acc = [] then [] else [rev acc])"
| "code_words acc (c # cs) =
     (if is_blank_code c then (if acc = [] then [] else [rev acc]) @ code_words [] cs
      else code_words (c # acc) cs)"

definition one_line :: "codes \<Rightarrow> codes" where
  "one_line text = join (lit '' '') (code_words [] text)"

text \<open>A label at the start of a line: blanks, two stars, text, a colon and two stars.\<close>

definition label_ahead :: "codes \<Rightarrow> bool" where
  "label_ahead s =
     (let a = dropWhile is_tab_blank s; b = drop 2 a;
          run = takeWhile (\<lambda>c. c \<noteq> code_LF \<and> c \<noteq> 0x2A) b
      in starts_with a (lit ''**'') \<and> 2 \<le> length run \<and> last run = 0x3A
         \<and> starts_with (drop (length run) b) (lit ''**''))"

fun cut_sections :: "codes \<Rightarrow> bool \<Rightarrow> codes \<Rightarrow> codes list" where
  "cut_sections acc line_start [] = [rev acc]"
| "cut_sections acc line_start (c # cs) =
     (if line_start \<and> label_ahead (c # cs) then rev acc # cut_sections [c] (c = code_LF) cs
      else cut_sections (c # acc) (c = code_LF) cs)"

definition amend_sections :: "codes \<Rightarrow> codes list" where
  "amend_sections prose = map strip_codes (filter (\<lambda>s. strip_codes s \<noteq> []) (cut_sections [] True prose))"

definition amend_value :: "codes list \<Rightarrow> codes \<Rightarrow> codes" where
  "amend_value secs label =
     join PARAGRAPH
       (map (\<lambda>s. strip_codes (drop (length (MARK label)) s)) (filter (\<lambda>s. starts_with s (MARK label)) secs))"

definition amend_label :: "codes list \<Rightarrow> codes \<times> codes option \<Rightarrow> codes list" where
  "amend_label bs lv =
     (case snd lv of
        None \<Rightarrow> bs
      | Some v \<Rightarrow>
          let new = MARK (fst lv) @ lit '' '' @ strip_codes v
          in if list_ex (\<lambda>b. starts_with b (MARK (fst lv))) bs
             then replace_block (\<lambda>b. starts_with b (MARK (fst lv))) new bs
             else insert_block (fst lv) new bs)"

definition amend_prose :: "codes list \<Rightarrow> codes \<Rightarrow> codes option \<Rightarrow> codes \<Rightarrow> codes" where
  "amend_prose secs answer rationale amended =
     join PARAGRAPH
       (foldl amend_label secs [(lit ''Answer'', Some answer), (lit ''Rationale'', rationale)] @ [amended])"

definition rstrip_dots :: "codes \<Rightarrow> codes" where
  "rstrip_dots s = rev (dropWhile (\<lambda>c. c = 0x2E) (rev s))"

definition amended_block :: "date \<Rightarrow> codes \<Rightarrow> codes \<Rightarrow> codes \<Rightarrow> codes" where
  "amended_block on decided_by note previous =
     lit ''**Amended:** '' @ decided_stamp on decided_by @ lit '' '' @ EM_DASH @ lit '' ''
       @ rstrip_dots (one_line note) @ lit ''. Previously: ''
       @ (if previous = [] then lit ''(no answer recorded)'' else previous)"

definition amended_entry ::
  "decision \<Rightarrow> codes \<Rightarrow> codes \<Rightarrow> codes option \<Rightarrow> codes list option \<Rightarrow> date \<Rightarrow> codes \<Rightarrow> decision" where
  "amended_entry entry answer note rationale affects on decided_by =
     (let secs = amend_sections (de_prose entry); previous = one_line (amend_value secs (lit ''Answer''));
          final_affects = (case affects of Some a \<Rightarrow> a | None \<Rightarrow> de_affects entry)
      in entry\<lparr>de_affects := final_affects,
           de_prose := amend_prose secs answer rationale (amended_block on decided_by note previous),
           de_present := filter (\<lambda>k. k \<noteq> lit ''affects'') (de_present entry)
             @ present_keys_for final_affects None None None None None\<rparr>)"

definition nothing_amended :: "decision \<Rightarrow> codes \<Rightarrow> codes option \<Rightarrow> codes list option \<Rightarrow> bool" where
  "nothing_amended entry answer rationale affects =
     (let secs = amend_sections (de_prose entry)
      in one_line answer = one_line (amend_value secs (lit ''Answer''))
         \<and> \<not> (case rationale of None \<Rightarrow> False | Some r \<Rightarrow> one_line r \<noteq> one_line (amend_value secs (lit ''Rationale'')))
         \<and> \<not> (case affects of None \<Rightarrow> False | Some a \<Rightarrow> a \<noteq> de_affects entry))"

definition plan_amend ::
  "codes \<Rightarrow> codes \<Rightarrow> codes \<Rightarrow> codes option \<Rightarrow> codes list option \<Rightarrow> date \<Rightarrow> codes \<Rightarrow> codes \<Rightarrow> decision_plan" where
  "plan_amend decision_id answer note rationale affects on decided_by snapshot =
     (let entries = lp_entries (parse_ledger snapshot)
      in case find_decision entries decision_id of
           None \<Rightarrow> unknown_decision snapshot decision_id
         | Some (entry, i) \<Rightarrow>
             if de_status entry = lit ''superseded''
             then refused_plan snapshot Superseded_decision
                    [Txt (de_id entry), say '' is superseded; amend the entry that replaced it'']
             else if de_status entry \<noteq> lit ''answered''
             then refused_plan snapshot Transition_disallowed
                    [Txt (de_id entry), say '' has status '', Quoted (de_status entry),
                     say ''; answer it with gw work decision answer'']
             else if strip_codes answer = []
             then refused_plan snapshot Answer_required [say ''answer must not be empty'']
             else if strip_codes note = []
             then refused_plan snapshot Note_required [say ''an amendment must say what changed'']
             else if nothing_amended entry answer rationale affects
             then refused_plan snapshot Answer_unchanged
                    [Txt (de_id entry), say '' already says this; nothing to amend'']
             else let updated = amended_entry entry answer note rationale affects on decided_by
                  in planned snapshot (entries[i := updated]) updated None [say ''amend '', Txt (de_id updated)])"

subsection \<open>Application\<close>

record decision_application =
  da_entries :: "decision list"
  da_written :: bool
  da_stale :: bool

text \<open>The text of the ledger is passed in and returned; the lock makes the step atomic.\<close>

definition apply_plan_locked :: "decision_plan \<Rightarrow> codes \<Rightarrow> decision_application \<times> codes" where
  "apply_plan_locked plan current =
     (if current \<noteq> dp_snapshot plan
      then (\<lparr>da_entries = [], da_written = False, da_stale = True\<rparr>, current)
      else (\<lparr>da_entries = dp_after plan, da_written = True, da_stale = False\<rparr>,
            render_ledger (lp_preamble (parse_ledger current)) (dp_after plan)))"

definition apply_plan :: "decision_plan \<Rightarrow> codes \<Rightarrow> decision_application \<times> codes" where
  "apply_plan plan current =
     (if dp_refusal plan \<noteq> None then (\<lparr>da_entries = [], da_written = False, da_stale = False\<rparr>, current)
      else apply_plan_locked plan current)"

text \<open>Direct mutations. Between the read of a plan and its application, and between two
  iterations, other writers may act: \<open>env k\<close> is what they do to the text at the \<open>k\<close>-th of
  these points. The loop may not end, so it is an option.\<close>

partial_function (option) apply_until_current ::
  "(codes \<Rightarrow> ledger_error + decision_plan) \<Rightarrow> (nat \<Rightarrow> codes \<Rightarrow> codes) \<Rightarrow> nat \<Rightarrow> codes \<Rightarrow>
     (ledger_error + decision_plan \<times> codes) option" where
  "apply_until_current planner env k text =
     (case planner (env k text) of
        Inl e \<Rightarrow> Some (Inl e)
      | Inr plan \<Rightarrow>
          let result = apply_plan plan (env (k + 1) (env k text))
          in if da_stale (fst result) then apply_until_current planner env (k + 2) (snd result)
             else if \<not> da_written (fst result)
             then Some (Inl (AssertionError [say ''decision mutation unexpectedly refused'']))
             else Some (Inr (plan, snd result)))"

text \<open>Planning and applying under one lock: nobody writes in between.\<close>

definition apply_under_lock ::
  "(codes \<Rightarrow> ledger_error + decision_plan) \<Rightarrow> codes \<Rightarrow> ledger_error + decision_plan \<times> codes" where
  "apply_under_lock planner text =
     bind_res (planner text) (\<lambda>plan.
       let result = apply_plan_locked plan text
       in if \<not> da_written (fst result)
          then Inl (AssertionError [say ''lock-held decision mutation unexpectedly went stale''])
          else Inr (plan, snd result))"

subsection \<open>Direct mutations\<close>

definition check_status :: "codes \<Rightarrow> ledger_error + codes" where
  "check_status status =
     (if status \<notin> set VALID_STATUSES
      then Inl (ValueError [say ''unknown status '', Quoted status, say ''; expected one of '', say STATUS_LIST])
      else Inr status)"

definition direct_append ::
  "codes \<Rightarrow> codes \<Rightarrow> codes list \<Rightarrow> codes \<Rightarrow> codes option \<Rightarrow> codes option \<Rightarrow> codes \<Rightarrow> ledger_error + decision_plan" where
  "direct_append question status affects prose decided supersedes snapshot =
     bind_res (check_status status) (\<lambda>_.
       let entries = lp_entries (parse_ledger snapshot);
           (entry_id, number) = next_id entries;
           entry = \<lparr>de_id = entry_id, de_number = number, de_question = strip_codes question, de_status = status,
             de_affects = affects, de_decided = decided, de_supersedes = supersedes, de_hold = None,
             de_phase = None, de_checkpoint = None, de_prose = strip_lf prose, de_extra = [],
             de_present = present_keys_for affects decided supersedes None None None\<rparr>
       in Inr (planned snapshot (entries @ [entry]) entry None [say ''append '', Txt entry_id]))"

text \<open>\<open>set_fields\<close>: an outer \<open>None\<close> is the \<open>UNSET\<close> sentinel; the prose is a literal or a merge.\<close>

datatype prose_change = Keep_prose | Set_prose codes | Merge_prose "codes \<Rightarrow> codes"

definition changed_prose :: "prose_change \<Rightarrow> codes \<Rightarrow> codes" where
  "changed_prose change prose =
     (case change of Keep_prose \<Rightarrow> prose | Set_prose p \<Rightarrow> strip_lf p | Merge_prose f \<Rightarrow> strip_lf (f prose))"

record field_changes =
  fc_question :: "codes option"
  fc_status :: "codes option"
  fc_affects :: "codes list option"
  fc_decided :: "codes option option"
  fc_supersedes :: "codes option option"
  fc_prose :: prose_change

definition given :: "'a option \<Rightarrow> 'a \<Rightarrow> 'a" where
  "given change old = (case change of None \<Rightarrow> old | Some new \<Rightarrow> new)"

definition set_entry :: "field_changes \<Rightarrow> decision \<Rightarrow> decision" where
  "set_entry fc entry =
     (let affects = given (fc_affects fc) (de_affects entry); decided = given (fc_decided fc) (de_decided entry);
          supersedes = given (fc_supersedes fc) (de_supersedes entry)
      in entry\<lparr>de_question := given (map_option strip_codes (fc_question fc)) (de_question entry),
           de_status := given (fc_status fc) (de_status entry), de_affects := affects, de_decided := decided,
           de_supersedes := supersedes, de_prose := changed_prose (fc_prose fc) (de_prose entry),
           de_present := de_present entry @ present_keys_for affects decided supersedes None None None\<rparr>)"

definition direct_set_fields :: "codes \<Rightarrow> field_changes \<Rightarrow> codes \<Rightarrow> ledger_error + decision_plan" where
  "direct_set_fields decision_id fc snapshot =
     bind_res (case fc_status fc of None \<Rightarrow> Inr [] | Some s \<Rightarrow> check_status s) (\<lambda>_.
       let entries = lp_entries (parse_ledger snapshot)
       in bind_res (require_decision entries decision_id) (\<lambda>(entry, i).
            if de_status entry = lit ''superseded''
            then Inl (ValueError [Txt (de_id entry), say '' is superseded; edit the entry that replaced it instead''])
            else let updated = set_entry fc entry
                 in Inr (planned snapshot (entries[i := updated]) updated None [say ''update '', Txt (de_id updated)])))"

definition direct_supersede ::
  "codes \<Rightarrow> codes \<Rightarrow> codes \<Rightarrow> codes option \<Rightarrow> codes list option \<Rightarrow> codes \<Rightarrow> ledger_error + decision_plan" where
  "direct_supersede old_id question prose decided affects snapshot =
     (let entries = lp_entries (parse_ledger snapshot)
      in bind_res (require_decision entries old_id) (\<lambda>(old, i).
           if de_status old = lit ''superseded''
           then Inl (ValueError [Txt (de_id old),
                  say '' is already superseded; supersede the entry that replaced it instead''])
           else
             let (entry_id, number) = next_id entries; retired = old\<lparr>de_status := lit ''superseded''\<rparr>;
                 final_affects = (case affects of Some a \<Rightarrow> a | None \<Rightarrow> de_affects old);
                 replacement = \<lparr>de_id = entry_id, de_number = number, de_question = strip_codes question,
                   de_status = lit ''answered'', de_affects = final_affects, de_decided = decided,
                   de_supersedes = Some (de_id old), de_hold = None, de_phase = None, de_checkpoint = None,
                   de_prose = strip_lf prose, de_extra = [],
                   de_present = present_keys_for final_affects decided (Some (de_id old)) None None None\<rparr>
             in Inr (planned snapshot (entries[i := retired] @ [replacement]) replacement (Some retired)
                       [say ''supersede '', Txt (de_id retired), say '' with '', Txt (de_id replacement)])))"

subsection \<open>Queries\<close>

definition decision_hold :: "decision \<Rightarrow> codes \<Rightarrow> codes \<times> codes \<times> codes \<times> codes option" where
  "decision_hold d path =
     (path, de_id d, (case de_hold d of None \<Rightarrow> lit ''question'' | Some h \<Rightarrow> if h = [] then lit ''question'' else h),
      de_phase d)"

definition holds_for :: "decision list \<Rightarrow> codes \<Rightarrow> decision list" where
  "holds_for entries path =
     sort_key de_number (filter (\<lambda>d. de_status d = lit ''open'' \<and> path \<in> set (de_affects d)) entries)"

definition is_word_code :: "int \<Rightarrow> bool" where
  "is_word_code c \<longleftrightarrow> is_key_start c \<or> is_digit_code c"

text \<open>\<open>_ID_RE\<close>: a citation at the start of a text, and all of them, from the left.\<close>

definition cite_here :: "codes \<Rightarrow> codes option" where
  "cite_here s =
     (let digits = takeWhile is_digit_code (drop 2 s); rest = drop (length digits) (drop 2 s)
      in if starts_with s (lit ''D-'') \<and> digits \<noteq> [] \<and> (rest = [] \<or> \<not> is_word_code (hd rest))
         then Some digits else None)"

function citations :: "bool \<Rightarrow> codes \<Rightarrow> codes list" where
  "citations inside [] = []"
| "citations inside (c # cs) =
     (case (if inside then None else cite_here (c # cs)) of
        Some digits \<Rightarrow> digits # citations True (drop (length digits + 1) cs)
      | None \<Rightarrow> citations (is_word_code c) cs)"
  by pat_completeness auto
termination
  by (relation "measure (\<lambda>(inside, s). length s)") auto

definition extract_cited_decisions :: "codes \<Rightarrow> codes list" where
  "extract_cited_decisions text = first_seen (map (\<lambda>ds. lit ''D-'' @ ds) (citations False text))"

definition cited_numbers :: "decision \<Rightarrow> nat list" where
  "cited_numbers d =
     map (digits_value 0)
       (citations False (join (lit '' '') (filter (\<lambda>p. p \<noteq> [])
          [case de_supersedes d of None \<Rightarrow> [] | Some s \<Rightarrow> s, de_question d, de_prose d])))"

definition query :: "decision list \<Rightarrow> codes \<Rightarrow> codes \<Rightarrow> codes \<Rightarrow> ledger_error + decision list" where
  "query entries status affects cites =
     (let by_status = (if status = [] then entries else filter (\<lambda>d. de_status d = status) entries);
          by_affects = (if affects = [] then by_status else filter (\<lambda>d. affects \<in> set (de_affects d)) by_status)
      in if cites = [] then Inr by_affects
         else case id_number cites of
                Inl _ \<Rightarrow> Inl (ValueError [say ''cites expects a decision id like 'D-014', got '', Quoted cites])
              | Inr wanted \<Rightarrow> Inr (filter (\<lambda>d. wanted \<in> set (cited_numbers d)) by_affects))"

definition count_key :: "decision \<Rightarrow> codes" where
  "count_key d = (if de_status d \<in> set VALID_STATUSES then de_status d else lit ''invalid'')"

definition counts :: "decision list \<Rightarrow> (codes \<times> nat) list" where
  "counts entries =
     map (\<lambda>k. (k, length (filter (\<lambda>d. count_key d = k) entries))) (VALID_STATUSES @ [lit ''invalid''])
     @ [(lit ''total'', length entries)]"

subsection \<open>Well-formed prose\<close>

definition text_line :: "codes \<Rightarrow> bool" where
  "text_line l \<longleftrightarrow> no_breaks l \<and> \<not> is_heading l"

definition text_lines_ok :: "codes \<Rightarrow> bool" where
  "text_lines_ok s \<longleftrightarrow> list_all text_line (split_on code_LF s)"

definition wf_prose :: "codes \<Rightarrow> bool" where
  "wf_prose p \<longleftrightarrow> strip_lf p = p \<and> text_lines_ok p"

definition solid :: "codes \<Rightarrow> bool" where
  "solid b \<longleftrightarrow> b \<noteq> [] \<and> hd b \<noteq> code_LF \<and> last b \<noteq> code_LF \<and> text_lines_ok b"

lemma text_line_Nil [simp]: "text_line []"
  by (simp add: text_line_def)

lemma text_lines_ok_subset:
  "set (split_on code_LF s) \<subseteq> insert [] (set (split_on code_LF t)) \<Longrightarrow> text_lines_ok t \<Longrightarrow> text_lines_ok s"
  by (auto simp: text_lines_ok_def list_all_iff)

lemma text_lines_ok_append_LF [simp]:
  "text_lines_ok (s @ code_LF # t) \<longleftrightarrow> text_lines_ok s \<and> text_lines_ok t"
  by (simp add: text_lines_ok_def split_on_append_sep)

lemma text_lines_ok_Nil [simp]: "text_lines_ok []"
  by (simp add: text_lines_ok_def)

lemma solid_strip_lf: "text_lines_ok b \<Longrightarrow> strip_lf b \<noteq> [] \<Longrightarrow> solid (strip_lf b)"
  using set_split_strip_lf [of b] strip_by_ends [of "\<lambda>c. c = code_LF" b]
  by (auto simp: solid_def strip_lf_def text_lines_ok_def list_all_iff)

lemma strip_lf_keep: "b \<noteq> [] \<Longrightarrow> hd b \<noteq> code_LF \<Longrightarrow> last b \<noteq> code_LF \<Longrightarrow> strip_lf b = b"
  unfolding strip_lf_def by (rule strip_by_keep) auto

lemma join_paragraphs_solid:
  "list_all solid bs \<Longrightarrow> bs \<noteq> [] \<Longrightarrow> solid (join PARAGRAPH bs)"
proof (induction bs)
  case (Cons b bs)
  show ?case
  proof (cases "bs = []")
    case False
    with Cons have "solid (join PARAGRAPH bs)" by simp
    with False Cons.prems show ?thesis
      by (auto simp: solid_def join_Cons PARAGRAPH_def split: if_splits)
        (metis append_Cons append_Nil text_lines_ok_Nil text_lines_ok_append_LF)
  qed (use Cons.prems in simp)
qed simp

lemma wf_prose_Nil [simp]: "wf_prose []"
  by (simp add: wf_prose_def)

lemma wf_prose_join: "list_all solid bs \<Longrightarrow> wf_prose (join PARAGRAPH bs)"
  using join_paragraphs_solid [of bs] strip_lf_keep
  by (cases "bs = []") (auto simp: wf_prose_def solid_def)

lemma paragraphs_lines:
  "b \<in> set (paragraphs acc s) \<Longrightarrow> text_lines_ok (rev acc @ s) \<Longrightarrow> text_lines_ok b"
proof (induction acc s rule: paragraphs.induct)
  case (2 acc c cs)
  let ?rest = "dropWhile is_tab_blank cs"
  show ?case
  proof (cases "c = code_LF \<and> starts_with ?rest [code_LF]")
    case True
    then obtain t where t: "?rest = code_LF # t" by (auto simp: starts_with_iff)
    have cs: "cs = takeWhile is_tab_blank cs @ code_LF # t"
      using takeWhile_dropWhile_id [of is_tab_blank cs] t by simp
    have ok: "text_lines_ok (rev acc) \<and> text_lines_ok t"
      using "2.prems"(2) True by (subst (asm) cs) (simp add: text_lines_ok_def split_on_append_sep)
    with "2.IH"(1) [OF refl True] "2.prems"(1) True t show ?thesis by auto
  next
    case False
    with "2.IH"(2) [OF refl False] "2.prems" show ?thesis by (auto simp: Let_def split: if_splits)
  qed
qed simp

lemma prose_blocks_solid: "text_lines_ok p \<Longrightarrow> list_all solid (prose_blocks p)"
proof -
  assume ok: "text_lines_ok p"
  then have ok': "text_lines_ok (strip_lf p)"
    using set_split_strip_lf [of p] by (auto simp: text_lines_ok_def list_all_iff)
  have "solid (strip_lf b)" if "b \<in> set (paragraphs [] (strip_lf p))" "strip_codes b \<noteq> []" for b
  proof (rule solid_strip_lf)
    show "text_lines_ok b" using paragraphs_lines [OF that(1)] ok' by simp
    show "strip_lf b \<noteq> []"
    proof
      assume "strip_lf b = []"
      moreover obtain n m where "b = replicate n code_LF @ strip_lf b @ replicate m code_LF"
        by (rule strip_lf_parts)
      ultimately have "set b \<subseteq> {code_LF}" by (metis append_Nil replicate_add set_replicate_conv_if empty_subsetI order_refl)
      then have "strip_codes b = []"
        by (induction b) (auto simp: strip_codes_def strip_by_Cons)
      with that(2) show False by simp
    qed
  qed
  then show ?thesis by (auto simp: prose_blocks_def list_all_iff)
qed

lemma split_on_prefix:
  "d \<notin> set w \<Longrightarrow> split_on d (w @ s) = (w @ hd (split_on d s)) # tl (split_on d s)"
  by (induction w) (auto split: list.splits)

lemma labelled_solid:
  assumes "text_lines_ok (strip_codes v)" and "list_all (\<lambda>c. \<not> is_break_code c) label"
  shows "solid (MARK label @ lit '' '' @ strip_codes v)"
proof -
  obtain l ls where lines: "split_on code_LF (strip_codes v) = l # ls" by (metis split_on_not_Nil list.exhaust)
  let ?m = "MARK label @ lit '' ''"
  have m: "no_breaks ?m" "?m = 0x2A # tl ?m"
    using assms(2) by (simp_all add: MARK_def lit_def no_breaks_def list_all_iff is_break_code_def)
  then have "split_on code_LF (?m @ strip_codes v) = (?m @ l) # ls"
    using lines split_on_prefix [OF no_breaks_LF [OF m(1)], of "strip_codes v"] by simp
  moreover have "\<not> is_heading (?m @ l)"
    by (simp add: is_heading_def heading_match_def starts_with_def lit_def MARK_def)
  ultimately have "text_lines_ok (?m @ strip_codes v)"
    using assms(1) m(1) lines by (auto simp: text_lines_ok_def text_line_def)
  moreover have "last (?m @ strip_codes v) \<noteq> code_LF"
  proof (cases "strip_codes v = []")
    case True then show ?thesis by (simp add: lit_def code_LF_def)
  next
    case False
    then show ?thesis using strip_by_ends [of is_blank_code v] by (auto simp: strip_codes_def)
  qed
  ultimately show ?thesis
    by (simp add: solid_def MARK_def lit_def code_LF_def)
qed

definition wf_text :: "codes option \<Rightarrow> bool" where
  "wf_text v \<longleftrightarrow> (case v of None \<Rightarrow> True | Some s \<Rightarrow> text_lines_ok (strip_codes s))"

lemma labels_no_breaks: "label \<in> set PROSE_LABELS \<Longrightarrow> list_all (\<lambda>c. \<not> is_break_code c) label"
  by (auto simp: PROSE_LABELS_def lit_def is_break_code_def)

lemma compose_prose_wf:
  assumes "wf_text answer" "wf_text rationale" "wf_text if_wrong"
  shows "wf_prose (compose_prose answer rationale if_wrong)"
proof -
  have "solid (MARK label @ lit '' '' @ strip_codes s)"
    if "label \<in> set PROSE_LABELS" "wf_text (Some s)" for label s
    using that labelled_solid [OF _ labels_no_breaks] by (simp add: wf_text_def)
  then show ?thesis
    unfolding compose_prose_def using assms
    by (intro wf_prose_join) (auto simp: list_all_iff List.map_filter_def PROSE_LABELS_def)
qed

lemma wf_prose_blocks: "wf_prose p \<Longrightarrow> list_all solid (prose_blocks p)"
  by (simp add: wf_prose_def prose_blocks_solid)

lemma replace_block_solid: "list_all solid bs \<Longrightarrow> solid new \<Longrightarrow> list_all solid (replace_block P new bs)"
  by (induction bs) (auto simp: list_all_iff)

lemma insert_block_solid: "list_all solid bs \<Longrightarrow> solid new \<Longrightarrow> list_all solid (insert_block label new bs)"
  by (auto simp: insert_block_def Let_def list_all_iff dest: in_set_takeD in_set_dropD)

lemma merge_label_solid:
  "list_all solid bs \<Longrightarrow> list_all (\<lambda>(l, b). solid b) replacements \<Longrightarrow>
     list_all solid (merge_label replacements bs label)"
  using dict_of_Some [of replacements label]
  by (auto simp: merge_label_def list_all_iff [of "\<lambda>(l, b). solid b"] split: option.splits
      intro!: replace_block_solid insert_block_solid)

lemma foldl_merge_solid:
  "list_all solid bs \<Longrightarrow> list_all (\<lambda>(l, b). solid b) replacements \<Longrightarrow>
     list_all solid (foldl (merge_label replacements) bs labels)"
  by (induction labels arbitrary: bs) (simp_all add: merge_label_solid)

lemma merge_prose_wf: "wf_prose p \<Longrightarrow> wf_prose q \<Longrightarrow> wf_prose (merge_prose p q)"
proof -
  assume wf: "wf_prose p" "wf_prose q"
  let ?rs = "List.map_filter (\<lambda>b. map_option (\<lambda>l. (l, b)) (prose_label b)) (prose_blocks q)"
  have "list_all (\<lambda>(l, b). solid b) ?rs"
    using wf_prose_blocks [OF wf(2)] by (auto simp: list_all_iff List.map_filter_def)
  with wf_prose_blocks [OF wf(1)] wf_prose_blocks [OF wf(2)] show ?thesis
    unfolding merge_prose_def Let_def
    using foldl_merge_solid [of "prose_blocks p" ?rs PROSE_LABELS]
    by (intro wf_prose_join) (auto simp: list_all_iff [of solid])
qed

lemma without_labels_wf: "wf_prose p \<Longrightarrow> wf_prose (without_prose_labels p labels)"
  using wf_prose_blocks [of p] unfolding without_prose_labels_def
  by (intro wf_prose_join) (auto simp: list_all_iff)

subsection \<open>Well-formed entries\<close>

lemma lit_append [simp]: "lit (s @ t) = lit s @ lit t"
  by (simp add: lit_def)

lemma digit_code_of_char: "is_digit c \<Longrightarrow> 48 \<le> (of_char c :: int) \<and> (of_char c :: int) \<le> 57"
proof -
  assume "is_digit c"
  moreover have "(of_char c :: int) = int (of_char c)" by (rule of_nat_of_char [symmetric])
  ultimately show ?thesis unfolding is_digit_def Let_def by linarith
qed

lemma lit_digits: "list_all is_digit_code (lit (zpad n (nat_str k)))" "lit (zpad n (nat_str k)) \<noteq> []"
proof -
  have "is_digit_code (of_char c)" if "is_digit c" for c
    using digit_code_of_char [OF that] by (simp add: is_digit_code_def)
  then show "list_all is_digit_code (lit (zpad n (nat_str k)))"
    by (auto simp: list_all_iff lit_def zpad_def dest!: nat_str_digits) (simp add: is_digit_code_def)
  show "lit (zpad n (nat_str k)) \<noteq> []"
    by (subst nat_str.simps) (simp add: lit_def zpad_def)
qed

lemma digits_value_lit: "list_all is_digit s \<Longrightarrow> digits_value acc (lit s) = digits_nat acc s"
proof (induction acc s rule: digits_nat.induct)
  case (2 acc c cs)
  have "nat (of_char c - 48) = of_char c - 48"
    using "2.prems" digit_code_of_char [of c] by (simp add: nat_diff_distrib)
  with 2 show ?case by (simp add: lit_def)
qed (simp add: lit_def)

lemma digits_nat_zeros: "digits_nat 0 (replicate n (CHR ''0'') @ s) = digits_nat 0 s"
  by (induction n) simp_all

lemma decision_label_wf:
  "\<exists>ds. ds \<noteq> [] \<and> list_all is_digit_code ds \<and> decision_label n = lit ''D-'' @ ds \<and> n = digits_value 0 ds"
proof (intro exI conjI)
  have "list_all is_digit (zpad 3 (nat_str n))"
    by (auto simp: list_all_iff zpad_def is_digit_def dest: nat_str_digits)
  then show "n = digits_value 0 (lit (zpad 3 (nat_str n)))"
    by (simp add: digits_value_lit) (simp add: zpad_def digits_nat_zeros)
qed (simp_all add: lit_digits decision_label_def)

definition wf_actor :: "codes \<Rightarrow> bool" where
  "wf_actor by_whom \<longleftrightarrow> wf_value by_whom \<and> by_whom \<noteq> []"

lemma stamp_wf:
  assumes "wf_actor w"
  shows "wf_value (decided_stamp d w)" "decided_stamp d w \<notin> set EMPTY_VALUES"
proof -
  obtain c cs where c: "isoformat d = c # cs" "is_digit c"
  proof -
    obtain c cs where "nat_str (year d) = c # cs" by (metis lit_digits(2) list.exhaust lit_def list.map(1) nat_str.simps list.distinct(1) append_is_Nil_conv)
    then show ?thesis
      using that nat_str_digits [of c "year d"]
      by (cases "4 - length (nat_str (year d))") (auto simp: isoformat_def zpad_def is_digit_def)
  qed
  have iso: "no_breaks (lit (isoformat d))"
    unfolding no_breaks_def lit_def isoformat_def zpad_def
    by (auto simp: is_break_code_def dest!: nat_str_digits digit_code_of_char)
  have "\<not> is_blank_code (of_char c)" using digit_code_of_char [OF c(2)] by (auto simp: is_blank_code_def)
  moreover have "w \<noteq> []" "\<not> is_blank_code (last w)"
    using assms strip_by_ends [of is_blank_code w] by (auto simp: wf_actor_def wf_value_def strip_codes_def)
  ultimately have "strip_codes (decided_stamp d w) = decided_stamp d w"
    unfolding strip_codes_def decided_stamp_def by (intro strip_by_keep) (simp add: c(1) lit_def)
  moreover have "no_breaks (lit '' by '')" by (simp add: lit_def is_break_code_def)
  ultimately show "wf_value (decided_stamp d w)"
    using iso assms by (simp add: wf_value_def decided_stamp_def wf_actor_def)
  have "length (decided_stamp d w) > 4" using \<open>w \<noteq> []\<close> c(1) by (simp add: decided_stamp_def lit_def)
  then show "decided_stamp d w \<notin> set EMPTY_VALUES"
    by (auto simp: EMPTY_VALUES_def EM_DASH_def lit_def)
qed

definition wf_opt :: "codes option \<Rightarrow> bool" where
  "wf_opt v \<longleftrightarrow> (case v of None \<Rightarrow> True | Some x \<Rightarrow> x \<notin> set EMPTY_VALUES \<and> wf_value x)"

text \<open>The requests whose entry can be read back: a question on one line, an actor, no heading
  in the prose. The planners do not check this.\<close>

definition wf_append :: "append_request \<Rightarrow> bool" where
  "wf_append rq \<longleftrightarrow>
     no_breaks (strip_codes (ap_question rq)) \<and> wf_affects (ap_affects rq) \<and> wf_actor (ap_by rq) \<and>
     wf_opt (ap_hold rq) \<and> wf_opt (ap_phase rq) \<and> wf_opt (ap_checkpoint rq) \<and>
     wf_text (ap_answer rq) \<and> wf_text (ap_rationale rq) \<and> wf_text (ap_if_wrong rq)"

lemma wf_decision_prose: "wf_decision d \<Longrightarrow> wf_prose (de_prose d)"
  by (simp add: wf_decision_def wf_prose_def text_lines_ok_def text_line_def list_all_iff)

lemma wf_value_strip [simp]: "wf_value (strip_codes s) \<longleftrightarrow> no_breaks (strip_codes s)"
  by (simp add: wf_value_def strip_codes_def)

lemma statuses [simp]:
  "lit ''open'' \<in> set VALID_STATUSES" "lit ''assumed'' \<in> set VALID_STATUSES"
  "lit ''answered'' \<in> set VALID_STATUSES" "lit ''superseded'' \<in> set VALID_STATUSES"
  by (simp_all add: VALID_STATUSES_def)

lemma append_entry_wf:
  assumes "wf_append rq" and "append_refusal rq = None"
  shows "wf_decision (append_entry rq (decision_label n) n)"
proof -
  have "wf_prose (compose_prose (ap_answer rq) (ap_rationale rq) (ap_if_wrong rq))"
    using assms(1) by (simp add: wf_append_def compose_prose_wf)
  then show ?thesis
    using assms stamp_wf [of "ap_by rq" "ap_on rq"] decision_label_wf [of n]
    by (auto simp: wf_decision_def append_entry_def Let_def wf_append_def append_refusal_def wf_field_def wf_opt_def
        present_def present_keys_for_def wf_prose_def text_lines_ok_def text_line_def list_all_iff
        split: option.splits if_splits)
qed

lemma wf_field_cong: "present d k = present e k \<Longrightarrow> wf_field d k v = wf_field e k v"
  by (simp add: wf_field_def split: option.splits)

lemma answered_entry_wf:
  assumes "wf_decision d" and "wf_actor w" and "wf_text (Some answer)" and "wf_text rationale"
  shows "wf_decision (answered_entry d answer rationale on w)"
proof -
  let ?d = "answered_entry d answer rationale on w"
  have "wf_prose (de_prose ?d)"
    using assms(3,4) wf_decision_prose [OF assms(1)]
    by (simp add: answered_entry_def Let_def merge_prose_wf without_labels_wf compose_prose_wf wf_text_def)
  then have prose: "strip_lf (de_prose ?d) = de_prose ?d"
    "list_all (\<lambda>l. no_breaks l \<and> \<not> is_heading l) (split_on code_LF (de_prose ?d))"
    by (simp_all add: wf_prose_def text_lines_ok_def text_line_def list_all_iff)
  have same: "de_extra ?d = de_extra d" "de_id ?d = de_id d" "de_number ?d = de_number d"
    "de_question ?d = de_question d" "de_affects ?d = de_affects d" "de_supersedes ?d = de_supersedes d"
    "de_hold ?d = de_hold d" "de_phase ?d = de_phase d" "de_checkpoint ?d = de_checkpoint d"
    "de_status ?d = lit ''answered''" "de_decided ?d = Some (decided_stamp on w)"
    "de_present ?d = de_present d @ [lit ''decided'']"
    by (simp_all add: answered_entry_def Let_def)
  have kept: "present ?d k = present d k" if "k \<noteq> ''decided''" for k
    using that by (simp add: present_def same)
  have fields: "wf_field ?d ''supersedes'' v = wf_field d ''supersedes'' v"
    "wf_field ?d ''hold'' v = wf_field d ''hold'' v" "wf_field ?d ''phase'' v = wf_field d ''phase'' v"
    "wf_field ?d ''checkpoint'' v = wf_field d ''checkpoint'' v" for v
    by (rule wf_field_cong [OF kept]; simp)+
  have affects: "present ?d ''affects'' = present d ''affects''" by (rule kept) simp
  have decided: "wf_field ?d ''decided'' (Some (decided_stamp on w))"
    using stamp_wf [OF assms(2), of on] by (simp add: wf_field_def present_def same)
  have extra: "k \<in> set (de_present d) \<Longrightarrow> k \<in> set (de_present ?d)" for k by (simp add: same)
  have "list_all (\<lambda>(k, v). wf_key k \<and> wf_value v \<and>
       (k \<in> set RECOGNIZED_KEYS \<longrightarrow> k = lit ''status'' \<or> k \<in> set (de_present ?d))) (de_extra d)"
    using assms(1) extra unfolding wf_decision_def list_all_iff by blast
  then show ?thesis
    using assms(1) prose decided statuses(3) unfolding wf_decision_def same(1-11) fields affects by blast
qed

lemma id_wf_value: "wf_decision d \<Longrightarrow> wf_value (de_id d) \<and> de_id d \<notin> set EMPTY_VALUES"
proof -
  assume "wf_decision d"
  then obtain ds where ds: "ds \<noteq> []" "list_all is_digit_code ds" "de_id d = lit ''D-'' @ ds"
    by (auto simp: wf_decision_def)
  then have "is_digit_code (last ds)" by (auto simp: list_all_iff)
  then have "strip_codes (de_id d) = de_id d"
    using ds unfolding strip_codes_def
    by (intro strip_by_keep) (auto simp: lit_def is_blank_code_def is_digit_code_def)
  moreover have "no_breaks (de_id d)"
    using ds by (auto simp: no_breaks_def lit_def is_break_code_def is_digit_code_def list_all_iff)
  moreover have "2 < length (de_id d)" using ds by (cases ds) (simp_all add: lit_def)
  moreover have "de_id d ! 1 = 0x2D" using ds by (simp add: lit_def)
  ultimately show ?thesis
    by (auto simp: wf_value_def EMPTY_VALUES_def EM_DASH_def lit_def)
qed

lemma replacement_entry_wf:
  assumes "wf_decision old" and "wf_actor w" and "wf_text (Some answer)" and "wf_text rationale"
    and "no_breaks (strip_codes question)" and "case affects of None \<Rightarrow> True | Some a \<Rightarrow> wf_affects a"
  shows "wf_decision (replacement_entry old question answer rationale affects on w (decision_label n, n))"
proof -
  have "wf_prose (compose_prose (Some answer) rationale None)"
    using assms(3,4) by (simp add: compose_prose_wf wf_text_def)
  then show ?thesis
    using assms stamp_wf [OF assms(2), of on] decision_label_wf [of n] id_wf_value [OF assms(1)]
    by (auto simp: wf_decision_def replacement_entry_def Let_def wf_field_def
        present_def present_keys_for_def wf_prose_def text_lines_ok_def text_line_def list_all_iff
        split: option.splits if_splits)
qed

lemma present_status [simp]: "present (d\<lparr>de_status := s\<rparr>) k = present d k"
  by (simp add: present_def)

lemma wf_field_status [simp]: "wf_field (d\<lparr>de_status := s\<rparr>) k v = wf_field d k v"
  by (simp add: wf_field_def split: option.splits)

lemma retired_wf: "wf_decision d \<Longrightarrow> wf_decision (d\<lparr>de_status := lit ''superseded''\<rparr>)"
  by (simp add: wf_decision_def)

subsection \<open>The entry of a number\<close>

text \<open>A ledger as a map from numbers to entries: the first entry of a number, without the
  record of the keys written.\<close>

definition shown :: "decision \<Rightarrow> decision" where
  "shown d = d\<lparr>de_present := []\<rparr>"

definition entry_of :: "decision list \<Rightarrow> nat \<Rightarrow> decision option" where
  "entry_of ds n = map_option shown (find (\<lambda>d. de_number d = n) ds)"

definition ledger_at :: "codes \<Rightarrow> nat \<Rightarrow> decision option" where
  "ledger_at t = entry_of (lp_entries (parse_ledger t))"

lemma find_filter: "find P xs = (case filter P xs of [] \<Rightarrow> None | x # _ \<Rightarrow> Some x)"
  by (induction xs) auto

lemma entry_of_sort [simp]: "entry_of (sort_key de_number ds) = entry_of ds"
  by (simp add: entry_of_def find_filter sort_key_stable fun_eq_iff)

lemma entry_of_restored [simp]: "entry_of (map restored ds) = entry_of ds"
proof
  show "entry_of (map restored ds) n = entry_of ds n" for n
    by (induction ds) (simp_all add: entry_of_def restored_def shown_def)
qed

lemma entry_of_None: "entry_of ds n = None \<longleftrightarrow> n \<notin> de_number ` set ds"
  by (auto simp: entry_of_def find_None_iff)

lemma entry_of_append: "entry_of (ds @ [d]) = (\<lambda>n. if de_number d = n \<and> entry_of ds n = None then Some (shown d) else entry_of ds n)"
proof
  show "entry_of (ds @ [d]) n = (if de_number d = n \<and> entry_of ds n = None then Some (shown d) else entry_of ds n)" for n
    by (induction ds) (auto simp: entry_of_def)
qed

lemma find_number_Some:
  "find_number k ds n = Some (d, i) \<Longrightarrow>
     k \<le> i \<and> i - k < length ds \<and> ds ! (i - k) = d \<and> de_number d = n \<and> entry_of ds n = Some (shown d)"
proof (induction k ds n rule: find_number.induct)
  case (2 k e ds n)
  show ?case
  proof (cases "de_number e = n")
    case False
    with 2 have "Suc k \<le> i" "i - Suc k < length ds" "ds ! (i - Suc k) = d" "de_number d = n"
      "entry_of ds n = Some (shown d)"
      by auto
    with False show ?thesis by (auto simp: entry_of_def nth_Cons' Suc_diff_le less_Suc_eq_le)
  qed (use "2.prems" in \<open>auto simp: entry_of_def\<close>)
qed simp

lemma entry_of_update:
  "find_number k ds n = Some (d, i) \<Longrightarrow> de_number u = n \<Longrightarrow> entry_of (ds[i - k := u]) = (entry_of ds)(n \<mapsto> shown u)"
proof (induction k ds n rule: find_number.induct)
  case (2 k e ds n)
  show ?case
  proof (cases "de_number e = n")
    case True
    with 2 show ?thesis by (auto simp: entry_of_def fun_eq_iff)
  next
    case False
    with 2 have IH: "entry_of (ds[i - Suc k := u]) = (entry_of ds)(n \<mapsto> shown u)" and "Suc k \<le> i"
      using find_number_Some [of "Suc k" ds n d i] by auto
    then have "(e # ds)[i - k := u] = e # ds[i - Suc k := u]"
      by (metis Suc_diff_le diff_Suc_Suc list_update_code(3))
    with False IH show ?thesis by (auto simp: entry_of_def fun_eq_iff)
  qed
qed simp

lemma find_decision_Some:
  assumes "find_decision ds decision_id = Some (d, i)"
  shows "i < length ds" "d \<in> set ds" "entry_of ds (de_number d) = Some (shown d)"
    "de_number u = de_number d \<Longrightarrow> entry_of (ds[i := u]) = (entry_of ds)(de_number d \<mapsto> shown u)"
    "id_number decision_id = Inr (de_number d)"
proof -
  obtain n where n: "id_number decision_id = Inr n" "find_number 0 ds n = Some (d, i)"
    using assms by (auto simp: find_decision_def split: sum.splits)
  from find_number_Some [OF n(2)]
  show "i < length ds" "d \<in> set ds" "entry_of ds (de_number d) = Some (shown d)" "id_number decision_id = Inr (de_number d)"
    using n(1) by auto
  show "entry_of (ds[i := u]) = (entry_of ds)(de_number d \<mapsto> shown u)" if "de_number u = de_number d"
    using entry_of_update [OF n(2), of u] find_number_Some [OF n(2)] that by simp
qed

lemma next_id_fresh:
  assumes "next_id ds = (label, n)"
  shows "label = decision_label n" "entry_of ds n = None" "d \<in> set ds \<Longrightarrow> de_number d < n"
proof -
  have below: "d \<in> set ds \<Longrightarrow> de_number d \<le> foldr (\<lambda>d. max (de_number d)) ds 0" for d
    by (induction ds) auto
  show "label = decision_label n" "d \<in> set ds \<Longrightarrow> de_number d < n"
    using assms below [of d] by (auto simp: next_id_def)
  show "entry_of ds n = None"
    using assms below by (fastforce simp: next_id_def entry_of_None)
qed

lemma written_at:
  "list_all wf_decision ds \<Longrightarrow> ledger_at (render_ledger (lp_preamble (parse_ledger t)) ds) = entry_of ds"
  by (simp add: ledger_at_def rewritten_entries)

subsection \<open>Amended entries\<close>

definition amendable :: "decision \<Rightarrow> codes list option \<Rightarrow> bool" where
  "amendable d affects \<longleftrightarrow>
     list_all solid (amend_sections (de_prose d)) \<and>
     (let as = (case affects of Some a \<Rightarrow> a | None \<Rightarrow> de_affects d)
      in wf_affects as \<and> (as = [] \<longrightarrow> lit ''affects'' \<notin> fst ` set (de_extra d)))"

lemma code_words_no_blank:
  "\<forall>c \<in> set acc. \<not> is_blank_code c \<Longrightarrow> w \<in> set (code_words acc s) \<Longrightarrow> c \<in> set w \<Longrightarrow> \<not> is_blank_code c"
  by (induction acc s rule: code_words.induct) (auto split: if_splits)

lemma join_no_breaks: "no_breaks sep \<Longrightarrow> list_all no_breaks ws \<Longrightarrow> no_breaks (join sep ws)"
proof (induction ws)
  case (Cons w ws)
  then show ?case by (cases "ws = []") (simp_all add: join_Cons)
qed simp

lemma one_line_no_breaks: "no_breaks (one_line s)"
  unfolding one_line_def
proof (rule join_no_breaks)
  show "no_breaks (lit '' '')" by (simp add: lit_def is_break_code_def)
  show "list_all no_breaks (code_words [] s)"
    using code_words_no_blank [of "[]" _ s] break_is_blank by (fastforce simp: list_all_iff no_breaks_def)
qed

lemma amended_block_solid:
  assumes "wf_actor w" "no_breaks previous"
  shows "solid (amended_block on w note previous)"
proof -
  have "no_breaks (rstrip_dots (one_line note))"
    using one_line_no_breaks [of "note"] by (auto simp: rstrip_dots_def no_breaks_def dest!: set_dropWhileD)
  moreover have "no_breaks (decided_stamp on w)" using stamp_wf(1) [OF assms(1)] by (simp add: wf_value_def)
  ultimately have breaks: "no_breaks (amended_block on w note previous)"
    using assms(2) by (simp add: amended_block_def lit_def EM_DASH_def is_break_code_def)
  have "\<not> is_heading (amended_block on w note previous)"
    by (simp add: is_heading_def heading_match_def starts_with_def lit_def amended_block_def)
  with breaks have "text_lines_ok (amended_block on w note previous)"
    by (simp add: text_lines_ok_def text_line_def split_on_single no_breaks_LF)
  moreover have start: "amended_block on w note previous = 0x2A # tl (amended_block on w note previous)"
    by (simp add: amended_block_def lit_def)
  moreover have "last (amended_block on w note previous) \<noteq> code_LF"
    using breaks no_breaks_LF start by (metis last_in_set list.distinct(1))
  ultimately show ?thesis
    unfolding solid_def by (metis list.distinct(1) list.sel(1) breaks no_breaks_LF list.set_intros(1))
qed

lemma amend_label_solid:
  assumes "list_all solid bs" "wf_text v" "label \<in> set PROSE_LABELS"
  shows "list_all solid (amend_label bs (label, v))"
proof (cases v)
  case (Some x)
  with assms have "solid (MARK label @ lit '' '' @ strip_codes x)"
    using labelled_solid [OF _ labels_no_breaks] by (simp add: wf_text_def)
  with Some assms(1) show ?thesis
    by (simp add: amend_label_def Let_def replace_block_solid insert_block_solid)
qed (use assms in \<open>simp add: amend_label_def\<close>)

lemma amended_prose_wf:
  assumes "wf_actor w" and "wf_text (Some answer)" and "wf_text rationale" and "amendable d affects"
  shows "wf_prose (de_prose (amended_entry d answer note rationale affects on w))"
proof -
  let ?new = "amended_block on w note (one_line (amend_value (amend_sections (de_prose d)) (lit ''Answer'')))"
  have "solid ?new" using amended_block_solid [OF assms(1) one_line_no_breaks] .
  moreover have "list_all solid (foldl amend_label (amend_sections (de_prose d))
      [(lit ''Answer'', Some answer), (lit ''Rationale'', rationale)])"
    using assms(2-4) by (simp add: amendable_def amend_label_solid PROSE_LABELS_def)
  ultimately have "wf_prose (amend_prose (amend_sections (de_prose d)) answer rationale ?new)"
    unfolding amend_prose_def by (intro wf_prose_join) simp
  then show ?thesis by (simp add: amended_entry_def Let_def)
qed

lemma amended_entry_simps:
  "de_extra (amended_entry d answer note rationale affects on w) = de_extra d"
  "de_id (amended_entry d answer note rationale affects on w) = de_id d"
  "de_number (amended_entry d answer note rationale affects on w) = de_number d"
  "de_question (amended_entry d answer note rationale affects on w) = de_question d"
  "de_status (amended_entry d answer note rationale affects on w) = de_status d"
  "de_decided (amended_entry d answer note rationale affects on w) = de_decided d"
  "de_supersedes (amended_entry d answer note rationale affects on w) = de_supersedes d"
  "de_hold (amended_entry d answer note rationale affects on w) = de_hold d"
  "de_phase (amended_entry d answer note rationale affects on w) = de_phase d"
  "de_checkpoint (amended_entry d answer note rationale affects on w) = de_checkpoint d"
  by (simp_all add: amended_entry_def Let_def)

lemma amended_present:
  "k \<noteq> ''affects'' \<Longrightarrow> present (amended_entry d answer note rationale affects on w) k = present d k"
  by (simp add: present_def amended_entry_def Let_def present_keys_for_def)

lemma amended_entry_wf:
  assumes "wf_decision d" and "wf_actor w" and "wf_text (Some answer)" and "wf_text rationale" and "amendable d affects"
  shows "wf_decision (amended_entry d answer note rationale affects on w)"
proof -
  let ?d = "amended_entry d answer note rationale affects on w"
  have fields: "wf_field ?d ''decided'' v = wf_field d ''decided'' v"
    "wf_field ?d ''supersedes'' v = wf_field d ''supersedes'' v" "wf_field ?d ''hold'' v = wf_field d ''hold'' v"
    "wf_field ?d ''phase'' v = wf_field d ''phase'' v" "wf_field ?d ''checkpoint'' v = wf_field d ''checkpoint'' v" for v
    by (rule wf_field_cong [OF amended_present]; simp)+
  have prose: "strip_lf (de_prose ?d) = de_prose ?d"
    "list_all (\<lambda>l. no_breaks l \<and> \<not> is_heading l) (split_on code_LF (de_prose ?d))"
    using amended_prose_wf [OF assms(2-5), of "note" on]
    by (simp_all add: wf_prose_def text_lines_ok_def text_line_def list_all_iff)
  have "wf_affects (de_affects ?d) \<and> (de_affects ?d \<noteq> [] \<longrightarrow> present ?d ''affects'')"
    using assms(5) by (simp add: amended_entry_def amendable_def Let_def present_def present_keys_for_def)
  moreover have "list_all (\<lambda>(k, v). wf_key k \<and> wf_value v \<and>
       (k \<in> set RECOGNIZED_KEYS \<longrightarrow> k = lit ''status'' \<or> k \<in> set (de_present ?d))) (de_extra ?d)"
    unfolding list_all_iff
  proof (intro ballI, clarify)
    fix k v assume kv: "(k, v) \<in> set (de_extra ?d)"
    then have extra: "k \<in> fst ` set (de_extra d)" by (force simp: amended_entry_simps)
    have "wf_key k \<and> wf_value v \<and> (k \<in> set RECOGNIZED_KEYS \<longrightarrow> k = lit ''status'' \<or> k \<in> set (de_present d))"
      using assms(1) kv by (auto simp: wf_decision_def list_all_iff amended_entry_simps)
    moreover have "k \<in> set (de_present ?d)" if "k \<in> set (de_present d)"
      using that extra assms(5)
      by (cases "k = lit ''affects''") (simp_all add: amended_entry_def amendable_def Let_def present_keys_for_def)
    ultimately show "wf_key k \<and> wf_value v \<and>
       (k \<in> set RECOGNIZED_KEYS \<longrightarrow> k = lit ''status'' \<or> k \<in> set (de_present ?d))"
      by blast
  qed
  ultimately show ?thesis
    using assms(1) prose unfolding wf_decision_def amended_entry_simps fields by blast
qed

subsection \<open>Commands\<close>

datatype ledger_command =
  Append append_request
| Answer codes codes "codes option" date codes
| Amend codes codes codes "codes option" "codes list option" date codes
| Supersede codes codes codes "codes option" "codes list option" date codes

fun plan_command :: "ledger_command \<Rightarrow> codes \<Rightarrow> decision_plan" where
  "plan_command (Append rq) t = plan_append rq t"
| "plan_command (Answer i answer rationale on w) t = plan_update i answer rationale on w t"
| "plan_command (Amend i answer note rationale affects on w) t = plan_amend i answer note rationale affects on w t"
| "plan_command (Supersede i question answer rationale affects on w) t =
     plan_supersede i question answer rationale affects on w t"

text \<open>The requests that can be read back. Only an amendment looks at the ledger: the prose it
  cuts up must stay prose, and dropping the affected items must not uncover a duplicate key.\<close>

fun wf_command :: "ledger_command \<Rightarrow> codes \<Rightarrow> bool" where
  "wf_command (Append rq) t = wf_append rq"
| "wf_command (Answer i answer rationale on w) t = (wf_actor w \<and> wf_text (Some answer) \<and> wf_text rationale)"
| "wf_command (Amend i answer note rationale affects on w) t =
     (wf_actor w \<and> wf_text (Some answer) \<and> wf_text rationale \<and>
      (case find_decision (lp_entries (parse_ledger t)) i of None \<Rightarrow> True | Some (d, _) \<Rightarrow> amendable d affects))"
| "wf_command (Supersede i question answer rationale affects on w) t =
     (wf_actor w \<and> wf_text (Some answer) \<and> wf_text rationale \<and> no_breaks (strip_codes question) \<and>
      (case affects of None \<Rightarrow> True | Some a \<Rightarrow> wf_affects a))"

lemma planned_simps [simp]:
  "dp_refusal (planned t after d s m) = None" "dp_after (planned t after d s m) = after"
  "dp_snapshot (planned t after d s m) = t" "dp_primary (planned t after d s m) = Some d"
  "dp_superseded (planned t after d s m) = s"
  by (simp_all add: planned_def Let_def)

lemma refusal_simps [simp]:
  "dp_refusal (refused_plan t r m) = Some r" "dp_after (refused_plan t r m) = lp_entries (parse_ledger t)"
  "dp_snapshot (refused_plan t r m) = t" "dp_primary (refused_plan t r m) = None"
  "dp_refusal (unknown_decision t i) = Some Unknown_decision" "dp_snapshot (unknown_decision t i) = t"
  by (simp_all add: refused_plan_def unknown_decision_def Let_def)

lemma command_snapshot [simp]: "dp_snapshot (plan_command c t) = t"
  by (cases c) (simp_all add: plan_append_def plan_update_def plan_amend_def plan_supersede_def Let_def
      split: option.splits prod.splits)

lemmas plan_defs = plan_append_def plan_update_def plan_amend_def plan_supersede_def

lemma parsed_wf: "d \<in> set (lp_entries (parse_ledger t)) \<Longrightarrow> wf_decision d"
  using parsed_entries_wf [of t] by (simp add: list_all_iff)

lemma list_all_update: "list_all P xs \<Longrightarrow> P x \<Longrightarrow> list_all P (xs[i := x])"
  by (auto simp: list_all_iff dest!: subsetD [OF set_update_subset_insert])

lemma found_wf: "find_decision (lp_entries (parse_ledger t)) i = Some (d, k) \<Longrightarrow> wf_decision d"
  by (rule parsed_wf [OF find_decision_Some(2)])

lemma command_after_wf:
  assumes "wf_command c t" "dp_refusal (plan_command c t) = None"
  shows "list_all wf_decision (dp_after (plan_command c t))"
proof (cases c)
  case (Append rq)
  then show ?thesis
    using assms append_entry_wf [of rq] next_id_fresh(1) parsed_entries_wf [of t]
    by (auto simp: plan_append_def Let_def split: option.splits prod.splits)
next
  case (Answer i answer rationale on w)
  with assms show ?thesis
    using parsed_entries_wf [of t]
    by (auto simp: plan_update_def Let_def dest!: found_wf intro!: list_all_update answered_entry_wf
        split: option.splits if_splits)
next
  case (Amend i answer remark rationale affects on w)
  with assms show ?thesis
    using parsed_entries_wf [of t]
    by (auto simp: plan_amend_def Let_def dest!: found_wf intro!: list_all_update amended_entry_wf
        split: option.splits if_splits)
next
  case (Supersede i question answer rationale affects on w)
  let ?fresh = "next_id (lp_entries (parse_ledger t))"
  have "?fresh = (decision_label (snd ?fresh), snd ?fresh)"
    using next_id_fresh(1) [of "lp_entries (parse_ledger t)" "fst ?fresh" "snd ?fresh"] by (simp add: prod_eq_iff)
  then obtain n where "?fresh = (decision_label n, n)" by blast
  with assms Supersede show ?thesis
    using parsed_entries_wf [of t]
    by (auto simp: plan_supersede_def Let_def dest!: found_wf intro!: list_all_update replacement_entry_wf retired_wf
        split: option.splits if_splits)
qed

end
