(* ===== verification/History.thy ===== *)
theory History
  imports Decisions
begin

text \<open>
  What the mutations of a decision ledger do to it as a map from numbers to entries, the
  histories that the four commands append, answer, amend and supersede make of it, and the
  re-planning loop of the direct mutations (\<open>work_tracker_okf/decisions.py\<close>) under contention. The
  direct \<open>set_fields\<close> stands outside the histories: it sets any status (\<open>direct_write_reopens\<close>).
\<close>

subsection \<open>What a command does to the map\<close>

definition run_command :: "ledger_command \<Rightarrow> codes \<Rightarrow> decision_application \<times> codes" where
  "run_command c t = apply_plan (plan_command c t) t"

lemma accepted_write:
  assumes "wf_command c t" "dp_refusal (plan_command c t) = None"
  shows "ledger_at (snd (apply_plan (plan_command c t) t)) = entry_of (dp_after (plan_command c t))"
  using assms command_after_wf [OF assms] by (simp add: apply_plan_def apply_plan_locked_def written_at)

text \<open>How one entry may change: its identity stays, its status only moves forward, and a
  superseded entry is frozen.\<close>

definition evolves :: "decision \<Rightarrow> decision \<Rightarrow> bool" where
  "evolves d e \<longleftrightarrow>
     de_id e = de_id d \<and> de_number e = de_number d \<and> de_question e = de_question d \<and>
     de_supersedes e = de_supersedes d \<and> de_hold e = de_hold d \<and> de_phase e = de_phase d \<and>
     de_checkpoint e = de_checkpoint d \<and> de_extra e = de_extra d \<and>
     (de_status e = de_status d \<or> de_status e = lit ''superseded'' \<or>
      de_status d \<in> {lit ''open'', lit ''assumed''} \<and> de_status e = lit ''answered'') \<and>
     (de_status d = lit ''superseded'' \<longrightarrow> e = d)"

lemma evolves_refl [simp]: "evolves d d"
  by (simp add: evolves_def)

lemma evolves_trans: "evolves d e \<Longrightarrow> evolves e f \<Longrightarrow> evolves d f"
  by (auto simp: evolves_def)

lemma answered_evolves:
  "de_status d \<in> {lit ''open'', lit ''assumed''} \<Longrightarrow> evolves (shown d) (shown (answered_entry d a r on w))"
  by (auto simp: evolves_def shown_def answered_entry_def Let_def)

lemma amended_evolves:
  "de_status d = lit ''answered'' \<Longrightarrow> evolves (shown d) (shown (amended_entry d a x r as on w))"
  by (simp add: evolves_def shown_def amended_entry_def Let_def)

lemma retired_evolves:
  "de_status d \<noteq> lit ''superseded'' \<Longrightarrow> evolves (shown d) (shown (d\<lparr>de_status := lit ''superseded''\<rparr>))"
  by (simp add: evolves_def shown_def)

text \<open>The entries after an accepted command: one entry evolved, one fresh one, or both.\<close>

definition map_step :: "(nat \<Rightarrow> decision option) \<Rightarrow> (nat \<Rightarrow> decision option) \<Rightarrow> bool" where
  "map_step m m' \<longleftrightarrow>
     (\<exists>n e. m n = None \<and> de_status e \<noteq> lit ''superseded'' \<and> m' = m(n \<mapsto> e)) \<or>
     (\<exists>n d e. m n = Some d \<and> evolves d e \<and> (de_status e = lit ''superseded'' \<longrightarrow> e = d) \<and> m' = m(n \<mapsto> e)) \<or>
     (\<exists>n d e k r. m n = Some d \<and> evolves d e \<and> de_status e = lit ''superseded'' \<and> m k = None \<and> n < k \<and>
        de_status r = lit ''answered'' \<and> de_supersedes r = Some (de_id d) \<and> m' = m(n \<mapsto> e, k \<mapsto> r))"

lemma entry_of_fresh:
  "entry_of ds n = None \<Longrightarrow> de_number d = n \<Longrightarrow> entry_of (ds @ [d]) = (entry_of ds)(n \<mapsto> shown d)"
  by (auto simp: entry_of_append fun_eq_iff)

lemma shown_simps [simp]:
  "de_status (shown d) = de_status d" "de_id (shown d) = de_id d" "de_supersedes (shown d) = de_supersedes d"
  "de_number (shown d) = de_number d"
  by (simp_all add: shown_def)

lemma appended_step:
  assumes "dp_refusal (plan_append rq t) = None"
  shows "map_step (ledger_at t) (entry_of (dp_after (plan_append rq t)))"
proof -
  let ?ds = "lp_entries (parse_ledger t)"
  obtain label n where fresh: "next_id ?ds = (label, n)" by force
  let ?e = "append_entry rq label n"
  have accepted: "append_refusal rq = None"
    using assms by (auto simp: plan_append_def Let_def split: option.splits)
  have "entry_of (?ds @ [?e]) = (entry_of ?ds)(n \<mapsto> shown ?e)"
    by (rule entry_of_fresh [OF next_id_fresh(2) [OF fresh]]) (simp add: append_entry_def Let_def)
  moreover have "de_status ?e \<noteq> lit ''superseded''"
    using accepted by (auto simp: append_refusal_def append_entry_def Let_def split: if_splits)
  ultimately have "map_step (entry_of ?ds) (entry_of (?ds @ [?e]))"
    unfolding map_step_def using next_id_fresh(2) [OF fresh] by (metis shown_simps(1))
  then show ?thesis by (simp add: plan_append_def accepted fresh ledger_at_def Let_def)
qed

lemma superseded_step:
  assumes "dp_refusal (plan_supersede i q a r as on w t) = None"
  shows "map_step (ledger_at t) (entry_of (dp_after (plan_supersede i q a r as on w t)))"
proof -
  let ?ds = "lp_entries (parse_ledger t)"
  obtain old k where found: "find_decision ?ds i = Some (old, k)" and live: "de_status old \<noteq> lit ''superseded''"
    and answer: "strip_codes a \<noteq> []"
    using assms by (auto simp: plan_supersede_def Let_def split: option.splits if_splits)
  obtain label n where fresh: "next_id ?ds = (label, n)" by force
  let ?old = "old\<lparr>de_status := lit ''superseded''\<rparr>"
  let ?new = "replacement_entry old q a r as on w (label, n)"
  have after: "dp_after (plan_supersede i q a r as on w t) = ?ds[k := ?old] @ [?new]"
    using found live answer fresh by (simp add: plan_supersede_def Let_def)
  have update: "entry_of (?ds[k := ?old]) = (entry_of ?ds)(de_number old \<mapsto> shown ?old)"
    by (rule find_decision_Some(4) [OF found]) simp
  have less: "de_number old < n" using next_id_fresh(3) [OF fresh find_decision_Some(2) [OF found]] .
  have none: "entry_of ?ds n = None" using next_id_fresh(2) [OF fresh] .
  have "entry_of (?ds[k := ?old] @ [?new]) = (entry_of ?ds)(de_number old \<mapsto> shown ?old, n \<mapsto> shown ?new)"
    unfolding update [symmetric]
    by (rule entry_of_fresh) (use update none less in \<open>simp_all add: replacement_entry_def Let_def\<close>)
  moreover have "de_status (shown ?new) = lit ''answered''" "de_supersedes (shown ?new) = Some (de_id (shown old))"
    by (simp_all add: replacement_entry_def Let_def)
  ultimately have "map_step (entry_of ?ds) (entry_of (?ds[k := ?old] @ [?new]))"
    unfolding map_step_def
    using find_decision_Some(3) [OF found] retired_evolves [OF live] none less
    by (intro disjI2) (rule exI [of _ "de_number old"], rule exI [of _ "shown old"], rule exI [of _ "shown ?old"],
      rule exI [of _ n], rule exI [of _ "shown ?new"], simp)
  then show ?thesis by (simp add: after ledger_at_def)
qed

lemma edited_step:
  assumes "find_decision (lp_entries (parse_ledger t)) i = Some (d, k)" "de_number e = de_number d"
    "evolves (shown d) (shown e)" "de_status e \<noteq> lit ''superseded''"
  shows "map_step (ledger_at t) (entry_of ((lp_entries (parse_ledger t))[k := e]))"
  unfolding map_step_def find_decision_Some(4) [OF assms(1,2)] ledger_at_def
  using find_decision_Some(3) [OF assms(1)] assms(3,4)
  by (intro disjI2 disjI1 exI [of _ "de_number d"] exI [of _ "shown d"] exI [of _ "shown e"]) simp

lemma command_step:
  assumes "dp_refusal (plan_command c t) = None"
  shows "map_step (ledger_at t) (entry_of (dp_after (plan_command c t)))"
proof (cases c)
  case (Answer i answer rationale on w)
  with assms show ?thesis
    by (auto simp: plan_update_def Let_def answered_entry_def
        intro!: edited_step answered_evolves [unfolded answered_entry_def Let_def] split: option.splits if_splits)
next
  case (Amend i answer remark rationale affects on w)
  with assms show ?thesis
    by (auto simp: plan_amend_def Let_def amended_entry_simps intro!: edited_step amended_evolves
        split: option.splits if_splits)
qed (use assms appended_step superseded_step in simp_all)

subsection \<open>Histories\<close>

text \<open>Any number of writers: a command is planned on some text, and its plan applied, at once or
  later, to the text of that time.\<close>

inductive ledger_run :: "codes \<Rightarrow> codes \<Rightarrow> bool" for t where
  run_refl: "ledger_run t t"
| run_step: "ledger_run t u \<Longrightarrow> wf_command c v \<Longrightarrow> ledger_run t (snd (apply_plan (plan_command c v) u))"

lemma apply_cases:
  "snd (apply_plan (plan_command c v) u) = u \<or> u = v \<and> dp_refusal (plan_command c v) = None"
  by (simp add: apply_plan_def apply_plan_locked_def)

lemma run_map_step:
  assumes "wf_command c v"
  shows "ledger_at (snd (apply_plan (plan_command c v) u)) = ledger_at u \<or>
    map_step (ledger_at u) (ledger_at (snd (apply_plan (plan_command c v) u)))"
  using apply_cases [of c v u] accepted_write [OF assms] command_step [of c v] by force

lemma map_step_evolves: "map_step m m' \<Longrightarrow> m n = Some d \<Longrightarrow> \<exists>e. m' n = Some e \<and> evolves d e"
  by (auto simp: map_step_def)

definition has_successor :: "(nat \<Rightarrow> decision option) \<Rightarrow> nat \<Rightarrow> decision \<Rightarrow> bool" where
  "has_successor m n d \<longleftrightarrow> (\<exists>k r. m k = Some r \<and> n < k \<and> de_supersedes r = Some (de_id d))"

lemma has_successor_step:
  assumes "has_successor m n d" "map_step m m'"
  shows "has_successor m' n d"
proof -
  obtain k r where r: "m k = Some r" "n < k" "de_supersedes r = Some (de_id d)"
    using assms(1) by (auto simp: has_successor_def)
  from map_step_evolves [OF assms(2) r(1)] obtain e where "m' k = Some e" "evolves r e" by blast
  with r show ?thesis unfolding has_successor_def by (intro exI [of _ k] exI [of _ e]) (simp add: evolves_def)
qed

lemma retired_step:
  assumes "map_step m m'" "m' n = Some e" "de_status e = lit ''superseded''"
  shows "(\<exists>d. m n = Some d \<and> de_status d = lit ''superseded'' \<and> e = d) \<or> has_successor m' n e"
  using assms unfolding map_step_def
proof (elim disjE exE conjE)
  fix j d f k r
  assume new: "m j = Some d" "evolves d f" "de_status f = lit ''superseded''" "m k = None" "j < k"
    "de_status r = lit ''answered''" "de_supersedes r = Some (de_id d)" "m' = m(j \<mapsto> f, k \<mapsto> r)"
  have "has_successor m' j f"
    unfolding has_successor_def using new
    by (intro exI [of _ k] exI [of _ r]) (simp add: evolves_def)
  with new assms show ?thesis by (cases "n = j"; cases "n = k") auto
qed (auto split: if_splits)

subsection \<open>Direct mutations under contention\<close>

text \<open>The text that the other writers alone make of \<open>t\<close> in \<open>n\<close> of their turns.\<close>

definition others :: "(nat \<Rightarrow> codes \<Rightarrow> codes) \<Rightarrow> nat \<Rightarrow> nat \<Rightarrow> codes \<Rightarrow> codes" where
  "others env k n t = fold env [k..<k + n] t"

lemma others_two: "others env (k + 2) n (env (Suc k) (env k t)) = others env k (n + 2) t"
proof -
  have "[k..<k + (n + 2)] = k # Suc k # [k + 2..<k + 2 + n]"
    using upt_conv_Cons [of k "k + (n + 2)"] upt_conv_Cons [of "Suc k" "k + (n + 2)"] by (simp add: algebra_simps)
  then show ?thesis by (simp add: others_def)
qed

lemma loop_linearizes:
  assumes "apply_until_current planner env k t = Some r"
  shows "(\<forall>t p. planner t = Inr p \<longrightarrow> dp_snapshot p = t \<and> dp_refusal p = None) \<longrightarrow> (\<forall>p t'. r = Inr (p, t') \<longrightarrow>
    (\<exists>j. apply_under_lock planner (others env k (2 * j + 1) t) = Inr (p, t') \<and>
      others env k (2 * j + 2) t = others env k (2 * j + 1) t))"
  using assms
proof (rule apply_until_current.raw_induct [where P = "\<lambda>planner env k t r.
    (\<forall>t p. planner t = Inr p \<longrightarrow> dp_snapshot p = t \<and> dp_refusal p = None) \<longrightarrow> (\<forall>p t'. r = Inr (p, t') \<longrightarrow>
    (\<exists>j. apply_under_lock planner (others env k (2 * j + 1) t) = Inr (p, t') \<and>
      others env k (2 * j + 2) t = others env k (2 * j + 1) t))", rotated], intro impI allI)
  fix f planner env k t r p t'
  assume IH: "\<And>planner env k t r. f planner env k t = Some r \<Longrightarrow>
      (\<forall>t p. planner t = Inr p \<longrightarrow> dp_snapshot p = t \<and> dp_refusal p = None) \<longrightarrow> (\<forall>p t'. r = Inr (p, t') \<longrightarrow>
    (\<exists>j. apply_under_lock planner (others env k (2 * j + 1) t) = Inr (p, t') \<and>
      others env k (2 * j + 2) t = others env k (2 * j + 1) t))"
    and body: "(case planner (env k t) of
        Inl e \<Rightarrow> Some (Inl e)
      | Inr plan \<Rightarrow>
          let result = apply_plan plan (env (k + 1) (env k t))
          in if da_stale (fst result) then f planner env (k + 2) (snd result)
             else if \<not> da_written (fst result)
             then Some (Inl (AssertionError [say ''decision mutation unexpectedly refused'']))
             else Some (Inr (plan, snd result))) = Some r"
    and fresh: "\<forall>t p. planner t = Inr p \<longrightarrow> dp_snapshot p = t \<and> dp_refusal p = None"
    and r: "r = Inr (p, t')"
  obtain q where q: "planner (env k t) = Inr q" using body r by (cases "planner (env k t)") auto
  then have plan: "dp_snapshot q = env k t" "dp_refusal q = None" using fresh by auto
  show "\<exists>j. apply_under_lock planner (others env k (2 * j + 1) t) = Inr (p, t') \<and>
      others env k (2 * j + 2) t = others env k (2 * j + 1) t"
  proof (cases "env (Suc k) (env k t) = env k t")
    case True
    with body r q plan have "apply_under_lock planner (env k t) = Inr (p, t')"
      by (auto simp: apply_plan_def apply_plan_locked_def apply_under_lock_def)
    with True show ?thesis by (intro exI [of _ 0]) (simp add: others_def)
  next
    case False
    with body q plan have "f planner env (k + 2) (env (Suc k) (env k t)) = Some r"
      by (simp add: apply_plan_def apply_plan_locked_def Let_def)
    from IH [OF this] fresh r obtain j where
      "apply_under_lock planner (others env (k + 2) (2 * j + 1) (env (Suc k) (env k t))) = Inr (p, t')"
      "others env (k + 2) (2 * j + 2) (env (Suc k) (env k t)) = others env (k + 2) (2 * j + 1) (env (Suc k) (env k t))"
      by blast
    then show ?thesis by (intro exI [of _ "Suc j"]) (simp only: others_two, simp)
  qed
qed

text \<open>What the re-planning loop asks of a planner: a plan, made from exactly the text it was
  given, and never refused.\<close>

locale direct_planner =
  fixes planner :: "codes \<Rightarrow> ledger_error + decision_plan"
  assumes snapshot: "planner t = Inr p \<Longrightarrow> dp_snapshot p = t"
    and accepted: "planner t = Inr p \<Longrightarrow> dp_refusal p = None"
begin

lemma loop_step:
  "apply_until_current planner env k t =
     (case planner (env k t) of
        Inl e \<Rightarrow> Some (Inl e)
      | Inr p \<Rightarrow> if env (k + 1) (env k t) = env k t then Some (apply_under_lock planner (env k t))
                 else apply_until_current planner env (k + 2) (env (k + 1) (env k t)))"
  using snapshot accepted
  by (subst apply_until_current.simps)
    (auto simp: apply_plan_def apply_plan_locked_def apply_under_lock_def split: sum.splits)

lemma returns:
  assumes "\<And>t. env (k + 2 * j + 1) t = t"
  shows "\<exists>r. apply_until_current planner env k t = Some r"
  using assms
proof (induction j arbitrary: k t)
  case 0
  then show ?case by (subst loop_step) (auto split: sum.splits)
next
  case (Suc j)
  have "\<And>t. env (k + 2 + 2 * j + 1) t = t" using Suc.prems by (simp add: algebra_simps)
  then have "\<exists>r. apply_until_current planner env (k + 2) u = Some r" for u by (rule Suc.IH)
  then show ?case by (subst loop_step) (auto split: sum.splits)
qed

lemma linearizes:
  assumes "apply_until_current planner env k t = Some (Inr (p, t'))"
  shows "\<exists>j. apply_under_lock planner (others env k (2 * j + 1) t) = Inr (p, t') \<and>
    others env k (2 * j + 2) t = others env k (2 * j + 1) t"
  using loop_linearizes [OF assms] snapshot accepted by blast

end

lemma direct_plans:
  "direct_append q s as pr dec sups t = Inr p \<Longrightarrow> dp_snapshot p = t \<and> dp_refusal p = None"
  "direct_set_fields i fc t = Inr p \<Longrightarrow> dp_snapshot p = t \<and> dp_refusal p = None"
  "direct_supersede i q pr dec affects t = Inr p \<Longrightarrow> dp_snapshot p = t \<and> dp_refusal p = None"
  by (auto simp: direct_append_def direct_set_fields_def direct_supersede_def Let_def bind_res_eq_Inr
      split: prod.splits if_splits)

interpretation direct_append: direct_planner "direct_append q s as pr dec sups" for q s as pr dec sups
  by unfold_locales (simp_all add: direct_plans)

interpretation direct_set: direct_planner "direct_set_fields i fc" for i fc
  by unfold_locales (simp_all add: direct_plans)

interpretation direct_sup: direct_planner "direct_supersede i q pr dec affects" for i q pr dec affects
  by unfold_locales (simp_all add: direct_plans)

subsection \<open>Properties\<close>

definition sample_request :: append_request where
  "sample_request =
     \<lparr>ap_question = lit ''Cache?'', ap_status = lit ''open'', ap_answer = None, ap_rationale = None,
      ap_if_wrong = None, ap_affects = [lit ''features/a''], ap_on = Date 26 3 1,
      ap_by = lit ''ann'', ap_hold = None, ap_phase = None, ap_checkpoint = None\<rparr>"

definition sample_day :: date where "sample_day = Date 26 3 2"

definition sample_ledger :: codes where "sample_ledger = snd (run_command (Append sample_request) [])"

definition sample_commands :: "ledger_command list" where
  "sample_commands =
     [Answer (lit ''D-001'') (lit ''Yes'') None sample_day (lit ''bob''),
      Supersede (lit ''D-1'') (lit ''Cache where?'') (lit ''Nowhere'') None None sample_day (lit ''eve'')]"

definition sample_end :: codes where
  "sample_end = fold (\<lambda>c t. snd (run_command c t)) sample_commands sample_ledger"

text \<open>C27. An accepted append whose question and field values are on one line and whose prose has no
  heading line (\<open>wf_append\<close>, which the planner does not check) writes a ledger that is the old one
  with exactly one entry more, the requested one, under a number above every number the ledger
  uses.\<close>

theorem append_adds_entry:
  assumes "wf_append rq" and "append_refusal rq = None" and "n = snd (next_id (lp_entries (parse_ledger t)))"
  shows "ledger_at (snd (run_command (Append rq) t)) = (ledger_at t)(n \<mapsto> shown (append_entry rq (decision_label n) n))
    \<and> dom (ledger_at t) \<subseteq> {..<n}"
proof -
  let ?ds = "lp_entries (parse_ledger t)"
  have fresh: "next_id ?ds = (decision_label n, n)"
    using assms(3) next_id_fresh(1) [of ?ds "fst (next_id ?ds)" n] by (simp add: prod_eq_iff)
  have plan: "dp_refusal (plan_append rq t) = None" "dp_after (plan_append rq t) = ?ds @ [append_entry rq (decision_label n) n]"
    by (simp_all add: plan_append_def assms(2) fresh Let_def)
  have "entry_of (?ds @ [append_entry rq (decision_label n) n]) =
      (entry_of ?ds)(n \<mapsto> shown (append_entry rq (decision_label n) n))"
    by (rule entry_of_fresh [OF next_id_fresh(2) [OF fresh]]) (simp add: append_entry_def Let_def)
  moreover have "dom (entry_of ?ds) \<subseteq> {..<n}"
  proof
    fix m assume "m \<in> dom (entry_of ?ds)"
    then have "m \<in> de_number ` set ?ds" using entry_of_None [of ?ds m] by auto
    with next_id_fresh(3) [OF fresh] show "m \<in> {..<n}" by auto
  qed
  ultimately show ?thesis
    using accepted_write [of "Append rq" t] assms(1) plan by (simp add: run_command_def ledger_at_def)
qed

lemma append_adds_entry_witness:
  "wf_append sample_request \<and> append_refusal sample_request = None \<and>
    ledger_at (snd (run_command (Append sample_request) [])) =
      (ledger_at [])(1 \<mapsto> shown (append_entry sample_request (decision_label 1) 1))"
proof -
  have "wf_append sample_request" "append_refusal sample_request = None"
    "1 = snd (next_id (lp_entries (parse_ledger [])))"
    by code_simp+
  with append_adds_entry [of sample_request 1 "[]"] show ?thesis by blast
qed

text \<open>C1. Through any history of the commands append, answer, amend and supersede, by any number of
  writers who plan on any text and are refused when it is stale, an entry never disappears: it keeps
  its number, question and hold, its status only moves forward, and once superseded it never
  changes. The commands have one-line questions and field values and no heading line in their prose
  (\<open>wf_command\<close>); the planners do not check that.\<close>

theorem ledger_history:
  assumes "ledger_run t u" and "ledger_at t n = Some d"
  shows "\<exists>e. ledger_at u n = Some e \<and> evolves d e"
  using assms
proof (induction rule: ledger_run.induct)
  case (run_step u c v)
  then obtain e where e: "ledger_at u n = Some e" "evolves d e" by blast
  from run_map_step [OF run_step.hyps(2), of u] show ?case
  proof
    assume "map_step (ledger_at u) (ledger_at (snd (apply_plan (plan_command c v) u)))"
    from map_step_evolves [OF this e(1)] show ?thesis using evolves_trans [OF e(2)] by blast
  qed (use e in auto)
qed simp

text \<open>C28. In every such history (of append, answer, amend and supersede, each under \<open>wf_command\<close>), an
  entry that is superseded was so at the start, unchanged since, or a later entry names it as the
  one it supersedes.\<close>

theorem superseded_has_successor:
  assumes "ledger_run t u" and "ledger_at u n = Some e" and "de_status e = lit ''superseded''"
  shows "ledger_at t n = Some e \<or> has_successor (ledger_at u) n e"
  using assms
proof (induction arbitrary: e rule: ledger_run.induct)
  case (run_step u c v)
  let ?u = "snd (apply_plan (plan_command c v) u)"
  show ?case
  proof (cases "ledger_at ?u = ledger_at u")
    case False
    with run_map_step [OF run_step.hyps(2)] have step: "map_step (ledger_at u) (ledger_at ?u)" by blast
    from retired_step [OF step run_step.prems] show ?thesis
    proof
      assume "\<exists>d. ledger_at u n = Some d \<and> de_status d = lit ''superseded'' \<and> e = d"
      then have "ledger_at t n = Some e \<or> has_successor (ledger_at u) n e"
        using run_step.IH run_step.prems by blast
      then show ?thesis using has_successor_step [OF _ step] by blast
    qed blast
  qed (use run_step in metis)
qed simp

lemma run_command_step: "ledger_run t u \<Longrightarrow> wf_command c u \<Longrightarrow> ledger_run t (snd (run_command c u))"
  unfolding run_command_def by (rule run_step)

lemma sample_run: "ledger_run sample_ledger sample_end"
  unfolding sample_end_def sample_commands_def fold_simps comp_apply id_apply
proof (intro run_command_step run_refl)
  show "wf_command (Answer (lit ''D-001'') (lit ''Yes'') None sample_day (lit ''bob'')) sample_ledger"
    by simp code_simp
  show "wf_command (Supersede (lit ''D-1'') (lit ''Cache where?'') (lit ''Nowhere'') None None sample_day (lit ''eve'')) t" for t
    by simp code_simp
qed

lemma ledger_history_witness:
  "map_option de_status (ledger_at sample_ledger 1) = Some (lit ''open'') \<and>
    (\<exists>e. ledger_at sample_end 1 = Some e \<and> evolves (the (ledger_at sample_ledger 1)) e)"
proof -
  have "map_option de_status (ledger_at sample_ledger 1) = Some (lit ''open'')" by code_simp
  with ledger_history [OF sample_run] show ?thesis by force
qed

lemma superseded_has_successor_witness:
  "map_option de_status (ledger_at sample_end 1) = Some (lit ''superseded'') \<and>
    (ledger_at sample_ledger 1 = ledger_at sample_end 1 \<or> has_successor (ledger_at sample_end) 1 (the (ledger_at sample_end 1)))"
proof -
  have "map_option de_status (ledger_at sample_end 1) = Some (lit ''superseded'')" by code_simp
  with superseded_has_successor [OF sample_run] show ?thesis by force
qed

text \<open>C29. A direct mutation that returns did what planning and writing under one lock would have
  done, on the very text the other writers had left: it loses no write.\<close>

theorem contended_write_linearizes:
  assumes "apply_until_current (direct_set_fields i fc) env k t = Some (Inr (p, t'))"
  shows "\<exists>j. apply_under_lock (direct_set_fields i fc) (others env k (2 * j + 1) t) = Inr (p, t') \<and>
    others env k (2 * j + 2) t = others env k (2 * j + 1) t"
  using assms by (rule direct_set.linearizes)

text \<open>C30. A direct mutation returns, with its write or an error, as soon as the other writers rest:
  after any number of interfering writes.\<close>

theorem contended_write_returns:
  "apply_until_current (direct_set_fields i fc) (\<lambda>j u. if j < rest then env j u else u) k t \<noteq> None"
  using direct_set.returns [of "\<lambda>j u. if j < rest then env j u else u" k rest] by auto

definition sample_changes :: field_changes where
  "sample_changes =
     \<lparr>fc_question = None, fc_status = Some (lit ''answered''), fc_affects = None, fc_decided = None,
      fc_supersedes = None, fc_prose = Set_prose (lit ''Done'')\<rparr>"

text \<open>Why the histories leave \<open>set_fields\<close> out: it reopens an answered decision.\<close>

lemma direct_write_reopens:
  "map_option de_status (ledger_at (snd (run_command (Answer (lit ''D-001'') (lit ''Yes'') None sample_day (lit ''bob''))
     sample_ledger)) 1) = Some (lit ''answered'') \<and>
   (case apply_under_lock (direct_set_fields (lit ''D-001'') (sample_changes\<lparr>fc_status := Some (lit ''open'')\<rparr>))
      (snd (run_command (Answer (lit ''D-001'') (lit ''Yes'') None sample_day (lit ''bob'')) sample_ledger)) of
      Inl _ \<Rightarrow> None
    | Inr (_, t) \<Rightarrow> map_option de_status (ledger_at t 1)) = Some (lit ''open'')"
  by code_simp

definition sample_env :: "nat \<Rightarrow> codes \<Rightarrow> codes" where
  "sample_env j u = (if j = 1 then u @ [code_LF] else u)"

lemma contended_write_linearizes_witness:
  "\<exists>p t' j. apply_until_current (direct_set_fields (lit ''D-1'') sample_changes) sample_env 0 sample_ledger =
      Some (Inr (p, t')) \<and>
    apply_under_lock (direct_set_fields (lit ''D-1'') sample_changes) (others sample_env 0 (2 * j + 1) sample_ledger) =
      Inr (p, t')"
proof -
  let ?P = "direct_set_fields (lit ''D-1'') sample_changes"
  have "isl (?P sample_ledger) = False" "isl (apply_under_lock ?P (sample_ledger @ [code_LF])) = False"
    by code_simp+
  then obtain p t' where "apply_under_lock ?P (sample_ledger @ [code_LF]) = Inr (p, t')"
    by (cases "apply_under_lock ?P (sample_ledger @ [code_LF])") auto
  moreover obtain q where "?P sample_ledger = Inr q"
    using \<open>isl (?P sample_ledger) = False\<close> by (cases "?P sample_ledger") auto
  moreover obtain q' where "?P (sample_ledger @ [code_LF]) = Inr q'"
    using \<open>apply_under_lock ?P _ = _\<close> by (cases "?P (sample_ledger @ [code_LF])") (auto simp: apply_under_lock_def)
  ultimately have "apply_until_current ?P sample_env 0 sample_ledger = Some (Inr (p, t'))"
    by (subst direct_set.loop_step, simp add: sample_env_def)
      (subst direct_set.loop_step, simp add: sample_env_def)
  with contended_write_linearizes [OF this] show ?thesis by blast
qed

text \<open>A question is not kept on one line, and a multi-line one forges keys: this request files an
  open decision, and the ledger it writes reads as an answered one.\<close>

theorem question_forges_status:
  "append_refusal (sample_request\<lparr>ap_question := lit ''Ship?'' @ code_LF # lit ''status: answered''\<rparr>) = None \<and>
   map_option (\<lambda>d. (de_question d, de_status d))
     (ledger_at (snd (run_command
        (Append (sample_request\<lparr>ap_question := lit ''Ship?'' @ code_LF # lit ''status: answered''\<rparr>)) [])) 1) =
     Some (lit ''Ship?'', lit ''answered'')"
  by code_simp

text \<open>A heading in an answer becomes an entry of its own, which takes its number from the ledger.\<close>

theorem answer_forges_entry:
  "map de_number (lp_entries (parse_ledger (snd (run_command
     (Answer (lit ''D-001'') (lit ''Yes'' @ code_LF # lit ''## D-041'') None sample_day (lit ''bob'')) sample_ledger)))) =
   [1, 41]"
  by code_simp

text \<open>Deleting the entry with the highest number frees that number again.\<close>

theorem deleted_last_id_reused:
  "next_id (filter (\<lambda>d. de_number d \<noteq> 1) (lp_entries (parse_ledger sample_ledger))) =
     (de_id (hd (lp_entries (parse_ledger sample_ledger))), 1)"
  by code_simp

end
