(* ===== verification/Rank.thy ===== *)
theory Rank
  imports Hierarchy
begin

text \<open>
  The transitive-dependent rank of a run (\<open>gw_orchestrate/rank.py\<close>): the nodes of a run are its
  live root and the active nonterminal descendants, the edges their resolved dependencies, and
  the rank of a node is the number of nodes that wait for it, directly or through others.
\<close>

subsection \<open>The program\<close>

definition run_nodes :: "work_item list \<Rightarrow> string \<Rightarrow> string list" where
  "run_nodes items root =
     (case find (\<lambda>item. wi_path item = root) items of
        None \<Rightarrow> []
      | Some root_item \<Rightarrow>
          first_seen (active_nonterminal_descendants (as_snapshot items) root
            @ (if \<not> wi_archived root_item \<and> \<not> terminal_item root_item then [root] else [])))"

text \<open>The dictionary of the direct dependents: a set of paths for every node.\<close>

definition direct_dependents :: "work_item list \<Rightarrow> string list \<Rightarrow> string \<Rightarrow> string list" where
  "direct_dependents items nodes path =
     first_seen (map wi_path (filter (\<lambda>item. wi_path item \<in> set nodes \<and> path \<noteq> wi_path item \<and>
       list_ex (\<lambda>e. edge_path e = path) (wi_dependency_edges item)) items))"

definition dependents_table :: "work_item list \<Rightarrow> string list \<Rightarrow> (string \<times> string list) list" where
  "dependents_table items nodes = map (\<lambda>path. (path, direct_dependents items nodes path)) nodes"

function (sequential) rank_loop :: "(string \<times> string list) list \<Rightarrow> string list \<Rightarrow> string list \<Rightarrow> string list" where
  "rank_loop table seen [] = seen"
| "rank_loop table seen (path # pending) =
     (if path \<in> set seen then rank_loop table seen pending
      else (case map_of table path of
              None \<Rightarrow> rank_loop table (path # seen) pending
            | Some ds \<Rightarrow> rank_loop table (path # seen) (ds @ pending)))"
  by pat_completeness auto
termination
  by (relation "inv_image (less_than <*lex*> less_than) (\<lambda>(table, seen, pending). stack_measure table seen pending)")
    (auto dest: unseen_decreases unseen_step)

definition dependent_counts :: "work_item list \<Rightarrow> string \<Rightarrow> (string \<times> nat) list" where
  "dependent_counts items root =
     (let nodes = run_nodes items root; table = dependents_table items nodes
      in map (\<lambda>origin. (origin, length (rank_loop table [origin]
               (case map_of table origin of None \<Rightarrow> [] | Some ds \<Rightarrow> ds)) - 1)) (sort nodes))"

subsection \<open>Reachability\<close>

lemma set_rank_loop:
  "set (rank_loop table seen pending) = set seen \<union> {p. reached table (\<lambda>_. True) (\<lambda>ds. ds) (set seen) (set pending) p}"
proof (induction table seen pending rule: rank_loop.induct)
  case (1 table seen)
  have "\<not> reached table (\<lambda>_. True) (\<lambda>ds. ds) (set seen) {} p" for p by (rule notI, erule reached.induct) auto
  then show ?case by simp
next
  case (2 table seen p pending)
  show ?case
  proof (cases "p \<in> set seen")
    case True
    with 2 show ?thesis by (simp add: reached_skip)
  next
    case False
    with 2 show ?thesis by (cases "map_of table p") (auto simp: reached_dead reached_live)
  qed
qed

lemma distinct_rank_loop: "distinct seen \<Longrightarrow> distinct (rank_loop table seen pending)"
  by (induction table seen pending rule: rank_loop.induct) (auto split: option.splits)

text \<open>\<open>q\<close> waits on \<open>p\<close>: both are nodes of the run, and an item at \<open>q\<close> has an edge to \<open>p\<close>.\<close>

definition waits_on :: "work_item list \<Rightarrow> string set \<Rightarrow> string \<Rightarrow> string \<Rightarrow> bool" where
  "waits_on items nodes q p \<longleftrightarrow>
     q \<in> nodes \<and> p \<in> nodes \<and> q \<noteq> p \<and>
     (\<exists>item \<in> set items. wi_path item = q \<and> p \<in> edge_path ` set (wi_dependency_edges item))"

lemma direct_dependents_iff:
  "p \<in> set nodes \<Longrightarrow> q \<in> set (direct_dependents items nodes p) \<longleftrightarrow> waits_on items (set nodes) q p"
  by (auto simp: direct_dependents_def waits_on_def list_ex_iff)

lemma dependents_table_at:
  "map_of (dependents_table items nodes) p = (if p \<in> set nodes then Some (direct_dependents items nodes p) else None)"
  by (induction nodes) (auto simp: dependents_table_def map_of_map_restrict restrict_map_def)

lemma dependents_table_waits:
  "map_of (dependents_table items nodes) p = Some ds \<Longrightarrow> q \<in> set ds \<longleftrightarrow> waits_on items (set nodes) q p"
  by (auto simp: dependents_table_at direct_dependents_iff split: if_splits)

lemma reached_waits:
  assumes "map_of (dependents_table items nodes) p = Some ds"
  shows "reached (dependents_table items nodes) (\<lambda>_. True) (\<lambda>ds. ds) {p} (set ds) q \<longleftrightarrow>
    q \<noteq> p \<and> (waits_on items (set nodes))\<^sup>+\<^sup>+ q p"
proof
  show "reached (dependents_table items nodes) (\<lambda>_. True) (\<lambda>ds. ds) {p} (set ds) q \<Longrightarrow>
      q \<noteq> p \<and> (waits_on items (set nodes))\<^sup>+\<^sup>+ q p"
  proof (induction rule: reached.induct)
    case (start q)
    with dependents_table_waits [OF assms] show ?case by auto
  next
    case (step q v r)
    with dependents_table_waits [OF step.hyps(2)] show ?case by (auto intro: tranclp_into_tranclp2)
  qed
  have "(waits_on items (set nodes))\<^sup>+\<^sup>+ q p \<Longrightarrow>
      q \<noteq> p \<longrightarrow> reached (dependents_table items nodes) (\<lambda>_. True) (\<lambda>ds. ds) {p} (set ds) q"
  proof (induction rule: converse_tranclp_induct)
    case (base q)
    with dependents_table_waits [OF assms] show ?case by (auto intro: reached.start)
  next
    case (step q r)
    show ?case
    proof (cases "r = p")
      case True
      with step dependents_table_waits [OF assms] show ?thesis by (auto intro: reached.start)
    next
      case False
      from step.hyps(1) obtain rs where rs: "map_of (dependents_table items nodes) r = Some rs"
        by (auto simp: dependents_table_at waits_on_def)
      with False step dependents_table_waits [OF rs] show ?thesis
        by (auto intro: reached.step [of _ _ _ _ _ r rs])
    qed
  qed
  then show "q \<noteq> p \<and> (waits_on items (set nodes))\<^sup>+\<^sup>+ q p \<Longrightarrow>
      reached (dependents_table items nodes) (\<lambda>_. True) (\<lambda>ds. ds) {p} (set ds) q" by blast
qed

lemma rank_at:
  assumes "p \<in> set (run_nodes items root)"
  shows "map_of (dependent_counts items root) p =
    Some (card {q. q \<noteq> p \<and> (waits_on items (set (run_nodes items root)))\<^sup>+\<^sup>+ q p})"
proof -
  let ?nodes = "run_nodes items root" let ?t = "dependents_table items ?nodes"
  let ?ds = "direct_dependents items ?nodes p" let ?walk = "rank_loop ?t [p] ?ds"
  have ds: "map_of ?t p = Some ?ds" using assms by (simp add: dependents_table_at)
  have set: "set ?walk = insert p {q. q \<noteq> p \<and> (waits_on items (set ?nodes))\<^sup>+\<^sup>+ q p}"
    using reached_waits [OF ds] by (simp add: set_rank_loop)
  have "length ?walk = card (set ?walk)" using distinct_card [OF distinct_rank_loop [of "[p]"]] by simp
  moreover have "finite {q. q \<noteq> p \<and> (waits_on items (set ?nodes))\<^sup>+\<^sup>+ q p}"
    using set by (metis finite_insert List.finite_set)
  ultimately have "length ?walk - 1 = card {q. q \<noteq> p \<and> (waits_on items (set ?nodes))\<^sup>+\<^sup>+ q p}"
    unfolding set by simp
  moreover have "map_of (dependent_counts items root) p = Some (length ?walk - 1)"
    using assms ds by (simp add: dependent_counts_def Let_def map_of_map_keys [symmetric] map_of_map_restrict restrict_map_def
      flip: map_map) 
  ultimately show ?thesis by simp
qed

lemma rank_keys: "map fst (dependent_counts items root) = sort (run_nodes items root)"
  by (simp add: dependent_counts_def Let_def comp_def)

lemma distinct_run_nodes [simp]: "distinct (run_nodes items root)"
  by (simp add: run_nodes_def split: option.split)

text \<open>C11. The ranks of a run list each of its nodes once, with the number of other nodes that
  depend on it through any chain of dependencies between nodes, cycles included; a rank is below
  the number of nodes.\<close>

theorem rank_exact:
  "distinct (map fst (dependent_counts items root)) \<and>
   set (dependent_counts items root) =
     (\<lambda>p. (p, card {q. q \<noteq> p \<and> (waits_on items (set (run_nodes items root)))\<^sup>+\<^sup>+ q p})) ` set (run_nodes items root) \<and>
   snd ` set (dependent_counts items root) \<subseteq> {..<length (run_nodes items root)}"
proof -
  let ?nodes = "run_nodes items root" let ?w = "waits_on items (set ?nodes)"
  have dist: "distinct (map fst (dependent_counts items root))" by (simp add: rank_keys)
  have exact: "set (dependent_counts items root) = (\<lambda>p. (p, card {q. q \<noteq> p \<and> ?w\<^sup>+\<^sup>+ q p})) ` set ?nodes"
  proof (intro equalityI subsetI)
    fix x assume x: "x \<in> set (dependent_counts items root)"
    then have "fst x \<in> set ?nodes" by (metis (no_types) image_eqI list.set_map rank_keys set_sort)
    moreover have "map_of (dependent_counts items root) (fst x) = Some (snd x)" using dist x by simp
    ultimately show "x \<in> (\<lambda>p. (p, card {q. q \<noteq> p \<and> ?w\<^sup>+\<^sup>+ q p})) ` set ?nodes"
      using rank_at [of "fst x" items root] by (intro image_eqI [of _ _ "fst x"]) (simp_all add: prod_eq_iff)
  next
    fix x assume "x \<in> (\<lambda>p. (p, card {q. q \<noteq> p \<and> ?w\<^sup>+\<^sup>+ q p})) ` set ?nodes"
    then show "x \<in> set (dependent_counts items root)" using rank_at [of _ items root] by (auto dest: map_of_SomeD)
  qed
  have "card {q. q \<noteq> p \<and> ?w\<^sup>+\<^sup>+ q p} < length ?nodes" if "p \<in> set ?nodes" for p
  proof -
    have "?w\<^sup>+\<^sup>+ q p \<Longrightarrow> q \<in> set ?nodes" for q
      by (induction rule: converse_tranclp_induct) (auto simp: waits_on_def)
    with that have "{q. q \<noteq> p \<and> ?w\<^sup>+\<^sup>+ q p} \<subset> set ?nodes" by auto
    then have "card {q. q \<noteq> p \<and> ?w\<^sup>+\<^sup>+ q p} < card (set ?nodes)" by (intro psubset_card_mono) simp_all
    then show ?thesis by (simp add: distinct_card)
  qed
  then have "snd ` set (dependent_counts items root) \<subseteq> {..<length ?nodes}" unfolding exact by auto
  with dist exact show ?thesis by blast
qed

end
