(* ===== verification/Frontier.thy ===== *)
theory Frontier
  imports Rank Workflow
begin

text \<open>
  The frontier of a run (\<open>gw_orchestrate/commands.py\<close>: \<open>_frontier\<close>, \<open>_sorted\<close>,
  \<open>_descendants\<close>): every actionable node at or below the root, the transitions the coordinator
  applies itself, and the blocked nodes; and the order in which candidates are admitted. The
  stack has its top at the head.
\<close>

subsection \<open>Nodes\<close>

record planned_advance =
  pa_path :: string
  pa_reason :: string
  pa_mode :: string

record blocked_item =
  bi_path :: string
  bi_kind :: string
  bi_reason :: string

definition WALK_DEPTH_CAP :: nat where "WALK_DEPTH_CAP = 10000"

definition blocked_as :: "string \<Rightarrow> string \<Rightarrow> string \<Rightarrow> blocked_item" where
  "blocked_as path kind reason = \<lparr>bi_path = path, bi_kind = kind, bi_reason = reason\<rparr>"

fun blocked_kind :: "blocker_kind \<Rightarrow> string" where
  "blocked_kind Dependencies_Unmet = ''deps''"
| "blocked_kind Effort_Required = ''effort-required''"
| "blocked_kind Held = ''decisions''"
| "blocked_kind Terminal = ''human''"
| "blocked_kind Attribute_Required = ''human''"
| "blocked_kind _ = ''invalid''"

definition classify :: "blocker_kind option \<Rightarrow> string" where
  "classify kind = (case kind of None \<Rightarrow> ''invalid'' | Some k \<Rightarrow> blocked_kind k)"

definition children_at :: "work_snapshot \<Rightarrow> string \<Rightarrow> work_item list" where
  "children_at s path = (case map_of (by_parent s) path of None \<Rightarrow> [] | Some cs \<Rightarrow> cs)"

text \<open>What a node adds: paths to walk, candidates, advances, blocked items.\<close>

record frontier =
  fr_candidates :: "(work_item \<times> route_result) list"
  fr_advances :: "planned_advance list"
  fr_blocked :: "blocked_item list"

definition no_frontier :: frontier where
  "no_frontier = \<lparr>fr_candidates = [], fr_advances = [], fr_blocked = []\<rparr>"

definition join_frontier :: "frontier \<Rightarrow> frontier \<Rightarrow> frontier" where
  "join_frontier f g =
     \<lparr>fr_candidates = fr_candidates f @ fr_candidates g, fr_advances = fr_advances f @ fr_advances g,
      fr_blocked = fr_blocked f @ fr_blocked g\<rparr>"

text \<open>The children of a gated node: the open ones not yet visited are pushed.\<close>

fun push_children :: "work_snapshot \<Rightarrow> string \<Rightarrow> string list \<Rightarrow> work_item list \<Rightarrow> string list \<times> blocked_item list" where
  "push_children s path visited [] = ([], [])"
| "push_children s path visited (c # cs) =
     (if terminal_item c \<and> active_nonterminal_descendants s (wi_path c) = [] then push_children s path visited cs
      else if wi_path c \<in> set visited
      then (fst (push_children s path visited cs),
            blocked_as path ''invalid'' (''parent cycle detected at '' @ repr (wi_path c))
              # snd (push_children s path visited cs))
      else (wi_path c # fst (push_children s path (wi_path c # visited) cs),
            snd (push_children s path (wi_path c # visited) cs)))"

definition node_result :: "work_item \<Rightarrow> route_result \<Rightarrow> frontier" where
  "node_result node r =
     (if rr_dispatch r \<noteq> None \<and> rr_blockers r = [] then no_frontier\<lparr>fr_candidates := [(node, r)]\<rparr>
      else if rr_on_complete r \<noteq> None \<and> rr_blockers r = []
      then no_frontier\<lparr>fr_advances := [\<lparr>pa_path = wi_path node, pa_reason = rr_reason r, pa_mode = ''advance''\<rparr>]\<rparr>
      else no_frontier\<lparr>fr_blocked :=
             [blocked_as (wi_path node)
                (classify (case rr_blockers r of [] \<Rightarrow> None | b # _ \<Rightarrow> Some (blk_kind b)))
                (case rr_blockers r of [] \<Rightarrow> rr_reason r | b # _ \<Rightarrow> blk_message b)]\<rparr>)"

definition visit_node ::
  "work_snapshot \<Rightarrow> pipeline_definition \<Rightarrow> (string \<Rightarrow> hold_fact option) \<Rightarrow> (string \<Rightarrow> string list) \<Rightarrow>
     string list \<Rightarrow> string \<Rightarrow> nat \<Rightarrow> (string list \<times> frontier) result" where
  "visit_node s d holds stale visited path depth =
     (case item_at s path of
        None \<Rightarrow> Inr ([], no_frontier\<lparr>fr_blocked := [blocked_as path ''invalid'' (''unknown path '' @ repr path)]\<rparr>)
      | Some node \<Rightarrow>
          if WALK_DEPTH_CAP \<le> depth
          then Inr ([], no_frontier\<lparr>fr_blocked :=
                 [blocked_as path ''invalid'' (''frontier walk depth cap ('' @ nat_str WALK_DEPTH_CAP @ '') reached'')]\<rparr>)
          else case state_for s path None (holds path) (stale path) of
                 None \<Rightarrow> Inr ([], no_frontier)
               | Some st \<Rightarrow> bind_res (route st d) (\<lambda>r.
                   if rr_repair r \<noteq> None \<and> map blk_kind (rr_blockers r) = [Phase_Off_Path]
                   then Inr ([], no_frontier\<lparr>fr_advances :=
                          [\<lparr>pa_path = path, pa_reason = rr_reason r, pa_mode = ''repair''\<rparr>]\<rparr>)
                   else if rr_repair r \<noteq> None \<and> rr_repair r = rr_on_return r
                   then Inr ([], no_frontier\<lparr>fr_advances :=
                          [\<lparr>pa_path = path, pa_reason = rr_reason r, pa_mode = ''return''\<rparr>]\<rparr>)
                   else if child_gated s node
                   then (let (pushed, bad) = push_children s path visited (children_at s path)
                         in Inr (pushed, no_frontier\<lparr>fr_blocked := bad\<rparr>))
                   else Inr ([], node_result node r)))"

subsection \<open>The walk\<close>

lemma push_children_visited:
  "distinct (fst (push_children s path visited cs)) \<and>
   set (fst (push_children s path visited cs)) \<inter> set visited = {} \<and>
   set (fst (push_children s path visited cs)) \<subseteq> wi_path ` set cs"
proof (induction s path visited cs rule: push_children.induct)
  case (1 s path visited)
  show ?case by simp
next
  case (2 s path visited c cs)
  consider (skip) "terminal_item c \<and> active_nonterminal_descendants s (wi_path c) = []"
    | (seen) "\<not> (terminal_item c \<and> active_nonterminal_descendants s (wi_path c) = [])" "wi_path c \<in> set visited"
    | (push) "\<not> (terminal_item c \<and> active_nonterminal_descendants s (wi_path c) = [])" "wi_path c \<notin> set visited"
    by blast
  then show ?case
  proof cases
    case skip
    from "2.IH"(1) [OF skip] skip show ?thesis by (simp add: subset_insertI2)
  next
    case seen
    from "2.IH"(2) [OF seen] seen show ?thesis by (simp add: subset_insertI2)
  next
    case push
    from "2.IH"(4) [OF push] push show ?thesis by (auto simp only: push_children.simps if_False fst_conv list.set distinct.simps image_insert)
  qed
qed

abbreviation known_children :: "work_snapshot \<Rightarrow> string set" where
  "known_children s \<equiv> wi_path ` \<Union> (set ` snd ` set (by_parent s))"

lemma children_at_known: "wi_path ` set (children_at s path) \<subseteq> known_children s"
proof (cases "map_of (by_parent s) path")
  case None
  then show ?thesis by (simp add: children_at_def)
next
  case (Some cs)
  then have "set cs \<in> set ` snd ` set (by_parent s)" by (metis map_of_SomeD image_eqI snd_conv)
  then have "set cs \<subseteq> \<Union> (set ` snd ` set (by_parent s))" by (rule Union_upper)
  with Some show ?thesis by (simp add: children_at_def image_mono)
qed

lemma visit_node_pushed:
  assumes "visit_node s d holds stale visited path depth = Inr (pushed, f)"
  shows "distinct pushed" "set pushed \<inter> set visited = {}" "set pushed \<subseteq> known_children s"
proof -
  have "pushed = [] \<or> pushed = fst (push_children s path visited (children_at s path))"
    using assms
    by (auto simp: visit_node_def bind_res_eq_Inr Let_def split: option.splits if_splits prod.splits)
  with push_children_visited [of s path visited "children_at s path"] children_at_known [of s path]
  show "distinct pushed" "set pushed \<inter> set visited = {}" "set pushed \<subseteq> known_children s" by auto
qed

lemma pushed_decreases:
  assumes "distinct ps" "set ps \<inter> V = {}" "set ps \<subseteq> K" "finite K"
  shows "card (K - (V \<union> set ps)) + length ps = card (K - V)"
proof -
  have "K - V = (K - (V \<union> set ps)) \<union> set ps" using assms(2,3) by auto
  moreover have "(K - (V \<union> set ps)) \<inter> set ps = {}" by auto
  ultimately have "card (K - V) = card (K - (V \<union> set ps)) + card (set ps)"
    using assms(4) by (simp add: card_Un_disjoint)
  then show ?thesis using assms(1) by (simp add: distinct_card)
qed

function frontier_loop ::
  "work_snapshot \<Rightarrow> pipeline_definition \<Rightarrow> (string \<Rightarrow> hold_fact option) \<Rightarrow> (string \<Rightarrow> string list) \<Rightarrow>
     (string \<times> nat) list \<Rightarrow> string list \<Rightarrow> frontier \<Rightarrow> frontier result" where
  "frontier_loop s d holds stale [] visited f = Inr f"
| "frontier_loop s d holds stale ((path, depth) # stack) visited f =
     (case visit_node s d holds stale visited path depth of
        Inl e \<Rightarrow> Inl e
      | Inr (pushed, found) \<Rightarrow>
          frontier_loop s d holds stale (rev (map (\<lambda>p. (p, depth + 1)) pushed) @ stack) (rev pushed @ visited)
            (join_frontier f found))"
  by pat_completeness auto
termination
proof (relation "measure (\<lambda>(s, d, holds, stale, stack, visited, f). 2 * card (known_children s - set visited) + length stack)",
    goal_cases)
  case 1
  show ?case by simp
next
  case (2 s d holds stale path depth stack visited f e ps found)
  have "finite (known_children s)" by simp
  from pushed_decreases [OF visit_node_pushed [of s d holds stale visited path depth ps found] this] 2
  show ?case by (simp add: Un_commute)
qed

declare frontier_loop.simps(2) [simp del]

definition frontier_of ::
  "work_snapshot \<Rightarrow> string \<Rightarrow> pipeline_definition \<Rightarrow> (string \<Rightarrow> hold_fact option) \<Rightarrow> (string \<Rightarrow> string list) \<Rightarrow>
     frontier result" where
  "frontier_of s root d holds stale =
     (if item_at s root = None
      then Inr (no_frontier\<lparr>fr_blocked := [blocked_as root ''invalid'' (''unknown path '' @ repr root)]\<rparr>)
      else frontier_loop s d holds stale [(root, 0)] [root] no_frontier)"

subsection \<open>Admission order\<close>

definition admission_key :: "(string \<times> nat) list \<Rightarrow> work_item \<times> route_result \<Rightarrow> int \<times> nat \<times> string \<times> string" where
  "admission_key ranks pair =
     (- int (case map_of ranks (wi_path (fst pair)) of None \<Rightarrow> 0 | Some n \<Rightarrow> n),
      (case map_of PICK_ORDER (wi_work_status (fst pair)) of None \<Rightarrow> 99 | Some n \<Rightarrow> n),
      wi_opened (fst pair), wi_path (fst pair))"

definition admission_order ::
  "(work_item \<times> route_result) list \<Rightarrow> (string \<times> nat) list \<Rightarrow> (work_item \<times> route_result) list" where
  "admission_order cands ranks = sort_key (admission_key ranks) cands"

definition session_label :: "route_result \<Rightarrow> string list \<Rightarrow> string option" where
  "session_label r stale_spec =
     (if rr_dispatch r = Some Plan \<and> stale_spec \<noteq> [] \<and>
         (case rr_on_complete r of None \<Rightarrow> False | Some t \<Rightarrow> tr_phase t = Some ''plan'')
      then Some ''reconcile'' else None)"

subsection \<open>What the walk finds\<close>

text \<open>A candidate as the walk admits it: routed to a stage, unblocked and not waiting on
  children.\<close>

definition routed_candidate ::
  "work_snapshot \<Rightarrow> pipeline_definition \<Rightarrow> (string \<Rightarrow> hold_fact option) \<Rightarrow> (string \<Rightarrow> string list) \<Rightarrow>
     work_item \<times> route_result \<Rightarrow> bool" where
  "routed_candidate s d holds stale c \<longleftrightarrow>
     (let (item, r) = c; path = wi_path item
      in item_at s path = Some item \<and> rr_dispatch r \<noteq> None \<and> rr_blockers r = [] \<and> \<not> child_gated s item \<and>
         (\<exists>st. state_for s path None (holds path) (stale path) = Some st \<and> route st d = Inr r))"

definition walk_edges :: "work_snapshot \<Rightarrow> (string \<times> string) set" where
  "walk_edges s = {(p, q). q \<in> wi_path ` set (children_at s p) \<and> (\<forall>i. item_at s p = Some i \<longrightarrow> child_gated s i)}"

abbreviation candidate_paths :: "frontier \<Rightarrow> string list" where
  "candidate_paths f \<equiv> map (wi_path \<circ> fst) (fr_candidates f)"

lemma no_frontier_simps [simp]:
  "fr_candidates no_frontier = []" "fr_advances no_frontier = []" "fr_blocked no_frontier = []"
  by (simp_all add: no_frontier_def)

lemma join_frontier_simps [simp]:
  "fr_candidates (join_frontier f g) = fr_candidates f @ fr_candidates g"
  "fr_advances (join_frontier f g) = fr_advances f @ fr_advances g"
  "fr_blocked (join_frontier f g) = fr_blocked f @ fr_blocked g"
  by (simp_all add: join_frontier_def)

lemma node_result_candidates:
  "fr_candidates (node_result node r) =
     (if rr_dispatch r \<noteq> None \<and> rr_blockers r = [] then [(node, r)] else [])"
  by (simp add: node_result_def)

lemma visit_node_cases:
  assumes "visit_node (as_snapshot items) d holds stale visited path depth = Inr (pushed, f)"
  shows "fr_candidates f = [] \<or>
    pushed = [] \<and> (\<exists>c. fr_candidates f = [c] \<and> routed_candidate (as_snapshot items) d holds stale c \<and> wi_path (fst c) = path)"
proof -
  let ?s = "as_snapshot items"
  show ?thesis
  proof (cases "fr_candidates f = []")
    case False
    with assms obtain node st r where
      at: "item_at ?s path = Some node" "state_for ?s path None (holds path) (stale path) = Some st" "route st d = Inr r"
      and free: "\<not> child_gated ?s node" and f: "f = node_result node r" "pushed = []"
      by (auto simp: visit_node_def bind_res_eq_Inr Let_def split: option.splits if_splits prod.splits)
    from item_at_path [OF at(1)] have node: "wi_path node = path" by simp
    from False f have r: "rr_dispatch r \<noteq> None" "rr_blockers r = []" "fr_candidates f = [(node, r)]"
      by (auto simp: node_result_candidates split: if_splits)
    from at free r node have "routed_candidate ?s d holds stale (node, r)"
      by (simp add: routed_candidate_def)
    with r f node show ?thesis by simp
  qed simp
qed

lemma visit_node_edges:
  assumes "visit_node s d holds stale visited path depth = Inr (pushed, f)" and "q \<in> set pushed"
  shows "(path, q) \<in> walk_edges s"
proof -
  from assms have "pushed = fst (push_children s path visited (children_at s path))"
    and gated: "\<forall>i. item_at s path = Some i \<longrightarrow> child_gated s i"
    by (auto simp: visit_node_def bind_res_eq_Inr Let_def split: option.splits if_splits prod.splits)
  with assms(2) push_children_visited [of s path visited "children_at s path"]
  show ?thesis by (auto simp: walk_edges_def)
qed

definition walk_inv ::
  "work_item list \<Rightarrow> pipeline_definition \<Rightarrow> (string \<Rightarrow> hold_fact option) \<Rightarrow> (string \<Rightarrow> string list) \<Rightarrow> string \<Rightarrow>
     (string \<times> nat) list \<Rightarrow> string list \<Rightarrow> frontier \<Rightarrow> bool" where
  "walk_inv items d holds stale root stack visited f \<longleftrightarrow>
     distinct (map fst stack @ candidate_paths f) \<and>
     set (map fst stack @ candidate_paths f) \<subseteq> set visited \<and>
     (\<forall>p \<in> set visited. (root, p) \<in> (walk_edges (as_snapshot items))\<^sup>*) \<and>
     (\<forall>c \<in> set (fr_candidates f). routed_candidate (as_snapshot items) d holds stale c)"

lemma walk_step:
  assumes inv: "walk_inv items d holds stale root ((path, depth) # stack) visited f"
    and visit: "visit_node (as_snapshot items) d holds stale visited path depth = Inr (ps, found)"
  shows "walk_inv items d holds stale root (rev (map (\<lambda>p. (p, depth + 1)) ps) @ stack) (rev ps @ visited)
    (join_frontier f found)"
proof -
  note pushed = visit_node_pushed [OF visit]
  have stack: "map fst (rev (map (\<lambda>p. (p, depth + 1)) ps) @ stack) = rev ps @ map fst stack"
    by (simp add: rev_map o_def)
  have reach: "(root, p) \<in> (walk_edges (as_snapshot items))\<^sup>*" if "p \<in> set ps" for p
  proof -
    from inv have "(root, path) \<in> (walk_edges (as_snapshot items))\<^sup>*" by (simp add: walk_inv_def)
    from rtrancl_into_rtrancl [OF this visit_node_edges [OF visit that]] show ?thesis .
  qed
  from visit_node_cases [OF visit] show ?thesis
  proof (elim disjE conjE exE)
    assume "fr_candidates found = []"
    with inv pushed reach show ?thesis unfolding walk_inv_def stack by auto
  next
    fix c
    assume "ps = []" "fr_candidates found = [c]" "routed_candidate (as_snapshot items) d holds stale c"
      "wi_path (fst c) = path"
    with inv show ?thesis unfolding walk_inv_def stack by auto
  qed
qed

lemma walk_end:
  "frontier_loop (as_snapshot items) d holds stale stack visited f = Inr f' \<Longrightarrow>
   walk_inv items d holds stale root stack visited f \<Longrightarrow> \<exists>visited'. walk_inv items d holds stale root [] visited' f'"
proof (induction "as_snapshot items" d holds stale stack visited f rule: frontier_loop.induct)
  case (1 d holds stale visited f)
  then show ?case by auto
next
  case (2 d holds stale path depth stack visited f)
  from "2.prems"(1) obtain ps found where visit: "visit_node (as_snapshot items) d holds stale visited path depth = Inr (ps, found)"
    and rest: "frontier_loop (as_snapshot items) d holds stale (rev (map (\<lambda>p. (p, depth + 1)) ps) @ stack) (rev ps @ visited)
      (join_frontier f found) = Inr f'"
    by (auto simp: frontier_loop.simps(2) split: sum.splits prod.splits)
  from "2.hyps" [OF visit refl rest walk_step [OF "2.prems"(2) visit]] show ?case .
qed

text \<open>The candidates: each once, below the root through gated ancestors, routed and free.\<close>

lemma frontier_candidates:
  assumes "frontier_of (as_snapshot items) root d holds stale = Inr f"
  shows "distinct (candidate_paths f)"
    and "\<And>c. c \<in> set (fr_candidates f) \<Longrightarrow> routed_candidate (as_snapshot items) d holds stale c"
    and "\<And>c. c \<in> set (fr_candidates f) \<Longrightarrow> (root, wi_path (fst c)) \<in> (walk_edges (as_snapshot items))\<^sup>*"
proof -
  have "\<exists>visited. walk_inv items d holds stale root [] visited f"
  proof (cases "item_at (as_snapshot items) root")
    case None
    with assms have "f = no_frontier\<lparr>fr_blocked := [blocked_as root ''invalid'' (''unknown path '' @ repr root)]\<rparr>"
      by (simp add: frontier_of_def)
    then have "walk_inv items d holds stale root [] [] f" by (simp add: walk_inv_def)
    then show ?thesis ..
  next
    case (Some i)
    have "walk_inv items d holds stale root [(root, 0)] [root] no_frontier" by (simp add: walk_inv_def)
    with Some assms show ?thesis by (intro walk_end) (auto simp: frontier_of_def)
  qed
  then obtain visited where inv: "walk_inv items d holds stale root [] visited f" ..
  then show "distinct (candidate_paths f)" by (simp add: walk_inv_def)
  show "routed_candidate (as_snapshot items) d holds stale c" if "c \<in> set (fr_candidates f)" for c
    using inv that by (simp add: walk_inv_def)
  show "(root, wi_path (fst c)) \<in> (walk_edges (as_snapshot items))\<^sup>*" if "c \<in> set (fr_candidates f)" for c
    using inv that by (auto simp: walk_inv_def)
qed

lemma admission_order_perm: "set (admission_order cands ranks) = set cands" "length (admission_order cands ranks) = length cands"
  by (simp_all add: admission_order_def)

lemma distinct_admission_order:
  "distinct (map (wi_path \<circ> fst) cands) \<Longrightarrow> distinct (map (wi_path \<circ> fst) (admission_order cands ranks))"
  by (simp add: admission_order_def distinct_map)

lemma frontier_loop_total:
  assumes "wf_definition d"
  shows "\<exists>f'. frontier_loop s d holds stale stack visited f = Inr f'"
  using assms
proof (induction s d holds stale stack visited f rule: frontier_loop.induct)
  case (1 s d holds stale visited f)
  then show ?case by simp
next
  case (2 s d holds stale path depth stack visited f)
  have "\<exists>v. visit_node s d holds stale visited path depth = Inr v"
  proof (cases "item_at s path")
    case (Some node)
    show ?thesis
    proof (cases "state_for s path None (holds path) (stale path)")
      case st: (Some st)
      from route_total [OF 2(2)] obtain r where "route st d = Inr r" by blast
      with Some st show ?thesis by (auto simp: visit_node_def Let_def split: prod.splits)
    qed (simp add: visit_node_def Some)
  qed (simp add: visit_node_def)
  then obtain ps found where visit: "visit_node s d holds stale visited path depth = Inr (ps, found)" by auto
  from "2.IH" [OF visit refl "2.prems"] visit show ?case by (simp add: frontier_loop.simps(2))
qed

lemma frontier_total: "wf_definition d \<Longrightarrow> \<exists>f. frontier_of s root d holds stale = Inr f"
  using frontier_loop_total by (simp add: frontier_of_def)

end
