(* ===== verification/Claims.thy ===== *)
theory Claims
  imports Affects Pipeline
begin

text \<open>
  What a live or planned dispatch holds, and when two hold the same thing
  (\<open>gw_orchestrate/claims.py\<close>): scopes of three kinds, claims on them with a mode and an
  owner, and the claims a stage takes from an item's affects. A path is compared by its
  segments, as \<open>PurePosixPath\<close> splits them.
\<close>

subsection \<open>Scopes\<close>

datatype claim_mode = Read_Claim | Write_Claim

datatype scope =
  CodeScope string "string option"
| WorktreeScope string
| WorkspaceScope

record claim =
  cl_scope :: scope
  cl_mode :: claim_mode
  cl_owner :: string

definition claim_of :: "scope \<Rightarrow> claim_mode \<Rightarrow> string \<Rightarrow> claim" where
  "claim_of sc mode owner = \<lparr>cl_scope = sc, cl_mode = mode, cl_owner = owner\<rparr>"

definition claim_parts :: "string \<Rightarrow> string list" where
  "claim_parts path = path_parts path"

definition paths_overlap :: "string option \<Rightarrow> string option \<Rightarrow> bool" where
  "paths_overlap a b =
     (case (a, b) of
        (Some x, Some y) \<Rightarrow>
          (let left = claim_parts x; right = claim_parts y; shared = min (length left) (length right)
           in take shared left = take shared right)
      | _ \<Rightarrow> True)"

fun scopes_overlap :: "scope \<Rightarrow> scope \<Rightarrow> bool" where
  "scopes_overlap (CodeScope r p) (CodeScope r' p') = (r = r' \<and> paths_overlap p p')"
| "scopes_overlap (WorktreeScope p) (WorktreeScope p') = (p = p')"
| "scopes_overlap WorkspaceScope WorkspaceScope = True"
| "scopes_overlap _ _ = False"

definition conflicts :: "claim \<Rightarrow> claim \<Rightarrow> bool" where
  "conflicts a b \<longleftrightarrow>
     cl_owner a \<noteq> cl_owner b \<and> cl_mode a = Write_Claim \<and> cl_mode b = Write_Claim \<and>
     scopes_overlap (cl_scope a) (cl_scope b)"

definition first_conflicts :: "claim list \<Rightarrow> claim list \<Rightarrow> (claim \<times> claim) list" where
  "first_conflicts claims held =
     concat (map (\<lambda>mine. map (\<lambda>theirs. (mine, theirs)) (filter (conflicts mine) held)) claims)"

subsection \<open>Claims of a stage\<close>

definition code_claims :: "string \<Rightarrow> (string \<times> string) list \<Rightarrow> claim_mode \<Rightarrow> claim list" where
  "code_claims owner pairs mode =
     map (\<lambda>(identity, member). claim_of (CodeScope identity (Some member)) mode owner) pairs"

definition affects_claims :: "string \<Rightarrow> string \<Rightarrow> string list \<Rightarrow> claim_mode \<Rightarrow> claim list" where
  "affects_claims owner identity affects mode =
     (let paths = code_affects affects
      in map (\<lambda>path. claim_of (CodeScope identity (Some path)) mode owner) paths
         @ (if touches_workspace affects then [claim_of WorkspaceScope mode owner]
            else if paths = [] then [claim_of (CodeScope identity None) mode owner] else []))"

definition stage_names :: "(stage_row \<Rightarrow> bool) \<Rightarrow> string list" where
  "stage_names P = map (\<lambda>r. stage_str (row_stage r)) (filter P STAGE_TABLE)"

definition CODE_WRITE_PHASES :: "string list" where
  "CODE_WRITE_PHASES = stage_names (\<lambda>r. results r \<and> \<not> read_only r)"

definition READ_ONLY_PHASES :: "string list" where
  "READ_ONLY_PHASES = stage_names read_only"

definition DISPATCH_PHASES :: "string list" where
  "DISPATCH_PHASES = stage_names (\<lambda>r. True)"

definition claims_for :: "string \<Rightarrow> string \<Rightarrow> string \<Rightarrow> string list \<Rightarrow> claim list" where
  "claims_for owner phase identity affects =
     (if phase \<in> set CODE_WRITE_PHASES then affects_claims owner identity affects Write_Claim else [])"

subsection \<open>Overlap\<close>

lemma take_min_prefix:
  "take (min (length xs) (length ys)) xs = take (min (length xs) (length ys)) ys \<longleftrightarrow>
     (\<exists>zs. xs = ys @ zs \<or> ys = xs @ zs)"
proof (cases "length xs \<le> length ys")
  case True
  then show ?thesis by (auto simp: min_def) (metis append_take_drop_id)
next
  case False
  then show ?thesis by (auto simp: min_def) (metis append_take_drop_id)
qed

text \<open>Two paths overlap when one contains the other, by segments.\<close>

lemma paths_overlap_iff:
  "paths_overlap (Some x) (Some y) \<longleftrightarrow>
     contains_path (claim_parts x) (claim_parts y) \<or> contains_path (claim_parts y) (claim_parts x)"
  by (auto simp: paths_overlap_def Let_def take_min_prefix contains_path_iff)

lemma paths_overlap_None [simp]: "paths_overlap None b" "paths_overlap a None"
  by (simp_all add: paths_overlap_def split: option.splits)

lemma paths_overlap_sym: "paths_overlap a b \<longleftrightarrow> paths_overlap b a"
  by (cases a; cases b) (auto simp: paths_overlap_iff)

lemma scopes_overlap_sym: "scopes_overlap a b \<longleftrightarrow> scopes_overlap b a"
  by (cases a; cases b) (auto simp: paths_overlap_sym)

lemma conflicts_sym: "conflicts a b \<longleftrightarrow> conflicts b a"
  by (auto simp: conflicts_def scopes_overlap_sym)

lemma scopes_overlap_refl [simp]: "scopes_overlap s s"
proof (cases s)
  case (CodeScope r p)
  then show ?thesis by (cases p) (simp_all add: paths_overlap_iff)
qed simp_all

lemma first_conflicts_Nil:
  "first_conflicts claims held = [] \<longleftrightarrow> (\<forall>a \<in> set claims. \<forall>b \<in> set held. \<not> conflicts a b)"
  by (auto simp: first_conflicts_def filter_empty_conv)

lemma code_write_phases [simp]:
  "CODE_WRITE_PHASES = [''execute'', ''finish'']" "READ_ONLY_PHASES = [''design'', ''plan'']"
  "DISPATCH_PHASES = [''design'', ''plan'', ''execute'', ''finish'']"
  by (simp_all add: CODE_WRITE_PHASES_def READ_ONLY_PHASES_def DISPATCH_PHASES_def stage_names_def STAGE_TABLE_def row_defs)

lemma claims_for_owner: "c \<in> set (claims_for owner phase identity affects) \<Longrightarrow> cl_owner c = owner \<and> cl_mode c = Write_Claim"
  by (auto simp: claims_for_def affects_claims_def claim_of_def Let_def split: if_splits)

text \<open>No declared item escapes: a code-writing stage holds at least one claim.\<close>

lemma claims_for_not_Nil:
  "phase \<in> set CODE_WRITE_PHASES \<Longrightarrow> claims_for owner phase identity affects \<noteq> []"
  by (auto simp: claims_for_def affects_claims_def Let_def)

end
