(* ===== verification/Siting.thy ===== *)
theory Siting
  imports Snapshot Claims
begin

text \<open>
  Where a dispatch runs and what it is called: branch and session names
  (\<open>gw_pipeline/placement.py\<close>, \<open>gw_orchestrate/commands.py\<close>: \<open>session_name\<close>,
  \<open>session_index\<close>, \<open>_live_phase\<close>), the enclosing owner, the computed placement and the
  chain of placements above it. \<open>sha\<close> is the hexadecimal SHA-256 digest of the standard
  library, an argument. Paths are strings; \<open>join_path\<close> is the \<open>/\<close> of \<open>Path\<close> on the normalized
  paths of the workspace layout.
\<close>

subsection \<open>Names\<close>

definition pure_parts :: "string \<Rightarrow> string list" where
  "pure_parts path = filter (\<lambda>p. p \<noteq> [] \<and> p \<noteq> ''.'') (split_on (CHR ''/'') path)"

definition path_name :: "string \<Rightarrow> string" where
  "path_name path = (if pure_parts path = [] then [] else last (pure_parts path))"

definition type_segment :: "string \<Rightarrow> string" where
  "type_segment ty = (case map_of SLUG_PREFIXES ty of None \<Rightarrow> ''work'' | Some s \<Rightarrow> s)"

definition remove_prefix :: "string \<Rightarrow> string \<Rightarrow> string" where
  "remove_prefix p s = (if starts_with s p then drop (length p) s else s)"

definition stable_stem :: "(string \<Rightarrow> string) \<Rightarrow> string \<Rightarrow> string \<Rightarrow> string" where
  "stable_stem sha path ty =
     (let segment = type_segment ty; b = path_name path;
          b' = (if segment \<noteq> ''epic'' then remove_prefix ''epic-'' b else b)
      in remove_prefix (segment @ ''-'') b' @ ''-'' @ take 8 (sha path))"

definition branch_name :: "(string \<Rightarrow> string) \<Rightarrow> string \<Rightarrow> string \<Rightarrow> string" where
  "branch_name sha path ty = type_segment ty @ ''/'' @ stable_stem sha path ty"

definition active_path :: "string \<Rightarrow> string" where
  "active_path path =
     (let parts = split_on (CHR ''/'') path
      in if take 2 parts = [''work'', ''_archive''] then join ''/'' (hd parts # drop 2 parts) else path)"

subsection \<open>Owners\<close>

definition owns_integration :: "work_item \<Rightarrow> bool" where
  "owns_integration owner \<longleftrightarrow>
     wi_type owner \<in> {''Epic'', ''Release''} \<or> wi_type owner = ''Feature'' \<and> wi_child_paths owner \<noteq> []"

function owner_loop :: "(string \<times> work_item) list \<Rightarrow> string list \<Rightarrow> string option \<Rightarrow> work_item option" where
  "owner_loop index seen parent =
     (if \<not> truthy parent \<or> the parent \<in> set seen then None
      else (case map_of index (the parent) of
              None \<Rightarrow> None
            | Some owner \<Rightarrow>
                if owns_integration owner then Some owner
                else owner_loop index (the parent # seen) (wi_parent_path owner)))"
  by pat_completeness auto
termination
  by (relation "measure (\<lambda>(index, seen, parent). card (fst ` set index - set seen))")
    (auto dest: unseen_decreases)

declare owner_loop.simps [simp del]

definition enclosing_owner :: "(string \<times> work_item) list \<Rightarrow> work_item \<Rightarrow> work_item option" where
  "enclosing_owner index item = owner_loop index [] (wi_parent_path item)"

lemma owner_loop_in: "owner_loop index seen parent = Some o' \<Longrightarrow> o' \<in> snd ` set index"
proof (induction index seen parent rule: owner_loop.induct)
  case (1 index seen parent)
  show ?case
  proof (cases "\<not> truthy parent \<or> the parent \<in> set seen")
    case False
    then obtain owner where owner: "map_of index (the parent) = Some owner"
      using "1.prems" by (subst (asm) owner_loop.simps) (auto split: option.splits)
    show ?thesis
    proof (cases "owns_integration owner")
      case True
      with False owner "1.prems" have "o' = owner" by (subst (asm) owner_loop.simps) simp
      with map_of_SomeD [OF owner] show ?thesis by force
    next
      case other: False
      with False owner "1.prems" have "owner_loop index (the parent # seen) (wi_parent_path owner) = Some o'"
        by (subst (asm) owner_loop.simps) simp
      with "1.IH" [OF False owner other] show ?thesis .
    qed
  qed (use "1.prems" in \<open>subst (asm) owner_loop.simps, simp\<close>)
qed

lemma enclosing_owner_in: "enclosing_owner index item = Some o' \<Longrightarrow> o' \<in> snd ` set index"
  by (simp add: enclosing_owner_def owner_loop_in)

subsection \<open>Placements\<close>

record item_repo =
  ir_name :: "string option"
  ir_path :: "string option"

record placement =
  pl_path :: string
  pl_active_path :: string
  pl_type :: string
  pl_slug :: string
  pl_repo_name :: string
  pl_repo_root :: string
  pl_branch :: string
  pl_worktree :: string
  pl_parent_branch :: string
  pl_parent_worktree :: string
  pl_owner_path :: "string option"

definition join_path :: "string \<Rightarrow> string \<Rightarrow> string" where
  "join_path base sub =
     (if starts_with sub ''/'' then ''/'' @ join ''/'' (pure_parts sub) else join ''/'' (base # pure_parts sub))"

text \<open>\<open>placement_for\<close>, whose repository root and working checkout are the same path here.\<close>

definition placement_for ::
  "(string \<Rightarrow> string) \<Rightarrow> (string \<times> work_item) list \<Rightarrow> string \<Rightarrow> string \<Rightarrow> string \<Rightarrow> string \<Rightarrow> work_item \<Rightarrow> placement" where
  "placement_for sha index repo_name repo_root worktrees_dir base item =
     (let path = active_path (wi_path item); branch = branch_name sha path (wi_type item);
          repo_dir = join_path worktrees_dir repo_name; owner = enclosing_owner index item;
          parent_branch = (case owner of None \<Rightarrow> base | Some e \<Rightarrow> branch_name sha (active_path (wi_path e)) (wi_type e))
      in \<lparr>pl_path = wi_path item, pl_active_path = path, pl_type = wi_type item, pl_slug = path_name path,
          pl_repo_name = repo_name, pl_repo_root = repo_root, pl_branch = branch,
          pl_worktree = join_path repo_dir branch, pl_parent_branch = parent_branch,
          pl_parent_worktree = (case owner of None \<Rightarrow> repo_root | Some e \<Rightarrow> join_path repo_dir parent_branch),
          pl_owner_path = map_option wi_path owner\<rparr>)"

text \<open>\<open>_repo_name\<close>: the name, or the last segment of the path; \<open>None\<close> without a path.\<close>

definition repo_place :: "item_repo \<Rightarrow> (string \<times> string) option" where
  "repo_place repo =
     (case ir_path repo of
        None \<Rightarrow> None
      | Some p \<Rightarrow> Some (if truthy (ir_name repo) then the (ir_name repo) else path_name p, p))"

definition compute_placement ::
  "(string \<Rightarrow> string) \<Rightarrow> (string \<times> work_item) list \<Rightarrow> string \<Rightarrow> string \<Rightarrow> item_repo \<Rightarrow> work_item \<Rightarrow> placement option" where
  "compute_placement sha index worktrees_dir base repo item =
     map_option (\<lambda>(name, root). placement_for sha index name root worktrees_dir base item) (repo_place repo)"

text \<open>The owners above an item, innermost first; the walk stops at a path it has seen.\<close>

function owner_chain :: "(string \<times> work_item) list \<Rightarrow> string list \<Rightarrow> work_item option \<Rightarrow> work_item list" where
  "owner_chain index seen current =
     (case current of
        None \<Rightarrow> []
      | Some item \<Rightarrow>
          if wi_path item \<in> set seen then []
          else item # owner_chain index (wi_path item # seen) (enclosing_owner index item))"
  by pat_completeness auto
termination
proof (relation "measure (\<lambda>(index, seen, current).
    2 * card ((wi_path \<circ> snd) ` set index - set seen) +
    (case current of None \<Rightarrow> 0 | Some i \<Rightarrow> if i \<in> snd ` set index then 0 else 1))", goal_cases)
  case 1
  show ?case by simp
next
  case (2 index seen current item)
  let ?P = "(wi_path \<circ> snd) ` set index"
  show ?case
  proof (cases "enclosing_owner index item")
    case None
    show ?thesis
    proof (cases "item \<in> snd ` set index")
      case True
      then have "wi_path item \<in> ?P" by force
      with 2 have "card (?P - insert (wi_path item) (set seen)) < card (?P - set seen)"
        by (intro psubset_card_mono) auto
      with None 2 show ?thesis by simp
    next
      case False
      have "card (?P - insert (wi_path item) (set seen)) \<le> card (?P - set seen)" by (intro card_mono) auto
      with None 2 False show ?thesis by simp
    qed
  next
    case (Some owner)
    have owner: "owner \<in> snd ` set index" using enclosing_owner_in [OF Some] .
    show ?thesis
    proof (cases "item \<in> snd ` set index")
      case True
      then have "wi_path item \<in> ?P" by force
      with 2 have "card (?P - insert (wi_path item) (set seen)) < card (?P - set seen)"
        by (intro psubset_card_mono) auto
      with Some owner True 2 show ?thesis by simp
    next
      case False
      have "card (?P - insert (wi_path item) (set seen)) \<le> card (?P - set seen)" by (intro card_mono) auto
      with Some owner False 2 show ?thesis by simp
    qed
  qed
qed

declare owner_chain.simps [simp del]

text \<open>\<open>placement_chain\<close>: owners outermost first, then the item.\<close>

definition compute_chain ::
  "(string \<Rightarrow> string) \<Rightarrow> (string \<times> work_item) list \<Rightarrow> string \<Rightarrow> string \<Rightarrow> item_repo \<Rightarrow> work_item \<Rightarrow> placement list" where
  "compute_chain sha index worktrees_dir base repo item =
     (case repo_place repo of
        None \<Rightarrow> []
      | Some (name, root) \<Rightarrow>
          map (placement_for sha index name root worktrees_dir base) (rev (owner_chain index [] (Some item))))"

lemma compute_chain_last:
  "compute_chain sha index dir base repo item \<noteq> [] \<Longrightarrow>
     compute_placement sha index dir base repo item = Some (last (compute_chain sha index dir base repo item))"
  by (auto simp: compute_chain_def compute_placement_def owner_chain.simps [of index "[]"] split: option.splits prod.splits)

subsection \<open>Legacy stamps\<close>

record legacy_row =
  lr_repo_key :: "string option"
  lr_worktree :: string
  lr_branch :: string
  lr_start_sha :: "string option"

definition legacy_rows :: "work_item \<Rightarrow> legacy_row list" where
  "legacy_rows item =
     (case wi_legacy_placement item of
        None \<Rightarrow> []
      | Some legacy \<Rightarrow>
          (if truthy (legacy_worktree legacy) \<or> truthy (legacy_branch legacy)
           then [\<lparr>lr_repo_key = None, lr_worktree = (case legacy_worktree legacy of None \<Rightarrow> [] | Some w \<Rightarrow> w),
                  lr_branch = (case legacy_branch legacy of None \<Rightarrow> [] | Some b \<Rightarrow> b), lr_start_sha = wi_start_sha item\<rparr>] else [])
          @ map (\<lambda>(name, st). \<lparr>lr_repo_key = Some name, lr_worktree = stamp_worktree st,
                   lr_branch = stamp_branch st, lr_start_sha = stamp_start_sha st\<rparr>)
              (sort_key fst (legacy_repos legacy)))"

definition stamp_row :: "work_item \<Rightarrow> string option \<Rightarrow> legacy_row option" where
  "stamp_row item repo_key = find (\<lambda>r. lr_repo_key r = repo_key) (legacy_rows item)"

definition stamped_worktrees :: "work_item \<Rightarrow> string list" where
  "stamped_worktrees item = filter (\<lambda>w. w \<noteq> []) (map lr_worktree (legacy_rows item))"

record effective_placement =
  ep_repo_name :: string
  ep_worktree :: string
  ep_branch :: string
  ep_start_sha :: "string option"
  ep_source :: string

definition legacy_effective :: "work_item \<Rightarrow> item_repo \<Rightarrow> string option \<Rightarrow> effective_placement option" where
  "legacy_effective item repo own =
     (case (wi_legacy_placement item, ir_name repo) of
        (Some legacy, Some name) \<Rightarrow>
          (case map_of (legacy_repos legacy) name of
             Some st \<Rightarrow>
               Some \<lparr>ep_repo_name = name, ep_worktree = stamp_worktree st, ep_branch = stamp_branch st,
                     ep_start_sha = py_or (stamp_start_sha st) (wi_start_sha item), ep_source = ''legacy''\<rparr>
           | None \<Rightarrow>
               if Some name = own \<and> truthy (legacy_worktree legacy) \<and> truthy (legacy_branch legacy)
               then Some \<lparr>ep_repo_name = name, ep_worktree = the (legacy_worktree legacy),
                          ep_branch = the (legacy_branch legacy), ep_start_sha = wi_start_sha item,
                          ep_source = ''legacy''\<rparr>
               else None)
      | _ \<Rightarrow> None)"

definition effective_placement ::
  "(string \<Rightarrow> string) \<Rightarrow> (string \<times> work_item) list \<Rightarrow> string \<Rightarrow> string \<Rightarrow> item_repo \<Rightarrow> string option \<Rightarrow> work_item \<Rightarrow>
     effective_placement option" where
  "effective_placement sha index worktrees_dir base repo own item =
     (case legacy_effective item repo own of
        Some p \<Rightarrow> Some p
      | None \<Rightarrow>
          case (ir_name repo, ir_path repo) of
            (Some name, Some root) \<Rightarrow>
              (let p = placement_for sha index name root worktrees_dir base item
               in Some \<lparr>ep_repo_name = name, ep_worktree = pl_worktree p, ep_branch = pl_branch p,
                        ep_start_sha = (if Some name = own then wi_start_sha item else None),
                        ep_source = ''computed''\<rparr>)
          | _ \<Rightarrow> None)"

subsection \<open>Sessions\<close>

definition SESSION_NAME_MAX :: nat where "SESSION_NAME_MAX = 64"

definition SESSION_LABELS :: "(string \<times> string) list" where
  "SESSION_LABELS = [(''reconcile'', ''plan'')]"

definition rstrip_dashes :: "string \<Rightarrow> string" where
  "rstrip_dashes s = rev (dropWhile (\<lambda>c. c = CHR ''-'') (rev s))"

definition session_name :: "(string \<Rightarrow> string) \<Rightarrow> string \<Rightarrow> string \<Rightarrow> string \<Rightarrow> string option \<Rightarrow> string" where
  "session_name sha path ty phase label =
     (let stem = stable_stem sha path ty;
          start = ''gw-'' @ (if truthy label then the label else phase) @ ''-'';
          budget = SESSION_NAME_MAX - length start;
          tail = rev (takeWhile (\<lambda>c. c \<noteq> CHR ''-'') (rev stem));
          words = take (length stem - length tail - 1) stem;
          keep = budget - length tail - 1
      in start @ (if length stem \<le> budget then stem
                  else if keep = 0 then tail else rstrip_dashes (take keep words) @ ''-'' @ tail))"

text \<open>The names of an item: the dispatch phases in order, then the labels.\<close>

definition item_sessions :: "(string \<Rightarrow> string) \<Rightarrow> work_item \<Rightarrow> string list" where
  "item_sessions sha item =
     map (\<lambda>phase. session_name sha (wi_path item) (wi_type item) phase None) (sort DISPATCH_PHASES)
     @ map (\<lambda>(label, phase). session_name sha (wi_path item) (wi_type item) phase (Some label)) SESSION_LABELS"

definition index_session ::
  "(string \<times> work_item) list \<times> (string \<times> string list) list \<Rightarrow> string \<times> work_item \<Rightarrow>
     (string \<times> work_item) list \<times> (string \<times> string list) list" where
  "index_session st entry =
     (let (index, collisions) = st; (name, item) = entry
      in case map_of index name of
           Some held \<Rightarrow>
             if wi_path held \<noteq> wi_path item
             then (index, append_at name (wi_path item)
                     (if name \<in> fst ` set collisions then collisions else collisions @ [(name, [wi_path held])]))
             else if name \<in> fst ` set collisions then (index, append_at name (wi_path item) collisions)
             else (AList.update name item index, collisions)
         | None \<Rightarrow>
             if name \<in> fst ` set collisions then (index, append_at name (wi_path item) collisions)
             else (AList.update name item index, collisions))"

definition session_index ::
  "(string \<Rightarrow> string) \<Rightarrow> work_item list \<Rightarrow> (string \<times> work_item) list \<times> string list" where
  "session_index sha items =
     (let (index, collisions) =
            foldl index_session ([], []) (concat (map (\<lambda>item. map (\<lambda>n. (n, item)) (item_sessions sha item)) items))
      in (filter (\<lambda>(n, _). n \<notin> fst ` set collisions) index,
          map (\<lambda>n. ''session name '' @ repr n @ '' is ambiguous (''
                 @ join '', '' (sort (case map_of collisions n of None \<Rightarrow> [] | Some ps \<Rightarrow> ps)) @ ''); dropped'')
            (sort (map fst collisions))))"

text \<open>\<open>_live_phase\<close>: the phase whose session the key is; \<open>None\<close> is the \<open>StopIteration\<close>.\<close>

definition live_phase :: "(string \<Rightarrow> string) \<Rightarrow> work_item \<Rightarrow> string \<Rightarrow> string option" where
  "live_phase sha item key =
     (case find (\<lambda>phase. session_name sha (wi_path item) (wi_type item) phase None = key) DISPATCH_PHASES of
        Some phase \<Rightarrow> Some phase
      | None \<Rightarrow>
          map_option snd
            (find (\<lambda>(label, phase). session_name sha (wi_path item) (wi_type item) phase (Some label) = key) SESSION_LABELS))"

end
