(* ===== verification/Profiles.thy ===== *)
theory Profiles
  imports Workflow
begin

text \<open>
  Dispatch profiles (\<open>gw_kernel/workspace/dispatch.py\<close>): the packaged rules and the
  workspace's rules are folded, later ones over earlier ones, into one profile with the origin
  of each field. The texts of the packaged prompt tails are arguments.
\<close>

subsection \<open>Rules\<close>

record rule_origin =
  ro_source :: string
  ro_index :: nat
  ro_name :: "string option"

record dispatch_rule =
  dr_match :: match_spec
  dr_fields :: "(string \<times> string option) list"
  dr_origin :: rule_origin

record dispatch_profile =
  pf_skill :: string
  pf_mode :: string
  pf_tail :: "string option"
  pf_agent :: string
  pf_model :: "string option"
  pf_effort :: "string option"

record tails =
  attend_tail :: string
  commit_tail :: string
  execute_tail :: string

definition packaged_table :: "tails \<Rightarrow> (string \<times> match_spec \<times> string \<times> string \<times> string option) list" where
  "packaged_table ts =
     (let stage = (\<lambda>s. (''stage'', MOne (AStr s)));
          parents = (''type'', MAny [AStr ''Epic'', AStr ''Release'']);
          flag = (\<lambda>k. (k, MOne (ABool True)));
          attend = Some (attend_tail ts); commit = Some (commit_tail ts); execute = Some (execute_tail ts)
      in [(''design'', [stage ''design''], ''superpowers:brainstorming'', ''attend'', attend),
          (''design-bug'', [stage ''design'', (''type'', MOne (AStr ''Bug''))],
             ''superpowers:systematic-debugging'', ''attend'', attend),
          (''design-parent'', [stage ''design'', parents], ''gw:epic-design'', ''attend'', attend),
          (''design-reconcile'', [stage ''design'', flag ''has_spec''], ''gw:reconciling-spec'', ''autonomous'', commit),
          (''plan'', [stage ''plan''], ''superpowers:writing-plans'', ''autonomous'', commit),
          (''plan-parent'', [stage ''plan'', parents], ''gw:planning-epics'', ''autonomous'', commit),
          (''plan-reconcile'', [stage ''plan'', flag ''spec_stale''], ''gw:reconciling-spec'', ''autonomous'', commit),
          (''execute'', [stage ''execute''], ''superpowers:test-driven-development'', ''autonomous'', execute),
          (''execute-planned'', [stage ''execute'', flag ''has_plan''],
             ''superpowers:subagent-driven-development'', ''autonomous'', execute),
          (''finish'', [stage ''finish''], ''superpowers:finishing-a-development-branch'', ''relay'', None)])"

definition packaged_dispatch_rules :: "tails \<Rightarrow> dispatch_rule list" where
  "packaged_dispatch_rules ts =
     map (\<lambda>(i, name, spec, skill, mode, tail).
            \<lparr>dr_match = spec,
             dr_fields = [(''skill'', Some skill), (''mode'', Some mode), (''prompt_tail'', tail),
               (''agent'', Some ''claude''), (''model'', None), (''reasoning_effort'', None)],
             dr_origin = \<lparr>ro_source = ''packaged'', ro_index = i, ro_name = Some name\<rparr>\<rparr>)
       (enumerate 0 (packaged_table ts))"

definition dispatch_attributes :: "route_state \<Rightarrow> stage \<Rightarrow> attrs" where
  "dispatch_attributes st stage =
     path_attributes (rs_type st) (rs_effort st) (rs_blast_radius st) (rs_has_spec_doc st) (rs_has_plan_doc st)
       (rs_stale_spec st \<noteq> [] \<and> rs_phase st = Some ''plan'')
     ++ [''stage'' \<mapsto> AStr (stage_str stage)]"

subsection \<open>Resolution\<close>

datatype profile_error = No_Packaged_Rule string | Profile_Error string string

type_synonym profile_values = "(string \<times> string option) list"
type_synonym field_origins = "(string \<times> rule_origin \<times> string) list"

definition field_value :: "profile_values \<Rightarrow> string \<Rightarrow> string option" where
  "field_value vs field = (case map_of vs field of None \<Rightarrow> None | Some v \<Rightarrow> v)"

definition set_field ::
  "rule_origin \<Rightarrow> profile_values \<times> field_origins \<Rightarrow> string \<times> string option \<Rightarrow> profile_values \<times> field_origins" where
  "set_field origin st fv =
     (AList.update (fst fv) (snd fv) (fst st),
      AList.update (fst fv) (origin, if snd fv = None then ''explicit-null'' else ''set'') (snd st))"

definition set_fields :: "profile_values \<times> field_origins \<Rightarrow> dispatch_rule \<Rightarrow> profile_values \<times> field_origins" where
  "set_fields st rule = foldl (set_field (dr_origin rule)) st (dr_fields rule)"

text \<open>A rule that changes the agent clears the model and the effort first.\<close>

definition clear_field :: "rule_origin \<Rightarrow> profile_values \<times> field_origins \<Rightarrow> string \<Rightarrow> profile_values \<times> field_origins" where
  "clear_field origin st field =
     (AList.update field None (fst st), AList.update field (origin, ''agent-change'') (snd st))"

definition apply_rule :: "profile_values \<times> field_origins \<Rightarrow> dispatch_rule \<Rightarrow> profile_values \<times> field_origins" where
  "apply_rule st rule =
     (let changed = (case map_of (dr_fields rule) ''agent'' of None \<Rightarrow> False | Some a \<Rightarrow> a \<noteq> field_value (fst st) ''agent'')
      in set_fields
           (if changed then foldl (clear_field (dr_origin rule)) st [''model'', ''reasoning_effort''] else st) rule)"

fun show_attr :: "attr_value option \<Rightarrow> string" where
  "show_attr None = ''None''"
| "show_attr (Some (AStr s)) = repr s"
| "show_attr (Some (ABool b)) = (if b then ''True'' else ''False'')"

definition show_attributes :: "attrs \<Rightarrow> string" where
  "show_attributes attrs =
     ''{'' @ join '', '' (map (\<lambda>k. repr k @ '': '' @ show_attr (attrs k))
       [''blast_radius'', ''effort'', ''has_plan'', ''has_spec'', ''spec_stale'', ''stage'', ''type'']) @ ''}''"

definition folded_values :: "dispatch_rule list \<Rightarrow> dispatch_rule list \<Rightarrow> attrs \<Rightarrow> profile_values \<times> field_origins" where
  "folded_values packaged rules attrs =
     foldl apply_rule (foldl set_fields ([], []) (filter (\<lambda>r. matches (dr_match r) attrs) packaged))
       (filter (\<lambda>r. matches (dr_match r) attrs) rules)"

definition tail_source :: "field_origins \<Rightarrow> string" where
  "tail_source origins =
     (case map_of origins ''prompt_tail'' of
        None \<Rightarrow> []
      | Some (rule, _) \<Rightarrow> ro_source rule @ '': rule '' @ nat_str (ro_index rule))"

definition resolve_dispatch ::
  "tails \<Rightarrow> dispatch_rule list \<Rightarrow> attrs \<Rightarrow> profile_error + dispatch_profile \<times> field_origins" where
  "resolve_dispatch ts rules attrs =
     (if filter (\<lambda>r. matches (dr_match r) attrs) (packaged_dispatch_rules ts) = []
      then Inl (No_Packaged_Rule (''no packaged dispatch rule matches attributes '' @ show_attributes attrs))
      else
        let (vs, origins) = folded_values (packaged_dispatch_rules ts) rules attrs; v = field_value vs
        in if v ''reasoning_effort'' \<noteq> None \<and> v ''model'' = None
           then Inl (Profile_Error ''invalid'' ''Set a model or clear reasoning_effort.'')
           else if v ''mode'' = Some ''relay'' \<and> v ''prompt_tail'' = None
           then Inl (Profile_Error ''relay-untailed''
                  (tail_source origins @ '': relay dispatch requires a prompt_tail''))
           else Inr (\<lparr>pf_skill = opt_show (v ''skill''), pf_mode = opt_show (v ''mode''), pf_tail = v ''prompt_tail'',
                      pf_agent = opt_show (v ''agent''), pf_model = v ''model'', pf_effort = v ''reasoning_effort''\<rparr>,
                     origins))"

subsection \<open>Lemmas\<close>

lemma stage_attribute [simp]: "dispatch_attributes st stage ''stage'' = Some (AStr (stage_str stage))"
  by (simp add: dispatch_attributes_def)

lemma packaged_rules_fields:
  "r \<in> set (packaged_dispatch_rules ts) \<Longrightarrow>
     map fst (dr_fields r) = [''skill'', ''mode'', ''prompt_tail'', ''agent'', ''model'', ''reasoning_effort'']"
  by (auto simp: packaged_dispatch_rules_def)

lemma packaged_rule_matches:
  "\<exists>r \<in> set (packaged_dispatch_rules ts). matches (dr_match r) (dispatch_attributes st stage)"
  by (cases stage) (simp_all add: packaged_dispatch_rules_def packaged_table_def Let_def)

lemma dispatch_never_unmatched:
  "resolve_dispatch ts rules (dispatch_attributes st stage) \<noteq> Inl (No_Packaged_Rule m)"
  using packaged_rule_matches [of ts st stage]
  by (auto simp: resolve_dispatch_def filter_empty_conv Let_def split: prod.splits)

text \<open>The last word on a field: the value of the last matching rule that sets it.\<close>

definition last_word :: "string \<Rightarrow> dispatch_rule list \<Rightarrow> string option" where
  "last_word field rules =
     (case find (\<lambda>r. field \<in> fst ` set (dr_fields r)) (rev rules) of
        None \<Rightarrow> None
      | Some r \<Rightarrow> field_value (dr_fields r) field)"

lemma field_value_update [simp]:
  "field_value (AList.update k v vs) field = (if k = field then v else field_value vs field)"
  by (simp add: field_value_def update_conv)

lemma set_fields_value:
  "distinct (map fst (dr_fields r)) \<Longrightarrow>
     field_value (fst (set_fields st r)) field =
       (if field \<in> fst ` set (dr_fields r) then field_value (dr_fields r) field else field_value (fst st) field)"
proof -
  have "distinct (map fst fs) \<Longrightarrow> field_value (fst (foldl (set_field origin) st fs)) field =
      (if field \<in> fst ` set fs then field_value fs field else field_value (fst st) field)" for origin fs
    by (induction fs arbitrary: st) (auto simp: set_field_def field_value_def update_conv image_iff)
  then show "distinct (map fst (dr_fields r)) \<Longrightarrow> ?thesis" by (simp add: set_fields_def)
qed

lemma apply_rule_value:
  "distinct (map fst (dr_fields r)) \<Longrightarrow> field \<notin> {''model'', ''reasoning_effort''} \<Longrightarrow>
     field_value (fst (apply_rule st r)) field =
       (if field \<in> fst ` set (dr_fields r) then field_value (dr_fields r) field else field_value (fst st) field)"
  by (auto simp: apply_rule_def set_fields_value clear_field_def Let_def)

lemma foldl_last_word:
  assumes "\<And>st r. r \<in> set rs \<Longrightarrow> field_value (fst (f st r)) field =
       (if field \<in> fst ` set (dr_fields r) then field_value (dr_fields r) field else field_value (fst st) field)"
  shows "field_value (fst (foldl f st rs)) field =
    (if \<exists>r \<in> set rs. field \<in> fst ` set (dr_fields r) then last_word field rs else field_value (fst st) field)"
  using assms
proof (induction rs rule: rev_induct)
  case (snoc r rs)
  then show ?case by (auto simp: last_word_def)
qed simp

lemma last_word_append:
  "last_word field (rs @ ss) =
     (if \<exists>r \<in> set ss. field \<in> fst ` set (dr_fields r) then last_word field ss else last_word field rs)"
proof (induction ss rule: rev_induct)
  case (snoc r ss)
  then show ?case by (auto simp: last_word_def simp flip: append_assoc)
qed (simp add: last_word_def)

lemma last_word_unset:
  assumes "\<not> (\<exists>r \<in> set rs. field \<in> fst ` set (dr_fields r))"
  shows "last_word field rs = None"
proof -
  have "find (\<lambda>r. field \<in> fst ` set (dr_fields r)) (rev rs) = None"
    using assms unfolding find_None_iff by simp
  then show ?thesis by (simp add: last_word_def)
qed

lemma folded_last_word:
  assumes "\<And>r. r \<in> set packaged \<union> set rules \<Longrightarrow> distinct (map fst (dr_fields r))"
    and "field \<notin> {''model'', ''reasoning_effort''}"
  shows "field_value (fst (folded_values packaged rules attrs)) field =
    last_word field (filter (\<lambda>r. matches (dr_match r) attrs) (packaged @ rules))"
proof -
  let ?m = "\<lambda>r. matches (dr_match r) attrs"
  have "field_value (fst (foldl set_fields ([], []) (filter ?m packaged))) field = last_word field (filter ?m packaged)"
    using assms(1)
    by (subst foldl_last_word) (auto simp: set_fields_value last_word_unset, simp add: field_value_def)
  then show ?thesis
    using assms unfolding folded_values_def filter_append last_word_append
    by (subst foldl_last_word) (auto simp: apply_rule_value)
qed

lemma packaged_distinct: "r \<in> set (packaged_dispatch_rules ts) \<Longrightarrow> distinct (map fst (dr_fields r))"
  by (simp add: packaged_rules_fields)

text \<open>A resolved profile takes its skill, mode, agent and prompt tail from the last matching
  rule that sets it, workspace rules after packaged ones; a relay stage always has a prompt tail
  and an effort always a model.\<close>

theorem profile_last_word:
  assumes "resolve_dispatch ts rules attrs = Inr (p, origins)"
    and "list_all (\<lambda>r. distinct (map fst (dr_fields r))) rules"
  shows "(let rs = filter (\<lambda>r. matches (dr_match r) attrs) (packaged_dispatch_rules ts @ rules)
          in pf_skill p = opt_show (last_word ''skill'' rs) \<and> pf_mode p = opt_show (last_word ''mode'' rs) \<and>
             pf_agent p = opt_show (last_word ''agent'' rs) \<and> pf_tail p = last_word ''prompt_tail'' rs)
    \<and> (last_word ''mode'' (filter (\<lambda>r. matches (dr_match r) attrs) (packaged_dispatch_rules ts @ rules)) = Some ''relay'' \<longrightarrow>
         pf_tail p \<noteq> None)
    \<and> (pf_effort p \<noteq> None \<longrightarrow> pf_model p \<noteq> None)"
proof -
  have fold: "field \<notin> {''model'', ''reasoning_effort''} \<Longrightarrow>
      field_value (fst (folded_values (packaged_dispatch_rules ts) rules attrs)) field =
        last_word field (filter (\<lambda>r. matches (dr_match r) attrs) (packaged_dispatch_rules ts @ rules))" for field
    using assms(2) packaged_distinct by (intro folded_last_word) (auto simp: list_all_iff)
  show ?thesis
    using assms(1) fold [of "''skill''"] fold [of "''mode''"] fold [of "''agent''"] fold [of "''prompt_tail''"]
    by (auto simp: resolve_dispatch_def Let_def split: if_splits prod.splits)
qed

definition sample_tails :: tails where
  "sample_tails = \<lparr>attend_tail = ''ask here'', commit_tail = ''no commits'', execute_tail = ''report''\<rparr>"

definition relay_rule :: dispatch_rule where
  "relay_rule =
     \<lparr>dr_match = [(''stage'', MOne (AStr ''finish''))],
      dr_fields = [(''prompt_tail'', Some ''relay to the coordinator''), (''agent'', Some ''codex'')],
      dr_origin = \<lparr>ro_source = ''dispatch.yaml'', ro_index = 0, ro_name = None\<rparr>\<rparr>"

lemma profile_last_word_witness:
  "\<exists>p origins. resolve_dispatch sample_tails [relay_rule] [''stage'' \<mapsto> AStr ''finish''] = Inr (p, origins) \<and>
     pf_agent p = ''codex'' \<and> pf_mode p = ''relay'' \<and> pf_tail p \<noteq> None"
proof -
  let ?r = "resolve_dispatch sample_tails [relay_rule] [''stage'' \<mapsto> AStr ''finish'']"
  have "isl ?r = False" by code_simp
  then obtain p origins where r: "?r = Inr (p, origins)" by (cases ?r) auto
  have words: "last_word ''agent'' (filter (\<lambda>r. matches (dr_match r) [''stage'' \<mapsto> AStr ''finish'']) (packaged_dispatch_rules sample_tails @ [relay_rule])) = Some ''codex''"
    "last_word ''mode'' (filter (\<lambda>r. matches (dr_match r) [''stage'' \<mapsto> AStr ''finish'']) (packaged_dispatch_rules sample_tails @ [relay_rule])) = Some ''relay''"
    by code_simp+
  have "list_all (\<lambda>r. distinct (map fst (dr_fields r))) [relay_rule]" by code_simp
  from profile_last_word [OF r this] words r show ?thesis unfolding Let_def by (metis opt_show.simps(2))
qed

end
