(* ===== verification/Orchestrate.thy ===== *)
theory Orchestrate
  imports Frontier Siting Profiles
begin

text \<open>
  The dispatch plan of a run (\<open>gw_orchestrate/commands.py\<close>: \<open>plan\<close>): what the live workers
  hold, the gates a candidate passes in the order of the code, the reservations of the accepted
  ones and the plan itself. Git and workspace evidence are arguments, as they are of the code.
  The fixed sentences of a prompt (\<open>FINDINGS_LINE\<close> and the like) are arguments too.
\<close>

subsection \<open>Evidence\<close>

record finish_target =
  ft_repo :: item_repo
  ft_worktree :: string
  ft_source_branch :: string
  ft_target_branch :: string
  ft_target_worktree :: "string option"
  ft_strategy :: string

record finish_plan =
  fp_targets :: "finish_target list"
  fp_blockers :: "string list"
  fp_occupancy :: "(string list \<times> bool) option"

record repo_context =
  rc_identity :: string
  rc_path :: string
  rc_default_base :: string
  rc_checkouts :: "string list"

record human_checkpoints =
  hc_status :: string
  hc_items :: "string list"

record prompt_texts =
  findings_line :: string
  ask_line :: string
  no_sub_dispatch_line :: string
  worker_placement_line :: string

record request =
  rq_sha :: "string \<Rightarrow> string"
  rq_tails :: tails
  rq_texts :: prompt_texts
  rq_rules :: "dispatch_rule list"
  rq_definition :: pipeline_definition
  rq_max_parallel :: int
  rq_max_attend :: int
  rq_supervise :: bool
  rq_live :: "string list"
  rq_holds :: "string \<Rightarrow> hold_fact option"
  rq_stale :: "string \<Rightarrow> string list"
  rq_workspace :: string
  rq_base :: string
  rq_worktrees_dir :: string
  rq_refusals :: "string \<Rightarrow> blocked_item option"
  rq_repos :: "(string \<Rightarrow> item_repo option) option"
  rq_contexts :: "repo_context list"
  rq_finish :: "string \<Rightarrow> finish_plan option"
  rq_checkpoints :: "string \<Rightarrow> human_checkpoints option"

datatype plan_error = Raised py_exn | Unresolved string

definition raised :: "'a result \<Rightarrow> plan_error + 'a" where
  "raised r = (case r of Inl e \<Rightarrow> Inl (Raised e) | Inr x \<Rightarrow> Inr x)"

subsection \<open>Helpers\<close>

fun scope_label :: "scope \<Rightarrow> string" where
  "scope_label (WorktreeScope path) = path"
| "scope_label (CodeScope repo (Some path)) = path"
| "scope_label (CodeScope repo None) = repo @ '' (whole repository)''"
| "scope_label WorkspaceScope = ''workspace''"

definition uncertain_members :: "string list \<Rightarrow> string option list" where
  "uncertain_members affects =
     (if code_affects affects \<noteq> [] then map Some (code_affects affects)
      else if touches_workspace affects then [] else [None])"

definition finish_worktrees :: "finish_target \<Rightarrow> string list" where
  "finish_worktrees t = first_seen (filter (\<lambda>p. p \<noteq> []) (ft_worktree t # (case ft_target_worktree t of None \<Rightarrow> [] | Some p \<Rightarrow> [p])))"

text \<open>\<open>contexts_by_path\<close>: of two contexts with a path, the later one.\<close>

definition context_at :: "repo_context list \<Rightarrow> string \<Rightarrow> repo_context option" where
  "context_at contexts path = find (\<lambda>c. rc_path c = path \<or> path \<in> set (rc_checkouts c)) (rev contexts)"

definition repo_path_str :: "item_repo \<Rightarrow> string" where
  "repo_path_str repo = (case ir_path repo of None \<Rightarrow> ''None'' | Some p \<Rightarrow> p)"

definition repo_of :: "request \<Rightarrow> work_item \<Rightarrow> item_repo option" where
  "repo_of rq item = (case rq_repos rq of None \<Rightarrow> None | Some f \<Rightarrow> f (wi_path item))"

definition context_of :: "request \<Rightarrow> work_item \<Rightarrow> repo_context option" where
  "context_of rq item =
     Option.bind (Option.bind (repo_of rq item) ir_path) (context_at (rq_contexts rq))"

definition code_repository :: "request \<Rightarrow> work_item \<Rightarrow> item_repo option" where
  "code_repository rq item =
     (if touches_workspace (wi_affects item) \<and> code_affects (wi_affects item) = [] then None
      else repo_of rq item)"

definition base_of :: "request \<Rightarrow> repo_context option \<Rightarrow> string" where
  "base_of rq ctx = (case ctx of None \<Rightarrow> rq_base rq | Some c \<Rightarrow> rc_default_base c)"

definition identity_of :: "repo_context option \<Rightarrow> string" where
  "identity_of ctx = (case ctx of None \<Rightarrow> ''<legacy>'' | Some c \<Rightarrow> rc_identity c)"

definition placement_of :: "request \<Rightarrow> work_snapshot \<Rightarrow> work_item \<Rightarrow> placement option" where
  "placement_of rq s item =
     Option.bind (code_repository rq item) (\<lambda>repo.
       compute_placement (rq_sha rq) (by_path s) (rq_worktrees_dir rq) (base_of rq (context_of rq item)) repo item)"

definition worktree_claim :: "string \<Rightarrow> string \<Rightarrow> claim" where
  "worktree_claim owner path = claim_of (WorktreeScope path) Write_Claim owner"

subsection \<open>Live workers\<close>

definition flag_choices :: "attrs \<Rightarrow> attrs list" where
  "flag_choices current =
     concat (map (\<lambda>a. concat (map (\<lambda>b. map (\<lambda>c.
         current(''has_spec'' \<mapsto> ABool a, ''has_plan'' \<mapsto> ABool b, ''spec_stale'' \<mapsto> ABool c)) [False, True]) [False, True]))
       [False, True])"

fun attend_among :: "tails \<Rightarrow> dispatch_rule list \<Rightarrow> attrs list \<Rightarrow> profile_error + bool" where
  "attend_among ts rules [] = Inr False"
| "attend_among ts rules (a # as) =
     bind_res (resolve_dispatch ts rules a) (\<lambda>(p, _).
       if pf_mode p = ''attend'' then Inr True else attend_among ts rules as)"

definition stage_named :: "string \<Rightarrow> stage option" where
  "stage_named phase = find (\<lambda>st. stage_str st = phase) (map row_stage STAGE_TABLE)"

text \<open>\<open>_live_is_attend\<close> with the warning it adds.\<close>

definition live_is_attend :: "request \<Rightarrow> work_snapshot \<Rightarrow> work_item \<Rightarrow> string \<Rightarrow> string \<Rightarrow> bool \<times> string list" where
  "live_is_attend rq s item phase key =
     (let unresolved = (True, [''live key '' @ key @ '': dispatch profile unresolvable; counted against max_attend''])
      in case (state_for s (wi_path item) None (rq_holds rq (wi_path item)) (rq_stale rq (wi_path item)), stage_named phase) of
           (Some st, Some stage) \<Rightarrow>
             (case attend_among (rq_tails rq) (rq_rules rq) (flag_choices (dispatch_attributes st stage)) of
                Inl _ \<Rightarrow> unresolved
              | Inr attend \<Rightarrow> (attend, []))
         | _ \<Rightarrow> unresolved)"

record worker =
  wk_key :: string
  wk_item :: work_item
  wk_phase :: string

definition live_worker :: "request \<Rightarrow> (string \<times> work_item) list \<Rightarrow> string \<Rightarrow> worker result" where
  "live_worker rq sessions key =
     (case map_of sessions key of
        None \<Rightarrow> Inl (KeyError key)
      | Some item \<Rightarrow>
          case live_phase (rq_sha rq) item key of
            None \<Rightarrow> Inl StopIteration
          | Some phase \<Rightarrow> Inr \<lparr>wk_key = key, wk_item = item, wk_phase = phase\<rparr>)"

definition mutable_worker :: "worker \<Rightarrow> bool" where
  "mutable_worker w \<longleftrightarrow> wk_phase w \<notin> set READ_ONLY_PHASES"

definition live_targets :: "request \<Rightarrow> worker \<Rightarrow> finish_target list" where
  "live_targets rq w = (case rq_finish rq (wi_path (wk_item w)) of None \<Rightarrow> [] | Some f \<Rightarrow> fp_targets f)"

definition target_identity :: "request \<Rightarrow> finish_target \<Rightarrow> string" where
  "target_identity rq t =
     (case context_at (rq_contexts rq) (repo_path_str (ft_repo t)) of
        None \<Rightarrow> repo_path_str (ft_repo t) | Some c \<Rightarrow> rc_identity c)"

text \<open>The members of a live writer whose repository is unknown.\<close>

definition live_uncertain :: "request \<Rightarrow> worker \<Rightarrow> (string \<times> string option) list" where
  "live_uncertain rq w =
     (if rq_repos rq \<noteq> None \<and> context_of rq (wk_item w) = None \<and> wk_phase w \<in> set CODE_WRITE_PHASES
      then map (\<lambda>m. (wi_path (wk_item w), m)) (uncertain_members (wi_affects (wk_item w))) else [])"

definition live_affects :: "request \<Rightarrow> worker \<Rightarrow> claim list" where
  "live_affects rq w =
     (let item = wk_item w
      in claims_for (wi_path item) (wk_phase w) (identity_of (context_of rq item)) (wi_affects item)
         @ concat (map (\<lambda>t. claims_for (wi_path item) (wk_phase w) (target_identity rq t) (wi_affects item))
             (live_targets rq w)))"

text \<open>The stamps of the owner, when the finish evidence failed.\<close>

definition owner_stamps :: "request \<Rightarrow> work_snapshot \<Rightarrow> worker \<Rightarrow> string list" where
  "owner_stamps rq s w =
     (case rq_finish rq (wi_path (wk_item w)) of
        None \<Rightarrow> []
      | Some f \<Rightarrow>
          if (fp_targets f = [] \<or> fp_blockers f \<noteq> []) \<and> wk_phase w = ''finish''
          then (case enclosing_owner (by_path s) (wk_item w) of None \<Rightarrow> [] | Some owner \<Rightarrow> stamped_worktrees owner)
          else [])"

definition live_worktrees :: "request \<Rightarrow> work_snapshot \<Rightarrow> worker \<Rightarrow> string list" where
  "live_worktrees rq s w =
     (if mutable_worker w
      then (case placement_of rq s (wk_item w) of None \<Rightarrow> [] | Some p \<Rightarrow> [pl_worktree p])
           @ concat (map finish_worktrees (live_targets rq w))
      else [])
     @ (if wk_phase w = ''finish''
        then (case Option.bind (rq_finish rq (wi_path (wk_item w))) fp_occupancy of None \<Rightarrow> [] | Some (paths, _) \<Rightarrow> paths)
        else [])
     @ owner_stamps rq s w"

definition finish_unknown :: "request \<Rightarrow> worker \<Rightarrow> bool" where
  "finish_unknown rq w \<longleftrightarrow>
     wk_phase w = ''finish'' \<and>
     (case rq_finish rq (wi_path (wk_item w)) of
        None \<Rightarrow> True
      | Some f \<Rightarrow>
          (case fp_occupancy f of
             Some occupancy \<Rightarrow> \<not> snd occupancy
           | None \<Rightarrow> fp_targets f = [] \<or> fp_blockers f \<noteq> [] \<or> list_ex (\<lambda>t. ft_target_worktree t = None) (fp_targets f)))"

text \<open>What the live workers hold together. Each observed worktree is a claim of each owner.\<close>

record live_env =
  le_claims :: "claim list"
  le_uncertain :: "(string \<times> string option) list"
  le_unknown_finish :: "string list"
  le_attend :: nat
  le_paths :: "string list"
  le_warnings :: "string list"

definition live_environment :: "request \<Rightarrow> work_snapshot \<Rightarrow> worker list \<Rightarrow> live_env" where
  "live_environment rq s ws =
     (let attends = map (\<lambda>w. live_is_attend rq s (wk_item w) (wk_phase w) (wk_key w)) ws;
          occupied = first_seen (concat (map (\<lambda>w. map (\<lambda>p. (p, wi_path (wk_item w))) (live_worktrees rq s w)) ws))
      in \<lparr>le_claims = concat (map (live_affects rq) ws) @ map (\<lambda>(path, owner). worktree_claim owner path) occupied,
          le_uncertain = concat (map (live_uncertain rq) ws),
          le_unknown_finish = first_seen (map (\<lambda>w. wi_path (wk_item w)) (filter (finish_unknown rq) ws)),
          le_attend = length (filter fst attends),
          le_paths = map (\<lambda>w. wi_path (wk_item w)) ws,
          le_warnings = concat (map snd attends)\<rparr>)"

subsection \<open>Emissions\<close>

record worktree_placement =
  wp_path :: string
  wp_branch :: "string option"
  wp_parent_path :: "string option"

record planned_dispatch =
  pd_key :: string
  pd_slug :: string
  pd_phase :: string
  pd_kind :: string
  pd_effort :: "string option"
  pd_skill :: string
  pd_mode :: string
  pd_agent :: string
  pd_model :: "string option"
  pd_reasoning_effort :: "string option"
  pd_worktree :: worktree_placement
  pd_merge_target :: string
  pd_prompt :: string
  pd_auto_merge :: bool

text \<open>A dispatch with what the plan records under its key and the claims it reserves.\<close>

record emission =
  em_dispatch :: planned_dispatch
  em_resolution :: "dispatch_profile \<times> field_origins"
  em_repo :: "item_repo option"
  em_placement :: "placement option"
  em_targets :: "finish_target list"
  em_checkpoints :: "human_checkpoints option"
  em_claims :: "claim list"

definition prompt_of ::
  "prompt_texts \<Rightarrow> string \<Rightarrow> string \<Rightarrow> string \<Rightarrow> string \<Rightarrow> string \<Rightarrow> string option \<Rightarrow> string \<Rightarrow> string \<Rightarrow> string" where
  "prompt_of texts path key phase workspace merge_target tail mode execute_artifact =
     join [CHR 0x0A]
       ([''Run /gw:workflow '' @ path @ ''.'', ''GRAPH_WORKS_DIR='' @ workspace, ''Dispatch key: '' @ key,
         ''Send worker_done when the stage artifact is written and the item advanced.'', findings_line texts]
        @ (if mode \<noteq> ''attend'' then [ask_line texts] else [])
        @ (if truthy tail
           then [foldl (\<lambda>t (placeholder, v). replace_all placeholder v t) (the tail)
                   [(''{path}'', path), (''{key}'', key), (''{phase}'', phase), (''{workspace}'', workspace),
                    (''{merge_target}'', merge_target), (''{execute_artifact}'', execute_artifact)]]
           else [])
        @ [no_sub_dispatch_line texts, worker_placement_line texts])"

text \<open>The dispatch of an accepted candidate, \<open>_emit\<close> and the lines before it.\<close>

definition worktree_of :: "request \<Rightarrow> work_snapshot \<Rightarrow> work_item \<Rightarrow> placement option \<Rightarrow> worktree_placement \<times> string" where
  "worktree_of rq s item placed =
     (case placed of
        Some p \<Rightarrow>
          (\<lparr>wp_path = pl_worktree p, wp_branch = Some (pl_branch p), wp_parent_path = Some (pl_parent_worktree p)\<rparr>,
           pl_parent_branch p)
      | None \<Rightarrow>
          (\<lparr>wp_path = rq_workspace rq, wp_branch = None, wp_parent_path = None\<rparr>,
           case enclosing_owner (by_path s) item of
             Some owner \<Rightarrow> branch_name (rq_sha rq) (wi_path owner) (wi_type owner)
           | None \<Rightarrow> base_of rq (context_of rq item)))"

definition auto_merge_of :: "request \<Rightarrow> work_snapshot \<Rightarrow> string \<Rightarrow> work_item \<Rightarrow> string \<Rightarrow> string \<Rightarrow> bool" where
  "auto_merge_of rq s root item phase mode \<longleftrightarrow>
     phase = ''finish'' \<and> mode = ''relay'' \<and> \<not> rq_supervise rq \<and>
     enclosing_owner (by_path s) item \<noteq> None \<and> wi_path item \<noteq> root"

definition emission_of ::
  "request \<Rightarrow> work_snapshot \<Rightarrow> string \<Rightarrow> work_item \<Rightarrow> route_result \<Rightarrow> string \<Rightarrow> dispatch_profile \<times> field_origins \<Rightarrow>
     placement option \<Rightarrow> finish_target list \<Rightarrow> claim list \<Rightarrow> string \<Rightarrow> emission" where
  "emission_of rq s root item r phase resolution placed targets reserved execute_file =
     (let entry = fst resolution;
          key = session_name (rq_sha rq) (wi_path item) (wi_type item) phase
                  (session_label r (rq_stale rq (wi_path item)));
          (worktree, merge_target) = worktree_of rq s item placed
      in \<lparr>em_dispatch =
            \<lparr>pd_key = key, pd_slug = wi_path item, pd_phase = phase, pd_kind = wi_type item,
             pd_effort = wi_effort item, pd_skill = pf_skill entry, pd_mode = pf_mode entry,
             pd_agent = pf_agent entry, pd_model = pf_model entry, pd_reasoning_effort = pf_effort entry,
             pd_worktree = worktree, pd_merge_target = merge_target,
             pd_prompt = prompt_of (rq_texts rq) (wi_path item) key phase (rq_workspace rq) merge_target
                           (pf_tail entry) (pf_mode entry) execute_file,
             pd_auto_merge = auto_merge_of rq s root item phase (pf_mode entry)\<rparr>,
          em_resolution = resolution, em_repo = repo_of rq item, em_placement = placed, em_targets = targets,
          em_checkpoints = (if phase = ''execute'' then rq_checkpoints rq (wi_path item) else None),
          em_claims = first_seen (reserved
            @ (case placed of None \<Rightarrow> [] | Some p \<Rightarrow> [worktree_claim (wi_path item) (pl_worktree p)]))\<rparr>)"

subsection \<open>Gates\<close>

text \<open>The first gate that refuses, in the order of the code.\<close>

fun first_refusal :: "blocked_item option list \<Rightarrow> blocked_item option" where
  "first_refusal [] = None"
| "first_refusal (g # gs) = (case g of None \<Rightarrow> first_refusal gs | Some b \<Rightarrow> Some b)"

definition refuse_if :: "bool \<Rightarrow> string \<Rightarrow> string \<Rightarrow> string \<Rightarrow> blocked_item option" where
  "refuse_if cond path kind reason = (if cond then Some (blocked_as path kind reason) else None)"

definition accepted_claims :: "emission list \<Rightarrow> claim list" where
  "accepted_claims ems = concat (map em_claims ems)"

definition sorted_set :: "string list \<Rightarrow> string list" where
  "sorted_set xs = sort (first_seen xs)"

definition candidate_targets :: "request \<Rightarrow> work_item \<Rightarrow> finish_target list" where
  "candidate_targets rq item = (case rq_finish rq (wi_path item) of None \<Rightarrow> [] | Some f \<Rightarrow> fp_targets f)"

definition target_claims :: "request \<Rightarrow> work_item \<Rightarrow> claim list" where
  "target_claims rq item =
     concat (map (\<lambda>t. map (worktree_claim (wi_path item)) (finish_worktrees t)) (candidate_targets rq item))"

definition candidate_phase :: "work_item \<Rightarrow> route_result \<Rightarrow> stage \<Rightarrow> string" where
  "candidate_phase item r stage =
     (let p = py_or (wi_phase item) (Option.bind (rr_on_dispatch r) tr_phase)
      in if truthy p then the p else stage_str stage)"

text \<open>The identities of a candidate: its repository and those of its targets, by usable checkout.\<close>

definition candidate_identities :: "request \<Rightarrow> work_item \<Rightarrow> string list" where
  "candidate_identities rq item =
     identity_of (context_of rq item)
     # map (\<lambda>t. case find (\<lambda>c. repo_path_str (ft_repo t) \<in> set (rc_checkouts c)) (rq_contexts rq) of
                None \<Rightarrow> repo_path_str (ft_repo t) | Some c \<Rightarrow> rc_identity c) (candidate_targets rq item)"

definition candidate_claims :: "request \<Rightarrow> work_item \<Rightarrow> string \<Rightarrow> claim list" where
  "candidate_claims rq item phase =
     first_seen (concat (map (\<lambda>ident. claims_for (wi_path item) phase ident (wi_affects item))
       (candidate_identities rq item)))"

text \<open>The gates before the stage is known: repository refusal, finish blockers, targets in use,
  missing evidence.\<close>

definition evidence_refusal :: "request \<Rightarrow> claim list \<Rightarrow> work_item \<Rightarrow> blocked_item option" where
  "evidence_refusal rq taken item =
     (let path = wi_path item; held = first_conflicts (target_claims rq item) taken
      in first_refusal
           [rq_refusals rq path,
            (case rq_finish rq path of
               None \<Rightarrow> None
             | Some f \<Rightarrow> refuse_if (fp_blockers f \<noteq> []) path ''worktree-unprovable'' (join ''; '' (fp_blockers f))),
            refuse_if (held \<noteq> []) path ''worktree-pending''
              (''a finish target is occupied by another worker: ''
               @ join ''; '' (sorted_set (map (\<lambda>(mine, theirs). scope_label (cl_scope mine) @ '' held by '' @ cl_owner theirs) held))),
            refuse_if
              (rq_repos rq \<noteq> None \<and>
               (case repo_of rq item of
                  None \<Rightarrow> True | Some repo \<Rightarrow> ir_path repo \<noteq> None \<and> context_of rq item = None))
              path ''invalid'' ''repository evidence unavailable for this item''])"

text \<open>The gates on what the candidate's stage would reserve.\<close>

definition claims_refusal :: "request \<Rightarrow> live_env \<Rightarrow> claim list \<Rightarrow> work_item \<Rightarrow> string \<Rightarrow> blocked_item option" where
  "claims_refusal rq env taken item phase =
     (let path = wi_path item; held = first_conflicts (candidate_claims rq item phase) taken
      in first_refusal
           [refuse_if
              (phase \<in> set CODE_WRITE_PHASES \<and>
               list_ex (\<lambda>member. list_ex (\<lambda>(owner, held_member). owner \<noteq> path \<and> paths_overlap member held_member)
                  (le_uncertain env)) (uncertain_members (wi_affects item)))
              path ''worktree-unprovable'' (''live item'' @ [CHR 0x27] @ ''s repository is unavailable for affects check''),
            refuse_if (held \<noteq> []) path ''affects-overlap''
              (''affects overlap with a live or already-planned dispatch: ''
               @ join ''; '' (sorted_set (map (\<lambda>(mine, theirs). scope_label (cl_scope mine) @ '' (held by ''
                   @ cl_owner theirs @ '' as '' @ scope_label (cl_scope theirs) @ '')'') held))),
            refuse_if (le_unknown_finish env \<noteq> [] \<and> phase \<notin> set READ_ONLY_PHASES)
              path ''worktree-unprovable''
              (''live finish target occupancy is unavailable for: '' @ join '', '' (sort (le_unknown_finish env)))])"

definition attend_count :: "emission list \<Rightarrow> nat" where
  "attend_count ems = length (filter (\<lambda>e. pd_mode (em_dispatch e) = ''attend'') ems)"

definition worker_count :: "emission list \<Rightarrow> nat" where
  "worker_count ems = length (filter (\<lambda>e. pd_mode (em_dispatch e) \<noteq> ''attend'') ems)"

definition slots_free :: "request \<Rightarrow> live_env \<Rightarrow> int" where
  "slots_free rq env = max 0 (rq_max_parallel rq - (int (length (le_paths env)) - int (le_attend env)))"

definition attend_slots_free :: "request \<Rightarrow> live_env \<Rightarrow> int" where
  "attend_slots_free rq env = max 0 (rq_max_attend rq - int (le_attend env))"

definition capacity_refusal ::
  "request \<Rightarrow> live_env \<Rightarrow> emission list \<Rightarrow> string \<Rightarrow> string \<Rightarrow> blocked_item option" where
  "capacity_refusal rq env ems path mode =
     (if mode = ''attend''
      then refuse_if (attend_slots_free rq env \<le> int (attend_count ems)) path ''capacity''
             (''ready, but no attend slot free ('' @ nat_str (le_attend env) @ '' live + ''
              @ nat_str (attend_count ems) @ '' planned of max_attend='' @ int_str (rq_max_attend rq) @ '')'')
      else refuse_if (slots_free rq env \<le> int (worker_count ems)) path ''capacity''
             ''ready, but no worker slot free'')"

text \<open>The placement chain of a candidate with a code repository. Of two steps in one worktree
  the later names the claim.\<close>

definition chain_of :: "request \<Rightarrow> work_snapshot \<Rightarrow> work_item \<Rightarrow> placement list" where
  "chain_of rq s item =
     (case code_repository rq item of
        None \<Rightarrow> []
      | Some repo \<Rightarrow>
          compute_chain (rq_sha rq) (by_path s) (rq_worktrees_dir rq) (base_of rq (context_of rq item)) repo item)"

definition chain_claims :: "string \<Rightarrow> placement list \<Rightarrow> claim list" where
  "chain_claims path steps = first_seen (map (\<lambda>p. worktree_claim path (pl_worktree p)) steps)"

definition step_path :: "placement list \<Rightarrow> claim \<Rightarrow> string" where
  "step_path steps mine =
     (case find (\<lambda>p. WorktreeScope (pl_worktree p) = cl_scope mine) (rev steps) of None \<Rightarrow> [] | Some p \<Rightarrow> pl_path p)"

definition chain_refusal :: "claim list \<Rightarrow> string \<Rightarrow> placement list \<Rightarrow> blocked_item option" where
  "chain_refusal taken path steps =
     (let held = first_conflicts (chain_claims path steps) taken
      in refuse_if (held \<noteq> []) path ''worktree-pending''
           (''a worktree in this item'' @ [CHR 0x27] @ ''s placement chain is occupied by another worker: ''
            @ join ''; '' (sorted_set (map (\<lambda>(mine, theirs). step_path steps mine @ '' ('' @ scope_label (cl_scope mine)
                @ '') held by '' @ cl_owner theirs) held))))"

subsection \<open>Admission\<close>

definition profile_refusal :: "string \<Rightarrow> stage \<Rightarrow> string \<Rightarrow> string \<Rightarrow> blocked_item" where
  "profile_refusal path stage kind message =
     blocked_as path kind (''dispatch rules for stage '' @ repr (stage_str stage) @ '': '' @ message
       @ ''; check the shared/local dispatch file'')"

text \<open>One turn of the acceptance loop: a refusal or an emission.\<close>

definition admit_resolved ::
  "request \<Rightarrow> work_snapshot \<Rightarrow> string \<Rightarrow> live_env \<Rightarrow> emission list \<Rightarrow> work_item \<Rightarrow> route_result \<Rightarrow> string \<Rightarrow>
     dispatch_profile \<times> field_origins \<Rightarrow> plan_error + (blocked_item + emission)" where
  "admit_resolved rq s root env ems item r phase resolution =
     (let path = wi_path item; taken = le_claims env @ accepted_claims ems; steps = chain_of rq s item
      in case first_refusal [capacity_refusal rq env ems path (pf_mode (fst resolution)), chain_refusal taken path steps] of
           Some b \<Rightarrow> Inr (Inl b)
         | None \<Rightarrow>
             case map_of (artifacts (rq_definition rq)) Execute of
               None \<Rightarrow> Inl (Raised (KeyError ''execute''))
             | Some artifact \<Rightarrow>
                 Inr (Inr (emission_of rq s root item r phase resolution
                   (if steps = [] then None else Some (last steps)) (candidate_targets rq item)
                   (candidate_claims rq item phase @ target_claims rq item) (art_file artifact))))"

definition admit ::
  "request \<Rightarrow> work_snapshot \<Rightarrow> string \<Rightarrow> live_env \<Rightarrow> emission list \<Rightarrow> work_item \<times> route_result \<Rightarrow>
     plan_error + (blocked_item + emission)" where
  "admit rq s root env ems candidate =
     (let (item, r) = candidate; path = wi_path item; taken = le_claims env @ accepted_claims ems
      in case evidence_refusal rq taken item of
           Some b \<Rightarrow> Inr (Inl b)
         | None \<Rightarrow>
             case rr_dispatch r of
               None \<Rightarrow> Inl (Raised (AssertionError ''every candidate carries a dispatch (see _frontier)''))
             | Some stage \<Rightarrow>
                 case claims_refusal rq env taken item (candidate_phase item r stage) of
                   Some b \<Rightarrow> Inr (Inl b)
                 | None \<Rightarrow>
                     case state_for s path None (rq_holds rq path) (rq_stale rq path) of
                       None \<Rightarrow> Inl (Raised (AssertionError []))
                     | Some st \<Rightarrow>
                         case resolve_dispatch (rq_tails rq) (rq_rules rq) (dispatch_attributes st stage) of
                           Inl (No_Packaged_Rule m) \<Rightarrow> Inl (Unresolved m)
                         | Inl (Profile_Error kind m) \<Rightarrow> Inr (Inl (profile_refusal path stage kind m))
                         | Inr resolution \<Rightarrow>
                             admit_resolved rq s root env ems item r (candidate_phase item r stage) resolution)"

fun admit_all ::
  "request \<Rightarrow> work_snapshot \<Rightarrow> string \<Rightarrow> live_env \<Rightarrow> emission list \<Rightarrow> blocked_item list \<Rightarrow>
     (work_item \<times> route_result) list \<Rightarrow> plan_error + emission list \<times> blocked_item list" where
  "admit_all rq s root env ems refused [] = Inr (ems, refused)"
| "admit_all rq s root env ems refused (c # cs) =
     (if wi_path (fst c) \<in> set (le_paths env) then admit_all rq s root env ems refused cs
      else bind_res (admit rq s root env ems c) (\<lambda>verdict.
        case verdict of
          Inl b \<Rightarrow> admit_all rq s root env ems (refused @ [b]) cs
        | Inr e \<Rightarrow> admit_all rq s root env (ems @ [e]) refused cs))"

subsection \<open>The plan\<close>

record orchestrate_plan =
  op_path :: string
  op_terminal :: bool
  op_max_parallel :: int
  op_supervise :: bool
  op_live :: "string list"
  op_slots_free :: int
  op_dispatches :: "planned_dispatch list"
  op_advances :: "planned_advance list"
  op_blocked :: "blocked_item list"
  op_warnings :: "string list"
  op_resolutions :: "(string \<times> dispatch_profile \<times> field_origins) list"
  op_repos :: "(string \<times> item_repo) list"
  op_placements :: "(string \<times> placement) list"
  op_finish_targets :: "(string \<times> finish_target list) list"
  op_checkpoints :: "(string \<times> human_checkpoints) list"
  op_max_attend :: int
  op_attend_slots_free :: int

text \<open>A dictionary filled under the dispatch keys, in emission order.\<close>

definition keyed :: "(emission \<Rightarrow> 'v option) \<Rightarrow> emission list \<Rightarrow> (string \<times> 'v) list" where
  "keyed f ems =
     foldl (\<lambda>d e. case f e of None \<Rightarrow> d | Some v \<Rightarrow> AList.update (pd_key (em_dispatch e)) v d) [] ems"

definition terminal_plan :: "request \<Rightarrow> string \<Rightarrow> string list \<Rightarrow> orchestrate_plan" where
  "terminal_plan rq root warnings =
     \<lparr>op_path = root, op_terminal = True, op_max_parallel = rq_max_parallel rq, op_supervise = rq_supervise rq,
      op_live = rq_live rq, op_slots_free = 0, op_dispatches = [], op_advances = [], op_blocked = [],
      op_warnings = warnings, op_resolutions = [], op_repos = [], op_placements = [], op_finish_targets = [],
      op_checkpoints = [], op_max_attend = rq_max_attend rq, op_attend_slots_free = 0\<rparr>"

definition open_plan ::
  "request \<Rightarrow> string \<Rightarrow> string list \<Rightarrow> live_env \<Rightarrow> frontier \<Rightarrow> emission list \<times> blocked_item list \<Rightarrow> orchestrate_plan" where
  "open_plan rq root warnings env front admitted =
     (let (ems, refused) = admitted
      in \<lparr>op_path = root, op_terminal = False, op_max_parallel = rq_max_parallel rq, op_supervise = rq_supervise rq,
          op_live = rq_live rq, op_slots_free = slots_free rq env, op_dispatches = map em_dispatch ems,
          op_advances = fr_advances front, op_blocked = fr_blocked front @ refused,
          op_warnings = warnings @ le_warnings env,
          op_resolutions = keyed (Some \<circ> em_resolution) ems, op_repos = keyed em_repo ems,
          op_placements = keyed em_placement ems, op_finish_targets = keyed (Some \<circ> em_targets) ems,
          op_checkpoints = keyed em_checkpoints ems, op_max_attend = rq_max_attend rq,
          op_attend_slots_free = attend_slots_free rq env\<rparr>)"

definition unknown_live :: "(string \<times> work_item) list \<Rightarrow> string list \<Rightarrow> string list" where
  "unknown_live sessions keys = first_seen (filter (\<lambda>key. map_of sessions key = None) keys)"

text \<open>The run up to the plan record: the live environment, the frontier and the admissions.\<close>

definition run_admission ::
  "request \<Rightarrow> work_snapshot \<Rightarrow> string \<Rightarrow> (string \<times> work_item) list \<Rightarrow>
     plan_error + live_env \<times> frontier \<times> emission list \<times> blocked_item list" where
  "run_admission rq s root sessions =
     bind_res (raised (frontier_of s root (rq_definition rq) (rq_holds rq) (rq_stale rq))) (\<lambda>front.
     bind_res (raised (map_res (live_worker rq sessions) (rq_live rq))) (\<lambda>ws.
     let env = live_environment rq s ws
     in bind_res (admit_all rq s root env [] [] (admission_order (fr_candidates front) (dependent_counts (snap_items s) root)))
          (\<lambda>admitted. Inr (env, front, admitted))))"

definition orchestrate :: "request \<Rightarrow> work_snapshot \<Rightarrow> string \<Rightarrow> plan_error + orchestrate_plan" where
  "orchestrate rq s root =
     (let (sessions, warnings) = session_index (rq_sha rq) (snap_items s);
          strays = unknown_live sessions (rq_live rq)
      in if strays \<noteq> []
         then Inl (Raised (ValueError (''unknown live dispatch key(s): '' @ join '', '' strays
           @ ''; use exact dispatch keys emitted by orchestrate''
           @ (if warnings = [] then [] else ''; '' @ join ''; '' warnings))))
         else if (case item_at s root of
                    None \<Rightarrow> False | Some item \<Rightarrow> terminal_item item \<or> wi_phase item = Some ''done'')
         then Inr (terminal_plan rq root warnings)
         else bind_res (run_admission rq s root sessions) (\<lambda>(env, front, admitted).
                Inr (open_plan rq root warnings env front admitted)))"

subsection \<open>Accepted candidates\<close>

lemma first_refusal_None: "first_refusal gs = None \<longleftrightarrow> (\<forall>g \<in> set gs. g = None)"
  by (induction gs) (auto split: option.splits)

lemma refuse_if_None [simp]: "refuse_if c path kind reason = None \<longleftrightarrow> \<not> c"
  by (simp add: refuse_if_def)

lemma bi_path_refuse_if: "refuse_if c path kind reason = Some b \<Longrightarrow> bi_path b = path"
  by (auto simp: refuse_if_def blocked_as_def split: if_splits)

lemma first_refusal_Some: "first_refusal gs = Some b \<Longrightarrow> Some b \<in> set gs"
  by (induction gs) (auto split: option.splits)

declare first_refusal.simps [simp del]

lemma bind_raised [simp]: "raised (Inr x) = Inr x" "raised (Inl e) = Inl (Raised e)"
  by (simp_all add: raised_def)

lemma raised_Inr: "raised r = Inr x \<longleftrightarrow> r = Inr x"
  by (auto simp: raised_def split: sum.splits)

text \<open>An emission passed every gate.\<close>

lemma admit_emitted:
  assumes "admit rq s root env ems (item, r) = Inr (Inr e)"
  obtains stage st resolution fname where
    "evidence_refusal rq (le_claims env @ accepted_claims ems) item = None" "rr_dispatch r = Some stage"
    "claims_refusal rq env (le_claims env @ accepted_claims ems) item (candidate_phase item r stage) = None"
    "state_for s (wi_path item) None (rq_holds rq (wi_path item)) (rq_stale rq (wi_path item)) = Some st"
    "resolve_dispatch (rq_tails rq) (rq_rules rq) (dispatch_attributes st stage) = Inr resolution"
    "capacity_refusal rq env ems (wi_path item) (pf_mode (fst resolution)) = None"
    "chain_refusal (le_claims env @ accepted_claims ems) (wi_path item) (chain_of rq s item) = None"
    "e = emission_of rq s root item r (candidate_phase item r stage) resolution
       (if chain_of rq s item = [] then None else Some (last (chain_of rq s item))) (candidate_targets rq item)
       (candidate_claims rq item (candidate_phase item r stage) @ target_claims rq item) fname"
proof -
  from assms obtain stage st resolution where
    1: "evidence_refusal rq (le_claims env @ accepted_claims ems) item = None" "rr_dispatch r = Some stage"
    "claims_refusal rq env (le_claims env @ accepted_claims ems) item (candidate_phase item r stage) = None"
    "state_for s (wi_path item) None (rq_holds rq (wi_path item)) (rq_stale rq (wi_path item)) = Some st"
    "resolve_dispatch (rq_tails rq) (rq_rules rq) (dispatch_attributes st stage) = Inr resolution"
    and resolved: "admit_resolved rq s root env ems item r (candidate_phase item r stage) resolution = Inr (Inr e)"
    by (auto simp: admit_def Let_def split: option.splits sum.splits profile_error.splits)
  from resolved obtain artifact where "map_of (artifacts (rq_definition rq)) Execute = Some artifact"
    by (auto simp: admit_resolved_def Let_def split: option.splits)
  with resolved show ?thesis
    by (intro that [OF 1, where fname = "art_file artifact"])
      (auto simp: admit_resolved_def Let_def first_refusal_None split: option.splits split del: if_split)
qed

lemma admit_all_induct:
  assumes "admit_all rq s root env ems refused cs = Inr (ems', refused')" and "I ems"
    and "\<And>ems e c. I ems \<Longrightarrow> c \<in> set cs \<Longrightarrow> wi_path (fst c) \<notin> set (le_paths env) \<Longrightarrow>
      admit rq s root env ems c = Inr (Inr e) \<Longrightarrow> I (ems @ [e])"
  shows "I ems'"
  using assms
proof (induction cs arbitrary: ems refused)
  case Nil
  then show ?case by simp
next
  case (Cons c cs)
  show ?case
  proof (cases "wi_path (fst c) \<in> set (le_paths env)")
    case True
    with Cons.prems(1) have rest: "admit_all rq s root env ems refused cs = Inr (ems', refused')" by simp
    show ?thesis by (rule Cons.IH [OF rest Cons.prems(2)]) (use Cons.prems(3) in auto)
  next
    case new: False
    with Cons.prems(1) obtain verdict where verdict: "admit rq s root env ems c = Inr verdict"
      and rest: "(case verdict of Inl b \<Rightarrow> admit_all rq s root env ems (refused @ [b]) cs
        | Inr e \<Rightarrow> admit_all rq s root env (ems @ [e]) refused cs) = Inr (ems', refused')"
      by (auto simp: bind_res_eq_Inr)
    show ?thesis
    proof (cases verdict)
      case (Inl b)
      with rest have "admit_all rq s root env ems (refused @ [b]) cs = Inr (ems', refused')" by simp
      from Cons.IH [OF this Cons.prems(2)] Cons.prems(3) show ?thesis by auto
    next
      case (Inr e)
      with rest have rest: "admit_all rq s root env (ems @ [e]) refused cs = Inr (ems', refused')" by simp
      from Cons.prems(3) [OF Cons.prems(2) _ new] verdict Inr have "I (ems @ [e])" by simp
      from Cons.IH [OF rest this] Cons.prems(3) show ?thesis by auto
    qed
  qed
qed

subsection \<open>Reservations\<close>

lemma emission_claims:
  "em_claims (emission_of rq s root item r phase resolution placed targets reserved file) =
     first_seen (reserved @ (case placed of None \<Rightarrow> [] | Some p \<Rightarrow> [worktree_claim (wi_path item) (pl_worktree p)]))"
  "em_placement (emission_of rq s root item r phase resolution placed targets reserved file) = placed"
  "pd_slug (em_dispatch (emission_of rq s root item r phase resolution placed targets reserved file)) = wi_path item"
  "pd_phase (em_dispatch (emission_of rq s root item r phase resolution placed targets reserved file)) = phase"
  "pd_mode (em_dispatch (emission_of rq s root item r phase resolution placed targets reserved file)) = pf_mode (fst resolution)"
  by (simp_all add: emission_of_def Let_def split: prod.splits)

lemma chain_claims_last:
  "steps \<noteq> [] \<Longrightarrow> worktree_claim path (pl_worktree (last steps)) \<in> set (chain_claims path steps)"
  by (simp add: chain_claims_def)

definition unconflicted :: "claim list \<Rightarrow> claim list \<Rightarrow> bool" where
  "unconflicted new held \<longleftrightarrow> (\<forall>a \<in> set new. \<forall>b \<in> set held. \<not> conflicts a b)"

lemma admit_unconflicted:
  assumes "admit rq s root env ems (item, r) = Inr (Inr e)"
  shows "unconflicted (em_claims e) (le_claims env @ accepted_claims ems)"
proof -
  let ?taken = "le_claims env @ accepted_claims ems" and ?steps = "chain_of rq s item"
  from assms show ?thesis
  proof (rule admit_emitted)
    fix stage st resolution fname
    let ?phase = "candidate_phase item r stage"
    assume gates: "evidence_refusal rq ?taken item = None" "claims_refusal rq env ?taken item ?phase = None"
      "chain_refusal ?taken (wi_path item) ?steps = None"
      and e: "e = emission_of rq s root item r ?phase resolution (if ?steps = [] then None else Some (last ?steps))
        (candidate_targets rq item) (candidate_claims rq item ?phase @ target_claims rq item) fname"
    from gates(1) have targets: "unconflicted (target_claims rq item) ?taken"
      by (simp add: evidence_refusal_def Let_def first_refusal_None first_conflicts_Nil unconflicted_def)
    from gates(2) have affects: "unconflicted (candidate_claims rq item ?phase) ?taken"
      by (simp add: claims_refusal_def Let_def first_refusal_None first_conflicts_Nil unconflicted_def)
    from gates(3) have steps: "unconflicted (chain_claims (wi_path item) ?steps) ?taken"
      by (simp add: chain_refusal_def Let_def first_conflicts_Nil unconflicted_def)
    have "set (em_claims e) \<subseteq> set (candidate_claims rq item ?phase) \<union> set (target_claims rq item)
        \<union> set (chain_claims (wi_path item) ?steps)"
      using chain_claims_last [of ?steps "wi_path item"] by (auto simp: e emission_claims split: if_splits)
    with targets affects steps show ?thesis unfolding unconflicted_def by blast
  qed
qed

definition reserved_apart :: "live_env \<Rightarrow> emission list \<Rightarrow> bool" where
  "reserved_apart env ems \<longleftrightarrow>
     (\<forall>e \<in> set ems. unconflicted (em_claims e) (le_claims env)) \<and>
     sorted_wrt (\<lambda>e e'. unconflicted (em_claims e') (em_claims e)) ems"

lemma reserved_apart_snoc:
  assumes "reserved_apart env ems" and "unconflicted (em_claims e) (le_claims env @ accepted_claims ems)"
  shows "reserved_apart env (ems @ [e])"
  using assms by (simp add: reserved_apart_def sorted_wrt_append) (force simp: unconflicted_def accepted_claims_def)

lemma admitted_apart:
  assumes "admit_all rq s root env [] [] cs = Inr (ems, refused)"
  shows "reserved_apart env ems"
  using assms
proof (rule admit_all_induct)
  show "reserved_apart env []" by (simp add: reserved_apart_def)
next
  fix ems e c
  assume "reserved_apart env ems" "admit rq s root env ems c = Inr (Inr e)"
  then show "reserved_apart env (ems @ [e])"
    by (cases c) (auto intro: reserved_apart_snoc dest: admit_unconflicted)
qed

subsection \<open>Capacity\<close>

lemma counts_snoc:
  "attend_count (ems @ [e]) = attend_count ems + (if pd_mode (em_dispatch e) = ''attend'' then 1 else 0)"
  "worker_count (ems @ [e]) = worker_count ems + (if pd_mode (em_dispatch e) = ''attend'' then 0 else 1)"
  by (simp_all add: attend_count_def worker_count_def)

lemma admit_capacity:
  assumes "admit rq s root env ems (item, r) = Inr (Inr e)"
  shows "if pd_mode (em_dispatch e) = ''attend'' then int (attend_count ems) < attend_slots_free rq env
    else int (worker_count ems) < slots_free rq env"
  using assms by (rule admit_emitted) (auto simp: emission_claims capacity_refusal_def split: if_splits)

lemma admitted_capacity:
  assumes "admit_all rq s root env [] [] cs = Inr (ems, refused)"
  shows "int (attend_count ems) \<le> attend_slots_free rq env \<and> int (worker_count ems) \<le> slots_free rq env"
  using assms
proof (rule admit_all_induct)
  show "int (attend_count []) \<le> attend_slots_free rq env \<and> int (worker_count []) \<le> slots_free rq env"
    by (simp add: attend_count_def worker_count_def attend_slots_free_def slots_free_def)
next
  fix ems e c
  assume "int (attend_count ems) \<le> attend_slots_free rq env \<and> int (worker_count ems) \<le> slots_free rq env"
    and "admit rq s root env ems c = Inr (Inr e)"
  then show "int (attend_count (ems @ [e])) \<le> attend_slots_free rq env \<and> int (worker_count (ems @ [e])) \<le> slots_free rq env"
    using admit_capacity [of rq s root env ems "fst c" "snd c" e] by (simp add: counts_snoc split: if_splits)
qed

subsection \<open>Accounting\<close>

text \<open>Each candidate that is not live is dispatched or refused, once, in order.\<close>

definition own_refusals :: "request \<Rightarrow> bool" where
  "own_refusals rq \<longleftrightarrow> (\<forall>path b. rq_refusals rq path = Some b \<longrightarrow> bi_path b = path)"

lemma evidence_refusal_path:
  "own_refusals rq \<Longrightarrow> evidence_refusal rq taken item = Some b \<Longrightarrow> bi_path b = wi_path item"
  unfolding evidence_refusal_def Let_def
  by (drule first_refusal_Some) (auto simp: own_refusals_def dest: sym split: option.splits dest: bi_path_refuse_if)

lemma claims_refusal_path: "claims_refusal rq env taken item phase = Some b \<Longrightarrow> bi_path b = wi_path item"
  unfolding claims_refusal_def Let_def
  by (drule first_refusal_Some) (auto dest!: bi_path_refuse_if [OF sym])

lemma pool_refusal_path:
  "first_refusal [capacity_refusal rq env ems path mode, chain_refusal taken path steps] = Some b \<Longrightarrow> bi_path b = path"
  by (drule first_refusal_Some)
    (auto simp: capacity_refusal_def chain_refusal_def Let_def split: if_splits dest!: bi_path_refuse_if [OF sym])

lemma profile_refusal_path [simp]: "bi_path (profile_refusal path stage kind m) = path"
  by (simp add: profile_refusal_def blocked_as_def)

lemma admit_path:
  assumes "own_refusals rq" and "admit rq s root env ems c = Inr verdict"
  shows "(case verdict of Inl b \<Rightarrow> bi_path b | Inr e \<Rightarrow> pd_slug (em_dispatch e)) = wi_path (fst c)"
proof -
  obtain item r where c: "c = (item, r)" by (cases c)
  show ?thesis
  proof (cases verdict)
    case (Inl b)
    with assms show ?thesis
      by (auto simp: c admit_def admit_resolved_def Let_def split: option.splits sum.splits profile_error.splits
          dest: evidence_refusal_path claims_refusal_path pool_refusal_path)
  next
    case (Inr e)
    with assms(2) [unfolded c] have "admit rq s root env ems (item, r) = Inr (Inr e)" by simp
    then show ?thesis by (rule admit_emitted) (simp add: emission_claims c Inr)
  qed
qed

lemma admitted_account:
  assumes "own_refusals rq" and "admit_all rq s root env ems refused cs = Inr (ems', refused')"
  shows "\<exists>taken left new bs. filter (\<lambda>c. wi_path (fst c) \<notin> set (le_paths env)) cs \<in> shuffles taken left \<and>
    ems' = ems @ new \<and> refused' = refused @ bs \<and>
    map (pd_slug \<circ> em_dispatch) new = map (wi_path \<circ> fst) taken \<and> map bi_path bs = map (wi_path \<circ> fst) left"
  using assms(2)
proof (induction cs arbitrary: ems refused)
  case Nil
  then show ?case by auto
next
  case (Cons c cs)
  show ?case
  proof (cases "wi_path (fst c) \<in> set (le_paths env)")
    case True
    with Cons show ?thesis by simp
  next
    case new: False
    with Cons.prems obtain verdict where verdict: "admit rq s root env ems c = Inr verdict"
      and rest: "(case verdict of Inl b \<Rightarrow> admit_all rq s root env ems (refused @ [b]) cs
        | Inr e \<Rightarrow> admit_all rq s root env (ems @ [e]) refused cs) = Inr (ems', refused')"
      by (auto simp: bind_res_eq_Inr)
    note path = admit_path [OF assms(1) verdict]
    show ?thesis
    proof (cases verdict)
      case (Inl b)
      with rest have "admit_all rq s root env ems (refused @ [b]) cs = Inr (ems', refused')" by simp
      from Cons.IH [OF this] obtain taken left fresh bs where
        "filter (\<lambda>c. wi_path (fst c) \<notin> set (le_paths env)) cs \<in> shuffles taken left"
        "ems' = ems @ fresh" "refused' = (refused @ [b]) @ bs"
        "map (pd_slug \<circ> em_dispatch) fresh = map (wi_path \<circ> fst) taken" "map bi_path bs = map (wi_path \<circ> fst) left"
        by blast
      with path Inl new show ?thesis
        by - (rule exI [of _ taken], rule exI [of _ "c # left"], rule exI [of _ fresh], rule exI [of _ "b # bs"],
              simp add: Cons_in_shuffles_rightI comp_def)
    next
      case (Inr e)
      with rest have "admit_all rq s root env (ems @ [e]) refused cs = Inr (ems', refused')" by simp
      from Cons.IH [OF this] obtain taken left fresh bs where
        "filter (\<lambda>c. wi_path (fst c) \<notin> set (le_paths env)) cs \<in> shuffles taken left"
        "ems' = (ems @ [e]) @ fresh" "refused' = refused @ bs"
        "map (pd_slug \<circ> em_dispatch) fresh = map (wi_path \<circ> fst) taken" "map bi_path bs = map (wi_path \<circ> fst) left"
        by blast
      with path Inr new show ?thesis
        by - (rule exI [of _ "c # taken"], rule exI [of _ left], rule exI [of _ "e # fresh"], rule exI [of _ bs],
              simp add: Cons_in_shuffles_leftI comp_def)
    qed
  qed
qed

end
