(* ===== verification/Runs.thy ===== *)
theory Runs
  imports Orchestrate "HOL-Library.Sublist"
begin

text \<open>
  What a dispatch plan promises: it fails only on an unknown live key, its dispatches are
  ready items that nothing else holds, its reservations never clash, the two pools are never
  overdrawn, and each candidate is accounted for.
\<close>

subsection \<open>Live keys\<close>

definition good_sessions :: "(string \<Rightarrow> string) \<Rightarrow> work_item list \<Rightarrow> (string \<times> work_item) list \<Rightarrow> bool" where
  "good_sessions sha items index \<longleftrightarrow>
     (\<forall>n i. map_of index n = Some i \<longrightarrow> i \<in> set items \<and> n \<in> set (item_sessions sha i))"

lemma index_session_good:
  assumes "good_sessions sha items index" and "i \<in> set items" and "n \<in> set (item_sessions sha i)"
  shows "good_sessions sha items (fst (index_session (index, collisions) (n, i)))"
  using assms
  by (auto simp: index_session_def Let_def good_sessions_def update_conv' split: option.splits)

lemma fold_sessions_good:
  assumes "good_sessions sha items index" and "\<And>n i. (n, i) \<in> set es \<Longrightarrow> i \<in> set items \<and> n \<in> set (item_sessions sha i)"
  shows "good_sessions sha items (fst (foldl index_session (index, collisions) es))"
  using assms
proof (induction es arbitrary: index collisions)
  case Nil
  then show ?case by simp
next
  case (Cons e es)
  obtain n i where e: "e = (n, i)" by (cases e)
  obtain index' collisions' where step: "index_session (index, collisions) e = (index', collisions')"
    by (cases "index_session (index, collisions) e")
  from index_session_good [OF Cons.prems(1), of i n collisions] Cons.prems(2) [of n i] e step
  have "good_sessions sha items index'" by simp
  then have "good_sessions sha items (fst (foldl index_session (index', collisions') es))"
    by (rule Cons.IH) (rule Cons.prems(2), simp)
  then show ?case by (simp add: step)
qed

lemma map_of_filter_keys: "map_of (filter (\<lambda>(n, _). P n) kvs) k = (if P k then map_of kvs k else None)"
  by (induction kvs) auto

lemma session_index_good: "good_sessions sha items (fst (session_index sha items))"
proof -
  let ?es = "concat (map (\<lambda>item. map (\<lambda>n. (n, item)) (item_sessions sha item)) items)"
  have "good_sessions sha items (fst (foldl index_session ([], []) ?es))"
    by (rule fold_sessions_good) (auto simp: good_sessions_def)
  then show ?thesis
    by (auto simp: session_index_def good_sessions_def map_of_filter_keys split: prod.splits if_splits)
qed

lemma live_phase_known:
  assumes "key \<in> set (item_sessions sha item)"
  shows "live_phase sha item key \<noteq> None"
proof
  assume none: "live_phase sha item key = None"
  then have "find (\<lambda>phase. session_name sha (wi_path item) (wi_type item) phase None = key) DISPATCH_PHASES = None"
    "find (\<lambda>(label, phase). session_name sha (wi_path item) (wi_type item) phase (Some label) = key) SESSION_LABELS = None"
    by (simp_all add: live_phase_def split: option.splits del: code_write_phases)
  with assms show False by (auto simp: item_sessions_def find_None_iff simp del: code_write_phases)
qed

lemma live_worker_total:
  assumes "map_of (fst (session_index (rq_sha rq) items)) key = Some item"
  shows "\<exists>phase. live_worker rq (fst (session_index (rq_sha rq) items)) key =
    Inr \<lparr>wk_key = key, wk_item = item, wk_phase = phase\<rparr>"
proof -
  from assms session_index_good have "key \<in> set (item_sessions (rq_sha rq) item)"
    by (auto simp: good_sessions_def)
  from live_phase_known [OF this] assms show ?thesis by (auto simp: live_worker_def)
qed

text \<open>The paths the live keys name.\<close>

definition live_item_paths :: "(string \<times> work_item) list \<Rightarrow> string list \<Rightarrow> string list" where
  "live_item_paths sessions keys = List.map_filter (\<lambda>key. map_option wi_path (map_of sessions key)) keys"

lemma live_worker_item:
  "live_worker rq sessions key = Inr w \<Longrightarrow> map_of sessions key = Some (wk_item w)"
  by (auto simp: live_worker_def split: option.splits)

lemma live_paths_of_workers:
  "map_res (live_worker rq sessions) keys = Inr ws \<Longrightarrow>
   map (\<lambda>w. wi_path (wk_item w)) ws = live_item_paths sessions keys"
proof (induction keys arbitrary: ws)
  case Nil
  then show ?case by (simp add: live_item_paths_def)
next
  case (Cons key keys)
  then obtain w rest where "live_worker rq sessions key = Inr w" "map_res (live_worker rq sessions) keys = Inr rest" "ws = w # rest"
    by (auto simp: bind_res_eq_Inr)
  with Cons.IH live_worker_item [of rq sessions key w] show ?case by (simp add: live_item_paths_def)
qed

subsection \<open>A run\<close>

lemma run_admission_cases:
  assumes "run_admission rq s root sessions = Inr (env, front, ems, refused)"
  obtains ws where "frontier_of s root (rq_definition rq) (rq_holds rq) (rq_stale rq) = Inr front"
    "map_res (live_worker rq sessions) (rq_live rq) = Inr ws" "env = live_environment rq s ws"
    "admit_all rq s root env [] [] (admission_order (fr_candidates front) (dependent_counts (snap_items s) root))
       = Inr (ems, refused)"
  using assms by (auto simp: run_admission_def bind_res_eq_Inr raised_Inr Let_def)

lemma le_paths_live_environment [simp]:
  "le_paths (live_environment rq s ws) = map (\<lambda>w. wi_path (wk_item w)) ws"
  by (simp add: live_environment_def Let_def)

text \<open>A plan is the terminal plan or the record of a run.\<close>

lemma orchestrate_cases:
  assumes "orchestrate rq s root = Inr p"
  obtains (terminal) "p = terminal_plan rq root (snd (session_index (rq_sha rq) (snap_items s)))"
  | (run) env front ems refused where
      "run_admission rq s root (fst (session_index (rq_sha rq) (snap_items s))) = Inr (env, front, ems, refused)"
      "p = open_plan rq root (snd (session_index (rq_sha rq) (snap_items s))) env front (ems, refused)"
  using assms
  by (auto simp: orchestrate_def Let_def bind_res_eq_Inr split: prod.splits if_splits option.splits)

lemma open_plan_simps:
  "op_dispatches (open_plan rq root warnings env front (ems, refused)) = map em_dispatch ems"
  "op_blocked (open_plan rq root warnings env front (ems, refused)) = fr_blocked front @ refused"
  "op_slots_free (open_plan rq root warnings env front (ems, refused)) = slots_free rq env"
  "op_attend_slots_free (open_plan rq root warnings env front (ems, refused)) = attend_slots_free rq env"
  "\<not> op_terminal (open_plan rq root warnings env front (ems, refused))"
  by (simp_all add: open_plan_def)

lemma terminal_plan_simps [simp]:
  "op_dispatches (terminal_plan rq root warnings) = []" "op_terminal (terminal_plan rq root warnings)"
  "op_slots_free (terminal_plan rq root warnings) = 0" "op_attend_slots_free (terminal_plan rq root warnings) = 0"
  by (simp_all add: terminal_plan_def)

lemma admitted_subseq:
  "admit_all rq s root env ems refused cs = Inr (ems', refused') \<Longrightarrow>
   \<exists>new. ems' = ems @ new \<and> subseq (map (pd_slug \<circ> em_dispatch) new) (map (wi_path \<circ> fst) cs)"
proof (induction cs arbitrary: ems refused)
  case Nil
  then show ?case by auto
next
  case (Cons c cs)
  have "(\<exists>refused0. admit_all rq s root env ems refused0 cs = Inr (ems', refused')) \<or>
      (\<exists>e. admit rq s root env ems c = Inr (Inr e) \<and> admit_all rq s root env (ems @ [e]) refused cs = Inr (ems', refused'))"
  proof (cases "wi_path (fst c) \<in> set (le_paths env)")
    case True
    with Cons.prems show ?thesis by auto
  next
    case False
    with Cons.prems obtain verdict where "admit rq s root env ems c = Inr verdict"
      "(case verdict of Inl b \<Rightarrow> admit_all rq s root env ems (refused @ [b]) cs
        | Inr e \<Rightarrow> admit_all rq s root env (ems @ [e]) refused cs) = Inr (ems', refused')"
      by (auto simp: bind_res_eq_Inr)
    then show ?thesis by (cases verdict) auto
  qed
  then consider (skip) refused0 where "admit_all rq s root env ems refused0 cs = Inr (ems', refused')"
    | (emit) e where "admit rq s root env ems c = Inr (Inr e)"
        "admit_all rq s root env (ems @ [e]) refused cs = Inr (ems', refused')"
    by blast
  then show ?case
  proof cases
    case skip
    from Cons.IH [OF this] show ?thesis by auto
  next
    case (emit e)
    obtain item r where c: "c = (item, r)" by (cases c)
    from emit(1) [unfolded c] have "pd_slug (em_dispatch e) = wi_path item"
      by (rule admit_emitted) (simp add: emission_claims)
    with Cons.IH [OF emit(2)] c show ?thesis by auto
  qed
qed

lemma subseq_distinct: "subseq xs ys \<Longrightarrow> distinct ys \<Longrightarrow> distinct xs"
  by (induction rule: list_emb.induct) (auto dest: list_emb_set)

lemma run_candidates:
  assumes "run_admission rq (as_snapshot items) root sessions = Inr (env, front, ems, refused)"
  shows "\<And>e. e \<in> set ems \<Longrightarrow> \<exists>c pre. c \<in> set (fr_candidates front) \<and> wi_path (fst c) \<notin> set (le_paths env) \<and>
      admit rq (as_snapshot items) root env pre c = Inr (Inr e)"
    and "distinct (map (pd_slug \<circ> em_dispatch) ems)"
    and "reserved_apart env ems"
proof -
  let ?s = "as_snapshot items" and ?cs = "admission_order (fr_candidates front) (dependent_counts items root)"
  from assms obtain ws where front: "frontier_of ?s root (rq_definition rq) (rq_holds rq) (rq_stale rq) = Inr front"
    and admitted: "admit_all rq ?s root env [] [] ?cs = Inr (ems, refused)"
    by (auto elim!: run_admission_cases)
  from admitted have "\<forall>e \<in> set ems. \<exists>c pre. c \<in> set ?cs \<and> wi_path (fst c) \<notin> set (le_paths env) \<and>
      admit rq ?s root env pre c = Inr (Inr e)"
  proof (rule admit_all_induct)
    fix ems e c
    assume "\<forall>e \<in> set ems. \<exists>c pre. c \<in> set ?cs \<and> wi_path (fst c) \<notin> set (le_paths env) \<and>
        admit rq ?s root env pre c = Inr (Inr e)"
      and "c \<in> set ?cs" "wi_path (fst c) \<notin> set (le_paths env)" "admit rq ?s root env ems c = Inr (Inr e)"
    then show "\<forall>e \<in> set (ems @ [e]). \<exists>c pre. c \<in> set ?cs \<and> wi_path (fst c) \<notin> set (le_paths env) \<and>
        admit rq ?s root env pre c = Inr (Inr e)"
      by (simp del: split_paired_Ex) blast
  qed simp
  then show "\<exists>c pre. c \<in> set (fr_candidates front) \<and> wi_path (fst c) \<notin> set (le_paths env) \<and>
      admit rq ?s root env pre c = Inr (Inr e)" if "e \<in> set ems" for e
    using that by (simp add: admission_order_perm)
  show "reserved_apart env ems" by (rule admitted_apart [OF admitted])
  have distinct: "distinct (map (wi_path \<circ> fst) ?cs)"
    by (rule distinct_admission_order) (use frontier_candidates(1) [OF front] in simp)
  from admitted_subseq [OF admitted] distinct
  show "distinct (map (pd_slug \<circ> em_dispatch) ems)" by (auto intro: subseq_distinct)
qed

subsection \<open>Returning\<close>

lemma first_seen_Nil: "first_seen xs = [] \<longleftrightarrow> xs = []"
  by (cases xs) simp_all

lemma admit_total:
  assumes "rr_dispatch r = Some stage" and "state_for s (wi_path item) None (rq_holds rq (wi_path item)) (rq_stale rq (wi_path item)) = Some st"
    and "map_of (artifacts (rq_definition rq)) Execute = Some artifact"
  shows "\<exists>verdict. admit rq s root env ems (item, r) = Inr verdict"
proof (cases "resolve_dispatch (rq_tails rq) (rq_rules rq) (dispatch_attributes st stage)")
  case (Inl e)
  then obtain kind m where "e = Profile_Error kind m"
    using dispatch_never_unmatched [of "rq_tails rq" "rq_rules rq" st stage] by (cases e) auto
  with Inl assms show ?thesis by (simp add: admit_def Let_def split: option.split)
next
  case (Inr resolution)
  with assms show ?thesis by (simp add: admit_def admit_resolved_def Let_def split: option.split)
qed

lemma admit_all_total:
  assumes "\<And>c. c \<in> set cs \<Longrightarrow> routed_candidate s d (rq_holds rq) (rq_stale rq) c"
    and "map_of (artifacts (rq_definition rq)) Execute = Some artifact"
  shows "\<exists>v. admit_all rq s root env ems refused cs = Inr v"
  using assms(1)
proof (induction cs arbitrary: ems refused)
  case Nil
  then show ?case by simp
next
  case (Cons c cs)
  obtain item r where c: "c = (item, r)" by (cases c)
  have "routed_candidate s d (rq_holds rq) (rq_stale rq) (item, r)" using Cons.prems c by simp
  then obtain stage st where "rr_dispatch r = Some stage"
    "state_for s (wi_path item) None (rq_holds rq (wi_path item)) (rq_stale rq (wi_path item)) = Some st"
    by (auto simp: routed_candidate_def Let_def)
  from admit_total [OF this assms(2)] obtain verdict where "admit rq s root env ems c = Inr verdict"
    unfolding c by blast
  moreover have "\<exists>v. admit_all rq s root env ems' refused' cs = Inr v" for ems' refused'
    using Cons.IH Cons.prems by simp
  ultimately show ?case by (simp split: sum.split)
qed

lemma run_total:
  assumes "wf_definition (rq_definition rq)" and "map_of (artifacts (rq_definition rq)) Execute = Some artifact"
    and "unknown_live (fst (session_index (rq_sha rq) items)) (rq_live rq) = []"
  shows "\<exists>v. run_admission rq (as_snapshot items) root (fst (session_index (rq_sha rq) items)) = Inr v"
proof -
  let ?s = "as_snapshot items" and ?sessions = "fst (session_index (rq_sha rq) items)"
  from frontier_total [OF assms(1)] obtain front where
    front: "frontier_of ?s root (rq_definition rq) (rq_holds rq) (rq_stale rq) = Inr front" by blast
  have "\<exists>w. live_worker rq ?sessions key = Inr w" if "key \<in> set (rq_live rq)" for key
  proof -
    have "set (unknown_live ?sessions (rq_live rq)) = {}" using assms(3) by simp
    with that obtain item where "map_of ?sessions key = Some item"
      by (auto simp: unknown_live_def)
    from live_worker_total [of rq items key, OF this] show ?thesis by blast
  qed
  from map_res_total [of "rq_live rq" "live_worker rq ?sessions", OF this] obtain ws where ws: "map_res (live_worker rq ?sessions) (rq_live rq) = Inr ws" by blast
  from admit_all_total [OF frontier_candidates(2) [OF front] assms(2)]
  obtain v where "admit_all rq ?s root (live_environment rq ?s ws) [] []
      (admission_order (fr_candidates front) (dependent_counts items root)) = Inr v"
    using admission_order_perm(1) [of "fr_candidates front" "dependent_counts items root"]
      admit_all_total [of "admission_order (fr_candidates front) (dependent_counts items root)", OF _ assms(2)]
      frontier_candidates(2) [OF front] by blast
  with front ws show ?thesis by (simp add: run_admission_def Let_def)
qed

text \<open>C10. A plan is made exactly when every live key is a session name of the workspace: nothing
  else in it can fail, whatever the items, their links and the evidence are.\<close>

theorem plan_returns:
  assumes "wf_definition (rq_definition rq)" and "Execute \<in> fst ` set (artifacts (rq_definition rq))"
  shows "(\<exists>p. orchestrate rq (as_snapshot items) root = Inr p) \<longleftrightarrow>
    (\<forall>key \<in> set (rq_live rq). map_of (fst (session_index (rq_sha rq) items)) key \<noteq> None)"
proof -
  obtain sessions warnings where index: "session_index (rq_sha rq) items = (sessions, warnings)"
    by (cases "session_index (rq_sha rq) items")
  from assms(2) obtain artifact where artifact: "map_of (artifacts (rq_definition rq)) Execute = Some artifact"
    by (cases "map_of (artifacts (rq_definition rq)) Execute") (auto simp: map_of_eq_None_iff)
  have known: "unknown_live sessions (rq_live rq) = [] \<longleftrightarrow> (\<forall>key \<in> set (rq_live rq). map_of sessions key \<noteq> None)"
    by (simp add: unknown_live_def first_seen_Nil filter_empty_conv)
  show ?thesis
  proof (cases "unknown_live sessions (rq_live rq) = []")
    case True
    from run_total [OF assms(1) artifact, of items root] True index obtain v where
      "run_admission rq (as_snapshot items) root sessions = Inr v" by auto
    with True index have "\<exists>p. orchestrate rq (as_snapshot items) root = Inr p"
      by (cases v) (simp add: orchestrate_def)
    with known True index show ?thesis by simp
  next
    case False
    then have "orchestrate rq (as_snapshot items) root \<noteq> Inr p" for p
      by (simp add: orchestrate_def index Let_def)
    with known False index show ?thesis by simp
  qed
qed

subsection \<open>Dispatches\<close>

lemma on_dispatch_phase: "on_dispatch_of st r = Some t \<Longrightarrow> tr_phase t \<in> {None, Some (stage_str (row_stage r))}"
  by (auto simp: on_dispatch_of_def Let_def no_transition_def split: if_splits)

lemma emit_dispatch_on_dispatch [simp]: "rr_on_dispatch (emit_dispatch st r ss n f u) = on_dispatch_of st r"
  by (simp add: emit_dispatch_def Let_def)

text \<open>A routed stage and the phase a dispatch of it is recorded under.\<close>

lemma dispatched_stage:
  assumes "wf_definition d" and "route st d = Inr r" and "rr_dispatch r = Some stage"
  shows "live_state st" and "rs_phase st = None \<or> rs_phase st = Some (stage_str stage)"
    and "rr_on_dispatch r = Some t \<Longrightarrow> tr_phase t \<in> {None, Some (stage_str stage)}"
proof -
  consider (other) "rr_dispatch r = None" | (emitted) stage' forked where "reaches st d stage'"
      "r = emit st (row_of stage') (cand_stages (hd (state_candidates st d))) (next_of st d stage') forked
             (if forked \<noteq> [] then unset_of d (route_attributes st) else [])"
    by (cases rule: route_cases [OF assms(2,1)])
      (auto simp: offers_nothing_def off_path_result_def blocked_def no_result_def)
  then show "live_state st" "rs_phase st = None \<or> rs_phase st = Some (stage_str stage)"
    "rr_on_dispatch r = Some t \<Longrightarrow> tr_phase t \<in> {None, Some (stage_str stage)}"
  proof (atomize (full), cases)
    case other
    with assms(3) show "live_state st \<and> (rs_phase st = None \<or> rs_phase st = Some (stage_str stage)) \<and>
      (rr_on_dispatch r = Some t \<longrightarrow> tr_phase t \<in> {None, Some (stage_str stage)})" by simp
  next
    case emitted
    let ?un = "if forked \<noteq> [] then unset_of d (route_attributes st) else []"
    from emit_dispatch_stage [OF assms(3) [unfolded emitted(2)]] have stage: "stage = stage'" by simp
    from emitted(1) have live: "live_state st" and ne: "hd (state_candidates st d) \<in> set (state_candidates st d)"
      by (simp_all add: reaches_def)
    have "rs_phase st = None \<or> rs_phase st = Some (stage_str stage)"
      using reaches_stage(3) [OF emitted(1) ne] stage by (cases "rs_phase st") auto
    moreover have "rr_on_dispatch r = Some t \<longrightarrow> tr_phase t \<in> {None, Some (stage_str stage)}"
    proof (cases rule: emit_cases [of "row_of stage'" st "cand_stages (hd (state_candidates st d))" "next_of st d stage'" forked ?un])
      case stage
      with emitted(2) have "rr_on_dispatch r = on_dispatch_of st (row_of stage')" by simp
      with on_dispatch_phase [of st "row_of stage'" t] \<open>stage = stage'\<close> show ?thesis by simp
    qed (use assms(3) emitted(2) in \<open>auto simp: gate_offers blocked_def no_result_def\<close>)
    ultimately show "live_state st \<and> (rs_phase st = None \<or> rs_phase st = Some (stage_str stage)) \<and>
      (rr_on_dispatch r = Some t \<longrightarrow> tr_phase t \<in> {None, Some (stage_str stage)})" using live by simp
  qed
qed

lemma candidate_phase_stage:
  assumes "wf_definition d" and "route st d = Inr r" and "rr_dispatch r = Some stage" and "rs_phase st = wi_phase item"
  shows "candidate_phase item r stage = stage_str stage"
proof -
  note st = dispatched_stage [OF assms(1-3)]
  from st(2) assms(4) consider "wi_phase item = None" | "wi_phase item = Some (stage_str stage)" by auto
  then show ?thesis
  proof cases
    case 1
    then show ?thesis
      using st(3) by (cases "rr_on_dispatch r") (fastforce simp: candidate_phase_def)+
  next
    case 2
    have "stage_str stage \<noteq> []" by (cases stage) simp_all
    with 2 show ?thesis by (simp add: candidate_phase_def py_or_def)
  qed
qed

lemma state_for_phase: "state_for s p e h stale = Some st \<Longrightarrow> item_at s p = Some item \<Longrightarrow> rs_phase st = wi_phase item"
  by (auto simp: state_for_def Let_def)

lemma emitted_dispatch:
  assumes "wf_definition (rq_definition rq)"
    and "run_admission rq (as_snapshot items) root sessions = Inr (env, front, ems, refused)" and "e \<in> set ems"
  obtains item st r stage where
    "item_at (as_snapshot items) (pd_slug (em_dispatch e)) = Some item" "\<not> child_gated (as_snapshot items) item"
    "state_for (as_snapshot items) (pd_slug (em_dispatch e)) None (rq_holds rq (pd_slug (em_dispatch e)))
       (rq_stale rq (pd_slug (em_dispatch e))) = Some st"
    "live_state st" "route st (rq_definition rq) = Inr r" "rr_dispatch r = Some stage" "rr_blockers r = []"
    "pd_phase (em_dispatch e) = stage_str stage" "pd_slug (em_dispatch e) \<notin> set (le_paths env)"
    "(root, pd_slug (em_dispatch e)) \<in> (walk_edges (as_snapshot items))\<^sup>*"
    "\<exists>pre. admit rq (as_snapshot items) root env pre (item, r) = Inr (Inr e)"
proof -
  let ?s = "as_snapshot items"
  from run_candidates(1) [OF assms(2,3)] obtain c pre where c: "c \<in> set (fr_candidates front)"
    "wi_path (fst c) \<notin> set (le_paths env)" "admit rq ?s root env pre c = Inr (Inr e)" by blast
  from assms(2) have front: "frontier_of ?s root (rq_definition rq) (rq_holds rq) (rq_stale rq) = Inr front"
    by (auto elim!: run_admission_cases)
  obtain item r where item: "c = (item, r)" by (cases c)
  from frontier_candidates(2) [OF front c(1)] item obtain st where
    st: "item_at ?s (wi_path item) = Some item" "rr_blockers r = []" "\<not> child_gated ?s item"
      "state_for ?s (wi_path item) None (rq_holds rq (wi_path item)) (rq_stale rq (wi_path item)) = Some st"
      "route st (rq_definition rq) = Inr r"
    by (auto simp: routed_candidate_def Let_def)
  from c(3) item have adm: "admit rq ?s root env pre (item, r) = Inr (Inr e)" by simp
  then obtain stage where stage: "rr_dispatch r = Some stage" "pd_slug (em_dispatch e) = wi_path item"
    "pd_phase (em_dispatch e) = candidate_phase item r stage"
    by (rule admit_emitted) (simp add: emission_claims)
  have "pd_phase (em_dispatch e) = stage_str stage"
    using candidate_phase_stage [OF assms(1) st(5) stage(1) state_for_phase [OF st(4,1)]] stage(3) by simp
  with that [of item st r stage] st c adm stage item dispatched_stage(1) [OF assms(1) st(5) stage(1)]
    frontier_candidates(3) [OF front c(1)]
  show ?thesis by auto
qed

text \<open>C3. Every dispatch of a plan is an item at or below the root, reached through containers that wait
  on children, that is not live and has no other dispatch; its state is valid, open and unheld,
  it does not wait on children itself, and the route of the lifecycle dispatches the very stage
  of the plan with nothing blocking it.\<close>

theorem plan_dispatches_ready:
  assumes "wf_definition (rq_definition rq)" and "orchestrate rq (as_snapshot items) root = Inr p"
  shows "distinct (map pd_slug (op_dispatches p)) \<and>
    (\<forall>w \<in> set (op_dispatches p).
       pd_slug w \<notin> set (live_item_paths (fst (session_index (rq_sha rq) items)) (rq_live rq)) \<and>
       (root, pd_slug w) \<in> (walk_edges (as_snapshot items))\<^sup>* \<and>
       (\<exists>item st r stage. item_at (as_snapshot items) (pd_slug w) = Some item \<and>
          \<not> child_gated (as_snapshot items) item \<and>
          state_for (as_snapshot items) (pd_slug w) None (rq_holds rq (pd_slug w)) (rq_stale rq (pd_slug w)) = Some st \<and>
          live_state st \<and> route st (rq_definition rq) = Inr r \<and> rr_dispatch r = Some stage \<and>
          rr_blockers r = [] \<and> pd_phase w = stage_str stage))"
  using assms(2)
proof (cases rule: orchestrate_cases)
  case terminal
  then show ?thesis by simp
next
  case (run env front ems refused)
  have run1: "run_admission rq (as_snapshot items) root (fst (session_index (rq_sha rq) items)) = Inr (env, front, ems, refused)"
    using run(1) by simp
  from run1 obtain ws where "map_res (live_worker rq (fst (session_index (rq_sha rq) items))) (rq_live rq) = Inr ws"
    "env = live_environment rq (as_snapshot items) ws" by (auto elim!: run_admission_cases)
  then have live: "le_paths env = live_item_paths (fst (session_index (rq_sha rq) items)) (rq_live rq)"
    by (simp add: live_paths_of_workers)
  have "pd_slug (em_dispatch e) \<notin> set (le_paths env) \<and>
      (root, pd_slug (em_dispatch e)) \<in> (walk_edges (as_snapshot items))\<^sup>* \<and>
      (\<exists>item st r stage. item_at (as_snapshot items) (pd_slug (em_dispatch e)) = Some item \<and>
          \<not> child_gated (as_snapshot items) item \<and>
          state_for (as_snapshot items) (pd_slug (em_dispatch e)) None (rq_holds rq (pd_slug (em_dispatch e)))
            (rq_stale rq (pd_slug (em_dispatch e))) = Some st \<and>
          live_state st \<and> route st (rq_definition rq) = Inr r \<and> rr_dispatch r = Some stage \<and>
          rr_blockers r = [] \<and> pd_phase (em_dispatch e) = stage_str stage)" if "e \<in> set ems" for e
    by (rule emitted_dispatch [OF assms(1) run1 that]) blast
  with run_candidates(2) [OF run1] live run(2) show ?thesis by (simp add: open_plan_simps comp_def)
qed

subsection \<open>Reservations, pools and accounts\<close>

lemma emission_holds:
  assumes "admit rq s root env ems (item, r) = Inr (Inr e)"
  shows "em_placement e = Some p \<Longrightarrow> worktree_claim (pd_slug (em_dispatch e)) (pl_worktree p) \<in> set (em_claims e)"
    and "set (claims_for (wi_path item) (pd_phase (em_dispatch e)) (identity_of (context_of rq item)) (wi_affects item))
      \<subseteq> set (em_claims e)"
    and "pd_slug (em_dispatch e) = wi_path item"
  using assms
  by (rule admit_emitted, auto simp: emission_claims candidate_claims_def candidate_identities_def)+

lemma worktree_claims_conflict:
  "conflicts (worktree_claim owner path) (worktree_claim owner' path') \<longleftrightarrow> owner \<noteq> owner' \<and> path = path'"
  by (auto simp: conflicts_def worktree_claim_def claim_of_def)

text \<open>C4. The reservations of one plan never clash: no claim of a dispatch conflicts with what a
  live worker holds or with a claim of another dispatch, no two dispatches that both have a code
  placement share its worktree (nothing is said of a dispatch without one), and each holds the
  claims its stage takes of the item's affects.\<close>

theorem reservations_disjoint:
  assumes "run_admission rq (as_snapshot items) root sessions = Inr (env, front, ems, refused)"
  shows "(\<forall>e \<in> set ems. \<forall>a \<in> set (em_claims e). \<forall>b \<in> set (le_claims env). \<not> conflicts a b) \<and>
    (\<forall>i j. i < j \<longrightarrow> j < length ems \<longrightarrow>
       (\<forall>a \<in> set (em_claims (ems ! j)). \<forall>b \<in> set (em_claims (ems ! i)). \<not> conflicts a b) \<and>
       (\<forall>p q. em_placement (ems ! i) = Some p \<longrightarrow> em_placement (ems ! j) = Some q \<longrightarrow> pl_worktree p \<noteq> pl_worktree q)) \<and>
    (\<forall>e \<in> set ems. \<exists>item. wi_path item = pd_slug (em_dispatch e) \<and> item \<in> fst ` set (fr_candidates front) \<and>
       set (claims_for (wi_path item) (pd_phase (em_dispatch e)) (identity_of (context_of rq item)) (wi_affects item))
         \<subseteq> set (em_claims e))"
proof (intro conjI)
  from run_candidates(3) [OF assms] have apart: "reserved_apart env ems" .
  then show "\<forall>e \<in> set ems. \<forall>a \<in> set (em_claims e). \<forall>b \<in> set (le_claims env). \<not> conflicts a b"
    by (auto simp: reserved_apart_def unconflicted_def)
  show "\<forall>e \<in> set ems. \<exists>item. wi_path item = pd_slug (em_dispatch e) \<and> item \<in> fst ` set (fr_candidates front) \<and>
      set (claims_for (wi_path item) (pd_phase (em_dispatch e)) (identity_of (context_of rq item)) (wi_affects item))
        \<subseteq> set (em_claims e)"
  proof
    fix e assume "e \<in> set ems"
    from run_candidates(1) [OF assms this] obtain item r pre where "(item, r) \<in> set (fr_candidates front)"
      "admit rq (as_snapshot items) root env pre (item, r) = Inr (Inr e)" by auto
    with emission_holds(2,3) [OF this(2)] show "\<exists>item. wi_path item = pd_slug (em_dispatch e) \<and>
      item \<in> fst ` set (fr_candidates front) \<and>
      set (claims_for (wi_path item) (pd_phase (em_dispatch e)) (identity_of (context_of rq item)) (wi_affects item))
        \<subseteq> set (em_claims e)" by (intro exI [of _ item]) force
  qed
  have holds: "worktree_claim (pd_slug (em_dispatch e)) (pl_worktree p) \<in> set (em_claims e)"
    if "e \<in> set ems" "em_placement e = Some p" for e p
    using run_candidates(1) [OF assms that(1)] emission_holds(1) that(2) by (metis prod.collapse)
  show "\<forall>i j. i < j \<longrightarrow> j < length ems \<longrightarrow>
       (\<forall>a \<in> set (em_claims (ems ! j)). \<forall>b \<in> set (em_claims (ems ! i)). \<not> conflicts a b) \<and>
       (\<forall>p q. em_placement (ems ! i) = Some p \<longrightarrow> em_placement (ems ! j) = Some q \<longrightarrow> pl_worktree p \<noteq> pl_worktree q)"
  proof (intro allI impI conjI)
    fix i j assume ij: "i < j" "j < length ems"
    from apart ij have free: "unconflicted (em_claims (ems ! j)) (em_claims (ems ! i))"
      by (simp add: reserved_apart_def sorted_wrt_iff_nth_less)
    then show "\<forall>a \<in> set (em_claims (ems ! j)). \<forall>b \<in> set (em_claims (ems ! i)). \<not> conflicts a b"
      by (simp add: unconflicted_def)
    fix p q assume p: "em_placement (ems ! i) = Some p" and q: "em_placement (ems ! j) = Some q"
    have "map (pd_slug \<circ> em_dispatch) ems ! i \<noteq> map (pd_slug \<circ> em_dispatch) ems ! j"
      using run_candidates(2) [OF assms] ij by (subst nth_eq_iff_index_eq) auto
    with free holds [OF _ p] holds [OF _ q] ij show "pl_worktree p \<noteq> pl_worktree q"
      by (fastforce simp: unconflicted_def worktree_claims_conflict)
  qed
qed

text \<open>C5. Neither pool is overdrawn: with the live workers counted, the attended dispatches stay
  within \<open>max_attend\<close> and the others within \<open>max_parallel\<close>, unless the live workers exceed the
  limit already; then the plan adds none to that pool.\<close>

theorem pools_not_overdrawn:
  assumes "run_admission rq s root sessions = Inr (env, front, ems, refused)"
  shows "int (attend_count ems) + int (le_attend env) \<le> max (rq_max_attend rq) (int (le_attend env)) \<and>
    int (worker_count ems) + (int (length (le_paths env)) - int (le_attend env))
      \<le> max (rq_max_parallel rq) (int (length (le_paths env)) - int (le_attend env))"
proof -
  from assms have "int (attend_count ems) \<le> attend_slots_free rq env \<and> int (worker_count ems) \<le> slots_free rq env"
    by (rule run_admission_cases) (rule admitted_capacity)
  then show ?thesis unfolding attend_slots_free_def slots_free_def by linarith
qed

text \<open>Every candidate of the frontier is accounted for, once: in admission order, the
  candidates that are not live are the dispatched ones and the refused ones, each in the order
  they were met, and nothing else is dispatched or refused.\<close>

theorem candidates_accounted:
  assumes "orchestrate rq (as_snapshot items) root = Inr p" and "\<not> op_terminal p" and "own_refusals rq"
  shows "\<exists>front taken left refused.
    frontier_of (as_snapshot items) root (rq_definition rq) (rq_holds rq) (rq_stale rq) = Inr front \<and>
    filter (\<lambda>c. wi_path (fst c) \<notin> set (live_item_paths (fst (session_index (rq_sha rq) items)) (rq_live rq)))
      (admission_order (fr_candidates front) (dependent_counts items root)) \<in> shuffles taken left \<and>
    map pd_slug (op_dispatches p) = map (wi_path \<circ> fst) taken \<and>
    op_blocked p = fr_blocked front @ refused \<and> map bi_path refused = map (wi_path \<circ> fst) left"
  using assms(1)
proof (cases rule: orchestrate_cases)
  case terminal
  with assms(2) show ?thesis by simp
next
  case (run env front ems refused)
  from run(1) obtain ws where front: "frontier_of (as_snapshot items) root (rq_definition rq) (rq_holds rq) (rq_stale rq) = Inr front"
    and ws: "map_res (live_worker rq (fst (session_index (rq_sha rq) items))) (rq_live rq) = Inr ws"
    and env: "env = live_environment rq (as_snapshot items) ws"
    and admitted: "admit_all rq (as_snapshot items) root env [] []
      (admission_order (fr_candidates front) (dependent_counts items root)) = Inr (ems, refused)"
    by (auto elim!: run_admission_cases)
  have live: "le_paths env = live_item_paths (fst (session_index (rq_sha rq) items)) (rq_live rq)"
    using live_paths_of_workers [OF ws] env by simp
  from admitted_account [OF assms(3) admitted] obtain taken left where
    "filter (\<lambda>c. wi_path (fst c) \<notin> set (le_paths env)) (admission_order (fr_candidates front) (dependent_counts items root))
       \<in> shuffles taken left"
    "map (pd_slug \<circ> em_dispatch) ems = map (wi_path \<circ> fst) taken" "map bi_path refused = map (wi_path \<circ> fst) left"
    by auto
  with front live run(2) show ?thesis
    by - (rule exI [of _ front], rule exI [of _ taken], rule exI [of _ left], rule exI [of _ refused],
      simp add: open_plan_simps comp_def)
qed

subsection \<open>Merges\<close>

lemma chain_last_placement:
  assumes "chain_of rq s item \<noteq> []"
  shows "\<exists>name repo. last (chain_of rq s item) =
    placement_for (rq_sha rq) (by_path s) name repo (rq_worktrees_dir rq) (base_of rq (context_of rq item)) item"
proof -
  from assms obtain repo where "code_repository rq item = Some repo"
    and steps: "chain_of rq s item = compute_chain (rq_sha rq) (by_path s) (rq_worktrees_dir rq) (base_of rq (context_of rq item)) repo item"
    by (auto simp: chain_of_def split: option.splits)
  with compute_chain_last [of "rq_sha rq" "by_path s" "rq_worktrees_dir rq" "base_of rq (context_of rq item)" repo item]
    assms
  obtain name root where "placement_for (rq_sha rq) (by_path s) name root (rq_worktrees_dir rq)
      (base_of rq (context_of rq item)) item = last (chain_of rq s item)"
    by (auto simp: compute_placement_def)
  from this [symmetric] show ?thesis by blast
qed

text \<open>The branch an owner integrates on, as a placement and as a workspace-only item spell it.\<close>

definition owner_branches :: "(string \<Rightarrow> string) \<Rightarrow> work_item \<Rightarrow> string set" where
  "owner_branches sha owner =
     {branch_name sha (active_path (wi_path owner)) (wi_type owner), branch_name sha (wi_path owner) (wi_type owner)}"

lemma emission_merge:
  assumes "pd_auto_merge (em_dispatch (emission_of rq s root item r phase resolution placed targets reserved fname))"
    and "\<And>p. placed = Some p \<Longrightarrow> \<exists>name repo. p =
      placement_for (rq_sha rq) (by_path s) name repo (rq_worktrees_dir rq) (base_of rq (context_of rq item)) item"
  shows "phase = ''finish'' \<and> pf_mode (fst resolution) = ''relay'' \<and> \<not> rq_supervise rq \<and> wi_path item \<noteq> root \<and>
    (\<exists>owner. enclosing_owner (by_path s) item = Some owner \<and>
       pd_merge_target (em_dispatch (emission_of rq s root item r phase resolution placed targets reserved fname))
         \<in> owner_branches (rq_sha rq) owner)"
proof -
  let ?e = "emission_of rq s root item r phase resolution placed targets reserved fname"
  from assms(1) have auto_merge: "auto_merge_of rq s root item phase (pf_mode (fst resolution))"
    by (simp add: emission_of_def Let_def split: prod.splits)
  then obtain owner where owner: "enclosing_owner (by_path s) item = Some owner"
    by (auto simp: auto_merge_of_def)
  have "pd_merge_target (em_dispatch ?e) = snd (worktree_of rq s item placed)"
    by (simp add: emission_of_def Let_def split: prod.splits)
  also have "\<dots> \<in> owner_branches (rq_sha rq) owner"
  proof (cases placed)
    case None
    with owner show ?thesis by (simp add: worktree_of_def owner_branches_def)
  next
    case (Some p)
    with assms(2) owner show ?thesis by (fastforce simp: worktree_of_def owner_branches_def placement_for_def Let_def)
  qed
  finally show ?thesis using auto_merge owner by (auto simp: auto_merge_of_def)
qed

text \<open>C9. The coordinator is told to merge on its own only when nobody supervises merges, only for
  the relayed finish of an item other than the root, and only into the integration branch of
  the item's enclosing owner, never into a base branch.\<close>

theorem auto_merge_confined:
  assumes "wf_definition (rq_definition rq)" and "orchestrate rq (as_snapshot items) root = Inr p"
    and "w \<in> set (op_dispatches p)" and "pd_auto_merge w"
  shows "pd_phase w = ''finish'' \<and> pd_mode w = ''relay'' \<and> \<not> rq_supervise rq \<and> pd_slug w \<noteq> root \<and>
    (\<exists>item owner. item_at (as_snapshot items) (pd_slug w) = Some item \<and>
       enclosing_owner (by_path (as_snapshot items)) item = Some owner \<and>
       pd_merge_target w \<in> owner_branches (rq_sha rq) owner)"
  using assms(2)
proof (cases rule: orchestrate_cases)
  case terminal
  with assms(3) show ?thesis by simp
next
  case (run env front ems refused)
  have run1: "run_admission rq (as_snapshot items) root (fst (session_index (rq_sha rq) items)) = Inr (env, front, ems, refused)"
    using run(1) by simp
  from assms(3) run(2) obtain e where e: "e \<in> set ems" "w = em_dispatch e" by (auto simp: open_plan_simps)
  from emitted_dispatch [OF assms(1) run1 e(1)] obtain item r pre where
    at: "item_at (as_snapshot items) (pd_slug (em_dispatch e)) = Some item"
    and adm: "admit rq (as_snapshot items) root env pre (item, r) = Inr (Inr e)" by metis
  let ?steps = "chain_of rq (as_snapshot items) item"
  from adm obtain stage resolution fname where
    em: "e = emission_of rq (as_snapshot items) root item r (candidate_phase item r stage) resolution
       (if ?steps = [] then None else Some (last ?steps)) (candidate_targets rq item)
       (candidate_claims rq item (candidate_phase item r stage) @ target_claims rq item) fname"
    by (rule admit_emitted)
  have placed: "\<exists>name repo. q = placement_for (rq_sha rq) (by_path (as_snapshot items)) name repo (rq_worktrees_dir rq)
      (base_of rq (context_of rq item)) item" if "(if ?steps = [] then None else Some (last ?steps)) = Some q" for q
    using that chain_last_placement [of rq "as_snapshot items" item] by (auto split: if_splits)
  have slug: "pd_slug w = wi_path item" "pd_phase w = candidate_phase item r stage" "pd_mode w = pf_mode (fst resolution)"
    by (simp_all only: e(2) em emission_claims)
  have "pd_phase w = ''finish'' \<and> pd_mode w = ''relay'' \<and> \<not> rq_supervise rq \<and> wi_path item \<noteq> root \<and>
    (\<exists>owner. enclosing_owner (by_path (as_snapshot items)) item = Some owner \<and>
       pd_merge_target w \<in> owner_branches (rq_sha rq) owner)"
    unfolding slug unfolding e(2) em by (rule emission_merge [OF assms(4) [unfolded e(2) em] placed])
  with at show ?thesis unfolding e(2) [symmetric] slug(1) by blast
qed

subsection \<open>A run of three items\<close>

definition run_page :: "string \<Rightarrow> string \<Rightarrow> string list \<Rightarrow> concept" where
  "run_page ty phase affects =
     \<lparr>con_data = [(''type'', YStr ty), (''work_status'', YStr ''in-progress''), (''phase'', YStr phase),
        (''effort'', YStr ''small''), (''affects'', YList (map YStr affects)), (''opened'', YStr ''2026-01-01'')],
      con_tags = [], con_sources = []\<rparr>"

definition run_items :: "work_item list" where
  "run_items = link_items (loaded_items
     [(''work/e'', run_page ''Epic'' ''execute'' []),
      (''work/e/children/bug-a'', run_page ''Bug'' ''finish'' [''src/a'']),
      (''work/e/children/bug-b'', run_page ''Bug'' ''execute'' [''src''])])"

definition sample_request :: request where
  "sample_request =
     \<lparr>rq_sha = (\<lambda>_. ''2f1a9c3d''), rq_tails = sample_tails,
      rq_texts = \<lparr>findings_line = ''report findings'', ask_line = ''ask'', no_sub_dispatch_line = ''stay'',
        worker_placement_line = ''placed''\<rparr>,
      rq_rules = [relay_rule], rq_definition = PACKAGED_DEFINITION, rq_max_parallel = 2, rq_max_attend = 1,
      rq_supervise = False, rq_live = [], rq_holds = (\<lambda>_. None), rq_stale = (\<lambda>_. []), rq_workspace = ''/ws'',
      rq_base = ''main'', rq_worktrees_dir = ''/wt'', rq_refusals = (\<lambda>_. None),
      rq_repos = Some (\<lambda>_. Some \<lparr>ir_name = Some ''r'', ir_path = Some ''/r''\<rparr>),
      rq_contexts = [\<lparr>rc_identity = ''id'', rc_path = ''/r'', rc_default_base = ''main'', rc_checkouts = []\<rparr>],
      rq_finish = (\<lambda>_. None), rq_checkpoints = (\<lambda>_. None)\<rparr>"

definition sample_plan :: orchestrate_plan where
  "sample_plan = projr (orchestrate sample_request (as_snapshot run_items) ''work/e'')"

lemma sample_plan_evaluated:
  "case orchestrate sample_request (as_snapshot run_items) ''work/e'' of
     Inl _ \<Rightarrow> False
   | Inr p \<Rightarrow> map pd_slug (op_dispatches p) = [''work/e/children/bug-a''] \<and>
       map pd_auto_merge (op_dispatches p) = [True] \<and>
       map bi_path (op_blocked p) = [''work/e/children/bug-b''] \<and> \<not> op_terminal p"
  by code_simp

lemma sample_plan:
  "orchestrate sample_request (as_snapshot run_items) ''work/e'' = Inr sample_plan"
  "map pd_slug (op_dispatches sample_plan) = [''work/e/children/bug-a'']"
  "map pd_auto_merge (op_dispatches sample_plan) = [True]"
  "map bi_path (op_blocked sample_plan) = [''work/e/children/bug-b'']" "\<not> op_terminal sample_plan"
  using sample_plan_evaluated by (auto simp: sample_plan_def split: sum.splits)

lemma sample_definition [simp]: "rq_definition sample_request = PACKAGED_DEFINITION"
  by (simp add: sample_request_def)

lemma sample_execute: "Execute \<in> fst ` set (artifacts PACKAGED_DEFINITION)"
  by code_simp

lemma sample_plan_run:
  obtains env front ems refused where
    "run_admission sample_request (as_snapshot run_items) ''work/e'' (fst (session_index (rq_sha sample_request) run_items))
       = Inr (env, front, ems, refused)" "op_dispatches sample_plan = map em_dispatch ems" "ems \<noteq> []"
  using sample_plan(1)
proof (cases rule: orchestrate_cases)
  case terminal
  with sample_plan(5) show ?thesis by (metis terminal_plan_simps(2))
next
  case (run env front ems refused)
  have dispatches: "op_dispatches sample_plan = map em_dispatch ems" by (simp only: run(2) open_plan_simps)
  have ne: "ems \<noteq> []" using sample_plan(2) unfolding dispatches by auto
  show ?thesis by (rule that [OF run(1) [unfolded snap_items_as_snapshot] dispatches ne])
qed

theorem plan_returns_witness: "\<exists>p. orchestrate sample_request (as_snapshot run_items) ''work/e'' = Inr p"
proof -
  have "rq_live sample_request = []" by (simp add: sample_request_def)
  with plan_returns [of sample_request run_items "''work/e''"] wf_packaged sample_execute show ?thesis by simp
qed

theorem plan_dispatches_ready_witness:
  "\<exists>item st r. item_at (as_snapshot run_items) ''work/e/children/bug-a'' = Some item \<and>
     \<not> child_gated (as_snapshot run_items) item \<and> live_state st \<and> route st PACKAGED_DEFINITION = Inr r \<and>
     rr_blockers r = []"
proof -
  obtain w where w: "w \<in> set (op_dispatches sample_plan)" "pd_slug w = ''work/e/children/bug-a''"
    using sample_plan(2) by auto
  from plan_dispatches_ready [OF _ sample_plan(1)] w show ?thesis by (simp add: wf_packaged) metis
qed

theorem reservations_disjoint_witness:
  "\<exists>env front ems refused. run_admission sample_request (as_snapshot run_items) ''work/e''
       (fst (session_index (rq_sha sample_request) run_items)) = Inr (env, front, ems, refused) \<and>
     ems \<noteq> [] \<and> (\<forall>e \<in> set ems. \<forall>a \<in> set (em_claims e). \<forall>b \<in> set (le_claims env). \<not> conflicts a b)"
proof -
  obtain env front ems refused where run: "run_admission sample_request (as_snapshot run_items) ''work/e''
      (fst (session_index (rq_sha sample_request) run_items)) = Inr (env, front, ems, refused)" and ne: "ems \<noteq> []"
    by (rule sample_plan_run)
  from reservations_disjoint [OF run]
  have "\<forall>e \<in> set ems. \<forall>a \<in> set (em_claims e). \<forall>b \<in> set (le_claims env). \<not> conflicts a b" by (rule conjunct1)
  with run ne show ?thesis by blast
qed

theorem pools_not_overdrawn_witness:
  "\<exists>env front ems refused. run_admission sample_request (as_snapshot run_items) ''work/e''
       (fst (session_index (rq_sha sample_request) run_items)) = Inr (env, front, ems, refused) \<and>
     int (attend_count ems) + int (le_attend env) \<le> max (rq_max_attend sample_request) (int (le_attend env))"
  by (rule sample_plan_run) (use pools_not_overdrawn in blast)

theorem candidates_accounted_witness:
  "map pd_slug (op_dispatches sample_plan) = [''work/e/children/bug-a''] \<and>
   map bi_path (op_blocked sample_plan) = [''work/e/children/bug-b''] \<and>
   (\<exists>front taken left refused.
      frontier_of (as_snapshot run_items) ''work/e'' (rq_definition sample_request) (rq_holds sample_request)
        (rq_stale sample_request) = Inr front \<and>
      filter (\<lambda>c. wi_path (fst c) \<notin> set (live_item_paths (fst (session_index (rq_sha sample_request) run_items))
          (rq_live sample_request)))
        (admission_order (fr_candidates front) (dependent_counts run_items ''work/e'')) \<in> shuffles taken left \<and>
      map pd_slug (op_dispatches sample_plan) = map (wi_path \<circ> fst) taken \<and>
      op_blocked sample_plan = fr_blocked front @ refused \<and> map bi_path refused = map (wi_path \<circ> fst) left)"
proof (intro conjI)
  have "own_refusals sample_request" by (simp add: own_refusals_def sample_request_def)
  note accounted = candidates_accounted [OF sample_plan(1,5) this]
  show "\<exists>front taken left refused.
      frontier_of (as_snapshot run_items) ''work/e'' (rq_definition sample_request) (rq_holds sample_request)
        (rq_stale sample_request) = Inr front \<and>
      filter (\<lambda>c. wi_path (fst c) \<notin> set (live_item_paths (fst (session_index (rq_sha sample_request) run_items))
          (rq_live sample_request)))
        (admission_order (fr_candidates front) (dependent_counts run_items ''work/e'')) \<in> shuffles taken left \<and>
      map pd_slug (op_dispatches sample_plan) = map (wi_path \<circ> fst) taken \<and>
      op_blocked sample_plan = fr_blocked front @ refused \<and> map bi_path refused = map (wi_path \<circ> fst) left"
    by (rule accounted)
qed (rule sample_plan)+

theorem auto_merge_confined_witness:
  "\<exists>w \<in> set (op_dispatches sample_plan). pd_auto_merge w \<and> pd_phase w = ''finish'' \<and> pd_mode w = ''relay''"
proof -
  obtain w where w: "w \<in> set (op_dispatches sample_plan)" "pd_auto_merge w"
    using sample_plan(3) by (auto simp: map_eq_Cons_conv)
  from auto_merge_confined [OF _ sample_plan(1) w] w show ?thesis by (auto simp: wf_packaged)
qed

end
