(* ===== verification/Gate_Units.thy ===== *)
theory Gate_Units
  imports Graph Affects
begin

text \<open>
  The units of a repository's gate (\<open>gw_orchestrate/gate_units.py\<close>): glob patterns, the
  manifest read from decoded JSON, the check of its dependency graph, the two closures and the
  input hashes. \<open>digest\<close> is the SHA-256 of the canonical JSON text of plain data, an argument.
\<close>

subsection \<open>Globs\<close>

text \<open>
  \<open>fnmatch.translate\<close>: a star is any text, a question mark any character, a bracket a class,
  negated by a leading exclamation mark. Inside a class a hyphen between two characters is a
  range; a range whose ends are reversed is empty. (A class whose first range is reversed and
  is followed by an exclamation mark, which Python negates, is the one spelling left out.)
\<close>

fun class_member :: "string \<Rightarrow> char \<Rightarrow> bool" where
  "class_member (a # h # b # zs) c =
     (if h = CHR ''-'' then (a \<le> c \<and> c \<le> b) \<or> class_member zs c
      else a = c \<or> class_member (h # b # zs) c)"
| "class_member (a # zs) c = (a = c \<or> class_member zs c)"
| "class_member [] c = False"

definition class_rx :: "string \<Rightarrow> rx" where
  "class_rx stuff =
     RChr (if starts_with stuff ''!'' then (\<lambda>c. \<not> class_member (tl stuff) c) else class_member stuff)"

text \<open>The content of a bracket and the rest of the pattern; a bracket that never closes is a
  literal. A closing bracket that comes first belongs to the class.\<close>

definition class_end :: "string \<Rightarrow> nat" where
  "class_end s =
     (let i = (if starts_with s ''!'' then 1 else 0);
          j = (if starts_with (drop i s) '']'' then i + 1 else i)
      in j + length (takeWhile (\<lambda>c. c \<noteq> CHR '']'') (drop j s)))"

definition bracket :: "string \<Rightarrow> (string \<times> string) option" where
  "bracket s = (let j = class_end s in if j < length s then Some (take j s, drop (Suc j) s) else None)"

function glob_rx :: "string \<Rightarrow> rx" where
  "glob_rx [] = ROne"
| "glob_rx (c # cs) =
     (if c = CHR ''*'' then RSeq (RStar (RChr (\<lambda>_. True))) (glob_rx cs)
      else if c = CHR ''?'' then RSeq (RChr (\<lambda>_. True)) (glob_rx cs)
      else if c = CHR ''['' then
        (case bracket cs of
           None \<Rightarrow> RSeq (RChr (\<lambda>d. d = c)) (glob_rx cs)
         | Some (stuff, zs) \<Rightarrow> RSeq (class_rx stuff) (glob_rx zs))
      else RSeq (RChr (\<lambda>d. d = c)) (glob_rx cs))"
  by pat_completeness auto
termination
  by (relation "measure length") (auto simp: bracket_def Let_def split: if_splits)

definition glob_match :: "string \<Rightarrow> string \<Rightarrow> bool" where
  "glob_match pattern path = fullmatch (glob_rx pattern) path"

text \<open>\<open>gate_config.is_repository_relative_glob\<close>: not absolute, no \<open>..\<close>, no drive, no backslash.\<close>

definition is_repository_relative_glob :: "yval \<Rightarrow> bool" where
  "is_repository_relative_glob v =
     (case v of
        YStr s \<Rightarrow>
          s \<noteq> [] \<and> \<not> starts_with s ''/'' \<and> ''..'' \<notin> set (split_on (CHR ''/'') s) \<and>
          take 1 (drop 1 s) \<noteq> '':'' \<and> CHR 0x5C \<notin> set s
      | _ \<Rightarrow> False)"

subsection \<open>The manifest\<close>

record gate_unit =
  gu_name :: string
  gu_inputs :: "string list"
  gu_depends_on :: "string list"
  gu_command :: string
  gu_env :: "(string \<times> string) list"

record unit_manifest =
  um_jobs :: int
  um_repo_wide :: "string option"
  um_setup :: "string option"
  um_shared_inputs :: "string list"
  um_units :: "gate_unit list"
  um_digest :: string
  um_implicit :: bool

datatype units_refusal = Units_Invalid | Units_Command_Failed

text \<open>A \<open>ManifestError\<close>: its reason and its message.\<close>

type_synonym 'a units = "(units_refusal \<times> string) + 'a"

definition invalid_units :: "string \<Rightarrow> 'a units" where
  "invalid_units message = Inl (Units_Invalid, message)"

definition read_glob :: "yval \<Rightarrow> string \<Rightarrow> string units" where
  "read_glob v location =
     (if is_repository_relative_glob v then (case v of YStr s \<Rightarrow> Inr s | _ \<Rightarrow> Inr [])
      else invalid_units (location @ '': '' @ yrepr v @ '' is not a repository-relative glob''))"

fun read_globs :: "yval \<Rightarrow> string \<Rightarrow> string list units" where
  "read_globs (YList vs) location = map_res (\<lambda>v. read_glob v location) vs"
| "read_globs _ location = invalid_units (location @ '': not a list of repository-relative globs'')"

definition read_command :: "yval \<Rightarrow> string \<Rightarrow> string units" where
  "read_command v location =
     (case v of
        YStr s \<Rightarrow> if strip s = [] then invalid_units (location @ '': command must be a non-empty string'') else Inr s
      | _ \<Rightarrow> invalid_units (location @ '': command must be a non-empty string''))"

definition optional_command :: "ymap \<Rightarrow> string \<Rightarrow> string option units" where
  "optional_command data key =
     (if \<not> has_key data key then Inr None
      else case yget data key of
             YMap block \<Rightarrow> bind_res (read_command (yget block ''command'') key) (\<lambda>c. Inr (Some c))
           | _ \<Rightarrow> invalid_units (key @ '': must be a mapping with a command''))"

definition UNIT_NAME :: rx where
  "UNIT_NAME =
     (let small = (\<lambda>c. is_ascii_lower c \<or> is_digit c)
      in RSeq (RChr small) (RStar (RChr (\<lambda>c. small c \<or> c \<in> set ''._-''))))"

fun text_items :: "yval \<Rightarrow> string list option" where
  "text_items (YList vs) =
     (if list_all is_text vs then Some (List.map_filter (\<lambda>v. case v of YStr s \<Rightarrow> Some s | _ \<Rightarrow> None) vs) else None)"
| "text_items _ = None"

fun text_entries :: "yval \<Rightarrow> (string \<times> string) list option" where
  "text_entries (YMap kvs) =
     (if list_all (is_text \<circ> snd) kvs
      then Some (List.map_filter (\<lambda>(k, v). case v of YStr s \<Rightarrow> Some (k, s) | _ \<Rightarrow> None) kvs) else None)"
| "text_entries _ = None"

text \<open>\<open>value.get(key, default)\<close>.\<close>

definition yget_or :: "yval \<Rightarrow> ymap \<Rightarrow> string \<Rightarrow> yval" where
  "yget_or d m k = (case map_of m k of None \<Rightarrow> d | Some v \<Rightarrow> v)"

definition unit_name :: "yval \<Rightarrow> string option" where
  "unit_name v = (case v of YStr s \<Rightarrow> if fullmatch UNIT_NAME s then Some s else None | _ \<Rightarrow> None)"

definition read_unit :: "yval \<Rightarrow> gate_unit units" where
  "read_unit v =
     (case v of
        YMap data \<Rightarrow>
          (case unit_name (yget data ''name'') of
             None \<Rightarrow> invalid_units (''units: name '' @ yrepr (yget data ''name'') @ '' must match [a-z0-9][a-z0-9._-]*'')
           | Some name \<Rightarrow>
               (case text_items (yget_or (YList []) data ''depends_on'') of
                  None \<Rightarrow> invalid_units (''units.'' @ name @ ''.depends_on: not a list of unit names'')
                | Some depends \<Rightarrow>
                    (case text_entries (yget_or (YMap []) data ''env'') of
                       None \<Rightarrow> invalid_units (''units.'' @ name @ ''.env: must map strings to strings'')
                     | Some env \<Rightarrow>
                         bind_res (read_globs (yget data ''inputs'') (''units.'' @ name @ ''.inputs'')) (\<lambda>inputs.
                         bind_res (read_command (yget data ''command'') (''units.'' @ name)) (\<lambda>command.
                         Inr \<lparr>gu_name = name, gu_inputs = inputs, gu_depends_on = sort (remdups depends),
                              gu_command = command, gu_env = sort env\<rparr>)))))
      | _ \<Rightarrow> invalid_units ''units: every unit must be a mapping'')"

subsection \<open>The dependency graph of the units\<close>

text \<open>The local variables of \<open>_check_graph\<close>: the state of a unit is \<open>On_Stack\<close> (1) while it is on the
  stack, \<open>Finished\<close> (2) when it is done; a frame is a unit and how many of its dependencies its
  iterator has given.\<close>

datatype unit_mark = On_Stack | Finished

record graph_check =
  ck_state :: "(string \<times> unit_mark) list"
  ck_stack :: "(string \<times> nat) list"

definition unit_graph :: "gate_unit list \<Rightarrow> graph" where
  "unit_graph units = map (\<lambda>u. (gu_name u, gu_depends_on u)) units"

fun first_repeat :: "string list \<Rightarrow> string list \<Rightarrow> string option" where
  "first_repeat seen [] = None"
| "first_repeat seen (n # ns) = (if n \<in> set seen then Some n else first_repeat (n # seen) ns)"

definition undeclared :: "gate_unit list \<Rightarrow> (string \<times> string) list" where
  "undeclared units =
     [(gu_name u, d). u \<leftarrow> units, d \<leftarrow> gu_depends_on u, d \<notin> set (map gu_name units)]"

definition check_step :: "graph \<Rightarrow> graph_check \<Rightarrow> graph_check units option" where
  "check_step g s =
     (case ck_stack s of
        [] \<Rightarrow> None
      | (node, given) # below \<Rightarrow>
          if length (successors g node) \<le> given
          then Some (Inr \<lparr>ck_state = AList.update node Finished (ck_state s), ck_stack = below\<rparr>)
          else
            let dependency = successors g node ! given; stack = (node, Suc given) # below
            in if map_of (ck_state s) dependency = Some On_Stack
               then Some (invalid_units (''units: dependency cycle '' @
                      join '' -> '' (rev (map fst stack) @ [dependency])))
               else if map_of (ck_state s) dependency \<noteq> Some Finished
               then Some (Inr \<lparr>ck_state = AList.update dependency On_Stack (ck_state s),
                               ck_stack = (dependency, 0) # stack\<rparr>)
               else Some (Inr (s\<lparr>ck_stack := stack\<rparr>)))"

definition fresh_nodes :: "graph \<Rightarrow> graph_check \<Rightarrow> string set" where
  "fresh_nodes g s = \<Union> (set ` snd ` set g) - dom (map_of (ck_state s))"

lemma finite_fresh_nodes [simp]: "finite (fresh_nodes g s)"
  by (simp add: fresh_nodes_def)

lemma successors_mem: "b \<in> set (successors g a) \<Longrightarrow> b \<in> \<Union> (set ` snd ` set g)"
  by (auto simp: successors_def split: option.splits dest: map_of_SomeD [OF sym] map_of_SomeD intro!: bexI)

definition given_left :: "graph \<Rightarrow> graph_check \<Rightarrow> nat" where
  "given_left g s = (\<Sum>(n, i) \<leftarrow> ck_stack s. Suc (length (successors g n) - i))"

definition check_order :: "graph \<Rightarrow> (graph_check \<times> graph_check) set" where
  "check_order g = measures [\<lambda>s. card (fresh_nodes g s), given_left g]"

lemma wf_check_order: "wf (check_order g)"
  by (simp add: check_order_def)

lemma check_step_decreases:
  assumes "check_step g s = Some (Inr s')"
  shows "(s', s) \<in> check_order g"
proof -
  obtain node i below where stack: "ck_stack s = (node, i) # below"
    using assms by (cases "ck_stack s") (auto simp: check_step_def)
  have fewer: "card (fresh_nodes g \<lparr>ck_state = AList.update k c (ck_state s), ck_stack = fs\<rparr>) \<le> card (fresh_nodes g s)"
    for k c fs
    by (rule card_mono) (auto simp: fresh_nodes_def update_conv')
  have less: "card (fresh_nodes g \<lparr>ck_state = AList.update k c (ck_state s), ck_stack = fs\<rparr>) < card (fresh_nodes g s)"
    if "k \<in> fresh_nodes g s" for k c fs
    using that by (intro psubset_card_mono) (auto simp: fresh_nodes_def update_conv')
  show ?thesis
  proof (cases "length (successors g node) \<le> i")
    case True
    with assms stack fewer [of node Finished below] show ?thesis
      by (auto simp: check_step_def check_order_def given_left_def)
  next
    case False
    then have "successors g node ! i \<in> \<Union> (set ` snd ` set g)"
      by (intro successors_mem [of _ _ node]) simp
    then have fresh: "successors g node ! i \<in> fresh_nodes g s" if "map_of (ck_state s) (successors g node ! i) = None"
      using that by (auto simp: fresh_nodes_def)
    have same: "fresh_nodes g (s\<lparr>ck_stack := fs\<rparr>) = fresh_nodes g s" for fs by (simp add: fresh_nodes_def)
    show ?thesis
    proof (cases "map_of (ck_state s) (successors g node ! i)")
      case None
      with assms stack False less [OF fresh [OF None]] show ?thesis
        by (auto simp: check_step_def check_order_def Let_def)
    next
      case (Some c)
      with assms stack False show ?thesis
        by (cases c) (auto simp: check_step_def check_order_def given_left_def same Let_def invalid_units_def split: if_splits)
    qed
  qed
qed

function check_loop :: "graph \<Rightarrow> graph_check \<Rightarrow> graph_check units" where
  "check_loop g s =
     (case check_step g s of None \<Rightarrow> Inr s | Some r \<Rightarrow> bind_res r (check_loop g))"
  by pat_completeness auto
termination
  by (relation "same_fst (\<lambda>_. True) check_order")
    (auto intro!: wf_same_fst wf_check_order check_step_decreases)

declare check_loop.simps [simp del]

fun check_roots :: "graph \<Rightarrow> string list \<Rightarrow> (string \<times> unit_mark) list \<Rightarrow> unit units" where
  "check_roots g [] marks = Inr ()"
| "check_roots g (root # roots) marks =
     (if map_of marks root = Some Finished then check_roots g roots marks
      else bind_res (check_loop g \<lparr>ck_state = AList.update root On_Stack marks, ck_stack = [(root, 0)]\<rparr>)
             (\<lambda>s. check_roots g roots (ck_state s)))"

definition check_graph :: "gate_unit list \<Rightarrow> unit units" where
  "check_graph units =
     (case first_repeat [] (map gu_name units) of
        Some n \<Rightarrow> invalid_units (''units: duplicate unit name '' @ repr n)
      | None \<Rightarrow>
          (case undeclared units of
             (n, d) # _ \<Rightarrow> invalid_units (''units.'' @ n @ ''.depends_on: '' @ repr d @ '' is not a declared unit'')
           | [] \<Rightarrow> check_roots (unit_graph units) (map gu_name units) []))"

subsection \<open>The search refuses exactly the cyclic graphs\<close>

definition finished :: "graph_check \<Rightarrow> string set" where
  "finished s = {k. map_of (ck_state s) k = Some Finished}"

definition declared :: "graph \<Rightarrow> bool" where
  "declared g \<longleftrightarrow> (\<forall>a. set (successors g a) \<subseteq> fst ` set g)"

lemma declared_nth: "declared g \<Longrightarrow> i < length (successors g n) \<Longrightarrow> successors g n ! i \<in> fst ` set g"
  by (meson declared_def nth_mem subsetD)

definition check_inv :: "graph \<Rightarrow> graph_check \<Rightarrow> bool" where
  "check_inv g s \<longleftrightarrow>
     (\<forall>c. map_of (ck_state s) c = Some On_Stack \<longleftrightarrow> c \<in> fst ` set (ck_stack s)) \<and>
     distinct (map fst (ck_stack s)) \<and> fst ` set (ck_stack s) \<subseteq> fst ` set g \<and>
     successively (\<lambda>a b. (a, b) \<in> edges_of g) (rev (map fst (ck_stack s))) \<and>
     edges_of g `` finished s \<subseteq> finished s \<and> acyclic (edges_of g \<inter> finished s \<times> finished s) \<and>
     frames_ok g (finished s) None (ck_stack s)"

lemma check_pop:
  assumes inv: "check_inv g s" and stack: "ck_stack s = (node, i) # below" and "declared g"
    and all: "length (successors g node) \<le> i"
  shows "check_inv g \<lparr>ck_state = AList.update node Finished (ck_state s), ck_stack = below\<rparr>" (is "check_inv g ?s")
proof -
  have B: "finished ?s = insert node (finished s)" by (auto simp: finished_def update_conv')
  have out: "edges_of g `` {node} \<subseteq> finished s"
    using inv all unfolding check_inv_def stack by (auto simp: edges_of_def)
  have "acyclic (edges_of g \<inter> insert node (finished s) \<times> insert node (finished s))"
    using inv out by (intro acyclic_insert_source) (auto simp: check_inv_def)
  moreover have "frames_ok g (insert node (finished s)) None below"
    using inv unfolding check_inv_def stack by (auto elim!: frames_ok_mono)
  moreover have "edges_of g `` insert node (finished s) \<subseteq> insert node (finished s)"
    using inv out by (auto simp: check_inv_def)
  ultimately show ?thesis
    using inv unfolding check_inv_def B stack by (auto simp: update_conv' successively_append_iff)
qed

lemma check_next:
  assumes inv: "check_inv g s" and stack: "ck_stack s = (node, i) # below"
    and child: "i < length (successors g node)" "map_of (ck_state s) (successors g node ! i) = Some Finished"
  shows "check_inv g (s\<lparr>ck_stack := (node, Suc i) # below\<rparr>)"
proof -
  have "finished (s\<lparr>ck_stack := (node, Suc i) # below\<rparr>) = finished s" by (simp add: finished_def)
  moreover have "successors g node ! i \<in> finished s" using child by (simp add: finished_def)
  ultimately show ?thesis
    using inv child(1) unfolding check_inv_def stack by (auto simp: take_Suc_conv_app_nth)
qed

lemma check_push:
  assumes inv: "check_inv g s" and stack: "ck_stack s = (node, i) # below" and "declared g"
    and child: "i < length (successors g node)" "d = successors g node ! i" "map_of (ck_state s) d = None"
  shows "check_inv g \<lparr>ck_state = AList.update d On_Stack (ck_state s), ck_stack = (d, 0) # (node, Suc i) # below\<rparr>"
    (is "check_inv g ?s")
proof -
  have B: "finished ?s = finished s" using child(3) by (auto simp: finished_def update_conv')
  have node: "node \<in> fst ` set g" using inv unfolding check_inv_def stack by simp
  have d: "d \<in> fst ` set g" using declared_nth [OF \<open>declared g\<close> child(1)] child(2) by simp
  then have edge: "(node, d) \<in> edges_of g" using child(1,2) node by (simp add: edges_of_def)
  have fresh: "d \<notin> fst ` set (ck_stack s)" using inv child(3) unfolding check_inv_def by (metis option.distinct(1))
  have "take (Suc i) (successors g node) = take i (successors g node) @ [d]"
    using child(1,2) by (simp add: take_Suc_conv_app_nth)
  with inv d edge fresh show ?thesis
    unfolding check_inv_def B stack by (auto simp: update_conv' successively_append_iff)
qed

lemma check_close:
  assumes inv: "check_inv g s" and stack: "ck_stack s = (node, i) # below" and "declared g"
    and child: "i < length (successors g node)" "d = successors g node ! i" "map_of (ck_state s) d = Some On_Stack"
  shows "\<not> acyclic (edges_of g)"
proof -
  have "d \<in> set (rev (map fst (ck_stack s)))" using inv child(3) by (simp add: check_inv_def)
  then obtain xs ys where split: "rev (map fst (ck_stack s)) = xs @ [d] @ ys" by (metis append_Cons append_Nil split_list)
  then have "last ([d] @ ys) = last (rev (map fst (ck_stack s)))" by (metis append_is_Nil_conv last_appendR list.distinct(1))
  then have "last ([d] @ ys) = node" by (simp add: stack last_rev)
  moreover have "(node, d) \<in> edges_of g"
    using inv declared_nth [OF \<open>declared g\<close> child(1)] child(1,2)
    unfolding check_inv_def stack by (simp add: edges_of_def)
  moreover have "successively (\<lambda>a b. (a, b) \<in> edges_of g) (xs @ [d] @ ys)"
    using inv split by (simp add: check_inv_def)
  ultimately have "(d, d) \<in> (edges_of g)\<^sup>+" by (intro path_segment_cycle [of _ xs d ys]) auto
  then show ?thesis by (auto simp: acyclic_def)
qed

lemma check_step_inv:
  assumes inv: "check_inv g s" and g: "declared g" and step: "check_step g s = Some r"
  shows "(\<exists>s'. r = Inr s' \<and> check_inv g s' \<and> dom (map_of (ck_state s)) \<subseteq> dom (map_of (ck_state s'))) \<or>
    ((\<exists>e. r = Inl e) \<and> \<not> acyclic (edges_of g))"
proof -
  obtain node i below where stack: "ck_stack s = (node, i) # below"
    using step by (cases "ck_stack s") (auto simp: check_step_def)
  let ?d = "successors g node ! i"
  show ?thesis
  proof (cases "length (successors g node) \<le> i")
    case True
    with check_pop [OF inv stack g True] step stack show ?thesis by (auto simp: check_step_def update_conv')
  next
    case False
    then have i: "i < length (successors g node)" by simp
    note step = step [unfolded check_step_def stack list.case prod.case Let_def if_not_P [OF False]]
    consider "map_of (ck_state s) ?d = None" | "map_of (ck_state s) ?d = Some On_Stack" | "map_of (ck_state s) ?d = Some Finished"
      by (cases "map_of (ck_state s) ?d") (auto intro: unit_mark.exhaust)
    then show ?thesis
    proof cases
      case 1
      with step check_push [OF inv stack g i refl 1] show ?thesis by (auto simp: update_conv')
    next
      case 2
      with step check_close [OF inv stack g i refl 2] show ?thesis by (auto simp: invalid_units_def)
    next
      case 3
      with step check_next [OF inv stack i 3] show ?thesis by auto
    qed
  qed
qed

lemma check_loop_inv:
  assumes "declared g"
  shows "check_inv g s \<Longrightarrow>
    (\<exists>s'. check_loop g s = Inr s' \<and> check_inv g s' \<and> ck_stack s' = [] \<and> dom (map_of (ck_state s)) \<subseteq> dom (map_of (ck_state s'))) \<or>
    ((\<exists>e. check_loop g s = Inl e) \<and> \<not> acyclic (edges_of g))"
  using assms
proof (induction g s rule: check_loop.induct)
  case (1 g s)
  show ?case
  proof (cases "check_step g s")
    case None
    then have "ck_stack s = []" by (auto simp: check_step_def Let_def split: list.splits if_splits)
    with None 1 show ?thesis by (simp add: check_loop.simps [of g s])
  next
    case (Some r)
    from check_step_inv [OF "1.prems" this] consider
        s' where "r = Inr s'" "check_inv g s'" "dom (map_of (ck_state s)) \<subseteq> dom (map_of (ck_state s'))"
      | e where "r = Inl e" "\<not> acyclic (edges_of g)" by blast
    then show ?thesis
    proof cases
      case 1
      with "1.IH" [OF Some _ 1(2)] "1.prems"(2) Some show ?thesis
        by (auto simp: check_loop.simps [of g s])
    next
      case 2
      with Some show ?thesis by (simp add: check_loop.simps [of g s])
    qed
  qed
qed

lemma check_roots_spec:
  assumes "declared g"
  shows "check_inv g \<lparr>ck_state = marks, ck_stack = []\<rparr> \<Longrightarrow> set roots \<subseteq> fst ` set g \<Longrightarrow>
    (check_roots g roots marks = Inr () \<and>
       (\<exists>s. check_inv g s \<and> ck_stack s = [] \<and> dom (map_of marks) \<union> set roots \<subseteq> dom (map_of (ck_state s)))) \<or>
    ((\<exists>e. check_roots g roots marks = Inl e) \<and> \<not> acyclic (edges_of g))"
proof (induction roots arbitrary: marks)
  case Nil
  then show ?case by (auto intro: exI [of _ "\<lparr>ck_state = marks, ck_stack = []\<rparr>"])
next
  case (Cons root roots)
  show ?case
  proof (cases "map_of marks root = Some Finished")
    case True
    then have root: "root \<in> dom (map_of marks)" by blast
    have "insert root (dom (map_of marks) \<union> set roots) = dom (map_of marks) \<union> set roots" using root by blast
    with Cons.IH [OF Cons.prems(1)] Cons.prems(2) True show ?thesis by simp
  next
    case False
    let ?s = "\<lparr>ck_state = AList.update root On_Stack marks, ck_stack = [(root, 0)]\<rparr>"
    have none: "map_of marks c \<noteq> Some On_Stack" for c using Cons.prems(1) by (simp add: check_inv_def)
    have "finished ?s = finished \<lparr>ck_state = marks, ck_stack = []\<rparr>"
      using False by (auto simp: finished_def update_conv')
    then have inv: "check_inv g ?s" using Cons.prems none by (auto simp: check_inv_def update_conv')
    from check_loop_inv [OF assms inv] show ?thesis
    proof
      assume "\<exists>s'. check_loop g ?s = Inr s' \<and> check_inv g s' \<and> ck_stack s' = [] \<and>
        dom (map_of (ck_state ?s)) \<subseteq> dom (map_of (ck_state s'))"
      then obtain s' where s': "check_loop g ?s = Inr s'" "check_inv g s'" "ck_stack s' = []"
        "insert root (dom (map_of marks)) \<subseteq> dom (map_of (ck_state s'))" by (auto simp: update_conv')
      then have "check_inv g \<lparr>ck_state = ck_state s', ck_stack = []\<rparr>" by (cases s') simp
      from Cons.IH [OF this] Cons.prems(2) consider
          s where "check_roots g roots (ck_state s') = Inr ()" "check_inv g s" "ck_stack s = []"
            "dom (map_of (ck_state s')) \<union> set roots \<subseteq> dom (map_of (ck_state s))"
        | e where "check_roots g roots (ck_state s') = Inl e" "\<not> acyclic (edges_of g)" by auto
      then show ?thesis
      proof cases
        case 1
        with s'(4) have "dom (map_of marks) \<union> set (root # roots) \<subseteq> dom (map_of (ck_state s))" by (simp; blast)
        with 1 s'(1) False show ?thesis by (simp; blast)
      qed (use s'(1) False in simp)
    qed (use False in auto)
  qed
qed

lemma check_roots_iff:
  assumes "declared g"
  shows "check_roots g (map fst g) [] = Inr () \<longleftrightarrow> acyclic (edges_of g)"
proof -
  have "check_inv g \<lparr>ck_state = [], ck_stack = []\<rparr>" by (simp add: check_inv_def finished_def acyclic_def)
  from check_roots_spec [OF assms this, of "map fst g"]
  consider s where "check_roots g (map fst g) [] = Inr ()" "check_inv g s" "ck_stack s = []" "fst ` set g \<subseteq> dom (map_of (ck_state s))"
    | e where "check_roots g (map fst g) [] = Inl e" "\<not> acyclic (edges_of g)" by auto
  then show ?thesis
  proof cases
    case 1
    have "map_of (ck_state s) c = Some Finished" if "c \<in> fst ` set g" for c
    proof -
      from that 1(4) obtain m where "map_of (ck_state s) c = Some m" by auto
      with 1(2,3) show ?thesis by (cases m) (auto simp: check_inv_def)
    qed
    then have "edges_of g \<inter> finished s \<times> finished s = edges_of g" by (auto simp: edges_of_def finished_def)
    with 1(1,2) show ?thesis by (simp add: check_inv_def)
  qed simp
qed

text \<open>What a dependency graph of units must satisfy, as the code means it.\<close>

definition depends_rel :: "gate_unit list \<Rightarrow> (string \<times> string) set" where
  "depends_rel units = {(gu_name u, d) | u d. u \<in> set units \<and> d \<in> set (gu_depends_on u)}"

definition sound_graph :: "gate_unit list \<Rightarrow> bool" where
  "sound_graph units \<longleftrightarrow>
     distinct (map gu_name units) \<and> Range (depends_rel units) \<subseteq> gu_name ` set units \<and> acyclic (depends_rel units)"

lemma first_repeat_None: "first_repeat seen ns = None \<longleftrightarrow> distinct ns \<and> set seen \<inter> set ns = {}"
  by (induction ns arbitrary: seen) auto

lemma undeclared_Nil: "undeclared units = [] \<longleftrightarrow> Range (depends_rel units) \<subseteq> gu_name ` set units"
  by (auto simp: undeclared_def depends_rel_def Range_iff)

lemma unit_graph_edges:
  assumes "distinct (map gu_name units)" and "Range (depends_rel units) \<subseteq> gu_name ` set units"
  shows "declared (unit_graph units)" and "edges_of (unit_graph units) = depends_rel units"
proof -
  have names: "fst ` set (unit_graph units) = gu_name ` set units" by (force simp: unit_graph_def)
  have succ: "b \<in> set (successors (unit_graph units) a) \<longleftrightarrow> (a, b) \<in> depends_rel units" for a b
  proof -
    have "map_of (unit_graph units) (gu_name u) = Some (gu_depends_on u)" if "u \<in> set units" for u
      using assms(1) that by (intro map_of_is_SomeI) (auto simp: unit_graph_def o_def split_beta)
    moreover have "map_of (unit_graph units) a = None" if "a \<notin> gu_name ` set units"
      using that names by (simp add: map_of_eq_None_iff)
    moreover have "u = v" if "u \<in> set units" "v \<in> set units" "gu_name u = gu_name v" for u v
      using that assms(1) by (metis distinct_map inj_onD)
    ultimately show ?thesis
      by (cases "a \<in> gu_name ` set units") (auto simp: successors_def depends_rel_def)
  qed
  from assms(2) show "declared (unit_graph units)" by (auto simp: declared_def names succ subset_iff Range_iff)
  from assms(2) show "edges_of (unit_graph units) = depends_rel units"
    by (auto simp: edges_of_def names succ Range_iff subset_iff) (auto simp: depends_rel_def)
qed

lemma check_graph_iff: "check_graph units = Inr () \<longleftrightarrow> sound_graph units"
proof (cases "distinct (map gu_name units) \<and> Range (depends_rel units) \<subseteq> gu_name ` set units")
  case True
  then have "first_repeat [] (map gu_name units) = None" "undeclared units = []"
    by (simp_all add: first_repeat_None undeclared_Nil)
  moreover have "map fst (unit_graph units) = map gu_name units" by (simp add: unit_graph_def o_def)
  ultimately show ?thesis
    using check_roots_iff [of "unit_graph units"] unit_graph_edges True by (simp add: check_graph_def sound_graph_def)
next
  case False
  then show ?thesis
    using first_repeat_None [of "[]" "map gu_name units"] undeclared_Nil [of units]
    by (auto simp: check_graph_def sound_graph_def invalid_units_def split: option.splits list.splits)
qed

subsection \<open>Reading a manifest\<close>

text \<open>
  \<open>json.loads\<close> hands each object's pairs, in order and with repeats, to \<open>_json_object\<close>, the inner
  objects first. The model starts from that raw tree (\<open>None\<close>: the text is not JSON); an
  object of the raw tree is a \<open>YMap\<close> whose keys may repeat.
\<close>

fun json_object :: "ymap \<Rightarrow> ymap \<Rightarrow> ymap units" where
  "json_object data [] = Inr data"
| "json_object data ((k, v) # pairs) =
     (if has_key data k then invalid_units (''manifest: duplicate JSON object key '' @ repr k)
      else json_object (data @ [(k, v)]) pairs)"

fun json_value :: "yval \<Rightarrow> yval units" and json_values :: "yval list \<Rightarrow> yval list units"
  and json_pairs :: "ymap \<Rightarrow> ymap units" where
  "json_value (YList vs) = bind_res (json_values vs) (\<lambda>ws. Inr (YList ws))"
| "json_value (YMap pairs) =
     bind_res (json_pairs pairs) (\<lambda>read. bind_res (json_object [] read) (\<lambda>data. Inr (YMap data)))"
| "json_value v = Inr v"
| "json_values [] = Inr []"
| "json_values (v # vs) = bind_res (json_value v) (\<lambda>w. bind_res (json_values vs) (\<lambda>ws. Inr (w # ws)))"
| "json_pairs [] = Inr []"
| "json_pairs ((k, v) # pairs) =
     bind_res (json_value v) (\<lambda>w. bind_res (json_pairs pairs) (\<lambda>read. Inr ((k, w) # read)))"

definition read_manifest :: "(yval \<Rightarrow> string) \<Rightarrow> yval \<Rightarrow> unit_manifest units" where
  "read_manifest digest v =
     (case v of
        YMap data \<Rightarrow>
          if yget data ''version'' \<noteq> YInt 1
          then invalid_units (''version: '' @ yrepr (yget data ''version'') @ '' is not 1'')
          else
            (case (yget data ''jobs'', yget data ''units'') of
               (YInt jobs, YList (u # us)) \<Rightarrow>
                 if jobs < 1 then invalid_units (''jobs: '' @ int_str jobs @ '' is not a positive integer'')
                 else
                   bind_res (map_res read_unit (u # us)) (\<lambda>units.
                   bind_res (check_graph units) (\<lambda>_.
                   bind_res (optional_command data ''repo_wide'') (\<lambda>repo_wide.
                   bind_res (optional_command data ''setup'') (\<lambda>set_up.
                   bind_res (read_globs (yget_or (YList []) data ''shared_inputs'') ''shared_inputs'') (\<lambda>shared.
                   Inr \<lparr>um_jobs = jobs, um_repo_wide = repo_wide, um_setup = set_up, um_shared_inputs = shared,
                        um_units = units, um_digest = digest v, um_implicit = False\<rparr>)))))
             | (YInt jobs, _) \<Rightarrow>
                 if jobs < 1 then invalid_units (''jobs: '' @ int_str jobs @ '' is not a positive integer'')
                 else invalid_units ''units: must be a non-empty list''
             | (jobs, _) \<Rightarrow> invalid_units (''jobs: '' @ yrepr jobs @ '' is not a positive integer''))
      | _ \<Rightarrow> invalid_units ''manifest: not a JSON object'')"

definition parse_manifest :: "(yval \<Rightarrow> string) \<Rightarrow> string + yval \<Rightarrow> unit_manifest units" where
  "parse_manifest digest decoded =
     (case decoded of
        Inl exc \<Rightarrow> Inl (Units_Command_Failed, ''gate.units printed no JSON manifest ('' @ exc @ '')'')
      | Inr raw \<Rightarrow> bind_res (json_value raw) (read_manifest digest))"

definition TREE_UNIT :: string where "TREE_UNIT = ''tree''"

definition implicit_manifest :: "(yval \<Rightarrow> string) \<Rightarrow> string \<Rightarrow> unit_manifest" where
  "implicit_manifest digest full_command =
     \<lparr>um_jobs = 1, um_repo_wide = None, um_setup = None, um_shared_inputs = [],
      um_units = [\<lparr>gu_name = TREE_UNIT, gu_inputs = [], gu_depends_on = [], gu_command = full_command, gu_env = []\<rparr>],
      um_digest = digest (YMap [(''implicit'', YStr full_command)]), um_implicit = True\<rparr>"

text \<open>What \<open>load_manifest\<close> makes of the command's exit: its code, and its output decoded and its errors.\<close>

definition load_manifest ::
  "(yval \<Rightarrow> string) \<Rightarrow> string \<Rightarrow> string \<Rightarrow> string + (int \<times> (string + yval) \<times> string) \<Rightarrow> unit_manifest units" where
  "load_manifest digest command worktree run =
     (case run of
        Inl exc \<Rightarrow> Inl (Units_Command_Failed, BACKTICK # command @ BACKTICK # '' could not run in '' @ worktree @ '': '' @ exc)
      | Inr (code, out, err) \<Rightarrow>
          if code \<noteq> 0
          then let ls = splitlines (strip err)
               in Inl (Units_Command_Failed, BACKTICK # command @ BACKTICK # '' exited '' @ int_str code @ '' in '' @ worktree @
                    '': exit '' @ int_str code @ CHR 0x0A # join [CHR 0x0A] (drop (length ls - 10) ls))
          else parse_manifest digest out)"

subsection \<open>Every manifest that is accepted is well formed\<close>

definition wf_unit :: "gate_unit \<Rightarrow> bool" where
  "wf_unit u \<longleftrightarrow>
     fullmatch UNIT_NAME (gu_name u) \<and> (\<forall>g \<in> set (gu_inputs u). is_repository_relative_glob (YStr g)) \<and>
     sorted (gu_depends_on u) \<and> distinct (gu_depends_on u) \<and> strip (gu_command u) \<noteq> [] \<and>
     sorted (gu_env u) \<and> distinct (map fst (gu_env u))"

definition wf_manifest :: "unit_manifest \<Rightarrow> bool" where
  "wf_manifest m \<longleftrightarrow>
     1 \<le> um_jobs m \<and> um_units m \<noteq> [] \<and> (\<forall>u \<in> set (um_units m). wf_unit u) \<and> sound_graph (um_units m) \<and>
     (\<forall>g \<in> set (um_shared_inputs m). is_repository_relative_glob (YStr g)) \<and>
     (\<forall>c. um_repo_wide m = Some c \<or> um_setup m = Some c \<longrightarrow> strip c \<noteq> [])"

text \<open>Decoded JSON: the keys of every object differ.\<close>

fun json_ok :: "yval \<Rightarrow> bool" where
  "json_ok (YList vs) = list_all json_ok vs"
| "json_ok (YMap kvs) = (distinct (map fst kvs) \<and> list_all (\<lambda>(_, v). json_ok v) kvs)"
| "json_ok _ = True"

lemma json_object_Inr:
  "json_object data pairs = Inr d \<longleftrightarrow> d = data @ pairs \<and> (distinct (map fst data) \<longrightarrow> distinct (map fst d)) \<and>
     fst ` set data \<inter> fst ` set pairs = {} \<and> distinct (map fst pairs)"
  by (induction data pairs arbitrary: d rule: json_object.induct) (auto simp: invalid_units_def)

lemma json_value_ok:
  "json_value v = Inr w \<Longrightarrow> json_ok w \<and> w = v"
  "json_values vs = Inr ws \<Longrightarrow> list_all json_ok ws \<and> ws = vs"
  "json_pairs kvs = Inr read \<Longrightarrow> list_all (\<lambda>(_, v). json_ok v) read \<and> read = kvs"
  by (induction v and vs and kvs arbitrary: w and ws and read rule: json_value_json_values_json_pairs.induct)
    (auto simp: bind_res_eq_Inr json_object_Inr)

lemma units_bind_Inr [simp]: "bind_res r f = Inr y \<longleftrightarrow> (\<exists>x. r = Inr x \<and> f x = Inr y)" for f :: "'a \<Rightarrow> 'b units"
  by (simp add: bind_res_eq_Inr)

lemma invalid_units_Inr [simp]: "invalid_units message \<noteq> Inr x"
  by (simp add: invalid_units_def)

lemma read_glob_Inr: "read_glob v location = Inr g \<Longrightarrow> v = YStr g \<and> is_repository_relative_glob v"
  by (auto simp: read_glob_def is_repository_relative_glob_def split: if_splits yval.splits)

lemma list_all2_origin: "list_all2 P xs ys \<Longrightarrow> y \<in> set ys \<Longrightarrow> \<exists>x \<in> set xs. P x y"
  by (induction rule: list_all2_induct) auto

lemma read_globs_Inr:
  assumes "read_globs v location = Inr gs" and "g \<in> set gs"
  shows "is_repository_relative_glob (YStr g)"
proof -
  obtain vs where "list_all2 (\<lambda>v g. read_glob v location = Inr g) vs gs"
    using assms(1) by (cases v) (auto simp: map_res_Inr_iff)
  then obtain w where "read_glob w location = Inr g"
    using list_all2_origin [OF _ assms(2)] by blast
  with read_glob_Inr show ?thesis by blast
qed

lemma read_command_Inr: "read_command v location = Inr c \<Longrightarrow> strip c \<noteq> []"
  by (auto simp: read_command_def split: yval.splits if_splits)

lemma optional_command_Inr: "optional_command data key = Inr (Some c) \<Longrightarrow> strip c \<noteq> []"
  by (auto simp: optional_command_def split: yval.splits if_splits dest: read_command_Inr)

lemma unit_name_Some: "unit_name v = Some n \<Longrightarrow> fullmatch UNIT_NAME n"
  by (auto simp: unit_name_def split: yval.splits if_splits)

lemma text_entries_keys: "text_entries (YMap kvs) = Some env \<Longrightarrow> map fst env = map fst kvs"
proof (induction kvs arbitrary: env)
  case (Cons kv kvs)
  obtain k v where kv: "kv = (k, v)" by (cases kv)
  with Cons.prems obtain s where "v = YStr s" by (cases v) (auto split: if_splits)
  with Cons kv show ?case by (auto simp: map_filter_simps split: if_splits)
qed (simp add: map_filter_simps)

lemma env_keys:
  assumes "json_ok (YMap data)" and "text_entries (yget_or (YMap []) data ''env'') = Some env"
  shows "distinct (map fst env)"
proof -
  have "json_ok (yget_or (YMap []) data ''env'')"
    using assms(1) by (auto simp: yget_or_def list_all_iff split: option.split dest: map_of_SomeD)
  then show ?thesis
    using assms(2) text_entries_keys by (cases "yget_or (YMap []) data ''env''") (auto split: if_splits)
qed

lemma read_unit_wf:
  assumes "json_ok v" and "read_unit v = Inr u"
  shows "wf_unit u"
proof -
  obtain data where v: "v = YMap data" using assms(2) by (cases v) (auto simp: read_unit_def)
  obtain name depends env inputs command where
    "unit_name (yget data ''name'') = Some name"
    and env: "text_entries (yget_or (YMap []) data ''env'') = Some env"
    and inputs: "read_globs (yget data ''inputs'') (''units.'' @ name @ ''.inputs'') = Inr inputs"
    and command: "read_command (yget data ''command'') (''units.'' @ name) = Inr command"
    and u: "u = \<lparr>gu_name = name, gu_inputs = inputs, gu_depends_on = sort (remdups depends),
              gu_command = command, gu_env = sort env\<rparr>"
    using assms(2) by (auto simp: read_unit_def v split: option.splits)
  moreover have "distinct (map fst (sort env))"
    using env_keys [OF assms(1) [unfolded v] env] by (simp add: distinct_map)
  ultimately show ?thesis
    using read_command_Inr [OF command] read_globs_Inr [OF inputs] unit_name_Some by (auto simp: wf_unit_def)
qed

lemma read_manifest_wf:
  assumes "json_ok v" and "read_manifest digest v = Inr m"
  shows "wf_manifest m"
proof -
  obtain data where v: "v = YMap data" using assms(2) by (cases v) (auto simp: read_manifest_def)
  obtain jobs u us where "yget data ''version'' = YInt 1" and jobs: "yget data ''jobs'' = YInt jobs" "\<not> jobs < 1"
    and raw: "yget data ''units'' = YList (u # us)"
    using assms(2) by (auto simp: read_manifest_def v split: if_splits yval.splits list.splits)
  with assms(2) obtain units repo_wide set_up shared where
    units: "map_res read_unit (u # us) = Inr units" and graph: "check_graph units = Inr ()"
    and commands: "optional_command data ''repo_wide'' = Inr repo_wide" "optional_command data ''setup'' = Inr set_up"
    and shared: "read_globs (yget_or (YList []) data ''shared_inputs'') ''shared_inputs'' = Inr shared"
    and m: "m = \<lparr>um_jobs = jobs, um_repo_wide = repo_wide, um_setup = set_up, um_shared_inputs = shared,
               um_units = units, um_digest = digest v, um_implicit = False\<rparr>"
    unfolding v read_manifest_def by (simp del: map_res.simps add: jobs raw) blast
  have pairs: "list_all2 (\<lambda>v u. read_unit v = Inr u) (u # us) units" using units by (simp only: map_res_Inr_iff)
  have "(''units'', YList (u # us)) \<in> set data"
    using raw by (auto simp: yget_def split: option.splits dest: map_of_SomeD)
  with assms(1) have "list_all json_ok (u # us)" unfolding v by (auto simp: list_all_iff)
  then have "wf_unit x" if "x \<in> set units" for x
    using list_all2_origin [OF pairs that] read_unit_wf by (auto simp: list_all_iff)
  moreover have "units \<noteq> []" using pairs by auto
  ultimately show ?thesis
    using jobs(2) graph commands read_globs_Inr [OF shared]
    by (auto simp: m wf_manifest_def check_graph_iff dest: optional_command_Inr)
qed

lemma parse_manifest_wf: "parse_manifest digest decoded = Inr m \<Longrightarrow> wf_manifest m"
  using json_value_ok(1) read_manifest_wf by (fastforce simp: parse_manifest_def split: sum.splits)

lemma read_manifest_digest: "read_manifest digest v = Inr m \<Longrightarrow> um_digest m = digest v \<and> \<not> um_implicit m"
  by (auto simp: read_manifest_def split: yval.splits if_splits list.splits)

lemma parse_manifest_digest:
  assumes "parse_manifest digest decoded = Inr m"
  shows "\<not> um_implicit m \<and> (\<exists>v. decoded = Inr v \<and> json_ok v \<and> um_digest m = digest v)"
proof (cases decoded)
  case (Inr raw)
  with assms obtain v where v: "json_value raw = Inr v" "read_manifest digest v = Inr m"
    by (auto simp: parse_manifest_def)
  with Inr json_value_ok(1) [OF v(1)] read_manifest_digest [OF v(2)] show ?thesis by blast
qed (use assms in \<open>simp add: parse_manifest_def\<close>)

subsection \<open>Properties\<close>

text \<open>C12. The check of the dependency graph always ends, and accepts exactly the lists of units whose
  names differ, whose dependencies are declared and whose dependency relation has no cycle.\<close>

theorem check_graph_decides: "check_graph units = Inr () \<longleftrightarrow> sound_graph units"
  by (rule check_graph_iff)

text \<open>C13. A manifest that is accepted is well formed: at least one job and one unit, lower-case unit
  names, globs that stay inside the repository, commands that are not blank, dependencies sorted and
  without repeats, environments with one value per name, and a sound dependency graph. It is not
  implicit, and it carries the digest of exactly the data that was printed, in which no object
  has a key twice.\<close>

theorem manifest_well_formed:
  assumes "parse_manifest digest decoded = Inr m"
  shows "wf_manifest m \<and> \<not> um_implicit m \<and> (\<exists>v. decoded = Inr v \<and> json_ok v \<and> um_digest m = digest v)"
  using parse_manifest_wf [OF assms] parse_manifest_digest [OF assms] by blast

definition sample_manifest :: yval where
  "sample_manifest = YMap
     [(''version'', YInt 1), (''jobs'', YInt 2), (''repo_wide'', YMap [(''command'', YStr ''lint'')]),
      (''shared_inputs'', YList [YStr ''*.toml'']),
      (''units'', YList
        [YMap [(''name'', YStr ''core''), (''inputs'', YList [YStr ''core/[!_]*'']), (''command'', YStr ''test core'')],
         YMap [(''name'', YStr ''app''), (''inputs'', YList [YStr ''app/*.py'']), (''command'', YStr ''test app''),
               (''depends_on'', YList [YStr ''core'', YStr ''core'']), (''env'', YMap [(''B'', YStr ''2''), (''A'', YStr ''1'')])]])]"

lemma sample_manifest_parsed:
  "parse_manifest (\<lambda>_. ''d'') (Inr sample_manifest) = Inr
     \<lparr>um_jobs = 2, um_repo_wide = Some ''lint'', um_setup = None, um_shared_inputs = [''*.toml''],
      um_units =
        [\<lparr>gu_name = ''core'', gu_inputs = [''core/[!_]*''], gu_depends_on = [], gu_command = ''test core'', gu_env = []\<rparr>,
         \<lparr>gu_name = ''app'', gu_inputs = [''app/*.py''], gu_depends_on = [''core''], gu_command = ''test app'',
          gu_env = [(''A'', ''1''), (''B'', ''2'')]\<rparr>],
      um_digest = ''d'', um_implicit = False\<rparr>"
  by code_simp

theorem manifest_well_formed_witness:
  "\<exists>m. parse_manifest (\<lambda>_. ''d'') (Inr sample_manifest) = Inr m \<and> length (um_units m) = 2 \<and> wf_manifest m \<and> json_ok sample_manifest"
  using manifest_well_formed [OF sample_manifest_parsed] sample_manifest_parsed by simp

end
