(* ===== verification/Gate_Hashes.thy ===== *)
theory Gate_Hashes
  imports Gate_Units
begin

text \<open>
  The input hashes of gate units (\<open>gw_orchestrate/gate_units.py\<close>, \<open>gate_git.ls_tree\<close>): the leaves
  of a Git tree, the closure of a unit's dependencies and of its dependents, and the hash of all
  that a unit reads. \<open>digest\<close> (SHA-256 of canonical JSON) and Git's output are arguments.
\<close>

subsection \<open>The leaves of a tree\<close>

record git_leaf =
  leaf_mode :: string
  leaf_sha :: string

type_synonym listing = "(string \<times> git_leaf) list"

definition hex_char :: "char \<Rightarrow> bool" where
  "hex_char c \<longleftrightarrow> is_digit c \<or> c \<in> set ''abcdef''"

definition is_sha :: "string \<Rightarrow> bool" where
  "is_sha s \<longleftrightarrow> list_all hex_char s \<and> (length s = 40 \<or> length s = 64)"

definition LEAF_MODES :: "(string \<times> string) list" where
  "LEAF_MODES = [(''100644'', ''blob''), (''100755'', ''blob''), (''120000'', ''blob''), (''160000'', ''commit'')]"

text \<open>One record of the output: mode, kind and object, a tab, the path. \<open>str.partition\<close> splits at
  the first tab; \<open>None\<close> is a malformed record.\<close>

definition leaf_record :: "listing \<Rightarrow> string \<Rightarrow> (string \<times> git_leaf) option" where
  "leaf_record listing entry =
     (let meta = takeWhile (\<lambda>c. c \<noteq> CHR 0x09) entry;
          separator = take 1 (drop (length meta) entry);
          path = drop (Suc (length meta)) entry
      in case split_on (CHR '' '') meta of
           [mode, kind, sha] \<Rightarrow>
             if separator = [] \<or> path = [] \<or> map_of LEAF_MODES mode \<noteq> Some kind \<or> \<not> is_sha sha \<or>
                starts_with path ''/'' \<or> list_ex (\<lambda>p. p \<in> {[], ''.'', ''..''}) (split_on (CHR ''/'') path) \<or>
                path \<in> fst ` set listing
             then None else Some (path, \<lparr>leaf_mode = mode, leaf_sha = sha\<rparr>)
         | _ \<Rightarrow> None)"

fun leaf_records :: "listing \<Rightarrow> string list \<Rightarrow> string + listing" where
  "leaf_records listing [] = Inr listing"
| "leaf_records listing (entry # entries) =
     (case leaf_record listing entry of
        None \<Rightarrow> Inl (''git ls-tree: malformed record '' @ repr entry)
      | Some leaf \<Rightarrow> leaf_records (listing @ [leaf]) entries)"

definition ls_tree :: "string \<Rightarrow> string + listing" where
  "ls_tree raw =
     (if raw = [] then Inr []
      else if last raw \<noteq> CHR 0x00 then Inl ''git ls-tree: unterminated record''
      else leaf_records [] (split_on (CHR 0x00) (butlast raw)))"

subsection \<open>Closures\<close>

definition by_name :: "unit_manifest \<Rightarrow> string \<Rightarrow> gate_unit option" where
  "by_name m = dict_of (map (\<lambda>u. (gu_name u, u)) (um_units m))"

text \<open>The loops of \<open>dependency_closure\<close>; the frontier has its last element, the next to be popped, first.\<close>

fun mark_dependencies :: "string list \<Rightarrow> string list \<Rightarrow> string list \<Rightarrow> string list \<times> string list" where
  "mark_dependencies [] seen frontier = (seen, frontier)"
| "mark_dependencies (d # ds) seen frontier =
     (if d \<in> set seen then mark_dependencies ds seen frontier
      else mark_dependencies ds (seen @ [d]) (d # frontier))"

lemma mark_dependencies_seen: "set (fst (mark_dependencies ds seen frontier)) = set seen \<union> set ds"
  by (induction ds seen frontier rule: mark_dependencies.induct) auto

lemma mark_dependencies_frontier:
  "set (snd (mark_dependencies ds seen frontier)) = set frontier \<union> (set ds - set seen)"
  by (induction ds seen frontier rule: mark_dependencies.induct) auto

lemma mark_dependencies_none: "set ds \<subseteq> set seen \<Longrightarrow> mark_dependencies ds seen frontier = (seen, frontier)"
  by (induction ds seen frontier rule: mark_dependencies.induct) auto

lemma mark_dependencies_distinct: "distinct seen \<Longrightarrow> distinct (fst (mark_dependencies ds seen frontier))"
  by (induction ds seen frontier rule: mark_dependencies.induct) auto

text \<open>Names the search has not marked yet.\<close>

definition unseen_names :: "unit_manifest \<Rightarrow> string list \<Rightarrow> string set" where
  "unseen_names m seen = \<Union> (set ` gu_depends_on ` set (um_units m)) - set seen"

lemma by_name_Some: "by_name m n = Some u \<Longrightarrow> u \<in> set (um_units m) \<and> gu_name u = n"
  unfolding by_name_def by (auto dest: dict_of_Some)

lemma closure_decreases:
  assumes "by_name m n = Some u"
  shows "card (unseen_names m (fst (mark_dependencies (gu_depends_on u) seen frontier))) < card (unseen_names m seen) \<or>
    mark_dependencies (gu_depends_on u) seen frontier = (seen, frontier)"
proof (cases "set (gu_depends_on u) \<subseteq> set seen")
  case False
  then obtain d where "d \<in> set (gu_depends_on u)" "d \<notin> set seen" by blast
  moreover have "u \<in> set (um_units m)" using assms by (simp add: by_name_Some)
  ultimately show ?thesis
    by (intro disjI1 psubset_card_mono) (auto simp: unseen_names_def mark_dependencies_seen)
qed (simp add: mark_dependencies_none)

function closure_loop :: "unit_manifest \<Rightarrow> string list \<Rightarrow> string list \<Rightarrow> string list result" where
  "closure_loop m seen [] = Inr seen"
| "closure_loop m seen (n # frontier) =
     (case by_name m n of
        None \<Rightarrow> Inl (KeyError n)
      | Some u \<Rightarrow> (case mark_dependencies (gu_depends_on u) seen frontier of
                    (seen', frontier') \<Rightarrow> closure_loop m seen' frontier'))"
  by pat_completeness auto
termination
proof (relation "measures [\<lambda>(m, seen, frontier). card (unseen_names m seen), \<lambda>(m, seen, frontier). length frontier]", goal_cases)
  case (2 m seen n frontier u seen' frontier')
  then have "mark_dependencies (gu_depends_on u) seen frontier = (seen', frontier')" by metis
  from closure_decreases [OF 2(1), of seen frontier, unfolded this] show ?case by auto
qed simp

definition dependency_closure :: "unit_manifest \<Rightarrow> string \<Rightarrow> string list result" where
  "dependency_closure m n = bind_res (closure_loop m [n] [n]) (\<lambda>seen. Inr (sort seen))"

text \<open>\<open>reverse_closure\<close>: passes over the units until one changes nothing.\<close>

fun reverse_pass :: "gate_unit list \<Rightarrow> string list \<Rightarrow> string list" where
  "reverse_pass [] selected = selected"
| "reverse_pass (u # us) selected =
     (if gu_name u \<notin> set selected \<and> set selected \<inter> set (gu_depends_on u) \<noteq> {}
      then reverse_pass us (selected @ [gu_name u]) else reverse_pass us selected)"

lemmas reverse_pass_skip = trans [OF reverse_pass.simps(2) if_not_P]
  and reverse_pass_take = trans [OF reverse_pass.simps(2) if_P]

lemma reverse_pass_extends: "\<exists>added. reverse_pass us selected = selected @ added \<and> set added \<subseteq> gu_name ` set us - set selected"
proof (induction us arbitrary: selected)
  case (Cons u us)
  show ?case
  proof (cases "gu_name u \<notin> set selected \<and> set selected \<inter> set (gu_depends_on u) \<noteq> {}")
    case True
    obtain added where "reverse_pass us (selected @ [gu_name u]) = (selected @ [gu_name u]) @ added"
      "set added \<subseteq> gu_name ` set us - set (selected @ [gu_name u])" using Cons.IH by blast
    with True show ?thesis by (intro exI [of _ "gu_name u # added"]) auto
  next
    case False
    obtain added where "reverse_pass us selected = selected @ added" "set added \<subseteq> gu_name ` set us - set selected"
      using Cons.IH by blast
    with False show ?thesis by (intro exI [of _ added]) auto
  qed
qed simp

function reverse_loop :: "gate_unit list \<Rightarrow> string list \<Rightarrow> string list" where
  "reverse_loop us selected =
     (let selected' = reverse_pass us selected in if selected' = selected then selected else reverse_loop us selected')"
  by pat_completeness auto
termination
proof (relation "measure (\<lambda>(us, selected). card (gu_name ` set us - set selected))", goal_cases)
  case (2 us selected selected')
  then obtain added where "selected' = selected @ added" "set added \<subseteq> gu_name ` set us - set selected" "added \<noteq> []"
    using reverse_pass_extends [of us selected] by auto
  moreover from this obtain n where "n \<in> set added" by (cases added) auto
  ultimately show ?case by (auto intro!: psubset_card_mono)
qed simp

declare reverse_loop.simps [simp del]

definition reverse_closure :: "unit_manifest \<Rightarrow> string list \<Rightarrow> string list" where
  "reverse_closure m seeds = reverse_loop (um_units m) (remdups seeds)"

definition units_matching :: "unit_manifest \<Rightarrow> string list \<Rightarrow> string list" where
  "units_matching m files =
     map gu_name (filter (\<lambda>u. list_ex (\<lambda>g. list_ex (glob_match g) files) (gu_inputs u)) (um_units m))"

subsection \<open>The closures are the transitive dependencies and dependents\<close>

abbreviation depends_on :: "unit_manifest \<Rightarrow> (string \<times> string) set" where
  "depends_on m \<equiv> depends_rel (um_units m)"

lemma by_name_sound:
  assumes "sound_graph (um_units m)" and "u \<in> set (um_units m)"
  shows "by_name m (gu_name u) = Some u"
proof -
  have "by_name m = map_of (map (\<lambda>u. (gu_name u, u)) (um_units m))"
    unfolding by_name_def using assms(1) by (intro dict_of_distinct) (simp add: sound_graph_def o_def)
  with assms show ?thesis by (auto simp: sound_graph_def o_def intro!: map_of_is_SomeI)
qed

lemma depends_on_by_name: "sound_graph (um_units m) \<Longrightarrow> by_name m n = Some u \<Longrightarrow> (n, d) \<in> depends_on m \<longleftrightarrow> d \<in> set (gu_depends_on u)"
  using by_name_sound [of m] by (auto simp: depends_rel_def dest: by_name_Some)

lemma closure_loop_spec:
  assumes "sound_graph (um_units m)"
  shows "set frontier \<subseteq> set seen \<Longrightarrow> set seen \<subseteq> gu_name ` set (um_units m) \<Longrightarrow> n \<in> set seen \<Longrightarrow>
    set seen \<subseteq> (depends_on m)\<^sup>* `` {n} \<Longrightarrow> depends_on m `` (set seen - set frontier) \<subseteq> set seen \<Longrightarrow> distinct seen \<Longrightarrow>
    \<exists>ns. closure_loop m seen frontier = Inr ns \<and> set ns = (depends_on m)\<^sup>* `` {n} \<and> distinct ns"
  using assms
proof (induction m seen frontier rule: closure_loop.induct)
  case (1 m seen)
  have "y \<in> set seen" if "(n, y) \<in> (depends_on m)\<^sup>*" for y
    using that by (induction rule: rtrancl_induct) (use "1.prems" in auto)
  with 1 show ?case by auto
next
  case (2 m seen k frontier)
  obtain u where u: "by_name m k = Some u" using by_name_sound "2.prems" by (auto simp: image_iff)
  obtain seen' frontier' where mark: "mark_dependencies (gu_depends_on u) seen frontier = (seen', frontier')" by fastforce
  have seen': "set seen' = set seen \<union> set (gu_depends_on u)" "set frontier' = set frontier \<union> (set (gu_depends_on u) - set seen)"
    "distinct seen'"
    using mark_dependencies_seen [of "gu_depends_on u" seen frontier] mark_dependencies_distinct [OF "2.prems"(6)]
      mark_dependencies_frontier [of "gu_depends_on u" seen frontier] mark by (simp, simp, metis fst_conv)
  have dep: "(k, d) \<in> depends_on m \<longleftrightarrow> d \<in> set (gu_depends_on u)" for d
    using depends_on_by_name [OF "2.prems"(7) u] .
  have "\<exists>ns. closure_loop m seen' frontier' = Inr ns \<and> set ns = (depends_on m)\<^sup>* `` {n} \<and> distinct ns"
  proof (rule "2.IH" [OF u mark [symmetric]])
    show "set seen' \<subseteq> gu_name ` set (um_units m)"
      using "2.prems"(2,7) RangeI [OF iffD2 [OF dep]] unfolding seen' sound_graph_def by blast
    show "set seen' \<subseteq> (depends_on m)\<^sup>* `` {n}"
      using "2.prems"(1,4) dep unfolding seen' by (auto intro: rtrancl.rtrancl_into_rtrancl)
    show "depends_on m `` (set seen' - set frontier') \<subseteq> set seen'"
      using "2.prems"(5) dep unfolding seen' by auto
  qed (use "2.prems" seen' in auto)
  with u mark show ?case by simp
qed

lemma dependency_closure_spec:
  assumes "sound_graph (um_units m)" and "n \<in> gu_name ` set (um_units m)"
  shows "\<exists>ns. dependency_closure m n = Inr ns \<and> set ns = (depends_on m)\<^sup>* `` {n} \<and> sorted ns \<and> distinct ns"
  using closure_loop_spec [OF assms(1), of "[n]" "[n]" n] assms(2) by (auto simp: dependency_closure_def)

lemma reverse_pass_sound:
  "set (reverse_pass us selected) \<subseteq> {x. \<exists>s \<in> set selected. (x, s) \<in> (depends_rel us)\<^sup>*}"
proof (induction us arbitrary: selected)
  case (Cons u us)
  have mono: "(depends_rel us)\<^sup>* \<subseteq> (depends_rel (u # us))\<^sup>*" by (rule rtrancl_mono) (auto simp: depends_rel_def)
  show ?case
  proof (cases "gu_name u \<notin> set selected \<and> set selected \<inter> set (gu_depends_on u) \<noteq> {}")
    case True
    then obtain s where "s \<in> set selected" "(gu_name u, s) \<in> depends_rel (u # us)" by (auto simp: depends_rel_def)
    with Cons.IH [of "selected @ [gu_name u]"] mono True show ?thesis
      by (auto simp: subset_iff) (meson r_into_rtrancl rtrancl_trans subsetD)
  next
    case False
    show ?thesis unfolding reverse_pass_skip [OF False]
      by (rule subset_trans [OF Cons.IH]) (use mono in blast)
  qed
qed auto

lemma reverse_pass_fixed:
  "reverse_pass us selected = selected \<Longrightarrow> u \<in> set us \<Longrightarrow> set selected \<inter> set (gu_depends_on u) \<noteq> {} \<Longrightarrow> gu_name u \<in> set selected"
proof (induction us)
  case (Cons v us)
  obtain added where "reverse_pass us (selected @ [gu_name v]) = (selected @ [gu_name v]) @ added"
    using reverse_pass_extends by blast
  then have "reverse_pass us (selected @ [gu_name v]) \<noteq> selected" by simp
  with Cons.prems(1) have no: "\<not> (gu_name v \<notin> set selected \<and> set selected \<inter> set (gu_depends_on v) \<noteq> {})"
    using reverse_pass_take [of v selected us] by metis
  from Cons.prems(1) have "reverse_pass us selected = selected" by (simp only: reverse_pass_skip [OF no])
  with Cons no show ?case by auto
qed simp

lemma reverse_loop_spec:
  "set (reverse_loop us selected) = {x. \<exists>s \<in> set selected. (x, s) \<in> (depends_rel us)\<^sup>*}"
proof (induction us selected rule: reverse_loop.induct)
  case (1 us selected)
  show ?case
  proof (cases "reverse_pass us selected = selected")
    case True
    have "x \<in> set selected" if "(x, s) \<in> (depends_rel us)\<^sup>*" "s \<in> set selected" for x s
      using that
    proof (induction rule: converse_rtrancl_induct)
      case (step x y)
      then show ?case using reverse_pass_fixed [OF True] by (auto simp: depends_rel_def)
    qed
    with True show ?thesis by (auto simp: reverse_loop.simps [of us selected])
  next
    case False
    obtain added where ext: "reverse_pass us selected = selected @ added" using reverse_pass_extends by blast
    have "{x. \<exists>s \<in> set (reverse_pass us selected). (x, s) \<in> (depends_rel us)\<^sup>*} =
        {x. \<exists>s \<in> set selected. (x, s) \<in> (depends_rel us)\<^sup>*}"
      using reverse_pass_sound [of us selected] ext by (auto simp: subset_iff) (meson rtrancl_trans)
    with "1.IH" [OF refl False] False show ?thesis by (simp add: reverse_loop.simps [of us selected])
  qed
qed

lemma reverse_closure_spec: "set (reverse_closure m seeds) = {x. \<exists>s \<in> set seeds. (x, s) \<in> (depends_on m)\<^sup>*}"
  unfolding reverse_closure_def reverse_loop_spec by simp

subsection \<open>Input hashes\<close>

definition unit_globs :: "unit_manifest \<Rightarrow> string list \<Rightarrow> string list \<Rightarrow> string list" where
  "unit_globs m extra names =
     um_shared_inputs m @ extra @ concat (map (\<lambda>n. case by_name m n of None \<Rightarrow> [] | Some u \<Rightarrow> gu_inputs u) names)"

definition hashed_files :: "string list \<Rightarrow> listing \<Rightarrow> (string \<times> string \<times> string) list" where
  "hashed_files globs listing =
     sort (map (\<lambda>(path, leaf). (path, leaf_mode leaf, leaf_sha leaf))
            (filter (\<lambda>(path, leaf). list_ex (\<lambda>g. glob_match g path) globs) listing))"

definition unit_payload :: "gate_unit \<Rightarrow> (string \<times> string \<times> string) list \<Rightarrow> yval" where
  "unit_payload u files = YMap
     [(''tag'', YStr ''gw-gate-unit/2''),
      (''files'', YList (map (\<lambda>(path, mode, sha). YList [YStr path, YStr mode, YStr sha]) files)),
      (''command'', YStr (gu_command u)),
      (''env'', YList (map (\<lambda>(k, v). YList [YStr k, YStr v]) (gu_env u)))]"

definition unit_data :: "unit_manifest \<Rightarrow> listing \<Rightarrow> string list \<Rightarrow> gate_unit \<Rightarrow> yval result" where
  "unit_data m listing extra u =
     bind_res (dependency_closure m (gu_name u)) (\<lambda>names.
       Inr (unit_payload u (hashed_files (unit_globs m extra names) listing)))"

definition unit_hash :: "(yval \<Rightarrow> 'h) \<Rightarrow> unit_manifest \<Rightarrow> listing \<Rightarrow> string list \<Rightarrow> gate_unit \<Rightarrow> 'h result" where
  "unit_hash digest m listing extra u = bind_res (unit_data m listing extra u) (\<lambda>data. Inr (digest data))"

definition unit_hashes :: "(yval \<Rightarrow> 'h) \<Rightarrow> unit_manifest \<Rightarrow> listing \<Rightarrow> string list \<Rightarrow> (string \<times> 'h) list result" where
  "unit_hashes digest m listing extra =
     map_res (\<lambda>u. bind_res (unit_hash digest m listing extra u) (\<lambda>h. Inr (gu_name u, h))) (um_units m)"

definition tree_hash :: "(yval \<Rightarrow> 'h) \<Rightarrow> string \<Rightarrow> string \<Rightarrow> 'h" where
  "tree_hash digest tree full_command =
     digest (YMap [(''tag'', YStr ''gw-gate-tree/1''), (''tree'', YStr tree), (''command'', YStr full_command)])"

record repo_gate =
  rg_full :: "string option"
  rg_units :: "string option"
  rg_extra_inputs :: "string list"

record unit_state =
  us_manifest :: unit_manifest
  us_hashes :: "(string \<times> string) list"

datatype gate_exn =
    Manifest_Error units_refusal string
  | Git_Unavailable string
  | Gate_Python py_exn

definition unmatched_units :: "unit_manifest \<Rightarrow> listing \<Rightarrow> string list" where
  "unmatched_units m listing =
     map gu_name (filter (\<lambda>u. \<not> list_ex (\<lambda>g. list_ex (\<lambda>(path, _). glob_match g path) listing) (gu_inputs u)) (um_units m))"

text \<open>\<open>run\<close> is what the command's process gives, \<open>listing\<close> what \<open>ls_tree\<close> gives for the tree.\<close>

definition resolve_unit_state ::
  "(yval \<Rightarrow> string) \<Rightarrow> repo_gate \<Rightarrow> string \<Rightarrow> string \<Rightarrow> string + (int \<times> (string + yval) \<times> string) \<Rightarrow>
     string + listing \<Rightarrow> gate_exn + unit_state" where
  "resolve_unit_state digest gate worktree tree run listing =
     (case rg_units gate of
        None \<Rightarrow>
          (case rg_full gate of
             None \<Rightarrow> Inl (Manifest_Error Units_Invalid ''gate.full: a non-empty command is required for the implicit tree unit'')
           | Some full \<Rightarrow>
               if strip full = []
               then Inl (Manifest_Error Units_Invalid ''gate.full: a non-empty command is required for the implicit tree unit'')
               else Inr \<lparr>us_manifest = implicit_manifest digest full, us_hashes = [(TREE_UNIT, tree_hash digest tree full)]\<rparr>)
      | Some command \<Rightarrow>
          (case load_manifest digest command worktree run of
             Inl (reason, message) \<Rightarrow> Inl (Manifest_Error reason message)
           | Inr m \<Rightarrow>
               (case listing of
                  Inl message \<Rightarrow> Inl (Git_Unavailable message)
                | Inr files \<Rightarrow>
                    (case unmatched_units m files of
                       n # _ \<Rightarrow> Inl (Manifest_Error Units_Invalid
                         (''units.'' @ n @ ''.inputs: no file in tree '' @ tree @ '' matches''))
                     | [] \<Rightarrow>
                         (case unit_hashes digest m files (rg_extra_inputs gate) of
                            Inl e \<Rightarrow> Inl (Gate_Python e)
                          | Inr hashes \<Rightarrow> Inr \<lparr>us_manifest = m, us_hashes = hashes\<rparr>)))))"

text \<open>What a unit reads: the paths its own globs, those of a unit it depends on, however far, or
  the shared and extra globs match.\<close>

definition reads :: "unit_manifest \<Rightarrow> string list \<Rightarrow> gate_unit \<Rightarrow> string \<Rightarrow> bool" where
  "reads m extra u path \<longleftrightarrow>
     (\<exists>g. glob_match g path \<and>
        (g \<in> set (um_shared_inputs m) \<union> set extra \<or>
         (\<exists>v \<in> set (um_units m). (gu_name u, gu_name v) \<in> (depends_on m)\<^sup>* \<and> g \<in> set (gu_inputs v))))"

lemma closure_in_names:
  assumes "sound_graph (um_units m)" and "n \<in> gu_name ` set (um_units m)" and "(n, k) \<in> (depends_on m)\<^sup>*"
  shows "k \<in> gu_name ` set (um_units m)"
  using assms(3,2,1) by (induction rule: rtrancl_induct) (auto simp: sound_graph_def)

lemma unit_globs_reads:
  assumes "sound_graph (um_units m)" and "u \<in> set (um_units m)" and "set names = (depends_on m)\<^sup>* `` {gu_name u}"
  shows "list_ex (\<lambda>g. glob_match g path) (unit_globs m extra names) \<longleftrightarrow> reads m extra u path"
proof -
  have "(\<exists>n \<in> set names. \<exists>v. by_name m n = Some v \<and> g \<in> set (gu_inputs v)) \<longleftrightarrow>
    (\<exists>v \<in> set (um_units m). (gu_name u, gu_name v) \<in> (depends_on m)\<^sup>* \<and> g \<in> set (gu_inputs v))" for g
    using by_name_sound [OF assms(1)] unfolding assms(3) by (auto dest: by_name_Some)
  moreover have "g \<in> set (unit_globs m extra names) \<longleftrightarrow> g \<in> set (um_shared_inputs m) \<union> set extra \<or>
    (\<exists>n \<in> set names. \<exists>v. by_name m n = Some v \<and> g \<in> set (gu_inputs v))" for g
    by (force simp: unit_globs_def split: option.splits)
  ultimately have "g \<in> set (unit_globs m extra names) \<longleftrightarrow> g \<in> set (um_shared_inputs m) \<union> set extra \<or>
    (\<exists>v \<in> set (um_units m). (gu_name u, gu_name v) \<in> (depends_on m)\<^sup>* \<and> g \<in> set (gu_inputs v))" for g by metis
  then show ?thesis unfolding list_ex_iff reads_def by blast
qed

lemma hashed_files_set:
  "set (hashed_files globs listing) =
     {(path, leaf_mode leaf, leaf_sha leaf) | path leaf. (path, leaf) \<in> set listing \<and> list_ex (\<lambda>g. glob_match g path) globs}"
  by (force simp: hashed_files_def)

lemma hashed_files_mem:
  assumes "distinct (map fst l)"
  shows "(path, mode, sha) \<in> set (hashed_files globs l) \<longleftrightarrow>
    list_ex (\<lambda>g. glob_match g path) globs \<and> map_of l path = Some \<lparr>leaf_mode = mode, leaf_sha = sha\<rparr>"
proof -
  have "(path, mode, sha) \<in> set (hashed_files globs l) \<longleftrightarrow>
    list_ex (\<lambda>g. glob_match g path) globs \<and> (path, \<lparr>leaf_mode = mode, leaf_sha = sha\<rparr>) \<in> set l"
  proof
    assume "(path, mode, sha) \<in> set (hashed_files globs l)"
    then obtain leaf where leaf: "(path, leaf) \<in> set l" "mode = leaf_mode leaf" "sha = leaf_sha leaf"
      "list_ex (\<lambda>g. glob_match g path) globs" by (auto simp: hashed_files_set)
    then show "list_ex (\<lambda>g. glob_match g path) globs \<and> (path, \<lparr>leaf_mode = mode, leaf_sha = sha\<rparr>) \<in> set l"
      by (cases leaf) simp
  next
    assume "list_ex (\<lambda>g. glob_match g path) globs \<and> (path, \<lparr>leaf_mode = mode, leaf_sha = sha\<rparr>) \<in> set l"
    then show "(path, mode, sha) \<in> set (hashed_files globs l)"
      unfolding hashed_files_set by (intro CollectI exI [of _ path] exI [of _ "\<lparr>leaf_mode = mode, leaf_sha = sha\<rparr>"]) simp
  qed
  with assms show ?thesis by simp
qed

text \<open>The leaves of the paths the globs match, as a map.\<close>

definition matched_leaf :: "string list \<Rightarrow> listing \<Rightarrow> string \<Rightarrow> git_leaf option" where
  "matched_leaf globs l path = (if list_ex (\<lambda>g. glob_match g path) globs then map_of l path else None)"

lemma matched_leaf_Some:
  "distinct (map fst l) \<Longrightarrow> matched_leaf globs l path = Some leaf \<longleftrightarrow>
     (path, leaf_mode leaf, leaf_sha leaf) \<in> set (hashed_files globs l)"
  by (cases leaf) (simp add: matched_leaf_def hashed_files_mem)

lemma hashed_files_once: "distinct (map fst l) \<Longrightarrow> distinct (hashed_files globs l)"
  unfolding hashed_files_def distinct_sort by (induction l) (auto simp: image_iff split_beta)

lemma hashed_files_eq:
  assumes "distinct (map fst l)" and "distinct (map fst l')"
  shows "hashed_files globs l = hashed_files globs' l' \<longleftrightarrow> (\<forall>path. matched_leaf globs l path = matched_leaf globs' l' path)"
proof
  assume same: "hashed_files globs l = hashed_files globs' l'"
  have "matched_leaf globs l path = Some leaf \<longleftrightarrow> matched_leaf globs' l' path = Some leaf" for path leaf
    by (simp only: matched_leaf_Some [OF assms(1)] matched_leaf_Some [OF assms(2)] same)
  then show "\<forall>path. matched_leaf globs l path = matched_leaf globs' l' path" by (metis not_Some_eq)
next
  assume agree: "\<forall>path. matched_leaf globs l path = matched_leaf globs' l' path"
  have "(path, mode, sha) \<in> set (hashed_files globs l) \<longleftrightarrow> (path, mode, sha) \<in> set (hashed_files globs' l')" for path mode sha
    using agree matched_leaf_Some [OF assms(1), of globs path "\<lparr>leaf_mode = mode, leaf_sha = sha\<rparr>"]
      matched_leaf_Some [OF assms(2), of globs' path "\<lparr>leaf_mode = mode, leaf_sha = sha\<rparr>"] by simp
  then have "set (hashed_files globs l) = set (hashed_files globs' l')" by auto
  then show "hashed_files globs l = hashed_files globs' l'"
    by (intro sorted_distinct_set_unique) (simp_all add: hashed_files_once assms, simp_all add: hashed_files_def)
qed

lemma unit_payload_eq:
  "unit_payload u files = unit_payload u' files' \<longleftrightarrow> gu_command u = gu_command u' \<and> gu_env u = gu_env u' \<and> files = files'"
proof -
  have "inj (\<lambda>(path, mode, sha). YList [YStr path, YStr mode, YStr sha])" "inj (\<lambda>(k, v). YList [YStr k, YStr v])"
    by (auto simp: inj_def)
  then show ?thesis by (auto simp: unit_payload_def inj_map_eq_map)
qed

lemma unit_data_total:
  assumes "sound_graph (um_units m)" and "u \<in> set (um_units m)"
  obtains names where "set names = (depends_on m)\<^sup>* `` {gu_name u}"
    "\<And>l. unit_data m l extra u = Inr (unit_payload u (hashed_files (unit_globs m extra names) l))"
  using dependency_closure_spec [OF assms(1), of "gu_name u"] assms(2) that by (auto simp: unit_data_def)

lemma unit_hashes_total:
  assumes "sound_graph (um_units m)"
  shows "\<exists>hs. unit_hashes digest m l extra = Inr hs \<and> map fst hs = map gu_name (um_units m)"
proof -
  have "\<forall>u \<in> set (um_units m). \<exists>h. unit_hash digest m l extra u = Inr h"
    using unit_data_total [OF assms, of _ extra] by (metis unit_hash_def bind_res_Inr)
  moreover have "\<exists>hs. map_res (\<lambda>u. bind_res (unit_hash digest m l extra u) (\<lambda>h. Inr (gu_name u, h))) us = Inr hs
      \<and> map fst hs = map gu_name us" if "\<forall>u \<in> set us. \<exists>h. unit_hash digest m l extra u = Inr h" for us
    using that by (induction us) auto
  ultimately show ?thesis unfolding unit_hashes_def by blast
qed

text \<open>What \<open>ls_tree\<close> accepts: every path once, relative and inside the tree, with an object name.\<close>

definition wf_listing :: "listing \<Rightarrow> bool" where
  "wf_listing l \<longleftrightarrow> distinct (map fst l) \<and>
     (\<forall>(path, leaf) \<in> set l. path \<noteq> [] \<and> ''..'' \<notin> set (split_on (CHR ''/'') path) \<and> is_sha (leaf_sha leaf) \<and>
        leaf_mode leaf \<in> fst ` set LEAF_MODES)"

lemma has_mode: "map_of LEAF_MODES mode = Some kind \<Longrightarrow> mode \<in> fst ` set LEAF_MODES"
  by (auto dest: map_of_SomeD intro: rev_image_eqI)

lemma leaf_record_wf:
  assumes "wf_listing l" and "leaf_record l entry = Some leaf"
  shows "wf_listing (l @ [leaf])"
proof -
  obtain mode kind sha where meta: "split_on (CHR '' '') (takeWhile (\<lambda>c. c \<noteq> CHR 0x09) entry) = [mode, kind, sha]"
    using assms(2) by (auto simp: leaf_record_def Let_def split: list.splits)
  obtain path where leaf: "leaf = (path, \<lparr>leaf_mode = mode, leaf_sha = sha\<rparr>)" "path \<noteq> []"
    "map_of LEAF_MODES mode = Some kind" "is_sha sha" "path \<notin> fst ` set l"
    "\<not> list_ex (\<lambda>p. p \<in> {[], ''.'', ''..''}) (split_on (CHR ''/'') path)"
    using assms(2) unfolding leaf_record_def Let_def meta list.case by (metis option.distinct(1) option.inject)
  have "mode \<in> fst ` set LEAF_MODES" using has_mode [OF leaf(3)] .
  moreover have "''..'' \<notin> set (split_on (CHR ''/'') path)" using leaf(6) by (auto simp: list_ex_iff)
  ultimately show ?thesis using assms(1) leaf(2,4,5) unfolding leaf(1) wf_listing_def by auto
qed

lemma leaf_records_wf: "wf_listing l \<Longrightarrow> leaf_records l entries = Inr l' \<Longrightarrow> wf_listing l'"
  by (induction l entries rule: leaf_records.induct) (auto split: option.splits dest: leaf_record_wf)

lemma ls_tree_wf: "ls_tree raw = Inr l \<Longrightarrow> wf_listing l"
  using leaf_records_wf [of "[]"] by (auto simp: ls_tree_def wf_listing_def split: if_splits)

subsection \<open>Properties\<close>

text \<open>The dependency closure of a unit of a sound manifest, the loop of its search included,
  returns: the sorted transitive dependencies; and a unit is in the reverse closure of some seeds
  exactly when a seed is in its dependency closure.\<close>

theorem closures_agree:
  assumes "sound_graph (um_units m)" and "n \<in> gu_name ` set (um_units m)"
  shows "\<exists>ns. dependency_closure m n = Inr ns \<and> sorted ns \<and> distinct ns \<and> set ns = (depends_on m)\<^sup>* `` {n} \<and>
    (n \<in> set (reverse_closure m seeds) \<longleftrightarrow> set ns \<inter> set seeds \<noteq> {})"
  using dependency_closure_spec [OF assms] by (auto simp: reverse_closure_spec)

text \<open>C8. For units of well-formed manifests and trees as \<open>git ls-tree\<close> prints them, two hashes are of
  the same data exactly when the units have the same command and environment and read the same
  files: at every path the leaves, mode and object, agree, a path that a unit does not read (by its
  own globs, those of a unit it depends on, however far, or the shared and extra globs) counting as
  absent. So an unchanged hash never hides a changed command, variable or input, and a change
  elsewhere never changes it.\<close>

theorem unit_hash_exact:
  assumes "wf_manifest m" and "u \<in> set (um_units m)" and "ls_tree raw = Inr l"
    and "wf_manifest m'" and "u' \<in> set (um_units m')" and "ls_tree raw' = Inr l'"
  shows "\<exists>data data'. unit_data m l extra u = Inr data \<and> unit_hash digest m l extra u = Inr (digest data) \<and>
    unit_data m' l' extra' u' = Inr data' \<and> unit_hash digest m' l' extra' u' = Inr (digest data') \<and>
    (data = data' \<longleftrightarrow> gu_command u = gu_command u' \<and> gu_env u = gu_env u' \<and>
       (\<forall>path. (if reads m extra u path then map_of l path else None) =
               (if reads m' extra' u' path then map_of l' path else None)))"
proof -
  have sound: "sound_graph (um_units m)" "sound_graph (um_units m')" using assms(1,4) by (simp_all add: wf_manifest_def)
  have once: "distinct (map fst l)" "distinct (map fst l')"
    using ls_tree_wf [OF assms(3)] ls_tree_wf [OF assms(6)] by (simp_all add: wf_listing_def)
  obtain names where names: "set names = (depends_on m)\<^sup>* `` {gu_name u}"
    "\<And>l. unit_data m l extra u = Inr (unit_payload u (hashed_files (unit_globs m extra names) l))"
    using unit_data_total [OF sound(1) assms(2), of extra] by blast
  obtain names' where names': "set names' = (depends_on m')\<^sup>* `` {gu_name u'}"
    "\<And>l. unit_data m' l extra' u' = Inr (unit_payload u' (hashed_files (unit_globs m' extra' names') l))"
    using unit_data_total [OF sound(2) assms(5), of extra'] by blast
  define files where "files = hashed_files (unit_globs m extra names) l"
  define files' where "files' = hashed_files (unit_globs m' extra' names') l'"
  have "files = files' \<longleftrightarrow> (\<forall>path. (if reads m extra u path then map_of l path else None) =
      (if reads m' extra' u' path then map_of l' path else None))"
    unfolding files_def files'_def hashed_files_eq [OF once] matched_leaf_def
      unit_globs_reads [OF sound(1) assms(2) names(1)] unit_globs_reads [OF sound(2) assms(5) names'(1)] by (rule refl)
  then have "unit_payload u files = unit_payload u' files' \<longleftrightarrow> gu_command u = gu_command u' \<and> gu_env u = gu_env u' \<and>
      (\<forall>path. (if reads m extra u path then map_of l path else None) =
              (if reads m' extra' u' path then map_of l' path else None))"
    by (simp only: unit_payload_eq)
  with names(2) [of l, folded files_def] names'(2) [of l', folded files'_def] show ?thesis
    by (intro exI [of _ "unit_payload u files"] exI [of _ "unit_payload u' files'"] conjI)
       (simp_all only: unit_hash_def bind_res_Inr)
qed

definition sample_units :: unit_manifest where
  "sample_units =
     \<lparr>um_jobs = 2, um_repo_wide = Some ''lint'', um_setup = None, um_shared_inputs = [''*.toml''],
      um_units =
        [\<lparr>gu_name = ''core'', gu_inputs = [''core/[!_]*''], gu_depends_on = [], gu_command = ''test core'', gu_env = []\<rparr>,
         \<lparr>gu_name = ''app'', gu_inputs = [''app/*.py''], gu_depends_on = [''core''], gu_command = ''test app'',
          gu_env = [(''A'', ''1''), (''B'', ''2'')]\<rparr>],
      um_digest = ''d'', um_implicit = False\<rparr>"

lemma sample_units_wf: "wf_manifest sample_units" "sound_graph (um_units sample_units)"
  using parse_manifest_wf [OF sample_manifest_parsed] unfolding sample_units_def by (simp, simp add: wf_manifest_def)

theorem closures_agree_witness:
  "\<exists>ns. dependency_closure sample_units ''app'' = Inr ns \<and> sorted ns \<and> distinct ns \<and>
     set ns = (depends_on sample_units)\<^sup>* `` {''app''} \<and>
     (''app'' \<in> set (reverse_closure sample_units [''core'']) \<longleftrightarrow> set ns \<inter> set [''core''] \<noteq> {})"
  by (rule closures_agree [OF sample_units_wf(2)]) (simp add: sample_units_def)

definition tree_line :: "string \<Rightarrow> char \<Rightarrow> string" where
  "tree_line path object_name = ''100644 blob '' @ replicate 40 object_name @ [CHR 0x09] @ path @ [CHR 0x00]"

lemma tree_lines_listed:
  "ls_tree (tree_line ''core/x.py'' CHR ''a'' @ tree_line ''README'' CHR ''b'') = Inr
     [(''core/x.py'', \<lparr>leaf_mode = ''100644'', leaf_sha = replicate 40 CHR ''a''\<rparr>),
      (''README'', \<lparr>leaf_mode = ''100644'', leaf_sha = replicate 40 CHR ''b''\<rparr>)]"
  "ls_tree (tree_line ''core/x.py'' CHR ''a'' @ tree_line ''README'' CHR ''c'') = Inr
     [(''core/x.py'', \<lparr>leaf_mode = ''100644'', leaf_sha = replicate 40 CHR ''a''\<rparr>),
      (''README'', \<lparr>leaf_mode = ''100644'', leaf_sha = replicate 40 CHR ''c''\<rparr>)]"
  by code_simp+

text \<open>Two trees that differ in a file the unit does not read; its hashed data is the same.\<close>

theorem unit_hash_exact_witness:
  "\<exists>data.
     unit_data sample_units
       [(''core/x.py'', \<lparr>leaf_mode = ''100644'', leaf_sha = replicate 40 CHR ''a''\<rparr>),
        (''README'', \<lparr>leaf_mode = ''100644'', leaf_sha = replicate 40 CHR ''b''\<rparr>)] [] (um_units sample_units ! 1) = Inr data \<and>
     unit_data sample_units
       [(''core/x.py'', \<lparr>leaf_mode = ''100644'', leaf_sha = replicate 40 CHR ''a''\<rparr>),
        (''README'', \<lparr>leaf_mode = ''100644'', leaf_sha = replicate 40 CHR ''c''\<rparr>)] [] (um_units sample_units ! 1) = Inr data"
proof -
  have u: "um_units sample_units ! 1 \<in> set (um_units sample_units)" by (simp add: sample_units_def)
  have unread: "\<not> reads sample_units [] (um_units sample_units ! 1) ''README''"
  proof -
    have "\<not> glob_match g ''README''"
      if "g \<in> set (um_shared_inputs sample_units) \<union> \<Union> (set ` gu_inputs ` set (um_units sample_units))" for g
    proof -
      have "list_all (\<lambda>g. \<not> glob_match g ''README'') [''*.toml'', ''core/[!_]*'', ''app/*.py'']" by code_simp
      with that show ?thesis by (auto simp: sample_units_def)
    qed
    then show ?thesis unfolding reads_def by auto
  qed
  from unit_hash_exact [OF sample_units_wf(1) u tree_lines_listed(1) sample_units_wf(1) u tree_lines_listed(2),
      of "[]" "\<lambda>d. d" "[]"] unread
  show ?thesis by (elim exE conjE) auto
qed

end
