(* ===== verification/Gate_Receipts.thy ===== *)
theory Gate_Receipts
  imports Gate_Hashes
begin

text \<open>
  Gate receipts (\<open>gw_orchestrate/gate_receipts.py\<close>): the runs recorded per owner, read strictly
  from plain data and written back, and the evidence they give for a tree. A number's float is
  text; \<open>float_of\<close>, Python's \<open>float()\<close>, is an argument.
\<close>

subsection \<open>Runs\<close>

record reuse =
  re_owner :: string
  re_run_id :: string

record unit_entry =
  ue_name :: string
  ue_hash :: string
  ue_ran :: bool
  ue_exit :: "int option"
  ue_log_path :: "string option"
  ue_duration :: "string option"
  ue_reused_from :: "reuse option"

record wide_entry =
  we_tree :: string
  we_command :: string
  we_ran :: bool
  we_exit :: "int option"
  we_duration :: "string option"
  we_reused_from :: "reuse option"

record gate_run =
  gr_run_id :: string
  gr_repo :: string
  gr_worktree :: string
  gr_head :: string
  gr_tree :: string
  gr_clean :: bool
  gr_tree_changed :: bool
  gr_scope :: string
  gr_command :: string
  gr_names :: "string list"
  gr_exit :: int
  gr_log_path :: string
  gr_log_tail :: string
  gr_started :: string
  gr_duration :: string
  gr_manifest_hash :: "string option"
  gr_repo_wide :: "wide_entry option"
  gr_units :: "unit_entry list"

text \<open>A \<open>ValueError\<close> is its message.\<close>

type_synonym 'a checked = "string + 'a"

datatype float_read = No_Number | Overflows | Infinite_Or_Negative | Seconds string

definition required_string :: "yval \<Rightarrow> string \<Rightarrow> string checked" where
  "required_string v location =
     (case v of
        YStr s \<Rightarrow> if strip s = [] then Inl (location @ '' is not a nonblank string'') else Inr s
      | _ \<Rightarrow> Inl (location @ '' is not a nonblank string''))"

fun float_seconds :: "float_read \<Rightarrow> string \<Rightarrow> string checked" where
  "float_seconds No_Number location = Inl (location @ '' duration_s is not a number'')"
| "float_seconds Overflows location = Inl (location @ '' duration_s is not finite'')"
| "float_seconds Infinite_Or_Negative location = Inl (location @ '' duration_s is not finite and nonnegative'')"
| "float_seconds (Seconds t) location = Inr t"

definition read_duration :: "(yval \<Rightarrow> float_read) \<Rightarrow> yval \<Rightarrow> string \<Rightarrow> string checked" where
  "read_duration float_of v location =
     (case v of
        YInt _ \<Rightarrow> float_seconds (float_of v) location
      | YOther _ \<Rightarrow> float_seconds (float_of v) location
      | _ \<Rightarrow> Inl (location @ '' duration_s is not a number''))"

definition read_reuse :: "yval \<Rightarrow> string \<Rightarrow> reuse option checked" where
  "read_reuse v location =
     (case v of
        YNull \<Rightarrow> Inr None
      | YMap m \<Rightarrow>
          bind_res (required_string (yget m ''owner'') (location @ '' reused_from owner'')) (\<lambda>own.
          bind_res (required_string (yget m ''run_id'') (location @ '' reused_from run_id'')) (\<lambda>run.
          Inr (Some \<lparr>re_owner = own, re_run_id = run\<rparr>)))
      | _ \<Rightarrow> Inl (location @ '' reused_from is not {owner, run_id}''))"

fun int_value :: "yval \<Rightarrow> int option" where
  "int_value (YInt i) = Some i"
| "int_value _ = None"

definition evidence_fields ::
  "(yval \<Rightarrow> float_read) \<Rightarrow> ymap \<Rightarrow> string \<Rightarrow> (bool \<times> int option \<times> string option \<times> reuse option) checked" where
  "evidence_fields float_of m location =
     (case yget m ''ran'' of
        YBool did \<Rightarrow>
          let code = yget m ''exit''
          in if (code \<noteq> YNull \<or> did) \<and> int_value code = None then Inl (location @ '' exit is not an integer'')
             else
               bind_res (if yget m ''duration_s'' = YNull then Inr None
                         else bind_res (read_duration float_of (yget m ''duration_s'') location) (\<lambda>t. Inr (Some t))) (\<lambda>seconds.
               bind_res (read_reuse (yget m ''reused_from'') location) (\<lambda>reused.
               if \<not> did \<and> reused = None then Inl (location @ '' did not run and names no reused_from'')
               else Inr (did, int_value code, seconds, reused)))
      | _ \<Rightarrow> Inl (location @ '' ran is not a boolean''))"

definition is_hash :: "string \<Rightarrow> bool" where
  "is_hash s \<longleftrightarrow> list_all hex_char s \<and> length s = 64"

fun optional_string :: "yval \<Rightarrow> string option option" where
  "optional_string YNull = Some None"
| "optional_string (YStr s) = Some (Some s)"
| "optional_string _ = None"

definition read_unit_entry :: "(yval \<Rightarrow> float_read) \<Rightarrow> yval \<Rightarrow> unit_entry checked" where
  "read_unit_entry float_of v =
     (case v of
        YMap m \<Rightarrow>
          bind_res (required_string (yget m ''name'') ''unit name'') (\<lambda>name.
          case yget m ''hash'' of
            YStr digest \<Rightarrow>
              if \<not> is_hash digest then Inl (''unit '' @ name @ '' hash is not a sha256'')
              else
                (case optional_string (yget m ''log_path'') of
                   None \<Rightarrow> Inl (''unit '' @ name @ '' log_path is not a string'')
                 | Some log \<Rightarrow>
                     bind_res (evidence_fields float_of m (''unit '' @ name)) (\<lambda>(did, code, seconds, reused).
                     Inr \<lparr>ue_name = name, ue_hash = digest, ue_ran = did, ue_exit = code, ue_log_path = log,
                          ue_duration = seconds, ue_reused_from = reused\<rparr>))
          | _ \<Rightarrow> Inl (''unit '' @ name @ '' hash is not a sha256''))
      | _ \<Rightarrow> Inl ''unit entry is not a mapping'')"

definition read_wide :: "(yval \<Rightarrow> float_read) \<Rightarrow> yval \<Rightarrow> wide_entry option checked" where
  "read_wide float_of v =
     (case v of
        YNull \<Rightarrow> Inr None
      | YMap m \<Rightarrow>
          bind_res (required_string (yget m ''command'') ''repo_wide command'') (\<lambda>command.
          case yget m ''tree'' of
            YStr tree \<Rightarrow>
              if \<not> is_sha tree then Inl ''repo_wide tree is not a tree SHA''
              else
                bind_res (evidence_fields float_of m ''repo_wide'') (\<lambda>(did, code, seconds, reused).
                Inr (Some \<lparr>we_tree = tree, we_command = command, we_ran = did, we_exit = code,
                           we_duration = seconds, we_reused_from = reused\<rparr>))
          | _ \<Rightarrow> Inl ''repo_wide tree is not a tree SHA'')
      | _ \<Rightarrow> Inl ''repo_wide is not a mapping'')"

definition run_text :: "ymap \<Rightarrow> string \<Rightarrow> string checked" where
  "run_text m key =
     (case yget m key of
        YStr s \<Rightarrow> if key \<noteq> ''log_tail'' then required_string (YStr s) (''run '' @ key) else Inr s
      | _ \<Rightarrow> Inl (''run '' @ key @ '' is not a string''))"

definition run_sha :: "ymap \<Rightarrow> string \<Rightarrow> string checked" where
  "run_sha m key =
     (case yget m key of
        YStr s \<Rightarrow> if is_sha s then Inr s else Inl (''run '' @ key @ '' is not a commit or tree SHA'')
      | _ \<Rightarrow> Inl (''run '' @ key @ '' is not a commit or tree SHA''))"

definition run_bool :: "ymap \<Rightarrow> string \<Rightarrow> bool checked" where
  "run_bool m key = (case yget m key of YBool b \<Rightarrow> Inr b | _ \<Rightarrow> Inl (''run '' @ key @ '' is not a boolean''))"

definition run_scope :: "ymap \<Rightarrow> string checked" where
  "run_scope m =
     (case yget m ''scope'' of
        YStr s \<Rightarrow> if s \<in> {''full'', ''scoped''} then Inr s else Inl ''run scope is not full or scoped''
      | _ \<Rightarrow> Inl ''run scope is not full or scoped'')"

definition run_from_data :: "(yval \<Rightarrow> float_read) \<Rightarrow> yval \<Rightarrow> gate_run checked" where
  "run_from_data float_of v =
     (case v of
        YMap m \<Rightarrow>
          bind_res (run_text m ''run_id'') (\<lambda>run_id.
          bind_res (run_text m ''repo'') (\<lambda>repo.
          bind_res (run_text m ''worktree'') (\<lambda>worktree.
          bind_res (run_text m ''command'') (\<lambda>command.
          bind_res (run_text m ''log_path'') (\<lambda>log_path.
          bind_res (run_text m ''log_tail'') (\<lambda>log_tail.
          bind_res (run_text m ''started'') (\<lambda>started.
          bind_res (run_sha m ''head'') (\<lambda>head.
          bind_res (run_sha m ''tree'') (\<lambda>tree.
          bind_res (run_bool m ''clean'') (\<lambda>clean.
          bind_res (run_bool m ''tree_changed'') (\<lambda>changed.
          bind_res (run_scope m) (\<lambda>scope.
          bind_res (case int_value (yget m ''exit'') of None \<Rightarrow> Inl ''run exit is not an integer'' | Some i \<Rightarrow> Inr i) (\<lambda>code.
          bind_res (read_duration float_of (yget m ''duration_s'') ''run'') (\<lambda>seconds.
          bind_res (case text_items (yget m ''names'') of None \<Rightarrow> Inl ''run names is not a list of strings'' | Some ns \<Rightarrow> Inr ns) (\<lambda>names.
          bind_res (case optional_string (yget m ''manifest_hash'') of
                      None \<Rightarrow> Inl ''run manifest_hash is not a sha256''
                    | Some h \<Rightarrow> if (case h of None \<Rightarrow> True | Some s \<Rightarrow> is_hash s) then Inr h
                                else Inl ''run manifest_hash is not a sha256'') (\<lambda>manifest.
          bind_res (case yget_or (YList []) m ''units'' of YList us \<Rightarrow> Inr us | _ \<Rightarrow> Inl ''run units is not a list'') (\<lambda>units.
          bind_res (read_wide float_of (yget m ''repo_wide'')) (\<lambda>wide.
          bind_res (map_res (read_unit_entry float_of) units) (\<lambda>entries.
          Inr \<lparr>gr_run_id = run_id, gr_repo = repo, gr_worktree = worktree, gr_head = head, gr_tree = tree,
               gr_clean = clean, gr_tree_changed = changed, gr_scope = scope, gr_command = command,
               gr_names = names, gr_exit = code, gr_log_path = log_path, gr_log_tail = log_tail,
               gr_started = started, gr_duration = seconds, gr_manifest_hash = manifest,
               gr_repo_wide = wide, gr_units = entries\<rparr>)))))))))))))))))))
      | _ \<Rightarrow> Inl ''run is not a mapping'')"

text \<open>A receipt page, as \<open>okf_io.parse\<close> gives it: whether its front matter failed to parse, and its data.\<close>

definition parse_gate_receipt :: "(yval \<Rightarrow> float_read) \<Rightarrow> bool \<Rightarrow> ymap \<Rightarrow> (string \<times> gate_run list) checked" where
  "parse_gate_receipt float_of failed data =
     (case (yget data ''owner'', yget data ''runs'') of
        (YStr own, YList runs) \<Rightarrow>
          if failed \<or> yget data ''type'' \<noteq> YStr ''Explanation'' \<or>
             yget data ''receipt_version'' \<notin> {YInt 1, YInt 2}
          then Inl ''malformed gate receipt''
          else bind_res (required_string (YStr own) ''owner'') (\<lambda>own'.
               bind_res (map_res (run_from_data float_of) runs) (\<lambda>rs. Inr (own', rs)))
      | _ \<Rightarrow> Inl ''malformed gate receipt'')"

subsection \<open>Runs as plain data\<close>

definition optional_entry :: "string \<Rightarrow> ('a \<Rightarrow> yval) \<Rightarrow> 'a option \<Rightarrow> ymap" where
  "optional_entry key f v = (case v of None \<Rightarrow> [] | Some x \<Rightarrow> [(key, f x)])"

definition reuse_data :: "reuse \<Rightarrow> yval" where
  "reuse_data r = YMap [(''owner'', YStr (re_owner r)), (''run_id'', YStr (re_run_id r))]"

definition unit_entry_data :: "unit_entry \<Rightarrow> yval" where
  "unit_entry_data u = YMap
     ([(''name'', YStr (ue_name u)), (''hash'', YStr (ue_hash u)), (''ran'', YBool (ue_ran u))] @
      optional_entry ''exit'' YInt (ue_exit u) @ optional_entry ''log_path'' YStr (ue_log_path u) @
      optional_entry ''duration_s'' YOther (ue_duration u) @ optional_entry ''reused_from'' reuse_data (ue_reused_from u))"

definition wide_entry_data :: "wide_entry \<Rightarrow> yval" where
  "wide_entry_data w = YMap
     ([(''tree'', YStr (we_tree w)), (''command'', YStr (we_command w)), (''ran'', YBool (we_ran w))] @
      optional_entry ''exit'' YInt (we_exit w) @ optional_entry ''duration_s'' YOther (we_duration w) @
      optional_entry ''reused_from'' reuse_data (we_reused_from w))"

definition run_data :: "gate_run \<Rightarrow> yval" where
  "run_data r = YMap
     ([(''run_id'', YStr (gr_run_id r)), (''repo'', YStr (gr_repo r)), (''worktree'', YStr (gr_worktree r)),
       (''head'', YStr (gr_head r)), (''tree'', YStr (gr_tree r)), (''clean'', YBool (gr_clean r)),
       (''tree_changed'', YBool (gr_tree_changed r)), (''scope'', YStr (gr_scope r)),
       (''command'', YStr (gr_command r)), (''names'', YList (map YStr (gr_names r))), (''exit'', YInt (gr_exit r)),
       (''log_path'', YStr (gr_log_path r)), (''log_tail'', YStr (gr_log_tail r)), (''started'', YStr (gr_started r)),
       (''duration_s'', YOther (gr_duration r))] @
      optional_entry ''manifest_hash'' YStr (gr_manifest_hash r) @
      optional_entry ''repo_wide'' wide_entry_data (gr_repo_wide r) @
      (if gr_units r = [] then [] else [(''units'', YList (map unit_entry_data (gr_units r)))]))"

subsection \<open>What is read is well formed, and is read back from what is written\<close>

definition nonblank :: "string \<Rightarrow> bool" where
  "nonblank s \<longleftrightarrow> strip s \<noteq> []"

definition evidence_ok ::
  "(yval \<Rightarrow> float_read) \<Rightarrow> bool \<Rightarrow> int option \<Rightarrow> string option \<Rightarrow> reuse option \<Rightarrow> bool" where
  "evidence_ok float_of did code seconds reused \<longleftrightarrow>
     (did \<longrightarrow> code \<noteq> None) \<and> (\<not> did \<longrightarrow> reused \<noteq> None) \<and>
     (case seconds of None \<Rightarrow> True | Some t \<Rightarrow> float_of (YOther t) = Seconds t) \<and>
     (case reused of None \<Rightarrow> True | Some r \<Rightarrow> nonblank (re_owner r) \<and> nonblank (re_run_id r))"

definition unit_entry_ok :: "(yval \<Rightarrow> float_read) \<Rightarrow> unit_entry \<Rightarrow> bool" where
  "unit_entry_ok float_of u \<longleftrightarrow> nonblank (ue_name u) \<and> is_hash (ue_hash u) \<and>
     evidence_ok float_of (ue_ran u) (ue_exit u) (ue_duration u) (ue_reused_from u)"

definition wide_entry_ok :: "(yval \<Rightarrow> float_read) \<Rightarrow> wide_entry \<Rightarrow> bool" where
  "wide_entry_ok float_of w \<longleftrightarrow> nonblank (we_command w) \<and> is_sha (we_tree w) \<and>
     evidence_ok float_of (we_ran w) (we_exit w) (we_duration w) (we_reused_from w)"

definition run_ok :: "(yval \<Rightarrow> float_read) \<Rightarrow> gate_run \<Rightarrow> bool" where
  "run_ok float_of r \<longleftrightarrow>
     (\<forall>s \<in> {gr_run_id r, gr_repo r, gr_worktree r, gr_command r, gr_log_path r, gr_started r}. nonblank s) \<and>
     is_sha (gr_head r) \<and> is_sha (gr_tree r) \<and> gr_scope r \<in> {''full'', ''scoped''} \<and>
     float_of (YOther (gr_duration r)) = Seconds (gr_duration r) \<and>
     (case gr_manifest_hash r of None \<Rightarrow> True | Some h \<Rightarrow> is_hash h) \<and>
     (case gr_repo_wide r of None \<Rightarrow> True | Some w \<Rightarrow> wide_entry_ok float_of w) \<and>
     (\<forall>u \<in> set (gr_units r). unit_entry_ok float_of u)"

text \<open>Python's \<open>float\<close> reads the text of a float as that float.\<close>

definition float_stable :: "(yval \<Rightarrow> float_read) \<Rightarrow> bool" where
  "float_stable float_of \<longleftrightarrow> (\<forall>v t. float_of v = Seconds t \<longrightarrow> float_of (YOther t) = Seconds t)"

lemma required_string_Inr [simp]: "required_string v location = Inr s \<longleftrightarrow> v = YStr s \<and> nonblank s"
  by (auto simp: required_string_def nonblank_def split: yval.splits)

lemma checked_bind_Inr [simp]: "bind_res r f = Inr y \<longleftrightarrow> (\<exists>x. r = Inr x \<and> f x = Inr y)" for f :: "'a \<Rightarrow> 'b checked"
  by (simp add: bind_res_eq_Inr)

lemma float_seconds_Inr [simp]: "float_seconds f location = Inr t \<longleftrightarrow> f = Seconds t"
  by (cases f) auto

lemma read_duration_stable: "float_stable float_of \<Longrightarrow> read_duration float_of v location = Inr t \<Longrightarrow> float_of (YOther t) = Seconds t"
  by (auto simp: read_duration_def float_stable_def split: yval.splits)

lemma read_reuse_Inr: "read_reuse v location = Inr (Some r) \<Longrightarrow> nonblank (re_owner r) \<and> nonblank (re_run_id r)"
  by (auto simp: read_reuse_def split: yval.splits)

lemma evidence_fields_ok:
  assumes "float_stable float_of" and "evidence_fields float_of m location = Inr (did, code, seconds, reused)"
  shows "evidence_ok float_of did code seconds reused"
proof -
  have "reused = Some r \<Longrightarrow> nonblank (re_owner r) \<and> nonblank (re_run_id r)" for r
    using assms(2) read_reuse_Inr by (auto simp: evidence_fields_def Let_def split: yval.splits if_splits)
  moreover have "seconds = Some t \<Longrightarrow> float_of (YOther t) = Seconds t" for t
    using assms read_duration_stable by (auto simp: evidence_fields_def Let_def split: yval.splits if_splits)
  moreover have "(did \<longrightarrow> code \<noteq> None) \<and> (\<not> did \<longrightarrow> reused \<noteq> None)"
    using assms(2) by (auto simp: evidence_fields_def Let_def split: yval.splits if_splits)
  ultimately show ?thesis by (auto simp: evidence_ok_def split: option.splits)
qed

lemma read_unit_entry_ok:
  assumes "float_stable float_of" and "read_unit_entry float_of v = Inr u"
  shows "unit_entry_ok float_of u"
proof -
  obtain m where "v = YMap m" using assms(2) by (cases v) (auto simp: read_unit_entry_def)
  then show ?thesis
    using assms evidence_fields_ok [OF assms(1)]
    by (cases "yget m ''hash''") (auto simp: read_unit_entry_def unit_entry_ok_def split: option.splits if_splits)
qed

lemma read_wide_ok:
  assumes "float_stable float_of" and "read_wide float_of v = Inr (Some w)"
  shows "wide_entry_ok float_of w"
proof -
  obtain m where "v = YMap m" using assms(2) by (cases v) (auto simp: read_wide_def)
  then show ?thesis
    using assms evidence_fields_ok [OF assms(1)]
    by (cases "yget m ''tree''") (auto simp: read_wide_def wide_entry_ok_def split: option.splits if_splits)
qed

lemma run_text_Inr: "run_text m key = Inr s \<Longrightarrow> key \<noteq> ''log_tail'' \<Longrightarrow> nonblank s"
  by (auto simp: run_text_def split: yval.splits)

lemma run_sha_Inr: "run_sha m key = Inr s \<Longrightarrow> is_sha s"
  by (auto simp: run_sha_def split: yval.splits if_splits)

lemma run_scope_Inr: "run_scope m = Inr s \<Longrightarrow> s \<in> {''full'', ''scoped''}"
  by (auto simp: run_scope_def split: yval.splits if_splits)

lemma read_manifest_hash_Inr:
  "(case optional_string v of None \<Rightarrow> Inl e
     | Some h \<Rightarrow> if (case h of None \<Rightarrow> True | Some s \<Rightarrow> is_hash s) then Inr h else Inl e) = Inr h \<Longrightarrow>
   (case h of None \<Rightarrow> True | Some s \<Rightarrow> is_hash s)"
  by (auto split: option.splits if_splits)

lemma run_from_data_ok:
  assumes "float_stable float_of" and "run_from_data float_of v = Inr r"
  shows "run_ok float_of r"
proof -
  obtain m where v: "v = YMap m" using assms(2) by (cases v) (auto simp: run_from_data_def)
  note read = assms(2) [unfolded v run_from_data_def yval.case checked_bind_Inr]
  obtain units where units: "map_res (read_unit_entry float_of) units = Inr (gr_units r)" using read by auto
  then have "unit_entry_ok float_of u" if "u \<in> set (gr_units r)" for u
    using list_all2_origin [OF _ that] read_unit_entry_ok [OF assms(1)] by (fastforce simp: map_res_Inr_iff)
  moreover have "wide_entry_ok float_of w" if "gr_repo_wide r = Some w" for w
    using that read read_wide_ok [OF assms(1)] by auto
  moreover have "float_of (YOther (gr_duration r)) = Seconds (gr_duration r)"
    using read read_duration_stable [OF assms(1)] by auto
  moreover have "is_sha (gr_head r)" "is_sha (gr_tree r)" "gr_scope r \<in> {''full'', ''scoped''}"
    using read by (auto dest: run_sha_Inr run_scope_Inr)
  moreover have "case gr_manifest_hash r of None \<Rightarrow> True | Some h \<Rightarrow> is_hash h"
    using read read_manifest_hash_Inr by auto
  moreover have "nonblank s" if "s \<in> {gr_run_id r, gr_repo r, gr_worktree r, gr_command r, gr_log_path r, gr_started r}" for s
    using that read by (auto dest: run_text_Inr)
  ultimately show ?thesis by (auto simp: run_ok_def split: option.split)
qed

lemma yget_head [simp]:
  "yget ((k, v) # m) j = (if j = k then v else yget m j)"
  "yget (optional_entry k f x @ m) j = (if j = k then (case x of None \<Rightarrow> yget m j | Some y \<Rightarrow> f y) else yget m j)"
  "yget (optional_entry k f x) j = (if j = k then (case x of None \<Rightarrow> YNull | Some y \<Rightarrow> f y) else YNull)"
  "yget [] j = YNull"
  by (auto simp: yget_def optional_entry_def split: option.split)

lemma yget_or_head [simp]:
  "yget_or d ((k, v) # m) j = (if j = k then v else yget_or d m j)"
  "yget_or d (optional_entry k f x @ m) j = (if j = k then (case x of None \<Rightarrow> yget_or d m j | Some y \<Rightarrow> f y) else yget_or d m j)"
  "yget_or d [] j = d"
  by (auto simp: yget_or_def optional_entry_def split: option.split)

lemma reuse_data_not_null [simp]: "reuse_data r \<noteq> YNull"
  by (simp add: reuse_data_def)

lemma evidence_fields_intro:
  assumes "evidence_ok float_of did code seconds reused"
    and "yget m ''ran'' = YBool did" and "yget m ''exit'' = (case code of None \<Rightarrow> YNull | Some i \<Rightarrow> YInt i)"
    and "yget m ''duration_s'' = (case seconds of None \<Rightarrow> YNull | Some t \<Rightarrow> YOther t)"
    and "yget m ''reused_from'' = (case reused of None \<Rightarrow> YNull | Some r \<Rightarrow> reuse_data r)"
  shows "evidence_fields float_of m location = Inr (did, code, seconds, reused)"
proof -
  have code: "int_value (yget m ''exit'') = code" "yget m ''exit'' = YNull \<longleftrightarrow> code = None"
    using assms(3) by (cases code; simp)+
  have "read_reuse (yget m ''reused_from'') location = Inr reused"
    using assms(1,5) by (cases reused) (auto simp: read_reuse_def reuse_data_def evidence_ok_def)
  moreover have "(if yget m ''duration_s'' = YNull then Inr None
      else bind_res (read_duration float_of (yget m ''duration_s'') location) (\<lambda>t. Inr (Some t))) = Inr seconds"
    using assms(1,4) by (cases seconds) (auto simp: read_duration_def evidence_ok_def)
  ultimately show ?thesis
    using assms(1,2) code by (cases did; cases code) (simp_all add: evidence_fields_def evidence_ok_def)
qed

lemma unit_entry_roundtrip:
  assumes "unit_entry_ok float_of u"
  shows "read_unit_entry float_of (unit_entry_data u) = Inr u"
proof -
  obtain m where m: "unit_entry_data u = YMap m" "yget m ''name'' = YStr (ue_name u)" "yget m ''hash'' = YStr (ue_hash u)"
    "optional_string (yget m ''log_path'') = Some (ue_log_path u)" "yget m ''ran'' = YBool (ue_ran u)"
    "yget m ''exit'' = (case ue_exit u of None \<Rightarrow> YNull | Some i \<Rightarrow> YInt i)"
    "yget m ''duration_s'' = (case ue_duration u of None \<Rightarrow> YNull | Some t \<Rightarrow> YOther t)"
    "yget m ''reused_from'' = (case ue_reused_from u of None \<Rightarrow> YNull | Some r \<Rightarrow> reuse_data r)"
    by (simp add: unit_entry_data_def split: option.split)
  with assms evidence_fields_intro [of float_of "ue_ran u" "ue_exit u" "ue_duration u" "ue_reused_from u" m]
  show ?thesis by (simp add: read_unit_entry_def unit_entry_ok_def)
qed

lemma wide_entry_roundtrip:
  assumes "wide_entry_ok float_of w"
  shows "read_wide float_of (wide_entry_data w) = Inr (Some w)"
proof -
  obtain m where m: "wide_entry_data w = YMap m" "yget m ''command'' = YStr (we_command w)" "yget m ''tree'' = YStr (we_tree w)"
    "yget m ''ran'' = YBool (we_ran w)" "yget m ''exit'' = (case we_exit w of None \<Rightarrow> YNull | Some i \<Rightarrow> YInt i)"
    "yget m ''duration_s'' = (case we_duration w of None \<Rightarrow> YNull | Some t \<Rightarrow> YOther t)"
    "yget m ''reused_from'' = (case we_reused_from w of None \<Rightarrow> YNull | Some r \<Rightarrow> reuse_data r)"
    by (simp add: wide_entry_data_def split: option.split)
  with assms evidence_fields_intro [of float_of "we_ran w" "we_exit w" "we_duration w" "we_reused_from w" m]
  show ?thesis by (simp add: read_wide_def wide_entry_ok_def)
qed

lemma text_items_map [simp]: "text_items (YList (map YStr ns)) = Some ns"
  by (simp add: list_all_iff) (induction ns, simp_all add: map_filter_simps)

lemma optional_string_case [simp]:
  "optional_string (case h of None \<Rightarrow> YNull | Some s \<Rightarrow> YStr s) = Some h"
  by (cases h) auto

lemma run_roundtrip:
  assumes "run_ok float_of r"
  shows "run_from_data float_of (run_data r) = Inr r"
proof -
  obtain m where m: "run_data r = YMap m" "yget m ''run_id'' = YStr (gr_run_id r)" "yget m ''repo'' = YStr (gr_repo r)"
    "yget m ''worktree'' = YStr (gr_worktree r)" "yget m ''command'' = YStr (gr_command r)"
    "yget m ''log_path'' = YStr (gr_log_path r)" "yget m ''log_tail'' = YStr (gr_log_tail r)"
    "yget m ''started'' = YStr (gr_started r)" "yget m ''head'' = YStr (gr_head r)" "yget m ''tree'' = YStr (gr_tree r)"
    "yget m ''clean'' = YBool (gr_clean r)" "yget m ''tree_changed'' = YBool (gr_tree_changed r)"
    "yget m ''scope'' = YStr (gr_scope r)" "yget m ''exit'' = YInt (gr_exit r)" "yget m ''duration_s'' = YOther (gr_duration r)"
    "yget m ''names'' = YList (map YStr (gr_names r))"
    "optional_string (yget m ''manifest_hash'') = Some (gr_manifest_hash r)"
    "yget m ''repo_wide'' = (case gr_repo_wide r of None \<Rightarrow> YNull | Some w \<Rightarrow> wide_entry_data w)"
    "yget_or (YList []) m ''units'' = YList (map unit_entry_data (gr_units r))"
    by (simp add: run_data_def split: option.split)
  have "map_res (read_unit_entry float_of) (map unit_entry_data us) = Inr us" if "\<forall>u \<in> set us. unit_entry_ok float_of u" for us
    using that by (induction us) (simp_all add: unit_entry_roundtrip)
  then have "map_res (read_unit_entry float_of) (map unit_entry_data (gr_units r)) = Inr (gr_units r)"
    using assms by (simp add: run_ok_def)
  moreover have "read_wide float_of (yget m ''repo_wide'') = Inr (gr_repo_wide r)"
    using assms wide_entry_roundtrip unfolding m(18)
    by (cases "gr_repo_wide r") (simp add: read_wide_def, simp add: run_ok_def)
  ultimately show ?thesis
    using assms unfolding m(1) run_from_data_def
    by (simp del: text_items.simps add: m run_text_def run_sha_def run_bool_def run_scope_def read_duration_def run_ok_def)
qed

subsection \<open>The evidence for a tree\<close>

record unit_evidence =
  ev_name :: string
  ev_hash :: string
  ev_owner :: string
  ev_run_id :: string

record gate_evidence =
  ge_owner :: string
  ge_run_id :: string
  ge_units :: "unit_evidence list"

record gate_evaluation =
  ga_satisfied :: bool
  ga_evidence :: "gate_evidence option"
  ga_stale :: "string list"
  ga_wide_green :: bool
  ga_green :: "(string \<times> unit_evidence) list"
  ga_wide :: "reuse option"
  ga_warnings :: "string list"

text \<open>What the cache of receipts holds for one file: its path and its owner and runs, or an error.\<close>

record cached_receipt =
  cr_rel :: string
  cr_owner :: "string option"
  cr_runs :: "yval list"
  cr_error :: "string option"

definition receipt_of :: "(yval \<Rightarrow> float_read) \<Rightarrow> cached_receipt \<Rightarrow> (string \<times> gate_run list) checked" where
  "receipt_of float_of c =
     (case (cr_error c, cr_owner c) of
        (None, Some own) \<Rightarrow> bind_res (map_res (run_from_data float_of) (cr_runs c)) (\<lambda>rs. Inr (own, rs))
      | (Some e, _) \<Rightarrow> Inl (if e = [] then ''malformed gate receipt'' else e)
      | (None, None) \<Rightarrow> Inl ''malformed gate receipt'')"

fun receipts_from :: "(yval \<Rightarrow> float_read) \<Rightarrow> cached_receipt list \<Rightarrow> (string \<times> gate_run list) list \<times> string list" where
  "receipts_from float_of [] = ([], [])"
| "receipts_from float_of (c # cs) =
     (case receipts_from float_of cs of (found, warnings) \<Rightarrow>
        (case receipt_of float_of c of
           Inr r \<Rightarrow> (r # found, warnings)
         | Inl e \<Rightarrow> (found, (cr_rel c @ '': malformed gate receipt ignored ('' @ e @ '')'') # warnings)))"

definition v1_satisfies :: "gate_run \<Rightarrow> string \<Rightarrow> string \<Rightarrow> string \<Rightarrow> bool" where
  "v1_satisfies run repo tree command \<longleftrightarrow>
     gr_manifest_hash run = None \<and> gr_units run = [] \<and> gr_repo_wide run = None \<and> gr_repo run = repo \<and>
     gr_tree run = tree \<and> gr_clean run \<and> \<not> gr_tree_changed run \<and> gr_exit run = 0 \<and> gr_scope run = ''full'' \<and>
     gr_command run = command"

type_synonym run_rank = "string \<times> string"

definition run_key :: "gate_run \<Rightarrow> run_rank" where
  "run_key run = (gr_started run, gr_run_id run)"

text \<open>\<open>if best is None or rank > best[0]\<close>.\<close>

definition newer :: "(run_rank \<times> 'a) option \<Rightarrow> run_rank \<times> 'a \<Rightarrow> (run_rank \<times> 'a) option" where
  "newer best found = (case best of None \<Rightarrow> Some found | Some held \<Rightarrow> if fst held < fst found then Some found else best)"

record best_found =
  bf_unit :: "(string \<times> (run_rank \<times> unit_evidence)) list"
  bf_wide :: "(run_rank \<times> reuse) option"
  bf_v1 :: "(run_rank \<times> reuse) option"

record gate_request =
  rq_repo :: string
  rq_tree :: string
  rq_full_command :: string
  rq_wide_command :: "string option"
  rq_hashes :: "(string \<times> string) list"

definition entry_green :: "gate_request \<Rightarrow> unit_entry \<Rightarrow> bool" where
  "entry_green rq e \<longleftrightarrow> ue_ran e \<and> ue_exit e = Some 0 \<and> (ue_name e, ue_hash e) \<in> set (rq_hashes rq)"

definition wide_green :: "gate_request \<Rightarrow> gate_run \<Rightarrow> bool" where
  "wide_green rq run \<longleftrightarrow>
     (case gr_repo_wide run of
        None \<Rightarrow> False
      | Some w \<Rightarrow> we_ran w \<and> we_exit w = Some 0 \<and> gr_tree run = rq_tree rq \<and> we_tree w = rq_tree rq \<and>
                   Some (we_command w) = rq_wide_command rq)"

definition consider_entry :: "gate_request \<Rightarrow> string \<Rightarrow> gate_run \<Rightarrow> best_found \<Rightarrow> unit_entry \<Rightarrow> best_found" where
  "consider_entry rq own run b e =
     (if entry_green rq e
      then (case newer (map_of (bf_unit b) (ue_name e))
                   (run_key run, \<lparr>ev_name = ue_name e, ev_hash = ue_hash e, ev_owner = own, ev_run_id = gr_run_id run\<rparr>) of
              None \<Rightarrow> b
            | Some held \<Rightarrow> b\<lparr>bf_unit := AList.update (ue_name e) held (bf_unit b)\<rparr>)
      else b)"

definition consider_run :: "gate_request \<Rightarrow> best_found \<Rightarrow> string \<times> gate_run \<Rightarrow> best_found" where
  "consider_run rq b found =
     (case found of (own, run) \<Rightarrow>
        let reused = (run_key run, \<lparr>re_owner = own, re_run_id = gr_run_id run\<rparr>)
        in if gr_repo run \<noteq> rq_repo rq \<or> \<not> gr_clean run \<or> gr_tree_changed run then b
           else if v1_satisfies run (rq_repo rq) (rq_tree rq) (rq_full_command rq)
           then b\<lparr>bf_v1 := newer (bf_v1 b) reused\<rparr>
           else
             let b' = foldl (consider_entry rq own run) b (gr_units run)
             in if wide_green rq run then b'\<lparr>bf_wide := newer (bf_wide b') reused\<rparr> else b')"

definition all_runs :: "(string \<times> gate_run list) list \<Rightarrow> (string \<times> gate_run) list" where
  "all_runs found = concat (map (\<lambda>(own, runs). map (Pair own) runs) found)"

definition best_evidence :: "gate_request \<Rightarrow> (string \<times> gate_run list) list \<Rightarrow> best_found" where
  "best_evidence rq found =
     foldl (consider_run rq) \<lparr>bf_unit = [], bf_wide = None, bf_v1 = None\<rparr> (all_runs found)"

text \<open>\<open>max(values, key=...)\<close>: the first of the greatest.\<close>

definition newest_of :: "(run_rank \<times> 'a) list \<Rightarrow> (run_rank \<times> 'a) option" where
  "newest_of xs = foldl newer None xs"

definition evaluate :: "gate_request \<Rightarrow> (string \<times> gate_run list) list \<Rightarrow> string list \<Rightarrow> gate_evaluation checked" where
  "evaluate rq found warnings =
     (if rq_hashes rq = [] then Inl ''gate evaluation requires at least one unit hash''
      else
        let b = best_evidence rq found; names = sort (map fst (rq_hashes rq))
        in case bf_v1 b of
             Some (_, r) \<Rightarrow>
               let units = List.map_filter (\<lambda>n. map_option (\<lambda>h.
                     \<lparr>ev_name = n, ev_hash = h, ev_owner = re_owner r, ev_run_id = re_run_id r\<rparr>) (map_of (rq_hashes rq) n)) names
               in Inr \<lparr>ga_satisfied = True,
                       ga_evidence = Some \<lparr>ge_owner = re_owner r, ge_run_id = re_run_id r, ge_units = units\<rparr>,
                       ga_stale = [], ga_wide_green = True, ga_green = map (\<lambda>u. (ev_name u, u)) units, ga_wide = Some r,
                       ga_warnings = warnings\<rparr>
           | None \<Rightarrow>
               let green = map (\<lambda>(n, _, e). (n, e)) (bf_unit b);
                   stale = filter (\<lambda>n. n \<notin> fst ` set green) names;
                   wide_ok = (rq_wide_command rq = None \<or> bf_wide b \<noteq> None);
                   satisfied = (wide_ok \<and> stale = []);
                   anchor = (case bf_wide b of
                               Some (_, r) \<Rightarrow> Some r
                             | None \<Rightarrow> map_option (\<lambda>(_, e). \<lparr>re_owner = ev_owner e, re_run_id = ev_run_id e\<rparr>)
                                         (newest_of (map snd (bf_unit b))))
               in if satisfied \<and> anchor = None then Inl ''max() arg is an empty sequence''
                  else Inr \<lparr>ga_satisfied = satisfied,
                       ga_evidence = (if satisfied then map_option (\<lambda>r. \<lparr>ge_owner = re_owner r, ge_run_id = re_run_id r,
                            ge_units = List.map_filter (map_of green) names\<rparr>) anchor else None),
                       ga_stale = stale, ga_wide_green = wide_ok, ga_green = green, ga_wide = map_option snd (bf_wide b),
                       ga_warnings = warnings\<rparr>)"

definition any_for_tree :: "(string \<times> gate_run list) list \<Rightarrow> string \<Rightarrow> string \<Rightarrow> bool" where
  "any_for_tree found repo tree = list_ex (\<lambda>(_, runs). list_ex (\<lambda>r. gr_repo r = repo \<and> gr_tree r = tree) runs) found"

subsection \<open>What the search for evidence finds\<close>

lemma newer_Some: "\<exists>held. newer best x = Some held"
proof (cases best)
  case (Some held)
  then show ?thesis by (cases "fst held < fst x") (simp_all add: newer_def)
qed (simp add: newer_def)

lemma foldl_newer_Some: "foldl newer (Some x) cs \<noteq> None"
  by (induction cs arbitrary: x) (auto simp: newer_def)

lemma foldl_newer_None [simp]: "foldl newer None cs = None \<longleftrightarrow> cs = []"
  by (cases cs) (use foldl_newer_Some in \<open>auto simp: newer_def\<close>)

lemma foldl_newer_mem: "foldl newer best cs = Some x \<Longrightarrow> best = Some x \<or> x \<in> set cs"
  by (induction cs arbitrary: best) (auto simp: newer_def split: option.splits if_splits)

text \<open>The candidates for one unit, for the repository-wide command and for the old rule, in order.\<close>

definition counts :: "gate_request \<Rightarrow> gate_run \<Rightarrow> bool" where
  "counts rq run \<longleftrightarrow> gr_repo run = rq_repo rq \<and> gr_clean run \<and> \<not> gr_tree_changed run"

abbreviation old_rule :: "gate_request \<Rightarrow> gate_run \<Rightarrow> bool" where
  "old_rule rq run \<equiv> v1_satisfies run (rq_repo rq) (rq_tree rq) (rq_full_command rq)"

definition run_evidence :: "string \<Rightarrow> gate_run \<Rightarrow> unit_entry \<Rightarrow> run_rank \<times> unit_evidence" where
  "run_evidence own run e =
     (run_key run, \<lparr>ev_name = ue_name e, ev_hash = ue_hash e, ev_owner = own, ev_run_id = gr_run_id run\<rparr>)"

definition unit_candidates :: "gate_request \<Rightarrow> string \<Rightarrow> string \<times> gate_run \<Rightarrow> (run_rank \<times> unit_evidence) list" where
  "unit_candidates rq n found =
     (case found of (own, run) \<Rightarrow>
        if counts rq run then map (run_evidence own run) (filter (\<lambda>e. entry_green rq e \<and> ue_name e = n) (gr_units run)) else [])"

definition run_reuse :: "string \<times> gate_run \<Rightarrow> run_rank \<times> reuse" where
  "run_reuse found = (case found of (own, run) \<Rightarrow> (run_key run, \<lparr>re_owner = own, re_run_id = gr_run_id run\<rparr>))"

lemma old_rule_counts: "old_rule rq run \<Longrightarrow> counts rq run \<and> gr_units run = [] \<and> \<not> wide_green rq run"
  by (simp add: v1_satisfies_def counts_def wide_green_def)

lemma consider_entries_unit:
  "map_of (bf_unit (foldl (consider_entry rq own run) b es)) n =
     foldl newer (map_of (bf_unit b) n) (map (run_evidence own run) (filter (\<lambda>e. entry_green rq e \<and> ue_name e = n) es))"
proof (induction es arbitrary: b)
  case (Cons e es)
  obtain held where held: "newer (map_of (bf_unit b) (ue_name e)) (run_evidence own run e) = Some held"
    using newer_Some by blast
  then have "consider_entry rq own run b e =
      (if entry_green rq e then b\<lparr>bf_unit := AList.update (ue_name e) held (bf_unit b)\<rparr> else b)"
    by (simp add: consider_entry_def run_evidence_def)
  with Cons.IH held show ?case by (auto simp: update_conv')
qed simp

lemma consider_entries_rest [simp]:
  "bf_wide (foldl (consider_entry rq own run) b es) = bf_wide b"
  "bf_v1 (foldl (consider_entry rq own run) b es) = bf_v1 b"
  by (induction es arbitrary: b) (auto simp: consider_entry_def split: option.splits)

lemma consider_run_unit:
  "map_of (bf_unit (consider_run rq b f)) n = foldl newer (map_of (bf_unit b) n) (unit_candidates rq n f)"
  using old_rule_counts
  by (cases f) (auto simp: consider_run_def unit_candidates_def counts_def consider_entries_unit Let_def)

lemma consider_run_wide:
  "bf_wide (consider_run rq b f) =
     foldl newer (bf_wide b) (if counts rq (snd f) \<and> wide_green rq (snd f) then [run_reuse f] else [])"
  using old_rule_counts
  by (cases f) (auto simp: consider_run_def counts_def run_reuse_def Let_def)

lemma consider_run_v1:
  "bf_v1 (consider_run rq b f) = foldl newer (bf_v1 b) (if old_rule rq (snd f) then [run_reuse f] else [])"
  using old_rule_counts
  by (cases f) (auto simp: consider_run_def counts_def run_reuse_def Let_def)

lemma consider_runs_unit:
  "map_of (bf_unit (foldl (consider_run rq) b fs)) n = foldl newer (map_of (bf_unit b) n) (concat (map (unit_candidates rq n) fs))"
  by (induction fs arbitrary: b) (auto simp: consider_run_unit)

lemma consider_runs_wide:
  "bf_wide (foldl (consider_run rq) b fs) =
     foldl newer (bf_wide b) (map run_reuse (filter (\<lambda>f. counts rq (snd f) \<and> wide_green rq (snd f)) fs))"
  by (induction fs arbitrary: b) (auto simp: consider_run_wide)

lemma consider_runs_v1:
  "bf_v1 (foldl (consider_run rq) b fs) = foldl newer (bf_v1 b) (map run_reuse (filter (\<lambda>f. old_rule rq (snd f)) fs))"
  by (induction fs arbitrary: b) (auto simp: consider_run_v1)

text \<open>What the receipts prove: the old rule, one unit, the repository-wide command.\<close>

definition proved_whole :: "gate_request \<Rightarrow> (string \<times> gate_run list) list \<Rightarrow> bool" where
  "proved_whole rq found \<longleftrightarrow> (\<exists>f \<in> set (all_runs found). old_rule rq (snd f))"

definition proved_unit :: "gate_request \<Rightarrow> (string \<times> gate_run list) list \<Rightarrow> string \<Rightarrow> bool" where
  "proved_unit rq found n \<longleftrightarrow>
     (\<exists>f \<in> set (all_runs found). counts rq (snd f) \<and> (\<exists>e \<in> set (gr_units (snd f)). entry_green rq e \<and> ue_name e = n))"

definition proved_wide :: "gate_request \<Rightarrow> (string \<times> gate_run list) list \<Rightarrow> bool" where
  "proved_wide rq found \<longleftrightarrow>
     rq_wide_command rq = None \<or> (\<exists>f \<in> set (all_runs found). counts rq (snd f) \<and> wide_green rq (snd f))"

definition covered :: "gate_request \<Rightarrow> (string \<times> gate_run list) list \<Rightarrow> bool" where
  "covered rq found \<longleftrightarrow>
     proved_whole rq found \<or> (proved_wide rq found \<and> (\<forall>n \<in> fst ` set (rq_hashes rq). proved_unit rq found n))"

lemma best_v1_None: "bf_v1 (best_evidence rq found) = None \<longleftrightarrow> \<not> proved_whole rq found"
  by (auto simp: best_evidence_def consider_runs_v1 proved_whole_def filter_empty_conv)

lemma best_wide_None: "rq_wide_command rq = None \<or> bf_wide (best_evidence rq found) \<noteq> None \<longleftrightarrow> proved_wide rq found"
  by (auto simp: best_evidence_def consider_runs_wide proved_wide_def filter_empty_conv)

lemma best_unit_None: "map_of (bf_unit (best_evidence rq found)) n \<noteq> None \<longleftrightarrow> proved_unit rq found n"
  unfolding best_evidence_def consider_runs_unit
  by (auto simp: proved_unit_def unit_candidates_def filter_empty_conv split: prod.splits if_splits) force+

lemma best_unit_origin:
  assumes "map_of (bf_unit (best_evidence rq found)) n = Some (rank, u)"
  obtains own run e where "(own, run) \<in> set (all_runs found)" "counts rq run" "e \<in> set (gr_units run)" "entry_green rq e"
    "ue_name e = n" "rank = run_key run"
    "u = \<lparr>ev_name = n, ev_hash = ue_hash e, ev_owner = own, ev_run_id = gr_run_id run\<rparr>"
  using assms unfolding best_evidence_def consider_runs_unit
  by (auto dest!: foldl_newer_mem simp: unit_candidates_def run_evidence_def split: prod.splits if_splits)

lemma best_v1_origin:
  assumes "bf_v1 (best_evidence rq found) = Some (rank, r)"
  obtains own run where "(own, run) \<in> set (all_runs found)" "old_rule rq run" "r = \<lparr>re_owner = own, re_run_id = gr_run_id run\<rparr>"
  using assms unfolding best_evidence_def consider_runs_v1
  by (auto dest!: foldl_newer_mem simp: run_reuse_def split: prod.splits)

text \<open>Evidence for a unit points at a recorded run that earns it.\<close>

definition earned :: "gate_request \<Rightarrow> (string \<times> gate_run list) list \<Rightarrow> unit_evidence \<Rightarrow> bool" where
  "earned rq found u \<longleftrightarrow> (ev_name u, ev_hash u) \<in> set (rq_hashes rq) \<and>
     (\<exists>run. (ev_owner u, run) \<in> set (all_runs found) \<and> gr_run_id run = ev_run_id u \<and> counts rq run \<and>
        (old_rule rq run \<or>
         (\<exists>e \<in> set (gr_units run). entry_green rq e \<and> ue_name e = ev_name u \<and> ue_hash e = ev_hash u)))"

lemma green_names:
  "fst ` set (map (\<lambda>(n, _, e). (n, e)) (bf_unit (best_evidence rq found))) = {n. proved_unit rq found n}"
  using best_unit_None [of rq found] by (force simp: map_of_eq_None_iff image_iff)

lemma consider_entries_distinct:
  "distinct (map fst (bf_unit b)) \<Longrightarrow> distinct (map fst (bf_unit (foldl (consider_entry rq own run) b es)))"
proof (induction es arbitrary: b)
  case (Cons e es)
  have "distinct (map fst (bf_unit (consider_entry rq own run b e)))"
    using Cons.prems by (simp add: consider_entry_def distinct_update split: option.split)
  with Cons.IH show ?case by simp
qed simp

lemma best_unit_distinct: "distinct (map fst (bf_unit (best_evidence rq found)))"
proof -
  have "distinct (map fst (bf_unit (foldl (consider_run rq) b fs)))" if "distinct (map fst (bf_unit b))" for b fs
    using that
  proof (induction fs arbitrary: b)
    case (Cons f fs)
    have "distinct (map fst (bf_unit (consider_run rq b f)))"
      using Cons.prems consider_entries_distinct by (cases f) (simp add: consider_run_def Let_def)
    with Cons.IH show ?case by simp
  qed simp
  then show ?thesis by (simp add: best_evidence_def)
qed

text \<open>A run of the receipts that no other run of its kind follows.\<close>

definition newest_run :: "(string \<times> gate_run list) list \<Rightarrow> (gate_run \<Rightarrow> bool) \<Rightarrow> string \<Rightarrow> string \<Rightarrow> bool" where
  "newest_run found kind own run_id \<longleftrightarrow>
     (\<exists>run. (own, run) \<in> set (all_runs found) \<and> gr_run_id run = run_id \<and> kind run \<and>
        (\<forall>f \<in> set (all_runs found). kind (snd f) \<longrightarrow> run_key (snd f) \<le> run_key run))"

text \<open>The runs the evidence may be anchored to: a full run of the old form where there is one, else
  a run of the repository-wide command where the manifest has one, else a run that earned a unit.\<close>

definition anchors :: "gate_request \<Rightarrow> (string \<times> gate_run list) list \<Rightarrow> gate_run \<Rightarrow> bool" where
  "anchors rq found run \<longleftrightarrow>
     (if proved_whole rq found then old_rule rq run
      else counts rq run \<and>
        (if rq_wide_command rq \<noteq> None then wide_green rq run else \<exists>e \<in> set (gr_units run). entry_green rq e))"

definition evidence_holds :: "gate_request \<Rightarrow> (string \<times> gate_run list) list \<Rightarrow> gate_evidence \<Rightarrow> bool" where
  "evidence_holds rq found e \<longleftrightarrow>
     newest_run found (anchors rq found) (ge_owner e) (ge_run_id e) \<and>
     map ev_name (ge_units e) = sort (map fst (rq_hashes rq)) \<and> (\<forall>u \<in> set (ge_units e). earned rq found u)"

lemma foldl_newer_greatest:
  "foldl newer best cs = Some x \<Longrightarrow> (\<forall>y \<in> set cs. fst y \<le> fst x) \<and> (\<forall>y. best = Some y \<longrightarrow> fst y \<le> fst x)"
proof (induction cs arbitrary: best)
  case (Cons c cs)
  obtain held where held: "newer best c = Some held" using newer_Some by blast
  then have "fst c \<le> fst held \<and> (\<forall>y. best = Some y \<longrightarrow> fst y \<le> fst held)"
    by (auto simp: newer_def split: option.splits if_splits)
  moreover have "(\<forall>y \<in> set cs. fst y \<le> fst x) \<and> fst held \<le> fst x" using Cons.IH [of "newer best c"] Cons.prems held by simp
  ultimately show ?case by (auto intro: order_trans)
qed simp

lemma best_run_newest:
  assumes "foldl newer None (map run_reuse (filter (\<lambda>f. kind (snd f)) (all_runs found))) = Some (rank, r)"
  shows "newest_run found kind (re_owner r) (re_run_id r)"
proof -
  from foldl_newer_mem [OF assms] obtain own run where run: "(own, run) \<in> set (all_runs found)" "kind run"
    "rank = run_key run" "r = \<lparr>re_owner = own, re_run_id = gr_run_id run\<rparr>"
    by (auto simp: run_reuse_def split: prod.splits)
  have "run_key (snd f) \<le> run_key run" if "f \<in> set (all_runs found)" "kind (snd f)" for f
  proof -
    have "run_reuse f \<in> set (map run_reuse (filter (\<lambda>f. kind (snd f)) (all_runs found)))" using that by simp
    then have "fst (run_reuse f) \<le> rank" using foldl_newer_greatest [OF assms] by (simp del: set_map) 
    then show ?thesis using run(3) by (cases f) (simp add: run_reuse_def)
  qed
  with run show ?thesis unfolding newest_run_def by auto
qed

lemma best_unit_newest:
  assumes "newest_of (map snd (bf_unit (best_evidence rq found))) = Some (rank, u)"
  shows "newest_run found (\<lambda>run. counts rq run \<and> (\<exists>e \<in> set (gr_units run). entry_green rq e)) (ev_owner u) (ev_run_id u)"
proof -
  let ?units = "bf_unit (best_evidence rq found)"
  have "(rank, u) \<in> snd ` set ?units" using foldl_newer_mem [of None "map snd ?units"] assms by (simp add: newest_of_def)
  then obtain n where "(n, rank, u) \<in> set ?units" by force
  then have "map_of ?units n = Some (rank, u)" using best_unit_distinct by simp
  then obtain own run e where run: "(own, run) \<in> set (all_runs found)" "counts rq run" "e \<in> set (gr_units run)"
    "entry_green rq e" "rank = run_key run"
    "u = \<lparr>ev_name = n, ev_hash = ue_hash e, ev_owner = own, ev_run_id = gr_run_id run\<rparr>"
    by (rule best_unit_origin)
  have "run_key r \<le> run_key run"
    if "(own', r) \<in> set (all_runs found)" "counts rq r" "e' \<in> set (gr_units r)" "entry_green rq e'" for own' r e'
  proof -
    let ?candidates = "concat (map (unit_candidates rq (ue_name e')) (all_runs found))"
    have "run_evidence own' r e' \<in> set (unit_candidates rq (ue_name e') (own', r))"
      using that by (simp add: unit_candidates_def)
    then have mem: "run_evidence own' r e' \<in> set ?candidates" using that(1) by auto
    then obtain held where held: "foldl newer None ?candidates = Some held" by (cases "foldl newer None ?candidates") auto
    then have "run_key r \<le> fst held" using foldl_newer_greatest [OF held] mem by (force simp: run_evidence_def)
    moreover have "map_of ?units (ue_name e') = Some held"
      using held by (simp add: best_evidence_def consider_runs_unit)
    then have "held \<in> set (map snd ?units)" by (auto dest: map_of_SomeD intro: rev_image_eqI)
    then have "fst held \<le> rank" using foldl_newer_greatest [OF assms [unfolded newest_of_def]] by force
    ultimately show ?thesis using run(5) by (auto intro: order_trans)
  qed
  with run show ?thesis unfolding newest_run_def by auto
qed

lemma map_filter_total:
  "\<forall>n \<in> set ns. \<exists>y. f n = Some y \<and> g y = n \<Longrightarrow> map g (List.map_filter f ns) = ns"
  by (induction ns) (auto simp: List.map_filter_simps)

lemma best_anchor:
  "bf_v1 (best_evidence rq found) = Some (rank, r) \<Longrightarrow> newest_run found (anchors rq found) (re_owner r) (re_run_id r)"
  "bf_v1 (best_evidence rq found) = None \<Longrightarrow> bf_wide (best_evidence rq found) = Some (rank, r) \<Longrightarrow>
     newest_run found (anchors rq found) (re_owner r) (re_run_id r)"
  "bf_v1 (best_evidence rq found) = None \<Longrightarrow> rq_wide_command rq = None \<Longrightarrow>
     newest_of (map snd (bf_unit (best_evidence rq found))) = Some (rank, u) \<Longrightarrow>
     newest_run found (anchors rq found) (ev_owner u) (ev_run_id u)"
proof -
  assume v1: "bf_v1 (best_evidence rq found) = Some (rank, r)"
  then have "proved_whole rq found" using best_v1_None [of rq found] by auto
  then have "anchors rq found = old_rule rq" by (simp add: anchors_def fun_eq_iff)
  with v1 best_run_newest show "newest_run found (anchors rq found) (re_owner r) (re_run_id r)"
    by (simp add: best_evidence_def consider_runs_v1)
next
  assume v1: "bf_v1 (best_evidence rq found) = None" and wide: "bf_wide (best_evidence rq found) = Some (rank, r)"
  then have "rq_wide_command rq \<noteq> None"
    by (cases "rq_wide_command rq")
      (auto simp: best_evidence_def consider_runs_wide wide_green_def dest!: foldl_newer_mem split: option.splits)
  then have "anchors rq found = (\<lambda>run. counts rq run \<and> wide_green rq run)"
    using v1 best_v1_None [of rq found] by (simp add: anchors_def fun_eq_iff)
  with wide best_run_newest [of "\<lambda>run. counts rq run \<and> wide_green rq run"]
  show "newest_run found (anchors rq found) (re_owner r) (re_run_id r)"
    by (simp add: best_evidence_def consider_runs_wide)
next
  assume v1: "bf_v1 (best_evidence rq found) = None" and "rq_wide_command rq = None"
    and unit: "newest_of (map snd (bf_unit (best_evidence rq found))) = Some (rank, u)"
  then have "anchors rq found = (\<lambda>run. counts rq run \<and> (\<exists>e \<in> set (gr_units run). entry_green rq e))"
    using best_v1_None [of rq found] by (simp add: anchors_def fun_eq_iff)
  with best_unit_newest [OF unit] show "newest_run found (anchors rq found) (ev_owner u) (ev_run_id u)" by simp
qed

lemma green_in_order:
  assumes "\<forall>(n, u) \<in> set green. ev_name u = n" and "filter (\<lambda>n. n \<notin> fst ` set green) names = []"
  shows "map ev_name (List.map_filter (map_of green) names) = names"
    and "set (List.map_filter (map_of green) names) \<subseteq> snd ` set green"
proof -
  have "\<forall>n \<in> set names. \<exists>u. map_of green n = Some u \<and> ev_name u = n"
  proof
    fix n assume "n \<in> set names"
    then have "n \<in> fst ` set green" using assms(2) by (auto simp: filter_empty_conv)
    then obtain u where "map_of green n = Some u" by (metis map_of_eq_None_iff not_None_eq)
    then show "\<exists>u. map_of green n = Some u \<and> ev_name u = n" using assms(1) by (blast dest: map_of_SomeD)
  qed
  then show "map ev_name (List.map_filter (map_of green) names) = names" by (rule map_filter_total)
  show "set (List.map_filter (map_of green) names) \<subseteq> snd ` set green"
  proof
    fix u assume "u \<in> set (List.map_filter (map_of green) names)"
    then obtain n where "map_of green n = Some u" by (auto simp: map_filter_def)
    then have "(n, u) \<in> set green" by (rule map_of_SomeD)
    then show "u \<in> snd ` set green" by (simp add: rev_image_eqI)
  qed
qed

lemma evaluate_old:
  assumes "rq_hashes rq \<noteq> []" and "proved_whole rq found"
  obtains ev where "evaluate rq found warnings = Inr ev" "ga_satisfied ev" "ga_stale ev = []" "ga_wide_green ev"
    "ga_evidence ev \<noteq> None" "\<forall>(n, u) \<in> set (ga_green ev). ev_name u = n \<and> earned rq found u"
    "\<forall>e. ga_evidence ev = Some e \<longrightarrow> evidence_holds rq found e"
    "\<forall>r. ga_wide ev = Some r \<longrightarrow> newest_run found (anchors rq found) (re_owner r) (re_run_id r)"
proof -
  obtain rank r where best: "bf_v1 (best_evidence rq found) = Some (rank, r)"
    using best_v1_None [of rq found] assms(2) by (cases "bf_v1 (best_evidence rq found)") auto
  then obtain own run where run: "(own, run) \<in> set (all_runs found)" "old_rule rq run"
    "r = \<lparr>re_owner = own, re_run_id = gr_run_id run\<rparr>" by (rule best_v1_origin)
  let ?units = "List.map_filter (\<lambda>n. map_option (\<lambda>h.
    \<lparr>ev_name = n, ev_hash = h, ev_owner = re_owner r, ev_run_id = re_run_id r\<rparr>) (map_of (rq_hashes rq) n))
    (sort (map fst (rq_hashes rq)))"
  have "earned rq found u" if "u \<in> set ?units" for u
  proof -
    from that obtain n h where "map_of (rq_hashes rq) n = Some h"
      "u = \<lparr>ev_name = n, ev_hash = h, ev_owner = re_owner r, ev_run_id = re_run_id r\<rparr>"
      by (auto simp: map_filter_def split: option.splits)
    then have "(ev_name u, ev_hash u) \<in> set (rq_hashes rq)" "ev_owner u = own" "ev_run_id u = gr_run_id run"
      using run(3) by (simp_all add: map_of_SomeD)
    with run(1,2) old_rule_counts [OF run(2)] show ?thesis
      unfolding earned_def by (intro conjI exI [of _ run]) simp_all
  qed
  moreover have "evaluate rq found warnings = Inr \<lparr>ga_satisfied = True,
      ga_evidence = Some \<lparr>ge_owner = re_owner r, ge_run_id = re_run_id r, ge_units = ?units\<rparr>,
      ga_stale = [], ga_wide_green = True, ga_green = map (\<lambda>u. (ev_name u, u)) ?units, ga_wide = Some r,
      ga_warnings = warnings\<rparr>"
    using assms(1) by (simp add: evaluate_def best Let_def)
  moreover have "newest_run found (anchors rq found) (re_owner r) (re_run_id r)" using best by (rule best_anchor(1))
  moreover have "map ev_name ?units = sort (map fst (rq_hashes rq))"
  proof (rule map_filter_total, intro ballI)
    fix n assume "n \<in> set (sort (map fst (rq_hashes rq)))"
    then obtain h where "map_of (rq_hashes rq) n = Some h" by (auto dest: weak_map_of_SomeI)
    then show "\<exists>u. map_option (\<lambda>h. \<lparr>ev_name = n, ev_hash = h, ev_owner = re_owner r, ev_run_id = re_run_id r\<rparr>)
        (map_of (rq_hashes rq) n) = Some u \<and> ev_name u = n" by simp
  qed
  ultimately show ?thesis by (intro that) (auto simp: evidence_holds_def)
qed

lemma satisfied_evidence:
  assumes v1: "bf_v1 (best_evidence rq found) = None"
    and wide: "rq_wide_command rq = None \<or> bf_wide (best_evidence rq found) \<noteq> None"
    and green: "\<forall>(n, u) \<in> set green. ev_name u = n \<and> earned rq found u"
    and none_stale: "filter (\<lambda>n. n \<notin> fst ` set green) (sort (map fst (rq_hashes rq))) = []"
    and anchor: "(case bf_wide (best_evidence rq found) of Some (_, r) \<Rightarrow> Some r
      | None \<Rightarrow> map_option (\<lambda>(_, e). \<lparr>re_owner = ev_owner e, re_run_id = ev_run_id e\<rparr>)
          (newest_of (map snd (bf_unit (best_evidence rq found))))) = Some r"
  shows "evidence_holds rq found \<lparr>ge_owner = re_owner r, ge_run_id = re_run_id r,
    ge_units = List.map_filter (map_of green) (sort (map fst (rq_hashes rq)))\<rparr>"
proof -
  have "newest_run found (anchors rq found) (re_owner r) (re_run_id r)"
  proof (cases "bf_wide (best_evidence rq found)")
    case None
    with wide have "rq_wide_command rq = None" by simp
    moreover from anchor None obtain rank u where "newest_of (map snd (bf_unit (best_evidence rq found))) = Some (rank, u)"
      "r = \<lparr>re_owner = ev_owner u, re_run_id = ev_run_id u\<rparr>" by auto
    ultimately show ?thesis using best_anchor(3) [OF v1] by simp
  next
    case (Some x)
    with anchor show ?thesis using best_anchor(2) [OF v1] by (cases x) simp
  qed
  moreover have "\<forall>(n, u) \<in> set green. ev_name u = n" using green by blast
  note order = green_in_order [OF this none_stale]
  have "\<forall>u \<in> set (List.map_filter (map_of green) (sort (map fst (rq_hashes rq)))). earned rq found u"
    using order(2) green by fastforce
  ultimately show ?thesis using order(1) by (simp add: evidence_holds_def)
qed

lemma if_evidence: "\<not> (P \<and> x = None) \<Longrightarrow> (if P then map_option f x else None) \<noteq> None \<longleftrightarrow> P"
  by auto

lemma if_evidence_Some:
  assumes "(if P then map_option f x else None) = Some e"
  obtains r where "x = Some r" "e = f r" "P"
  using assms by (cases P; cases x) auto

lemma evaluate_new:
  assumes "rq_hashes rq \<noteq> []" and "\<not> proved_whole rq found"
  obtains ev where "evaluate rq found warnings = Inr ev"
    "ga_satisfied ev \<longleftrightarrow> proved_wide rq found \<and> (\<forall>n \<in> fst ` set (rq_hashes rq). proved_unit rq found n)"
    "ga_stale ev = filter (\<lambda>n. \<not> proved_unit rq found n) (sort (map fst (rq_hashes rq)))"
    "ga_wide_green ev \<longleftrightarrow> proved_wide rq found" "ga_evidence ev \<noteq> None \<longleftrightarrow> ga_satisfied ev"
    "\<forall>(n, u) \<in> set (ga_green ev). ev_name u = n \<and> earned rq found u"
    "\<forall>e. ga_evidence ev = Some e \<longrightarrow> evidence_holds rq found e"
    "\<forall>r. ga_wide ev = Some r \<longrightarrow> newest_run found (anchors rq found) (re_owner r) (re_run_id r)"
proof -
  let ?b = "best_evidence rq found" and ?names = "sort (map fst (rq_hashes rq))"
  let ?green = "map (\<lambda>(n, _, e). (n, e)) (bf_unit ?b)"
  let ?anchor = "case bf_wide ?b of Some (_, r) \<Rightarrow> Some r
    | None \<Rightarrow> map_option (\<lambda>(_, e). \<lparr>re_owner = ev_owner e, re_run_id = ev_run_id e\<rparr>) (newest_of (map snd (bf_unit ?b)))"
  have v1: "bf_v1 ?b = None" using best_v1_None assms(2) by blast
  have stale: "filter (\<lambda>n. n \<notin> fst ` set ?green) ?names = filter (\<lambda>n. \<not> proved_unit rq found n) ?names"
    by (simp only: green_names mem_Collect_eq)
  have anchor: "?anchor \<noteq> None" if none: "filter (\<lambda>n. \<not> proved_unit rq found n) ?names = []"
  proof -
    obtain n where "n \<in> set ?names" using assms(1) by (metis last_in_set map_is_Nil_conv set_sort)
    with none have "proved_unit rq found n" by (auto simp: filter_empty_conv)
    then have "map_of (bf_unit ?b) n \<noteq> None" by (simp only: best_unit_None)
    then have "bf_unit ?b \<noteq> []" by auto
    then have "newest_of (map snd (bf_unit ?b)) \<noteq> None" by (simp add: newest_of_def)
    then show ?thesis by (cases "bf_wide ?b") (simp, simp add: split_beta)
  qed
  have green: "ev_name u = n \<and> earned rq found u" if "(n, u) \<in> set ?green" for n u
  proof -
    from that obtain rank where "(n, rank, u) \<in> set (bf_unit ?b)" by auto
    then have "map_of (bf_unit ?b) n = Some (rank, u)" using best_unit_distinct by simp
    then show ?thesis by (rule best_unit_origin) (fastforce simp: earned_def entry_green_def)
  qed
  let ?satisfied = "(rq_wide_command rq = None \<or> bf_wide ?b \<noteq> None) \<and> filter (\<lambda>n. n \<notin> fst ` set ?green) ?names = []"
  have sat: "?satisfied \<longleftrightarrow> proved_wide rq found \<and> (\<forall>n \<in> fst ` set (rq_hashes rq). proved_unit rq found n)"
    unfolding stale best_wide_None by (auto simp: filter_empty_conv)
  have ok: "\<not> (?satisfied \<and> ?anchor = None)" using anchor stale by auto
  define satisfied where "satisfied = ?satisfied"
  define evidence where "evidence = (if ?satisfied then map_option (\<lambda>r. \<lparr>ge_owner = re_owner r, ge_run_id = re_run_id r,
    ge_units = List.map_filter (map_of ?green) ?names\<rparr>) ?anchor else None)"
  have wide: "newest_run found (anchors rq found) (re_owner r) (re_run_id r)" if "map_option snd (bf_wide ?b) = Some r" for r
    using that best_anchor(2) [OF v1] by auto
  have holds: "evidence_holds rq found e" if named: "evidence = Some e" for e
  proof -
    obtain r where r: "?anchor = Some r" "e = \<lparr>ge_owner = re_owner r, ge_run_id = re_run_id r,
      ge_units = List.map_filter (map_of ?green) ?names\<rparr>" and sat: ?satisfied
      by (rule if_evidence_Some [OF named [unfolded evidence_def]], rule that)
    have "\<forall>(n, u) \<in> set ?green. ev_name u = n \<and> earned rq found u" using green by blast
    then show ?thesis unfolding r(2) by (rule satisfied_evidence [OF v1 conjunct1 [OF sat] _ conjunct2 [OF sat] r(1)])
  qed
  have "evidence \<noteq> None \<longleftrightarrow> satisfied"
    using ok unfolding evidence_def satisfied_def by (rule if_evidence)
  moreover have "evaluate rq found warnings = Inr \<lparr>ga_satisfied = satisfied, ga_evidence = evidence,
      ga_stale = filter (\<lambda>n. n \<notin> fst ` set ?green) ?names, ga_wide_green = (rq_wide_command rq = None \<or> bf_wide ?b \<noteq> None),
      ga_green = ?green, ga_wide = map_option snd (bf_wide ?b), ga_warnings = warnings\<rparr>"
    unfolding evaluate_def Let_def v1 option.case if_not_P [OF assms(1)] if_not_P [OF ok] satisfied_def evidence_def by (rule refl)
  moreover have "\<forall>(n, u) \<in> set ?green. ev_name u = n \<and> earned rq found u" using green by blast
  moreover have "\<forall>e. evidence = Some e \<longrightarrow> evidence_holds rq found e"
    "\<forall>r. map_option snd (bf_wide ?b) = Some r \<longrightarrow> newest_run found (anchors rq found) (re_owner r) (re_run_id r)"
    using holds wide by blast+
  moreover have "satisfied \<longleftrightarrow> proved_wide rq found \<and> (\<forall>n \<in> fst ` set (rq_hashes rq). proved_unit rq found n)"
    using sat by (simp only: satisfied_def)
  ultimately show ?thesis
    unfolding stale best_wide_None
    by (intro that) (assumption | simp only: gate_evaluation.select_convs)+
qed

lemma evaluate_spec:
  assumes "rq_hashes rq \<noteq> []"
  obtains ev where "evaluate rq found warnings = Inr ev" "ga_satisfied ev \<longleftrightarrow> covered rq found"
    "ga_stale ev = (if proved_whole rq found then []
       else filter (\<lambda>n. \<not> proved_unit rq found n) (sort (map fst (rq_hashes rq))))"
    "\<forall>(n, u) \<in> set (ga_green ev). ev_name u = n \<and> earned rq found u"
    "ga_evidence ev \<noteq> None \<longleftrightarrow> ga_satisfied ev" "ga_wide_green ev \<longleftrightarrow> proved_whole rq found \<or> proved_wide rq found"
    "\<forall>e. ga_evidence ev = Some e \<longrightarrow> evidence_holds rq found e"
    "\<forall>r. ga_wide ev = Some r \<longrightarrow> newest_run found (anchors rq found) (re_owner r) (re_run_id r)"
proof (cases "proved_whole rq found")
  case True
  show ?thesis
    by (rule evaluate_old [OF assms True, of warnings], rule that) (simp_all add: True covered_def)
next
  case False
  show ?thesis
    by (rule evaluate_new [OF assms False, of warnings], rule that) (simp_all add: False covered_def)
qed

subsection \<open>Properties\<close>

text \<open>C15. A run read from a receipt is well formed, and what is written for it reads back as the same
  run: recording and reading lose nothing. (The hypothesis is that \<open>float\<close> reads the text of a
  float as that float.)\<close>

theorem receipt_run_roundtrip:
  assumes "float_stable float_of" and "run_from_data float_of v = Inr run"
  shows "run_ok float_of run \<and> run_from_data float_of (run_data run) = Inr run"
  using run_from_data_ok [OF assms] run_roundtrip by blast

text \<open>C7. A tree's evaluation is satisfied exactly when the receipts cover it: one clean, unchanged,
  green full run of the old form, or a green entry that ran for every unit at its hash and for the
  repository-wide command on this tree. The stale units are those without such an entry. Every
  green unit points at a recorded run that earned it at its hash; and the evidence, given exactly
  when satisfied, names every unit in order, each by a run that earned it, and is anchored to the
  newest recorded run of the kind it may rest on: a full run of the old form, else a green run of
  the repository-wide command, else (where the manifest has no such command) one that earned a unit.\<close>

theorem evaluate_exact:
  assumes "rq_hashes rq \<noteq> []"
  shows "\<exists>ev. evaluate rq found warnings = Inr ev \<and> (ga_satisfied ev \<longleftrightarrow> covered rq found) \<and>
    (ga_evidence ev \<noteq> None \<longleftrightarrow> ga_satisfied ev) \<and>
    ga_stale ev = (if proved_whole rq found then []
      else filter (\<lambda>n. \<not> proved_unit rq found n) (sort (map fst (rq_hashes rq)))) \<and>
    (\<forall>(n, u) \<in> set (ga_green ev). ev_name u = n \<and> earned rq found u) \<and>
    (\<forall>e. ga_evidence ev = Some e \<longrightarrow>
       newest_run found (anchors rq found) (ge_owner e) (ge_run_id e) \<and>
       map ev_name (ge_units e) = sort (map fst (rq_hashes rq)) \<and> (\<forall>u \<in> set (ge_units e). earned rq found u)) \<and>
    (\<forall>r. ga_wide ev = Some r \<longrightarrow> newest_run found (anchors rq found) (re_owner r) (re_run_id r))"
proof -
  obtain ev where "evaluate rq found warnings = Inr ev" "ga_satisfied ev \<longleftrightarrow> covered rq found"
    "ga_evidence ev \<noteq> None \<longleftrightarrow> ga_satisfied ev"
    "ga_stale ev = (if proved_whole rq found then []
       else filter (\<lambda>n. \<not> proved_unit rq found n) (sort (map fst (rq_hashes rq))))"
    "\<forall>(n, u) \<in> set (ga_green ev). ev_name u = n \<and> earned rq found u"
    "\<forall>e. ga_evidence ev = Some e \<longrightarrow> evidence_holds rq found e"
    "\<forall>r. ga_wide ev = Some r \<longrightarrow> newest_run found (anchors rq found) (re_owner r) (re_run_id r)"
    by (rule evaluate_spec [OF assms, of found warnings], rule that)
  then show ?thesis unfolding evidence_holds_def by (intro exI [of _ ev] conjI)
qed

definition sample_float :: "yval \<Rightarrow> float_read" where
  "sample_float v = (case v of YOther t \<Rightarrow> Seconds t | YInt i \<Rightarrow> if i < 0 then Infinite_Or_Negative else Seconds (int_str i @ ''.0'') | _ \<Rightarrow> No_Number)"

definition sample_run :: gate_run where
  "sample_run =
     \<lparr>gr_run_id = ''r1'', gr_repo = ''app'', gr_worktree = ''/w'', gr_head = replicate 40 CHR ''1'',
      gr_tree = replicate 40 CHR ''2'', gr_clean = True, gr_tree_changed = False, gr_scope = ''full'',
      gr_command = ''units: core'', gr_names = [''core''], gr_exit = 0, gr_log_path = ''/l'', gr_log_tail = [],
      gr_started = ''2026-01-01T00:00:00Z'', gr_duration = ''3.5'', gr_manifest_hash = None, gr_repo_wide = None,
      gr_units = [\<lparr>ue_name = ''core'', ue_hash = replicate 64 CHR ''a'', ue_ran = True, ue_exit = Some 0,
                    ue_log_path = None, ue_duration = Some ''3.0'', ue_reused_from = None\<rparr>]\<rparr>"

lemma sample_float_stable: "float_stable sample_float"
  by (auto simp: float_stable_def sample_float_def)

lemma sample_run_read: "run_from_data sample_float (run_data sample_run) = Inr sample_run"
  by code_simp

theorem receipt_run_roundtrip_witness:
  "run_ok sample_float sample_run \<and> run_from_data sample_float (run_data sample_run) = Inr sample_run"
  using receipt_run_roundtrip [OF sample_float_stable sample_run_read] .

theorem evaluate_exact_witness:
  "\<exists>ev e. evaluate \<lparr>rq_repo = ''app'', rq_tree = ''t'', rq_full_command = ''make'', rq_wide_command = None,
       rq_hashes = [(''core'', replicate 64 CHR ''a'')]\<rparr> [(''work/x'', [sample_run])] [] = Inr ev \<and>
     ga_satisfied ev \<and> ga_stale ev = [] \<and> ga_evidence ev = Some e \<and> ge_owner e = ''work/x'' \<and> ge_run_id e = ''r1'' \<and>
     map ev_name (ge_units e) = [''core'']"
proof -
  let ?rq = "\<lparr>rq_repo = ''app'', rq_tree = ''t'', rq_full_command = ''make'', rq_wide_command = None,
       rq_hashes = [(''core'', replicate 64 CHR ''a'')]\<rparr>"
  let ?found = "[(''work/x'', [sample_run])]"
  have facts: "\<not> proved_whole ?rq ?found" "proved_unit ?rq ?found ''core''" "proved_wide ?rq ?found"
    "newest_run ?found kind own rid \<Longrightarrow> own = ''work/x'' \<and> rid = ''r1''" for kind own rid
    by (simp_all add: proved_whole_def proved_unit_def proved_wide_def all_runs_def v1_satisfies_def sample_run_def counts_def
        entry_green_def newest_run_def)
  have covered: "covered ?rq ?found" using facts(2,3) by (simp add: covered_def)
  have some: "rq_hashes ?rq \<noteq> []" by simp
  obtain ev where ev: "evaluate ?rq ?found [] = Inr ev" "ga_satisfied ev \<longleftrightarrow> covered ?rq ?found"
    "ga_evidence ev \<noteq> None \<longleftrightarrow> ga_satisfied ev"
    "ga_stale ev = (if proved_whole ?rq ?found then []
       else filter (\<lambda>n. \<not> proved_unit ?rq ?found n) (sort (map fst (rq_hashes ?rq))))"
    "\<forall>e. ga_evidence ev = Some e \<longrightarrow> newest_run ?found (anchors ?rq ?found) (ge_owner e) (ge_run_id e) \<and>
       map ev_name (ge_units e) = sort (map fst (rq_hashes ?rq)) \<and> (\<forall>u \<in> set (ge_units e). earned ?rq ?found u)"
    using evaluate_exact [OF some, of ?found "[]"] by (elim exE conjE) (rule that)
  from ev(2,3) covered obtain e where e: "ga_evidence ev = Some e" by auto
  with ev(5) facts(4) have "ge_owner e = ''work/x''" "ge_run_id e = ''r1''" "map ev_name (ge_units e) = [''core'']" by auto
  moreover have "ga_stale ev = []" using ev(4) facts(1,2) by simp
  ultimately show ?thesis using ev(1,2) covered e by (intro exI [of _ ev] exI [of _ e]) simp
qed

end
