(* ===== verification/Gate_Plan.thy ===== *)
theory Gate_Plan
  imports Gate_Receipts
begin

text \<open>
  What one gate run executes and records (\<open>gw_orchestrate/gate.py\<close>): the scoped command, the
  plan of units, the pending record written for it, and the receipt entry a finished record
  stands for.
\<close>

subsection \<open>Scoped runs\<close>

record scoped_gate =
  sg_roots :: string
  sg_command :: string

text \<open>The roots of a scoped gate are never empty: \<open>repo_gate\<close> refuses those.\<close>

record scoped_command =
  sc_command :: "string option"
  sc_names :: "string list"
  sc_uncovered :: "string list"

text \<open>The parts of a \<open>PurePosixPath\<close>, its root included.\<close>

definition posix_parts :: "string \<Rightarrow> string list" where
  "posix_parts s =
     (if starts_with s ''//'' \<and> \<not> starts_with s ''///'' then [''//''] else if starts_with s ''/'' then [''/''] else [])
       @ filter (\<lambda>part. part \<noteq> [] \<and> part \<noteq> ''.'') (split_on (CHR ''/'') s)"

text \<open>\<open>shlex.quote\<close>.\<close>

definition shell_safe :: "char \<Rightarrow> bool" where
  "shell_safe c \<longleftrightarrow> is_digit c \<or> is_ascii_lower c \<or> (CHR ''A'' \<le> c \<and> c \<le> CHR ''Z'') \<or>
     c \<in> set ''_@%+=:,./-''"

definition QUOTE :: string where "QUOTE = [CHR 0x27]"

definition DQUOTE :: string where "DQUOTE = [CHR 0x22]"

definition shell_quote :: "string \<Rightarrow> string" where
  "shell_quote s =
     (if s = [] then QUOTE @ QUOTE
      else if list_all shell_safe s then s
      else QUOTE @ replace_all QUOTE (QUOTE @ DQUOTE @ QUOTE @ DQUOTE @ QUOTE) s @ QUOTE)"

definition root_name :: "string list \<Rightarrow> string \<Rightarrow> string option" where
  "root_name pattern path =
     (let parts = posix_parts path
      in if length pattern \<le> length parts \<and> list_all (\<lambda>(p, g). glob_match g p) (zip parts pattern)
         then Some (if pattern = [] then last parts else parts ! (length pattern - 1)) else None)"

definition expand_scoped :: "scoped_gate \<Rightarrow> string list \<Rightarrow> scoped_command" where
  "expand_scoped scoped paths =
     (let pattern = posix_parts (sg_roots scoped);
          names = sort (remdups (List.map_filter (root_name pattern) paths));
          uncovered = filter (\<lambda>p. root_name pattern p = None) paths
      in if uncovered \<noteq> [] \<or> names = []
         then \<lparr>sc_command = None, sc_names = names, sc_uncovered = uncovered\<rparr>
         else \<lparr>sc_command = Some (join '' && '' (map (\<lambda>n. replace_all ''{name}'' (shell_quote n) (sg_command scoped)) names)),
               sc_names = names, sc_uncovered = []\<rparr>)"

text \<open>The files of the tree that each entry of \<open>affects\<close> names; an entry that names nothing stays.\<close>

fun rstrip_char :: "char \<Rightarrow> string \<Rightarrow> string" where
  "rstrip_char c s = rev (dropWhile (\<lambda>d. d = c) (rev s))"

definition affects_files :: "listing \<Rightarrow> string list \<Rightarrow> string list" where
  "affects_files listing affects =
     concat (map (\<lambda>entry.
       let prefix = rstrip_char (CHR ''/'') entry @ ''/'';
           hits = filter (\<lambda>path. path = entry \<or> starts_with path prefix) (map fst listing)
       in if hits = [] then [entry] else hits) affects)"

subsection \<open>The plan of one run\<close>

record planned_unit =
  pl_name :: string
  pl_hash :: string
  pl_planned :: bool
  pl_reused_from :: "unit_evidence option"

record gate_plan =
  gp_state :: unit_state
  gp_evaluation :: gate_evaluation
  gp_repo_wide :: bool
  gp_units :: "planned_unit list"
  gp_jobs :: int

definition planned_names :: "gate_plan \<Rightarrow> string list" where
  "planned_names plan = map pl_name (filter pl_planned (gp_units plan))"

definition plan_unit :: "unit_state \<Rightarrow> gate_evaluation \<Rightarrow> string list \<Rightarrow> gate_unit \<Rightarrow> planned_unit result" where
  "plan_unit state ev stale u =
     (case map_of (us_hashes state) (gu_name u) of
        None \<Rightarrow> Inl (KeyError (gu_name u))
      | Some h \<Rightarrow>
          Inr \<lparr>pl_name = gu_name u, pl_hash = h, pl_planned = gu_name u \<in> set stale,
               pl_reused_from = (if gu_name u \<in> set stale then None else map_of (ga_green ev) (gu_name u))\<rparr>)"

text \<open>A refusal is its reason and its detail; the outer sum is a Python exception.\<close>

definition plan_gate ::
  "unit_state \<Rightarrow> gate_evaluation \<Rightarrow> string \<Rightarrow> bool \<Rightarrow> string list option \<Rightarrow> int option \<Rightarrow> ((string \<times> string) + gate_plan) result" where
  "plan_gate state ev scope fresh files_given unit_jobs =
     (let m = us_manifest state;
          stale = (if fresh then map fst (us_hashes state) else ga_stale ev);
          files = (case files_given of None \<Rightarrow> [] | Some fs \<Rightarrow> fs);
          uncovered = filter (\<lambda>f. units_matching m [f] = []) files
      in if scope = ''scoped'' \<and> (uncovered \<noteq> [] \<or> files = [])
         then Inr (Inl (''scope-uncovered'',
           (if uncovered \<noteq> [] then ''no gate unit's inputs match: '' @ join '', '' uncovered
            else ''no code '' @ [BACKTICK] @ ''affects'' @ [BACKTICK] @ '' to scope'') @ ''; run the full gate''))
         else
           let chosen = (if scope = ''scoped''
                         then filter (\<lambda>n. n \<in> set (reverse_closure m (units_matching m files))) stale else stale)
           in bind_res (map_res (plan_unit state ev chosen) (sort_key gu_name (um_units m))) (\<lambda>units.
              let wide = (um_repo_wide m \<noteq> None \<and> (fresh \<or> \<not> ga_wide_green ev));
                  wide' = (if scope = ''scoped'' \<and> \<not> list_ex pl_planned units then False else wide)
              in Inr (Inr \<lparr>gp_state = state, gp_evaluation = ev, gp_repo_wide = wide', gp_units = units,
                           gp_jobs = (case unit_jobs of None \<Rightarrow> um_jobs m | Some j \<Rightarrow> min (um_jobs m) j)\<rparr>)))"

definition display_command :: "gate_plan \<Rightarrow> string" where
  "display_command plan =
     join '' + '' ((if planned_names plan = [] then [] else [''units: '' @ join '', '' (planned_names plan)])
                   @ (if gp_repo_wide plan then [''repo-wide''] else []))"

subsection \<open>The pending record of a run\<close>

record pending_unit =
  pu_name :: string
  pu_hash :: string
  pu_command :: string
  pu_env :: "(string \<times> string) list"
  pu_planned :: bool
  pu_reused_from :: "reuse option"

record pending_wide =
  pw_command :: string
  pw_planned :: bool
  pw_reused_from :: "reuse option"

text \<open>A waiter; \<open>wt_woken\<close> is its wake, whose \<open>status\<close>, a text, is what is read of it.\<close>

record waiter =
  wt_path :: string
  wt_terminal :: string
  wt_registered :: string
  wt_woken :: "ymap option"

record pending_run =
  pr_requesters :: "string list"
  pr_run_id :: string
  pr_repo :: string
  pr_worktree :: string
  pr_head :: string
  pr_tree :: string
  pr_scope :: string
  pr_command :: string
  pr_names :: "string list"
  pr_log_path :: string
  pr_started :: string
  pr_runner_started :: bool
  pr_status :: string
  pr_fresh :: bool
  pr_full_command :: string
  pr_result :: "ymap option"
  pr_recorded_for :: "string list"
  pr_skipped_for :: "string list"
  pr_recorded :: bool
  pr_waiters :: "waiter list"
  pr_manifest_hash :: string
  pr_implicit :: bool
  pr_jobs :: int
  pr_setup :: "string option"
  pr_wide_planned :: bool
  pr_wide :: "pending_wide option"
  pr_units :: "pending_unit list"

text \<open>What \<open>_resolve\<close> gives of the request's place.\<close>

record gate_target =
  gt_path :: string
  gt_repo :: string
  gt_worktree :: string
  gt_head :: string
  gt_tree :: string

definition evidence_reuse :: "unit_evidence \<Rightarrow> reuse" where
  "evidence_reuse e = \<lparr>re_owner = ev_owner e, re_run_id = ev_run_id e\<rparr>"

definition pending_unit_of :: "unit_manifest \<Rightarrow> string \<Rightarrow> planned_unit \<Rightarrow> pending_unit result" where
  "pending_unit_of m command u =
     (case by_name m (pl_name u) of
        None \<Rightarrow> Inl (KeyError (pl_name u))
      | Some unit \<Rightarrow>
          Inr \<lparr>pu_name = pl_name u, pu_hash = pl_hash u, pu_command = (if um_implicit m then command else gu_command unit),
               pu_env = gu_env unit, pu_planned = pl_planned u, pu_reused_from = map_option evidence_reuse (pl_reused_from u)\<rparr>)"

text \<open>The record \<open>run_gate_run\<close> writes. \<open>command\<close> and \<open>names\<close> are the implicit manifest's, or the plan's.\<close>

definition run_record ::
  "gate_target \<Rightarrow> gate_plan \<Rightarrow> string \<Rightarrow> string \<Rightarrow> string list \<Rightarrow> bool \<Rightarrow> string \<Rightarrow> string \<Rightarrow> string \<Rightarrow> string \<Rightarrow> string \<Rightarrow>
     pending_run result" where
  "run_record target plan scope command names fresh full_command run_id log_path started handle =
     (let m = us_manifest (gp_state plan)
      in bind_res (map_res (pending_unit_of m command) (gp_units plan)) (\<lambda>units.
         Inr \<lparr>pr_requesters = [gt_path target], pr_run_id = run_id, pr_repo = gt_repo target,
              pr_worktree = gt_worktree target, pr_head = gt_head target, pr_tree = gt_tree target, pr_scope = scope,
              pr_command = command, pr_names = names, pr_log_path = log_path, pr_started = started,
              pr_runner_started = False, pr_status = ''queued'', pr_fresh = fresh, pr_full_command = full_command,
              pr_result = None, pr_recorded_for = [], pr_skipped_for = [], pr_recorded = False,
              pr_waiters = (if handle = [] then []
                else [\<lparr>wt_path = gt_path target, wt_terminal = handle, wt_registered = started, wt_woken = None\<rparr>]),
              pr_manifest_hash = um_digest m, pr_implicit = um_implicit m, pr_jobs = gp_jobs plan, pr_setup = um_setup m,
              pr_wide_planned = gp_repo_wide plan,
              pr_wide = map_option (\<lambda>c. \<lparr>pw_command = c, pw_planned = gp_repo_wide plan,
                pw_reused_from = (if gp_repo_wide plan then None else ga_wide (gp_evaluation plan))\<rparr>) (um_repo_wide m),
              pr_units = units\<rparr>))"

subsection \<open>The receipt entry of a finished record\<close>

definition result_exit :: "yval \<Rightarrow> int checked" where
  "result_exit v = (case int_value v of None \<Rightarrow> Inl ''result exit is not an integer'' | Some i \<Rightarrow> Inr i)"

definition result_operation :: "(yval \<Rightarrow> float_read) \<Rightarrow> yval \<Rightarrow> ymap checked" where
  "result_operation float_of v =
     (case v of
        YMap m \<Rightarrow>
          bind_res (result_exit (yget m ''exit'')) (\<lambda>_.
          bind_res (read_duration float_of (yget m ''duration_s'') ''result'') (\<lambda>_.
          if optional_string (yget m ''log_path'') = None then Inl ''result log_path is not a string'' else Inr m))
      | _ \<Rightarrow> Inl ''result operation is not a mapping'')"

fun result_operations :: "(yval \<Rightarrow> float_read) \<Rightarrow> ymap \<Rightarrow> (string \<times> ymap) list checked" where
  "result_operations float_of [] = Inr []"
| "result_operations float_of ((n, v) # kvs) =
     bind_res (result_operation float_of v) (\<lambda>m. bind_res (result_operations float_of kvs) (\<lambda>ms. Inr ((n, m) # ms)))"

definition optional_operation :: "(yval \<Rightarrow> float_read) \<Rightarrow> yval \<Rightarrow> ymap option checked" where
  "optional_operation float_of v =
     (if v = YNull then Inr None else bind_res (result_operation float_of v) (\<lambda>m. Inr (Some m)))"

text \<open>A planned operation that left no result counts as failed.\<close>

definition missing_operation :: ymap where
  "missing_operation = [(''exit'', YInt 1), (''duration_s'', YOther ''0.0'')]"

definition base_operation :: "gate_run \<Rightarrow> ymap" where
  "base_operation base =
     [(''exit'', YInt (gr_exit base)), (''duration_s'', YOther (gr_duration base)), (''log_path'', YStr (gr_log_path base))]"

text \<open>The entry of one unit, and whether it is incomplete or red.\<close>

definition pending_entry ::
  "(yval \<Rightarrow> float_read) \<Rightarrow> bool \<Rightarrow> gate_run \<Rightarrow> (string \<times> ymap) list \<Rightarrow> bool \<Rightarrow> pending_unit \<Rightarrow> (unit_entry option \<times> bool) checked" where
  "pending_entry float_of implicit base operations setup_failed u =
     (if pu_planned u then
        let got = (if implicit then base_operation base
                   else case map_of operations (pu_name u) of None \<Rightarrow> missing_operation | Some m \<Rightarrow> m)
        in bind_res (result_exit (yget got ''exit'')) (\<lambda>code.
           if setup_failed \<and> code = 0 then Inl (''setup failed but unit '' @ pu_name u @ '' result is green'')
           else bind_res (read_duration float_of (yget got ''duration_s'') ''result'') (\<lambda>seconds.
             Inr (Some \<lparr>ue_name = pu_name u, ue_hash = pu_hash u, ue_ran = True, ue_exit = Some code,
                        ue_log_path = (case yget got ''log_path'' of YStr s \<Rightarrow> Some s | _ \<Rightarrow> None),
                        ue_duration = Some seconds, ue_reused_from = None\<rparr>, code \<noteq> 0)))
      else Inr (map_option (\<lambda>r. \<lparr>ue_name = pu_name u, ue_hash = pu_hash u, ue_ran = False, ue_exit = None,
                  ue_log_path = None, ue_duration = None, ue_reused_from = Some r\<rparr>) (pu_reused_from u), False))"

definition pending_wide_entry ::
  "(yval \<Rightarrow> float_read) \<Rightarrow> string \<Rightarrow> ymap option \<Rightarrow> bool \<Rightarrow> pending_wide option \<Rightarrow> (wide_entry option \<times> bool) checked" where
  "pending_wide_entry float_of tree got setup_failed wide =
     (case wide of
        None \<Rightarrow> Inr (None, False)
      | Some w \<Rightarrow>
          if pw_planned w then
            let m = (case got of None \<Rightarrow> missing_operation | Some m \<Rightarrow> m)
            in bind_res (result_exit (yget m ''exit'')) (\<lambda>code.
               if setup_failed \<and> code = 0 then Inl ''setup failed but repo_wide result is green''
               else bind_res (read_duration float_of (yget m ''duration_s'') ''result'') (\<lambda>seconds.
                 Inr (Some \<lparr>we_tree = tree, we_command = pw_command w, we_ran = True, we_exit = Some code,
                            we_duration = Some seconds, we_reused_from = None\<rparr>, code \<noteq> 0)))
          else Inr (map_option (\<lambda>r. \<lparr>we_tree = tree, we_command = pw_command w, we_ran = False, we_exit = None,
                      we_duration = None, we_reused_from = Some r\<rparr>) (pw_reused_from w), False))"

definition base_run :: "(yval \<Rightarrow> float_read) \<Rightarrow> pending_run \<Rightarrow> ymap \<Rightarrow> gate_run checked" where
  "base_run float_of p result =
     (case yget result ''tree_changed'' of
        YBool changed \<Rightarrow>
          (case yget result ''log_tail'' of
             YStr tail \<Rightarrow>
               bind_res (result_exit (yget result ''exit'')) (\<lambda>code.
               bind_res (read_duration float_of (yget result ''duration_s'') ''result'') (\<lambda>seconds.
               Inr \<lparr>gr_run_id = pr_run_id p, gr_repo = pr_repo p, gr_worktree = pr_worktree p, gr_head = pr_head p,
                    gr_tree = pr_tree p, gr_clean = True, gr_tree_changed = changed, gr_scope = pr_scope p,
                    gr_command = pr_command p, gr_names = pr_names p, gr_exit = code, gr_log_path = pr_log_path p,
                    gr_log_tail = tail, gr_started = pr_started p, gr_duration = seconds, gr_manifest_hash = None,
                    gr_repo_wide = None, gr_units = []\<rparr>))
           | _ \<Rightarrow> Inl ''result log_tail is not a string'')
      | _ \<Rightarrow> Inl ''result tree_changed is not a boolean'')"

text \<open>The entries of the units and of the repository-wide command, from the checked result.\<close>

definition complete_run ::
  "(yval \<Rightarrow> float_read) \<Rightarrow> pending_run \<Rightarrow> gate_run \<Rightarrow> (string \<times> ymap) list \<Rightarrow> bool \<Rightarrow> ymap option \<Rightarrow> gate_run checked" where
  "complete_run float_of p base operations setup_failed got =
     bind_res (map_res (pending_entry float_of (pr_implicit p) base operations setup_failed) (pr_units p)) (\<lambda>entries.
     bind_res (pending_wide_entry float_of (pr_tree p) got setup_failed (pr_wide p)) (\<lambda>(wide, wide_red).
     let red = (list_ex snd entries \<or> wide_red)
     in Inr (base\<lparr>gr_exit := (if gr_exit base \<noteq> 0 then gr_exit base else if red then 1 else 0),
                  gr_manifest_hash := Some (pr_manifest_hash p), gr_repo_wide := wide,
                  gr_units := List.map_filter fst entries\<rparr>)))"

definition gate_run_from_record :: "(yval \<Rightarrow> float_read) \<Rightarrow> pending_run \<Rightarrow> ymap \<Rightarrow> gate_run checked" where
  "gate_run_from_record float_of p result =
     bind_res (base_run float_of p result) (\<lambda>base.
     bind_res (case yget_or (YMap []) result ''units'' of
                 YMap kvs \<Rightarrow> result_operations float_of kvs | _ \<Rightarrow> Inl ''result units is not a mapping'') (\<lambda>operations.
     bind_res (optional_operation float_of (yget result ''setup'')) (\<lambda>set_up.
     bind_res (optional_operation float_of (yget result ''repo_wide'')) (\<lambda>got.
     if pr_implicit p \<and> pr_scope p = ''scoped'' then Inr base
     else complete_run float_of p base operations
            (case set_up of None \<Rightarrow> False | Some m \<Rightarrow> yget m ''exit'' \<noteq> YInt 0) got))))"

subsection \<open>A recorded green run covers the tree\<close>

lemma result_exit_Inr [simp]: "result_exit v = Inr i \<longleftrightarrow> v = YInt i"
  by (cases v) (auto simp: result_exit_def)

lemma pending_entry_green:
  assumes "pending_entry float_of implicit base operations failed u = Inr (entry, red)" and "pu_planned u" and "\<not> red"
  shows "\<exists>e. entry = Some e \<and> ue_name e = pu_name u \<and> ue_hash e = pu_hash u \<and> ue_ran e \<and> ue_exit e = Some 0"
  using assms by (auto simp: pending_entry_def Let_def split: if_splits)

lemma pending_wide_green:
  assumes "pending_wide_entry float_of tree got failed (Some w) = Inr (entry, red)" and "pw_planned w" and "\<not> red"
  shows "\<exists>e. entry = Some e \<and> we_tree e = tree \<and> we_command e = pw_command w \<and> we_ran e \<and> we_exit e = Some 0"
  using assms by (auto simp: pending_wide_entry_def Let_def split: if_splits)

lemma list_all2_target: "list_all2 P xs ys \<Longrightarrow> x \<in> set xs \<Longrightarrow> \<exists>y \<in> set ys. P x y"
  by (induction rule: list_all2_induct) auto

lemma green_run_entries:
  assumes run: "gate_run_from_record float_of p result = Inr run" and green: "gr_exit run = 0" "\<not> gr_tree_changed run"
    and full: "\<not> (pr_implicit p \<and> pr_scope p = ''scoped'')"
  shows "gr_repo run = pr_repo p \<and> gr_tree run = pr_tree p \<and> gr_clean run"
    and "u \<in> set (pr_units p) \<Longrightarrow> pu_planned u \<Longrightarrow>
      \<exists>e \<in> set (gr_units run). ue_name e = pu_name u \<and> ue_hash e = pu_hash u \<and> ue_ran e \<and> ue_exit e = Some 0"
    and "pr_wide p = Some w \<Longrightarrow> pw_planned w \<Longrightarrow>
      \<exists>e. gr_repo_wide run = Some e \<and> we_tree e = pr_tree p \<and> we_command e = pw_command w \<and> we_ran e \<and> we_exit e = Some 0"
proof -
  obtain base operations failed got where base: "base_run float_of p result = Inr base"
    and rest: "complete_run float_of p base operations failed got = Inr run"
    using run unfolding gate_run_from_record_def checked_bind_Inr if_not_P [OF full] by blast
  obtain entries wide wide_red where
    entries: "map_res (pending_entry float_of (pr_implicit p) base operations failed) (pr_units p) = Inr entries"
    and wide: "pending_wide_entry float_of (pr_tree p) got failed (pr_wide p) = Inr (wide, wide_red)"
    and run': "run = base\<lparr>gr_exit := (if gr_exit base \<noteq> 0 then gr_exit base else if list_ex snd entries \<or> wide_red then 1 else 0),
                       gr_manifest_hash := Some (pr_manifest_hash p), gr_repo_wide := wide,
                       gr_units := List.map_filter fst entries\<rparr>"
    using rest unfolding complete_run_def checked_bind_Inr Let_def by (auto split: prod.splits)
  have calm: "\<not> list_ex snd entries" "\<not> wide_red" using green(1) unfolding run' by (auto split: if_splits)
  show "gr_repo run = pr_repo p \<and> gr_tree run = pr_tree p \<and> gr_clean run"
    using base unfolding run' by (auto simp: base_run_def split: yval.splits)
  show "\<exists>e \<in> set (gr_units run). ue_name e = pu_name u \<and> ue_hash e = pu_hash u \<and> ue_ran e \<and> ue_exit e = Some 0"
    if u: "u \<in> set (pr_units p)" "pu_planned u"
  proof -
    obtain entry red where entry: "(entry, red) \<in> set entries"
      "pending_entry float_of (pr_implicit p) base operations failed u = Inr (entry, red)"
      using list_all2_target [OF entries [unfolded map_res_Inr_iff] u(1)] by auto
    with calm(1) have "\<not> red" by (auto simp: list_ex_iff)
    with pending_entry_green [OF entry(2) u(2)] entry(1) show ?thesis unfolding run' by (auto simp: map_filter_def)
  qed
  show "\<exists>e. gr_repo_wide run = Some e \<and> we_tree e = pr_tree p \<and> we_command e = pw_command w \<and> we_ran e \<and> we_exit e = Some 0"
    if "pr_wide p = Some w" "pw_planned w"
    using pending_wide_green [OF wide [unfolded that(1)] that(2) calm(2)] unfolding run' by simp
qed

text \<open>What a resolved state is: a hash for each unit of a sound manifest.\<close>

definition unit_state_ok :: "unit_state \<Rightarrow> bool" where
  "unit_state_ok state \<longleftrightarrow>
     sound_graph (um_units (us_manifest state)) \<and> um_units (us_manifest state) \<noteq> [] \<and>
     map fst (us_hashes state) = map gu_name (um_units (us_manifest state))"

lemma implicit_sound: "sound_graph (um_units (implicit_manifest digest full))"
  by (auto simp: implicit_manifest_def sound_graph_def depends_rel_def acyclic_def)

lemma load_manifest_wf: "load_manifest digest command worktree run = Inr m \<Longrightarrow> wf_manifest m"
  by (auto simp: load_manifest_def Let_def split: sum.splits if_splits intro: parse_manifest_wf)

lemma resolve_unit_state_ok:
  assumes "resolve_unit_state digest gate worktree tree run listing = Inr state"
  shows "unit_state_ok state"
proof (cases "rg_units gate")
  case None
  then obtain full where "state = \<lparr>us_manifest = implicit_manifest digest full, us_hashes = [(TREE_UNIT, tree_hash digest tree full)]\<rparr>"
    using assms by (auto simp: resolve_unit_state_def split: option.splits if_splits)
  then show ?thesis
    using implicit_sound [of digest full] by (simp add: unit_state_ok_def implicit_manifest_def)
next
  case (Some command)
  then obtain m files hashes where "load_manifest digest command worktree run = Inr m"
    "unit_hashes digest m files (rg_extra_inputs gate) = Inr hashes" "state = \<lparr>us_manifest = m, us_hashes = hashes\<rparr>"
    using assms by (auto simp: resolve_unit_state_def split: sum.splits list.splits prod.splits)
  then show ?thesis
    using load_manifest_wf unit_hashes_total [of m digest files "rg_extra_inputs gate"]
    by (fastforce simp: unit_state_ok_def wf_manifest_def)
qed

definition request_of :: "gate_target \<Rightarrow> string \<Rightarrow> unit_state \<Rightarrow> gate_request" where
  "request_of target full_command state =
     \<lparr>rq_repo = gt_repo target, rq_tree = gt_tree target, rq_full_command = full_command,
      rq_wide_command = um_repo_wide (us_manifest state), rq_hashes = us_hashes state\<rparr>"

lemma plan_gate_full:
  assumes "plan_gate state ev ''full'' fresh files jobs = Inr (Inr plan)"
  shows "gp_state plan = state" "gp_evaluation plan = ev"
    "gp_repo_wide plan \<longleftrightarrow> um_repo_wide (us_manifest state) \<noteq> None \<and> (fresh \<or> \<not> ga_wide_green ev)"
    "list_all2 (\<lambda>u pl. plan_unit state ev (if fresh then map fst (us_hashes state) else ga_stale ev) u = Inr pl)
       (sort_key gu_name (um_units (us_manifest state))) (gp_units plan)"
  using assms by (auto simp: plan_gate_def Let_def bind_res_eq_Inr map_res_Inr_iff)

lemma run_record_facts:
  assumes "run_record target plan scope command names fresh full_command run_id log_path started handle = Inr p"
  shows "pr_repo p = gt_repo target" "pr_tree p = gt_tree target" "pr_scope p = scope"
    "pr_wide p = map_option (\<lambda>c. \<lparr>pw_command = c, pw_planned = gp_repo_wide plan,
       pw_reused_from = (if gp_repo_wide plan then None else ga_wide (gp_evaluation plan))\<rparr>)
       (um_repo_wide (us_manifest (gp_state plan)))"
    "list_all2 (\<lambda>pl u. pending_unit_of (us_manifest (gp_state plan)) command pl = Inr u) (gp_units plan) (pr_units p)"
  using assms by (auto simp: run_record_def Let_def bind_res_eq_Inr map_res_Inr_iff)

lemma planned_recorded:
  assumes plan: "plan_gate state ev ''full'' fresh files jobs = Inr (Inr plan)"
    and p: "run_record target plan ''full'' command names fr full_command run_id log_path started handle = Inr p"
    and n: "n \<in> gu_name ` set (um_units (us_manifest state))" and stale: "fresh \<or> n \<in> set (ga_stale ev)"
    and ok: "unit_state_ok state"
  obtains u h where "u \<in> set (pr_units p)" "pu_planned u" "pu_name u = n" "pu_hash u = h" "(n, h) \<in> set (us_hashes state)"
proof -
  from n obtain g where g: "g \<in> set (sort_key gu_name (um_units (us_manifest state)))" "gu_name g = n" by auto
  obtain pl where pl: "pl \<in> set (gp_units plan)"
    "plan_unit state ev (if fresh then map fst (us_hashes state) else ga_stale ev) g = Inr pl"
    using list_all2_target [OF plan_gate_full(4) [OF plan] g(1)] by blast
  obtain u where u: "u \<in> set (pr_units p)" "pending_unit_of (us_manifest (gp_state plan)) command pl = Inr u"
    using list_all2_target [OF run_record_facts(5) [OF p] pl(1)] by blast
  have "n \<in> fst ` set (us_hashes state)" using ok n by (metis list.set_map unit_state_ok_def)
  then have "n \<in> set (if fresh then map fst (us_hashes state) else ga_stale ev)" using stale by auto
  then have "pl_planned pl \<and> pl_name pl = n \<and> (n, pl_hash pl) \<in> set (us_hashes state)"
    using pl(2) g(2) by (auto simp del: set_map simp: plan_unit_def map_of_SomeD split: option.splits)
  with u that show ?thesis by (auto simp: pending_unit_of_def split: option.splits)
qed

lemma proved_mono:
  assumes "set (all_runs found) \<subseteq> set (all_runs found')"
  shows "proved_whole rq found \<Longrightarrow> proved_whole rq found'" "proved_wide rq found \<Longrightarrow> proved_wide rq found'"
    "proved_unit rq found n \<Longrightarrow> proved_unit rq found' n"
  using assms unfolding proved_whole_def proved_wide_def proved_unit_def by blast+

lemma green_run_covers:
  assumes ok: "unit_state_ok state"
    and ev: "evaluate (request_of target full_command state) found warnings = Inr ev"
    and plan: "plan_gate state ev ''full'' fresh files jobs = Inr (Inr plan)"
    and p: "run_record target plan ''full'' command names fr full run_id log_path started handle = Inr p"
    and run: "gate_run_from_record float_of p result = Inr run" and green: "gr_exit run = 0" "\<not> gr_tree_changed run"
    and receipts: "insert (own, run) (set (all_runs found)) \<subseteq> set (all_runs found')"
  shows "covered (request_of target full_command state) found'"
proof (cases "proved_whole (request_of target full_command state) found'")
  case False
  let ?rq = "request_of target full_command state" and ?m = "us_manifest state"
  have mono: "set (all_runs found) \<subseteq> set (all_runs found')" and mem: "(own, run) \<in> set (all_runs found')"
    using receipts by auto
  have old: "\<not> proved_whole ?rq found" using False proved_mono(1) [OF mono] by blast
  have "us_hashes state \<noteq> []" using ok by (auto simp: unit_state_ok_def)
  then have nonempty: "rq_hashes ?rq \<noteq> []" by (simp add: request_of_def)
  obtain ev' where "evaluate ?rq found warnings = Inr ev'" "ga_wide_green ev' \<longleftrightarrow> proved_whole ?rq found \<or> proved_wide ?rq found"
    "ga_stale ev' = (if proved_whole ?rq found then [] else filter (\<lambda>n. \<not> proved_unit ?rq found n) (sort (map fst (rq_hashes ?rq))))"
    by (rule evaluate_spec [OF nonempty])
  with ev old have wide: "ga_wide_green ev \<longleftrightarrow> proved_wide ?rq found"
    and stale: "set (ga_stale ev) = {n \<in> fst ` set (us_hashes state). \<not> proved_unit ?rq found n}"
    by (auto simp: request_of_def)
  have "\<not> (pr_implicit p \<and> pr_scope p = ''scoped'')" using run_record_facts(3) [OF p] by simp
  note entries = green_run_entries [OF run green this]
  have counts: "counts ?rq run"
    using entries(1) green(2) run_record_facts(1) [OF p] by (simp add: counts_def request_of_def)
  have unit: "proved_unit ?rq found' n" if n: "n \<in> fst ` set (us_hashes state)" for n
  proof (cases "fresh \<or> n \<in> set (ga_stale ev)")
    case True
    have "n \<in> gu_name ` set (um_units ?m)" using ok n by (metis list.set_map unit_state_ok_def)
    then obtain u h where u: "u \<in> set (pr_units p)" "pu_planned u" "pu_name u = n" "pu_hash u = h" "(n, h) \<in> set (us_hashes state)"
      using planned_recorded [OF plan p _ True ok] by blast
    then obtain e where "e \<in> set (gr_units run)" "ue_name e = n" "entry_green ?rq e"
      using entries(2) [OF u(1,2)] by (auto simp: entry_green_def request_of_def)
    with counts mem show ?thesis unfolding proved_unit_def by (intro bexI [of _ "(own, run)"]) auto
  next
    case False
    with n stale have "proved_unit ?rq found n" by auto
    then show ?thesis by (rule proved_mono(3) [OF mono])
  qed
  have "proved_wide ?rq found'"
  proof (cases "gp_repo_wide plan")
    case True
    then obtain c where c: "um_repo_wide ?m = Some c" using plan_gate_full(3) [OF plan] by auto
    then have "pr_wide p = Some \<lparr>pw_command = c, pw_planned = True, pw_reused_from = None\<rparr>"
      using run_record_facts(4) [OF p] plan_gate_full(1) [OF plan] True by simp
    then obtain e where "gr_repo_wide run = Some e" "we_tree e = pr_tree p" "we_command e = c" "we_ran e" "we_exit e = Some 0"
      using entries(3) by fastforce
    then have "wide_green ?rq run"
      using entries(1) c run_record_facts(2) [OF p] by (simp add: wide_green_def request_of_def)
    with counts mem show ?thesis unfolding proved_wide_def by (intro disjI2 bexI [of _ "(own, run)"]) auto
  next
    case False
    then have "um_repo_wide ?m = None \<or> ga_wide_green ev" using plan_gate_full(3) [OF plan] by blast
    then have "proved_wide ?rq found" using wide by (auto simp: proved_wide_def request_of_def)
    then show ?thesis by (rule proved_mono(2) [OF mono])
  qed
  with unit show ?thesis by (simp add: covered_def request_of_def)
qed (simp add: covered_def)

lemma units_matching_set:
  "set (units_matching m files) =
     {gu_name v | v. v \<in> set (um_units m) \<and> (\<exists>g \<in> set (gu_inputs v). \<exists>f \<in> set files. glob_match g f)}"
  by (auto simp: units_matching_def list_ex_iff)

lemma planned_names_set:
  assumes "list_all2 (\<lambda>u pl. plan_unit state ev chosen u = Inr pl) us plans"
  shows "set (map pl_name (filter pl_planned plans)) = gu_name ` set us \<inter> set chosen"
  using assms by (induction rule: list_all2_induct) (auto simp: plan_unit_def split: option.splits)

lemma plan_gate_scoped:
  assumes "plan_gate state ev ''scoped'' fresh (Some files) jobs = Inr (Inr plan)"
  shows "files \<noteq> []" "\<And>f. f \<in> set files \<Longrightarrow> units_matching (us_manifest state) [f] \<noteq> []"
    "list_all2 (\<lambda>u pl. plan_unit state ev
         (filter (\<lambda>n. n \<in> set (reverse_closure (us_manifest state) (units_matching (us_manifest state) files)))
            (if fresh then map fst (us_hashes state) else ga_stale ev)) u = Inr pl)
       (sort_key gu_name (um_units (us_manifest state))) (gp_units plan)"
  using assms by (auto simp: plan_gate_def Let_def bind_res_eq_Inr map_res_Inr_iff filter_empty_conv split: if_splits)

subsection \<open>Properties\<close>

text \<open>C6. A full run that is recorded with exit 0 on an unchanged tree satisfies the gate: whatever the
  receipts held, the units it planned were exactly those without evidence (all, when fresh), so that
  with its receipt the evaluation of the same tree is satisfied and offers evidence.\<close>

theorem green_run_satisfies:
  assumes "resolve_unit_state digest gate (gt_worktree target) (gt_tree target) capture listing = Inr state"
    and "evaluate (request_of target full_command state) found warnings = Inr ev"
    and "plan_gate state ev ''full'' fresh None jobs = Inr (Inr plan)"
    and "run_record target plan ''full'' command names fresh full_command run_id log_path started handle = Inr p"
    and "gate_run_from_record float_of p result = Inr run" and "gr_exit run = 0" and "\<not> gr_tree_changed run"
    and "insert (own, run) (set (all_runs found)) \<subseteq> set (all_runs found')"
  shows "\<exists>ev'. evaluate (request_of target full_command state) found' warnings' = Inr ev' \<and> ga_satisfied ev' \<and>
    ga_evidence ev' \<noteq> None"
proof -
  note ok = resolve_unit_state_ok [OF assms(1)]
  then have nonempty: "rq_hashes (request_of target full_command state) \<noteq> []"
    by (auto simp: request_of_def unit_state_ok_def)
  show ?thesis
    using green_run_covers [OF ok assms(2-8)] by (rule_tac evaluate_spec [OF nonempty, of found' warnings']) auto
qed

text \<open>C14. A scoped run plans exactly the units without evidence (all, when fresh) that match a file the
  item affects or depend, however far, on a unit that does; every such file is matched by some unit,
  or the plan refuses.\<close>

theorem scoped_plan_exact:
  assumes "unit_state_ok state" and "plan_gate state ev ''scoped'' fresh (Some files) jobs = Inr (Inr plan)"
  shows "(\<forall>f \<in> set files. units_matching (us_manifest state) [f] \<noteq> []) \<and>
    set (planned_names plan) =
      {gu_name u | u. u \<in> set (um_units (us_manifest state)) \<and> (fresh \<or> gu_name u \<in> set (ga_stale ev)) \<and>
         (\<exists>v \<in> set (um_units (us_manifest state)). (gu_name u, gu_name v) \<in> (depends_on (us_manifest state))\<^sup>* \<and>
            (\<exists>g \<in> set (gu_inputs v). \<exists>f \<in> set files. glob_match g f))}"
proof -
  have "fst ` set (us_hashes state) = gu_name ` set (um_units (us_manifest state))"
    using assms(1) by (metis list.set_map unit_state_ok_def)
  then show ?thesis
    using plan_gate_scoped(2) [OF assms(2)] planned_names_set [OF plan_gate_scoped(3) [OF assms(2)]]
    unfolding planned_names_def by (auto simp: reverse_closure_spec units_matching_set)
qed

subsection \<open>A run of the sample units\<close>

definition sample_digest :: "yval \<Rightarrow> string" where "sample_digest v = replicate 64 CHR ''a''"

definition sample_target :: gate_target where
  "sample_target = \<lparr>gt_path = ''work/x'', gt_repo = ''app'', gt_worktree = ''/w'', gt_head = replicate 40 CHR ''1'',
     gt_tree = replicate 40 CHR ''3''\<rparr>"

definition sample_listing :: listing where
  "sample_listing = map (\<lambda>p. (p, \<lparr>leaf_mode = ''100644'', leaf_sha = replicate 40 CHR ''a''\<rparr>)) [''core/x.py'', ''app/a.py'']"

definition sample_state :: unit_state where
  "sample_state = \<lparr>us_manifest = sample_units\<lparr>um_digest := replicate 64 CHR ''a''\<rparr>,
     us_hashes = [(''core'', replicate 64 CHR ''a''), (''app'', replicate 64 CHR ''a'')]\<rparr>"

definition sample_evaluation :: gate_evaluation where
  "sample_evaluation = \<lparr>ga_satisfied = False, ga_evidence = None, ga_stale = [''app''], ga_wide_green = False,
     ga_green = [(''core'', \<lparr>ev_name = ''core'', ev_hash = replicate 64 CHR ''a'', ev_owner = ''work/y'', ev_run_id = ''r1''\<rparr>)],
     ga_wide = None, ga_warnings = []\<rparr>"

definition sample_plan :: gate_plan where
  "sample_plan = \<lparr>gp_state = sample_state, gp_evaluation = sample_evaluation, gp_repo_wide = True,
     gp_units = [\<lparr>pl_name = ''app'', pl_hash = replicate 64 CHR ''a'', pl_planned = True, pl_reused_from = None\<rparr>,
       \<lparr>pl_name = ''core'', pl_hash = replicate 64 CHR ''a'', pl_planned = False,
        pl_reused_from = Some \<lparr>ev_name = ''core'', ev_hash = replicate 64 CHR ''a'', ev_owner = ''work/y'', ev_run_id = ''r1''\<rparr>\<rparr>],
     gp_jobs = 2\<rparr>"

definition sample_result :: ymap where
  "sample_result = [(''exit'', YInt 0), (''tree_changed'', YBool False), (''log_tail'', YStr []), (''duration_s'', YOther ''4.5''),
     (''units'', YMap [(''app'', YMap [(''exit'', YInt 0), (''duration_s'', YOther ''4.0'')])]),
     (''repo_wide'', YMap [(''exit'', YInt 0), (''duration_s'', YOther ''0.5'')])]"

lemma sample_state_resolved:
  "resolve_unit_state sample_digest \<lparr>rg_full = Some ''make'', rg_units = Some ''units'', rg_extra_inputs = []\<rparr>
     (gt_worktree sample_target) (gt_tree sample_target) (Inr (0, Inr sample_manifest, [])) (Inr sample_listing) = Inr sample_state"
  by code_simp

lemma sample_evaluated:
  "evaluate (request_of sample_target ''make'' sample_state) [(''work/y'', [sample_run])] [] = Inr sample_evaluation"
  by code_simp

lemma sample_planned: "plan_gate sample_state sample_evaluation ''full'' False None None = Inr (Inr sample_plan)"
  by code_simp

lemma sample_recorded:
  "case run_record sample_target sample_plan ''full'' (display_command sample_plan) [''app''] False ''make'' ''r2'' ''/l''
       ''2026-01-02T00:00:00Z'' [] of
     Inl _ \<Rightarrow> False
   | Inr p \<Rightarrow> (case gate_run_from_record sample_float p sample_result of
                Inl _ \<Rightarrow> False | Inr run \<Rightarrow> gr_exit run = 0 \<and> \<not> gr_tree_changed run)"
  by code_simp

theorem green_run_satisfies_witness:
  "\<exists>run ev. gr_exit run = 0 \<and>
     evaluate (request_of sample_target ''make'' sample_state) [(''work/y'', [sample_run]), (''work/x'', [run])] [] = Inr ev \<and>
     ga_satisfied ev"
proof -
  obtain p run where p: "run_record sample_target sample_plan ''full'' (display_command sample_plan) [''app''] False ''make''
      ''r2'' ''/l'' ''2026-01-02T00:00:00Z'' [] = Inr p"
    and run: "gate_run_from_record sample_float p sample_result = Inr run" "gr_exit run = 0" "\<not> gr_tree_changed run"
    using sample_recorded by (simp split: sum.splits)
  have receipts: "insert (''work/x'', run) (set (all_runs [(''work/y'', [sample_run])])) \<subseteq>
      set (all_runs [(''work/y'', [sample_run]), (''work/x'', [run])])" by (simp add: all_runs_def)
  from green_run_satisfies [OF sample_state_resolved sample_evaluated sample_planned p run receipts, of "[]"] run(2)
  show ?thesis by blast
qed

definition sample_scoped_plan :: gate_plan where
  "sample_scoped_plan = sample_plan\<lparr>gp_repo_wide := True, gp_jobs := 1\<rparr>"

lemma sample_scoped_planned:
  "plan_gate sample_state sample_evaluation ''scoped'' False (Some [''core/x.py'']) (Some 1) = Inr (Inr sample_scoped_plan)"
  by code_simp

theorem scoped_plan_exact_witness:
  "set (planned_names sample_scoped_plan) =
     {gu_name u | u. u \<in> set (um_units (us_manifest sample_state)) \<and> (False \<or> gu_name u \<in> set (ga_stale sample_evaluation)) \<and>
        (\<exists>v \<in> set (um_units (us_manifest sample_state)). (gu_name u, gu_name v) \<in> (depends_on (us_manifest sample_state))\<^sup>* \<and>
           (\<exists>g \<in> set (gu_inputs v). \<exists>f \<in> set [''core/x.py'']. glob_match g f))} \<and>
   planned_names sample_scoped_plan = [''app'']"
proof -
  have "planned_names sample_scoped_plan = [''app'']" by code_simp
  with scoped_plan_exact [OF resolve_unit_state_ok [OF sample_state_resolved] sample_scoped_planned] show ?thesis by blast
qed

end
