(* ===== verification/Gate_Queue.thy ===== *)
theory Gate_Queue
  imports Gate_Plan
begin

text \<open>
  The run index (\<open>gw_orchestrate/gate.py\<close>, \<open>gate_runner.py\<close>): pending records in one directory,
  written under its lock by the requests that start or join runs and by the detached runners that
  queue for a slot, run, and settle their requesters and waiters; as a step relation.
\<close>

subsection \<open>One record\<close>

text \<open>\<open>_execution_request\<close>: what makes two requests the same run.\<close>

record run_identity =
  xr_repo :: string
  xr_tree :: string
  xr_scope :: string
  xr_command :: string
  xr_manifest_hash :: string
  xr_names :: "string list"
  xr_wide_planned :: bool
  xr_implicit :: bool
  xr_jobs :: int
  xr_setup :: "string option"
  xr_units :: "(string \<times> string \<times> string \<times> (string \<times> string) list) list"
  xr_wide :: "(string \<times> bool) option"

definition execution_request :: "pending_run \<Rightarrow> run_identity" where
  "execution_request p =
     \<lparr>xr_repo = pr_repo p, xr_tree = pr_tree p, xr_scope = pr_scope p, xr_command = pr_command p,
      xr_manifest_hash = pr_manifest_hash p, xr_names = pr_names p, xr_wide_planned = pr_wide_planned p,
      xr_implicit = pr_implicit p, xr_jobs = pr_jobs p, xr_setup = pr_setup p,
      xr_units = map (\<lambda>u. (pu_name u, pu_hash u, pu_command u, pu_env u)) (filter pu_planned (pr_units p)),
      xr_wide = map_option (\<lambda>w. (pw_command w, pw_planned w)) (pr_wide p)\<rparr>"

definition same_waiter :: "string \<Rightarrow> string \<Rightarrow> waiter \<Rightarrow> bool" where
  "same_waiter path handle w \<longleftrightarrow> wt_path w = path \<and> wt_terminal w = handle"

definition add_waiter :: "waiter \<Rightarrow> pending_run \<Rightarrow> pending_run" where
  "add_waiter w p =
     (if list_ex (same_waiter (wt_path w) (wt_terminal w)) (pr_waiters p) then p
      else p\<lparr>pr_waiters := pr_waiters p @ [w]\<rparr>)"

definition wake_status :: "waiter \<Rightarrow> string option" where
  "wake_status w =
     (case wt_woken w of
        None \<Rightarrow> None
      | Some m \<Rightarrow> (case yget m ''status'' of YStr s \<Rightarrow> Some s | _ \<Rightarrow> None))"

definition SETTLED_WAKES :: "string list" where "SETTLED_WAKES = [''delivered'', ''collected'']"

definition owed :: "waiter \<Rightarrow> bool" where
  "owed w \<longleftrightarrow> (case wake_status w of None \<Rightarrow> True | Some s \<Rightarrow> s \<notin> set SETTLED_WAKES)"

text \<open>\<open>settle_waiter\<close>'s change of the record: the first writer wins. \<open>collect_waiters\<close>': a wake that is owed.\<close>

definition settle_waiter :: "string \<Rightarrow> string \<Rightarrow> ymap \<Rightarrow> pending_run \<Rightarrow> pending_run" where
  "settle_waiter path handle woken p =
     p\<lparr>pr_waiters := map (\<lambda>w. if same_waiter path handle w \<and> wt_woken w = None then w\<lparr>wt_woken := Some woken\<rparr> else w)
        (pr_waiters p)\<rparr>"

definition collected_wake :: "string \<Rightarrow> ymap" where
  "collected_wake at = [(''status'', YStr ''collected''), (''at'', YStr at), (''detail'', YStr ''gate wait'')]"

definition collect_waiters :: "string \<Rightarrow> string \<Rightarrow> pending_run \<Rightarrow> pending_run" where
  "collect_waiters path at p =
     p\<lparr>pr_waiters := map (\<lambda>w. if wt_path w = path \<and> owed w then w\<lparr>wt_woken := Some (collected_wake at)\<rparr> else w)
        (pr_waiters p)\<rparr>"

definition pending_waiters :: "pending_run \<Rightarrow> waiter list" where
  "pending_waiters p = filter (\<lambda>w. wt_woken w = None) (pr_waiters p)"

datatype wait_state = Wait_Running | Wait_Woken | Wait_Failed | Wait_Orphaned

definition waiting_state :: "bool \<Rightarrow> ymap option \<Rightarrow> waiter \<Rightarrow> wait_state" where
  "waiting_state alive outcome w =
     (if \<not> owed w then Wait_Woken
      else if outcome = None then (if alive then Wait_Running else Wait_Orphaned)
      else if wake_status w = Some ''failed'' \<or> \<not> alive then Wait_Failed else Wait_Running)"

definition settled_requesters :: "pending_run \<Rightarrow> string set" where
  "settled_requesters p = set (pr_recorded_for p) \<union> set (pr_skipped_for p)"

definition settle :: "string \<Rightarrow> bool \<Rightarrow> pending_run \<Rightarrow> pending_run" where
  "settle requester skipped p =
     (let add = (\<lambda>xs. if requester \<in> set xs then xs else xs @ [requester]);
          p' = (if skipped then p\<lparr>pr_skipped_for := add (pr_skipped_for p)\<rparr> else p\<lparr>pr_recorded_for := add (pr_recorded_for p)\<rparr>)
      in p'\<lparr>pr_recorded := set (pr_requesters p') \<subseteq> settled_requesters p'\<rparr>)"

subsection \<open>The directory\<close>

text \<open>A path and its record; \<open>alive\<close> says which runners live. The oldest of equal ranks comes first.\<close>

type_synonym run_dir = "(string \<times> pending_run) list"

definition run_order :: "pending_run \<Rightarrow> string \<times> string" where
  "run_order p = (pr_started p, pr_run_id p)"

definition live_pending :: "(string \<Rightarrow> bool) \<Rightarrow> run_dir \<Rightarrow> run_dir" where
  "live_pending alive dir = sort_key (\<lambda>(_, p). run_order p) (filter (\<lambda>(k, p). alive k \<and> pr_result p = None) dir)"

definition queue_head :: "(string \<Rightarrow> bool) \<Rightarrow> run_dir \<Rightarrow> string option" where
  "queue_head alive dir = map_option fst (find (\<lambda>(_, p). pr_status p = ''queued'') (live_pending alive dir))"

definition queue_state :: "(string \<Rightarrow> bool) \<Rightarrow> run_dir \<Rightarrow> string \<Rightarrow> pending_run \<Rightarrow> nat option \<Rightarrow> nat option" where
  "queue_state alive dir path p limit =
     (case limit of
        None \<Rightarrow> None
      | Some n \<Rightarrow>
          if pr_status p \<noteq> ''queued'' \<or> pr_result p \<noteq> None then None
          else
            let others = filter (\<lambda>(k, _). k \<noteq> path) (live_pending alive dir);
                running = length (filter (\<lambda>(_, q). pr_status q = ''running'') others);
                ahead = length (filter (\<lambda>(_, q). pr_status q = ''queued'' \<and> run_order q < run_order p) others)
            in if n \<le> running + ahead then Some ahead else None)"

definition existing_run :: "(string \<Rightarrow> bool) \<Rightarrow> run_dir \<Rightarrow> run_identity \<Rightarrow> (string \<times> pending_run) option" where
  "existing_run alive dir key = find (\<lambda>(_, p). execution_request p = key) (live_pending alive dir)"

text \<open>\<open>old\<close>: started more than \<open>PRUNE_AFTER\<close> ago; \<open>locked\<close>: a runner holds its lock.\<close>

definition prune :: "(pending_run \<Rightarrow> bool) \<Rightarrow> (string \<Rightarrow> bool) \<Rightarrow> run_dir \<Rightarrow> run_dir" where
  "prune old locked dir = filter (\<lambda>(k, p). \<not> (pr_recorded p \<and> old p \<and> \<not> locked k)) dir"

definition join_run :: "string \<Rightarrow> string \<Rightarrow> string \<Rightarrow> bool \<Rightarrow> pending_run \<Rightarrow> pending_run" where
  "join_run path handle stamp fresh p =
     (let p' = p\<lparr>pr_requesters := (if path \<in> set (pr_requesters p) then pr_requesters p else pr_requesters p @ [path]),
                pr_fresh := (pr_fresh p \<or> fresh)\<rparr>
      in if handle = [] then p'
         else add_waiter \<lparr>wt_path = path, wt_terminal = handle, wt_registered = stamp, wt_woken = None\<rparr> p')"

text \<open>The section of \<open>run_gate_run\<close> under the directory's lock: \<open>new\<close> is the record it would write, at
  \<open>file\<close>. \<open>Inl\<close> is a file that exists already; the flag says whether a run was joined.\<close>

definition request_run ::
  "(pending_run \<Rightarrow> bool) \<Rightarrow> (string \<Rightarrow> bool) \<Rightarrow> (string \<Rightarrow> bool) \<Rightarrow> string \<Rightarrow> pending_run \<Rightarrow> string \<Rightarrow> string \<Rightarrow> run_dir \<Rightarrow>
     string + (bool \<times> string \<times> run_dir)" where
  "request_run old locked alive target new path handle dir =
     (let dir' = prune old locked dir
      in case existing_run alive dir' (execution_request new) of
           Some (k, p) \<Rightarrow>
             Inr (True, k, AList.update k (join_run path handle (pr_started new) (pr_fresh new) p) dir')
         | None \<Rightarrow>
             if target \<in> fst ` set dir' then Inl target else Inr (False, target, dir' @ [(target, new)]))"

subsection \<open>Requests, runners and slots\<close>

text \<open>
  The world: the directory, the records whose runner process has been spawned but has no lock yet,
  those whose liveness lock is held, those started within the grace, the slot limit that each runner
  read from the configuration as it started (\<open>Some None\<close>: no limit), the runners that have seen
  themselves at the head of the queue, the slot locks with the record that holds each, and the
  runners executing their command.
\<close>

record gate_world =
  gw_dir :: run_dir
  gw_spawned :: "string set"
  gw_locks :: "string set"
  gw_young :: "string set"
  gw_limits :: "string \<rightharpoonup> nat option"
  gw_heads :: "string set"
  gw_slots :: "(nat \<times> string) list"
  gw_commands :: "string set"

text \<open>\<open>_read_live\<close>: the lock is held, or the runner was spawned moments ago and has not started.\<close>

definition alive :: "gate_world \<Rightarrow> string \<Rightarrow> bool" where
  "alive w k \<longleftrightarrow> k \<in> gw_locks w \<or>
     (case map_of (gw_dir w) k of
        None \<Rightarrow> False
      | Some p \<Rightarrow> \<not> pr_runner_started p \<and> pr_result p = None \<and> k \<in> gw_young w)"

definition update_run :: "string \<Rightarrow> (pending_run \<Rightarrow> pending_run) \<Rightarrow> gate_world \<Rightarrow> gate_world" where
  "update_run k f w = w\<lparr>gw_dir := AList.map_entry k f (gw_dir w)\<rparr>"

definition satisfied_result :: "string \<Rightarrow> ymap" where
  "satisfied_result run_id = [(''exit'', YInt 0), (''satisfied_by'', YStr run_id)]"

definition moved_result :: ymap where
  "moved_result = [(''exit'', YNull), (''error'', YStr ''tree changed while queued'')]"

definition failed_result :: "string \<Rightarrow> ymap" where
  "failed_result message = [(''exit'', YNull), (''error'', YStr message)]"

text \<open>What \<open>record_requesters\<close> records: a result with an integer exit that no other run satisfied.\<close>

definition recordable :: "ymap \<Rightarrow> bool" where
  "recordable m \<longleftrightarrow> int_value (yget m ''exit'') \<noteq> None \<and> \<not> has_key m ''satisfied_by''"

text \<open>The record a request would start: nothing in it has happened yet. Its file is new, since its run
  id carries the time and a random token.\<close>

definition unstarted :: "pending_run \<Rightarrow> bool" where
  "unstarted p \<longleftrightarrow> (\<exists>path. pr_requesters p = [path]) \<and> length (pr_waiters p) \<le> 1 \<and> pr_result p = None \<and>
     pr_status p = ''queued'' \<and> \<not> pr_runner_started p \<and> pr_recorded_for p = [] \<and> pr_skipped_for p = [] \<and> \<not> pr_recorded p"

text \<open>
  One step of any process. A runner leaves \<open>execute\<close>'s stack from the inside out: its command has
  ended (\<open>ended\<close>), the slot is released (\<open>release_slot\<close>), and only then the liveness lock (\<open>unlock\<close>);
  between the two its record is locked, says \<open>running\<close> and holds no slot. A runner that dies takes
  the same steps at any point, its locks let go in either order.
\<close>

inductive gate_step :: "gate_world \<Rightarrow> gate_world \<Rightarrow> bool" where
  request: "unstarted new \<Longrightarrow> target \<notin> fst ` set (gw_dir w) \<Longrightarrow>
     request_run old (\<lambda>k. k \<in> gw_locks w) (alive w) target new path handle (gw_dir w) = Inr (joined, k, dir) \<Longrightarrow>
     gate_step w (w\<lparr>gw_dir := dir,
       gw_spawned := (if joined then gw_spawned w else insert k (gw_spawned w)),
       gw_young := (if joined then gw_young w else insert k (gw_young w))\<rparr>)"
| spawn_failed: "map_of (gw_dir w) k = Some p \<Longrightarrow>
     gate_step w (update_run k (\<lambda>p. p\<lparr>pr_result := Some (failed_result message)\<rparr>) w)"
| lapse: "gate_step w (w\<lparr>gw_young := gw_young w - {k}\<rparr>)"
| acquire: "k \<in> gw_spawned w \<Longrightarrow> k \<notin> gw_locks w \<Longrightarrow> k \<in> fst ` set (gw_dir w) \<Longrightarrow>
     gate_step w (w\<lparr>gw_spawned := gw_spawned w - {k}, gw_locks := insert k (gw_locks w)\<rparr>)"
| started: "k \<in> gw_locks w \<Longrightarrow> map_of (gw_dir w) k = Some p \<Longrightarrow> pr_result p = None \<Longrightarrow>
     k \<notin> snd ` set (gw_slots w) \<Longrightarrow> k \<notin> gw_commands w \<Longrightarrow>
     gate_step w (update_run k (\<lambda>p. p\<lparr>pr_runner_started := True\<rparr>) (w\<lparr>gw_limits := (gw_limits w)(k \<mapsto> limit)\<rparr>))"
| head: "k \<in> gw_locks w \<Longrightarrow> queue_head (alive w) (gw_dir w) = Some k \<Longrightarrow>
     gate_step w (w\<lparr>gw_heads := insert k (gw_heads w)\<rparr>)"
| slot: "k \<in> gw_heads w \<Longrightarrow> k \<in> gw_locks w \<Longrightarrow> gw_limits w k = Some (Some n) \<Longrightarrow> i < n \<Longrightarrow> i \<notin> fst ` set (gw_slots w) \<Longrightarrow>
     k \<notin> snd ` set (gw_slots w) \<Longrightarrow>
     gate_step w (w\<lparr>gw_heads := gw_heads w - {k}, gw_slots := (i, k) # gw_slots w\<rparr>)"
| pause: "gate_step w (w\<lparr>gw_heads := gw_heads w - {k}\<rparr>)"
| satisfied: "k \<in> gw_locks w \<Longrightarrow> k \<in> snd ` set (gw_slots w) \<Longrightarrow> map_of (gw_dir w) k = Some p \<Longrightarrow>
     pr_scope p = ''full'' \<Longrightarrow>
     gate_step w (update_run k (\<lambda>p. p\<lparr>pr_result := Some (satisfied_result run_id), pr_recorded := True\<rparr>) w)"
| moved: "k \<in> gw_locks w \<Longrightarrow> k \<in> snd ` set (gw_slots w) \<Longrightarrow>
     gate_step w (update_run k (\<lambda>p. p\<lparr>pr_result := Some moved_result\<rparr>) w)"
| running: "k \<in> gw_locks w \<Longrightarrow> gw_limits w k = Some None \<or> k \<in> snd ` set (gw_slots w) \<Longrightarrow>
     gate_step w (update_run k (\<lambda>p. p\<lparr>pr_status := ''running''\<rparr>) (w\<lparr>gw_commands := insert k (gw_commands w)\<rparr>))"
| ended: "gate_step w (w\<lparr>gw_commands := gw_commands w - {k}\<rparr>)"
| finish: "k \<in> gw_locks w \<Longrightarrow> k \<notin> gw_commands w \<Longrightarrow> map_of (gw_dir w) k = Some p \<Longrightarrow> pr_status p = ''running'' \<Longrightarrow>
     recordable outcome \<Longrightarrow> gate_step w (update_run k (\<lambda>p. p\<lparr>pr_result := Some outcome\<rparr>) w)"
| record_requester: "map_of (gw_dir w) k = Some p \<Longrightarrow> pr_result p = Some outcome \<Longrightarrow> recordable outcome \<Longrightarrow>
     requester \<in> set (pr_requesters p) \<Longrightarrow> requester \<notin> settled_requesters p \<Longrightarrow>
     gate_step w (update_run k (settle requester skipped) w)"
| wake: "map_of (gw_dir w) k = Some p \<Longrightarrow> pr_result p \<noteq> None \<Longrightarrow>
     gate_step w (update_run k (settle_waiter path handle woken) w)"
| collect: "map_of (gw_dir w) k = Some p \<Longrightarrow> gate_step w (update_run k (collect_waiters path at) w)"
| release_slot: "k \<notin> gw_commands w \<Longrightarrow>
     gate_step w (w\<lparr>gw_slots := filter (\<lambda>(_, j). j \<noteq> k) (gw_slots w)\<rparr>)"
| unlock: "k \<notin> gw_commands w \<Longrightarrow>
     gate_step w (w\<lparr>gw_locks := gw_locks w - {k}, gw_heads := gw_heads w - {k}\<rparr>)"

definition empty_world :: gate_world where
  "empty_world = \<lparr>gw_dir = [], gw_spawned = {}, gw_locks = {}, gw_young = {}, gw_limits = Map.empty, gw_heads = {},
     gw_slots = [], gw_commands = {}\<rparr>"

definition reachable :: "gate_world \<Rightarrow> bool" where
  "reachable w \<longleftrightarrow> gate_step\<^sup>*\<^sup>* empty_world w"

subsection \<open>Invariants\<close>

definition record_ok :: "pending_run \<Rightarrow> bool" where
  "record_ok p \<longleftrightarrow> pr_requesters p \<noteq> [] \<and> distinct (pr_requesters p) \<and>
     distinct (map (\<lambda>v. (wt_path v, wt_terminal v)) (pr_waiters p)) \<and> settled_requesters p \<subseteq> set (pr_requesters p) \<and>
     (settled_requesters p \<noteq> {} \<longrightarrow> pr_result p \<noteq> None) \<and> (pr_recorded p \<longrightarrow> pr_result p \<noteq> None)"

text \<open>What never changes or only grows in a record, whoever writes it.\<close>

definition keeps :: "pending_run \<Rightarrow> pending_run \<Rightarrow> bool" where
  "keeps p p' \<longleftrightarrow> execution_request p' = execution_request p \<and> set (pr_requesters p) \<subseteq> set (pr_requesters p') \<and>
     settled_requesters p \<subseteq> settled_requesters p' \<and>
     (pr_result p \<noteq> None \<longrightarrow> pr_result p' \<noteq> None \<and> pr_requesters p' = pr_requesters p \<and> length (pr_waiters p') = length (pr_waiters p)) \<and>
     length (pr_waiters p) \<le> length (pr_waiters p') \<and>
     (\<forall>i < length (pr_waiters p). wt_path (pr_waiters p' ! i) = wt_path (pr_waiters p ! i) \<and>
        wt_terminal (pr_waiters p' ! i) = wt_terminal (pr_waiters p ! i) \<and>
        (\<not> owed (pr_waiters p ! i) \<longrightarrow> pr_waiters p' ! i = pr_waiters p ! i))"

lemma keeps_refl [simp]: "keeps p p"
  by (simp add: keeps_def)

lemma keeps_fields:
  "pr_requesters p' = pr_requesters p \<Longrightarrow> pr_waiters p' = pr_waiters p \<Longrightarrow> execution_request p' = execution_request p \<Longrightarrow>
     settled_requesters p \<subseteq> settled_requesters p' \<Longrightarrow> (pr_result p \<noteq> None \<longrightarrow> pr_result p' \<noteq> None) \<Longrightarrow> keeps p p'"
  by (simp add: keeps_def)

lemma unsettled_owed: "wt_woken w = None \<Longrightarrow> owed w"
  by (simp add: owed_def wake_status_def)

lemma keeps_settle_waiter: "keeps p (settle_waiter path handle woken p)"
  by (auto simp: keeps_def settle_waiter_def execution_request_def settled_requesters_def dest: unsettled_owed)

lemma keeps_collect: "keeps p (collect_waiters path at p)"
  by (auto simp: keeps_def collect_waiters_def execution_request_def settled_requesters_def)

lemma keeps_settle: "keeps p (settle requester skipped p)"
  by (rule keeps_fields) (auto simp: settle_def Let_def execution_request_def settled_requesters_def)

lemma keeps_join: "pr_result p = None \<Longrightarrow> keeps p (join_run path handle stamp fresh p)"
  by (auto simp: keeps_def join_run_def add_waiter_def Let_def execution_request_def settled_requesters_def nth_append)

lemma record_ok_fields:
  "record_ok p \<Longrightarrow> pr_requesters p' = pr_requesters p \<Longrightarrow> pr_waiters p' = pr_waiters p \<Longrightarrow> pr_recorded_for p' = pr_recorded_for p \<Longrightarrow>
     pr_skipped_for p' = pr_skipped_for p \<Longrightarrow> (pr_result p \<noteq> None \<longrightarrow> pr_result p' \<noteq> None) \<Longrightarrow>
     (pr_recorded p' \<longrightarrow> pr_result p' \<noteq> None) \<Longrightarrow> record_ok p'"
  by (auto simp: record_ok_def settled_requesters_def)

lemma record_ok_waiters:
  "record_ok p \<Longrightarrow> (\<And>v. wt_path (f v) = wt_path v \<and> wt_terminal (f v) = wt_terminal v) \<Longrightarrow>
     record_ok (p\<lparr>pr_waiters := map f (pr_waiters p)\<rparr>)"
  by (simp add: record_ok_def settled_requesters_def o_def)

lemma record_ok_settle_waiter: "record_ok p \<Longrightarrow> record_ok (settle_waiter path handle woken p)"
  unfolding settle_waiter_def by (rule record_ok_waiters) auto

lemma record_ok_collect: "record_ok p \<Longrightarrow> record_ok (collect_waiters path at p)"
  unfolding collect_waiters_def by (rule record_ok_waiters) auto

lemma record_ok_settle:
  "record_ok p \<Longrightarrow> requester \<in> set (pr_requesters p) \<Longrightarrow> pr_result p \<noteq> None \<Longrightarrow> record_ok (settle requester skipped p)"
  by (auto simp: record_ok_def settle_def Let_def settled_requesters_def)

lemma record_ok_join:
  assumes "record_ok p" and "pr_result p = None"
  shows "record_ok (join_run path handle stamp fresh p)"
proof -
  have "(path, handle) \<notin> (\<lambda>v. (wt_path v, wt_terminal v)) ` set (pr_waiters p)"
    if "\<not> list_ex (same_waiter path handle) (pr_waiters p)"
    using that by (auto simp: list_ex_iff same_waiter_def)
  with assms show ?thesis
    by (auto simp: record_ok_def join_run_def add_waiter_def Let_def settled_requesters_def)
qed

lemma record_ok_unstarted: "unstarted p \<Longrightarrow> record_ok p"
  by (cases "pr_waiters p") (auto simp: unstarted_def record_ok_def settled_requesters_def)

definition runs_ok :: "run_dir \<Rightarrow> bool" where
  "runs_ok dir \<longleftrightarrow> distinct (map fst dir) \<and> (\<forall>k p. (k, p) \<in> set dir \<longrightarrow> record_ok p)"

text \<open>Each slot has one holder, within the limit its runner read; a command runs under the liveness
  lock, with its record marked, and in a slot where its runner read a limit.\<close>

definition slots_ok :: "gate_world \<Rightarrow> bool" where
  "slots_ok w \<longleftrightarrow>
     distinct (map fst (gw_slots w)) \<and>
     (\<forall>(i, k) \<in> set (gw_slots w). \<exists>n. gw_limits w k = Some (Some n) \<and> i < n) \<and>
     gw_locks w \<subseteq> fst ` set (gw_dir w) \<and> gw_commands w \<subseteq> gw_locks w \<and>
     (\<forall>k \<in> gw_commands w. (gw_limits w k = Some None \<or> k \<in> snd ` set (gw_slots w)) \<and>
        (\<forall>p. (k, p) \<in> set (gw_dir w) \<longrightarrow> pr_status p = ''running''))"

lemma map_entry_mem:
  "distinct (map fst xs) \<Longrightarrow> (j, q) \<in> set (AList.map_entry k f xs) \<longleftrightarrow>
     (\<exists>p. (j, p) \<in> set xs \<and> q = (if j = k then f p else p))"
proof (induction xs)
  case (Cons x xs)
  then have "fst x \<notin> fst ` set xs" by simp
  with Cons show ?case by (cases x) (auto simp: rev_image_eqI)
qed simp

lemma update_mem:
  assumes "distinct (map fst xs)" and "map_of xs k = Some p"
  shows "(j, q) \<in> set (AList.update k v xs) \<longleftrightarrow> (if j = k then q = v else (j, q) \<in> set xs)"
proof -
  have "distinct (map fst (AList.update k v xs))" using assms(1) by (rule distinct_update)
  then have "(j, q) \<in> set (AList.update k v xs) \<longleftrightarrow> map_of (AList.update k v xs) j = Some q" by simp
  then show ?thesis using assms(1) by (auto simp: update_conv')
qed

lemma live_pending_mem: "(k, p) \<in> set (live_pending live dir) \<longleftrightarrow> (k, p) \<in> set dir \<and> live k \<and> pr_result p = None"
  by (auto simp: live_pending_def)

lemma find_Some_mem: "find P xs = Some x \<Longrightarrow> x \<in> set xs \<and> P x"
  by (induction xs) (auto split: if_splits)

text \<open>The head of the queue is the oldest of the live queued records.\<close>

lemma find_sorted_least:
  "sorted (map f xs) \<Longrightarrow> find P xs = Some x \<Longrightarrow> y \<in> set xs \<Longrightarrow> P y \<Longrightarrow> f x \<le> f y"
  by (induction xs) (auto split: if_splits)

lemma queue_head_oldest:
  assumes "queue_head live dir = Some k"
  obtains p where "(k, p) \<in> set dir" "live k" "pr_status p = ''queued''"
    and "\<And>j q. (j, q) \<in> set (live_pending live dir) \<Longrightarrow> pr_status q = ''queued'' \<Longrightarrow> run_order p \<le> run_order q"
proof -
  obtain p where find: "find (\<lambda>(_, p). pr_status p = ''queued'') (live_pending live dir) = Some (k, p)"
    using assms by (auto simp: queue_head_def)
  have sorted: "sorted (map (\<lambda>(_, p). run_order p) (live_pending live dir))" by (simp add: live_pending_def)
  have mem: "(k, p) \<in> set (live_pending live dir)" and queued: "pr_status p = ''queued''"
    using find_Some_mem [OF find] by auto
  have least: "run_order p \<le> run_order q" if "(j, q) \<in> set (live_pending live dir)" "pr_status q = ''queued''" for j q
    using find_sorted_least [OF sorted find that(1)] that(2) by simp
  show thesis using mem queued least by (intro that [of p]) (simp_all add: live_pending_mem)
qed

lemma runs_ok_update:
  assumes "runs_ok (gw_dir w)" and "\<And>p. (k, p) \<in> set (gw_dir w) \<Longrightarrow> record_ok p \<Longrightarrow> record_ok (f p)"
  shows "runs_ok (gw_dir (update_run k f w))"
  using assms by (auto simp: runs_ok_def update_run_def AList.distinct_map_entry map_entry_mem)

lemma runs_ok_filter: "runs_ok dir \<Longrightarrow> runs_ok (filter P dir)"
  by (auto simp: runs_ok_def distinct_map_filter)

text \<open>A request joins a live unfinished run of the same execution, or adds the one record it brings.\<close>

lemma request_run_cases:
  assumes "request_run old locked live target new path handle dir = Inr (joined, k, dir')" and "distinct (map fst dir)"
  obtains p where "joined" "(k, p) \<in> set (prune old locked dir)" "live k" "pr_result p = None"
      "execution_request p = execution_request new"
      "dir' = AList.update k (join_run path handle (pr_started new) (pr_fresh new) p) (prune old locked dir)"
  | "\<not> joined" "k = target" "target \<notin> fst ` set (prune old locked dir)" "dir' = prune old locked dir @ [(target, new)]"
      "\<forall>(j, p) \<in> set (prune old locked dir). live j \<and> pr_result p = None \<longrightarrow> execution_request p \<noteq> execution_request new"
proof (cases "existing_run live (prune old locked dir) (execution_request new)")
  case None
  then have "\<forall>(j, p) \<in> set (prune old locked dir). live j \<and> pr_result p = None \<longrightarrow> execution_request p \<noteq> execution_request new"
    by (fastforce simp: existing_run_def find_None_iff live_pending_mem)
  with None assms(1) that(2) show ?thesis by (auto simp: request_run_def Let_def split: if_splits)
next
  case (Some kp)
  then obtain j p where jp: "kp = (j, p)" "(j, p) \<in> set (live_pending live (prune old locked dir))"
    "execution_request p = execution_request new"
    by (cases kp) (auto simp: existing_run_def dest: find_Some_mem)
  with Some assms(1) that(1) [of p] show ?thesis by (auto simp: request_run_def Let_def live_pending_mem)
qed

lemma request_runs_ok:
  assumes "request_run old locked live target new path handle dir = Inr (joined, k, dir')" and "runs_ok dir" and "unstarted new"
  shows "runs_ok dir'"
proof -
  have pruned: "runs_ok (prune old locked dir)" unfolding prune_def using assms(2) by (rule runs_ok_filter)
  then have distinct: "distinct (map fst (prune old locked dir))" by (simp add: runs_ok_def)
  have "distinct (map fst dir)" using assms(2) by (simp add: runs_ok_def)
  with assms(1) show ?thesis
  proof (cases rule: request_run_cases)
    case (1 p)
    then have "map_of (prune old locked dir) k = Some p" using distinct by simp
    moreover have "record_ok p" using pruned 1 by (auto simp: runs_ok_def)
    ultimately show ?thesis
      using 1 pruned distinct record_ok_join [of p] unfolding 1(6) runs_ok_def
      by (auto simp: update_mem distinct_update split: if_splits)
  next
    case 2
    with pruned record_ok_unstarted [OF assms(3)] show ?thesis by (auto simp: runs_ok_def)
  qed
qed

lemma step_runs_ok: "gate_step w w' \<Longrightarrow> runs_ok (gw_dir w) \<Longrightarrow> runs_ok (gw_dir w')"
proof (induction rule: gate_step.induct)
  case (request new target w old path handle joined k dir)
  then show ?case using request_runs_ok by simp
next
  case (record_requester w k p outcome requester skipped)
  then show ?case
    by (intro runs_ok_update) (auto simp: runs_ok_def intro!: record_ok_settle)
qed (auto intro!: runs_ok_update record_ok_settle_waiter record_ok_collect elim: record_ok_fields
      simp: record_ok_def settled_requesters_def)

lemma slots_ok_update:
  assumes "slots_ok w" and "distinct (map fst (gw_dir w))"
    and "\<And>p. (k, p) \<in> set (gw_dir w) \<Longrightarrow> pr_status (f p) = pr_status p \<or> pr_status (f p) = ''running''"
  shows "slots_ok (update_run k f w)"
  using assms unfolding slots_ok_def update_run_def
  by (auto simp: AList.dom_map_entry map_entry_mem)

lemma prune_mem: "(k, p) \<in> set (prune old locked dir) \<longleftrightarrow> (k, p) \<in> set dir \<and> \<not> (pr_recorded p \<and> old p \<and> \<not> locked k)"
  by (simp add: prune_def)

lemma join_run_status [simp]: "pr_status (join_run path handle stamp fresh p) = pr_status p"
  by (simp add: join_run_def add_waiter_def Let_def)

lemma settle_status [simp]:
  "pr_status (settle requester skipped p) = pr_status p" "pr_status (settle_waiter path handle woken p) = pr_status p"
  "pr_status (collect_waiters path at p) = pr_status p"
  by (simp_all add: settle_def settle_waiter_def collect_waiters_def Let_def)

lemma slots_okD:
  assumes "slots_ok w"
  shows "distinct (map fst (gw_slots w))" "\<And>i k. (i, k) \<in> set (gw_slots w) \<Longrightarrow> \<exists>n. gw_limits w k = Some (Some n) \<and> i < n"
    "gw_locks w \<subseteq> fst ` set (gw_dir w)" "gw_commands w \<subseteq> gw_locks w"
    "\<And>k. k \<in> gw_commands w \<Longrightarrow> gw_limits w k = Some None \<or> k \<in> snd ` set (gw_slots w)"
    "\<And>k p. k \<in> gw_commands w \<Longrightarrow> (k, p) \<in> set (gw_dir w) \<Longrightarrow> pr_status p = ''running''"
  using assms unfolding slots_ok_def by (simp, fast, simp, simp, blast, blast)

lemma slots_okI:
  assumes "distinct (map fst (gw_slots w))" "\<And>i k. (i, k) \<in> set (gw_slots w) \<Longrightarrow> \<exists>n. gw_limits w k = Some (Some n) \<and> i < n"
    "gw_locks w \<subseteq> fst ` set (gw_dir w)" "gw_commands w \<subseteq> gw_locks w"
    "\<And>k. k \<in> gw_commands w \<Longrightarrow> gw_limits w k = Some None \<or> k \<in> snd ` set (gw_slots w)"
    "\<And>k p. k \<in> gw_commands w \<Longrightarrow> (k, p) \<in> set (gw_dir w) \<Longrightarrow> pr_status p = ''running''"
  shows "slots_ok w"
  unfolding slots_ok_def using assms by (intro conjI ballI) auto

lemma request_slots_ok:
  assumes ok: "slots_ok w" and "distinct (map fst (gw_dir w))" and "target \<notin> fst ` set (gw_dir w)"
    and req: "request_run old (\<lambda>k. k \<in> gw_locks w) live target new path handle (gw_dir w) = Inr (joined, k, dir')"
  shows "slots_ok (w\<lparr>gw_dir := dir', gw_spawned := spawned, gw_young := young\<rparr>)"
proof -
  let ?pruned = "prune old (\<lambda>k. k \<in> gw_locks w) (gw_dir w)"
  have distinct: "distinct (map fst ?pruned)" unfolding prune_def using assms(2) by (simp add: distinct_map_filter)
  have locks: "gw_locks w \<subseteq> fst ` set ?pruned"
  proof
    fix j assume j: "j \<in> gw_locks w"
    then have "j \<in> fst ` set (gw_dir w)" using ok unfolding slots_ok_def by blast
    then obtain p where "(j, p) \<in> set (gw_dir w)" by auto
    with j have "(j, p) \<in> set ?pruned" by (simp add: prune_mem)
    then show "j \<in> fst ` set ?pruned" by (force simp: image_iff)
  qed
  have "gw_locks w \<subseteq> fst ` set dir' \<and>
    (\<forall>j q. (j, q) \<in> set dir' \<and> j \<in> gw_commands w \<longrightarrow> (\<exists>q'. (j, q') \<in> set (gw_dir w) \<and> pr_status q = pr_status q'))"
    using req assms(2)
  proof (cases rule: request_run_cases)
    case (1 p)
    have p: "map_of ?pruned k = Some p" "(k, p) \<in> set (gw_dir w)" using 1(2) distinct by (simp_all add: prune_mem)
    have "\<exists>q'. (j, q') \<in> set (gw_dir w) \<and> pr_status q = pr_status q'" if "(j, q) \<in> set dir'" for j q
      using that p by (auto simp: 1(6) update_mem [OF distinct p(1)] prune_mem split: if_splits)
    moreover have "fst ` set ?pruned \<subseteq> fst ` set dir'" unfolding 1(6) by (auto simp: dom_update)
    ultimately show ?thesis using locks by blast
  next
    case 2
    have "target \<notin> gw_commands w" using ok assms(3) unfolding slots_ok_def by blast
    with locks show ?thesis unfolding 2(4) by (auto simp: prune_mem)
  qed
  note kept = this
  note parts = slots_okD [OF ok]
  have "pr_status q = ''running''" if "j \<in> gw_commands w" "(j, q) \<in> set dir'" for j q
  proof -
    obtain q' where "(j, q') \<in> set (gw_dir w)" "pr_status q = pr_status q'" using kept \<open>(j, q) \<in> set dir'\<close> \<open>j \<in> gw_commands w\<close> by blast
    with parts(6) [OF that(1)] show ?thesis by simp
  qed
  with kept parts(1,2,4,5) show ?thesis by (intro slots_okI) simp_all
qed

lemma left_slots: "snd ` set (filter (\<lambda>(_, j). j \<noteq> k) xs) = snd ` set xs - {k}"
  by (induction xs) auto

lemma slots_ok_other [simp]:
  "slots_ok (w\<lparr>gw_young := x\<rparr>) \<longleftrightarrow> slots_ok w" "slots_ok (w\<lparr>gw_heads := x\<rparr>) \<longleftrightarrow> slots_ok w"
  by (simp_all add: slots_ok_def)

lemma slots_ok_limit:
  "slots_ok w \<Longrightarrow> k \<notin> snd ` set (gw_slots w) \<Longrightarrow> k \<notin> gw_commands w \<Longrightarrow> slots_ok (w\<lparr>gw_limits := (gw_limits w)(k \<mapsto> limit)\<rparr>)"
  by (rule slots_okI) (auto dest: slots_okD intro: rev_image_eqI)

lemma slots_ok_running:
  assumes "slots_ok w" and "distinct (map fst (gw_dir w))" and "k \<in> gw_locks w"
    and "gw_limits w k = Some None \<or> k \<in> snd ` set (gw_slots w)"
  shows "slots_ok (update_run k (\<lambda>p. p\<lparr>pr_status := ''running''\<rparr>) (w\<lparr>gw_commands := insert k (gw_commands w)\<rparr>))"
  using assms unfolding slots_ok_def update_run_def by (auto simp: AList.dom_map_entry map_entry_mem)

lemma slots_ok_released:
  assumes "slots_ok w" and "k \<notin> gw_commands w"
  shows "slots_ok (w\<lparr>gw_slots := filter (\<lambda>(_, j). j \<noteq> k) (gw_slots w)\<rparr>)"
proof -
  have "distinct (map fst (filter (\<lambda>(_, j). j \<noteq> k) (gw_slots w)))"
    using assms(1) by (simp add: slots_ok_def distinct_map_filter)
  moreover note parts = slots_okD [OF assms(1)]
  have "j \<in> snd ` set (filter (\<lambda>(_, j). j \<noteq> k) (gw_slots w))" if "j \<in> gw_commands w" "j \<in> snd ` set (gw_slots w)" for j
    unfolding left_slots using that assms(2) by auto
  with parts(5) have "gw_limits w j = Some None \<or> j \<in> snd ` set (filter (\<lambda>(_, j). j \<noteq> k) (gw_slots w))"
    if "j \<in> gw_commands w" for j using that by blast
  ultimately show ?thesis using parts(2-4,6) by (intro slots_okI) (simp_all del: set_filter, auto)
qed

lemma step_slots_ok: "gate_step w w' \<Longrightarrow> slots_ok w \<Longrightarrow> runs_ok (gw_dir w) \<Longrightarrow> slots_ok w'"
proof (induction rule: gate_step.induct)
  case (request new target w old path handle joined k dir)
  then show ?case using request_slots_ok by (simp add: runs_ok_def)
next
  case (acquire k w)
  then show ?case unfolding slots_ok_def by auto
next
  case (started k w p limit)
  then show ?case by (intro slots_ok_update slots_ok_limit) (simp_all add: runs_ok_def)
next
  case (slot k w n i)
  then show ?case unfolding slots_ok_def by auto
next
  case (running k w)
  then show ?case by (intro slots_ok_running) (simp_all add: runs_ok_def)
next
  case (ended w k)
  then show ?case unfolding slots_ok_def by auto
next
  case (release_slot k w)
  then show ?case by (intro slots_ok_released)
next
  case (unlock k w)
  then show ?case unfolding slots_ok_def by auto
qed (auto intro!: slots_ok_update simp: runs_ok_def)

lemma reachable_ok: "reachable w \<Longrightarrow> runs_ok (gw_dir w) \<and> slots_ok w"
  unfolding reachable_def
proof (induction rule: rtranclp_induct)
  case base
  show ?case by (simp add: empty_world_def runs_ok_def slots_ok_def)
next
  case (step w w')
  then show ?case using step_runs_ok step_slots_ok by blast
qed

lemma keeps_update:
  assumes "map_of (gw_dir w) k = Some p" and "map_of (gw_dir (update_run j f w)) k = Some p'"
    and "\<And>p. map_of (gw_dir w) j = Some p \<Longrightarrow> keeps p (f p)"
  shows "keeps p p'"
  using assms by (auto simp: update_run_def AList.map_of_map_entry split: option.splits if_splits)

lemma keeps_request:
  assumes "request_run old locked live target new path handle dir = Inr (joined, j, dir')" and "distinct (map fst dir)"
    and "target \<notin> fst ` set dir" and "map_of dir k = Some p" and "map_of dir' k = Some p'"
  shows "keeps p p'"
proof -
  have distinct: "distinct (map fst (prune old locked dir))" unfolding prune_def using assms(2) by (simp add: distinct_map_filter)
  have same: "q = p" if "map_of (prune old locked dir) k = Some q" for q
  proof -
    have "(k, q) \<in> set dir" using map_of_SomeD [OF that] by (simp add: prune_mem)
    with assms(2,4) show ?thesis by simp
  qed
  from assms(1,2) show ?thesis
  proof (cases rule: request_run_cases)
    case (1 q)
    then have q: "map_of (prune old locked dir) j = Some q" using distinct by simp
    show ?thesis
    proof (cases "k = j")
      case True
      with 1(6) q same keeps_join [OF 1(4)] assms(5) show ?thesis by (auto simp: update_conv')
    next
      case False
      with 1(6) same [of p'] assms(5) show ?thesis by (simp add: update_conv')
    qed
  next
    case 2
    have "k \<noteq> target" using assms(3,4) by (auto dest: map_of_SomeD intro: rev_image_eqI)
    with 2(4) same [of p'] assms(5) show ?thesis by (auto simp: map_add_def split: option.splits if_splits)
  qed
qed

lemmas record_fields = execution_request_def settled_requesters_def

lemma step_keeps:
  assumes "gate_step w w'" and "runs_ok (gw_dir w)" and "map_of (gw_dir w) k = Some p" and "map_of (gw_dir w') k = Some p'"
  shows "keeps p p'"
  using assms
proof (induction rule: gate_step.induct)
  case (request new target w old path handle joined j dir)
  then show ?case using keeps_request by (simp add: runs_ok_def)
next
  case (record_requester w j q outcome requester skipped)
  show ?case by (rule keeps_update [OF record_requester(7,8)]) (rule keeps_settle)
next
  case (wake w j q path handle woken)
  show ?case by (rule keeps_update [OF wake(4,5)]) (rule keeps_settle_waiter)
next
  case (collect w j q path at)
  show ?case by (rule keeps_update [OF collect(3,4)]) (rule keeps_collect)
next
  case (spawn_failed w j q message)
  show ?case by (rule keeps_update [OF spawn_failed(3,4)]) (rule keeps_fields, simp_all add: record_fields)
next
  case (started j w q limit)
  then have before: "map_of (gw_dir (w\<lparr>gw_limits := (gw_limits w)(j \<mapsto> limit)\<rparr>)) k = Some p" by simp
  show ?case by (rule keeps_update [OF before started(8)]) (rule keeps_fields, simp_all add: record_fields)
next
  case (satisfied j w q run_id)
  show ?case by (rule keeps_update [OF satisfied(6,7)]) (rule keeps_fields, simp_all add: record_fields)
next
  case (moved j w)
  show ?case by (rule keeps_update [OF moved(4,5)]) (rule keeps_fields, simp_all add: record_fields)
next
  case (running j w)
  then have before: "map_of (gw_dir (w\<lparr>gw_commands := insert j (gw_commands w)\<rparr>)) k = Some p" by simp
  show ?case by (rule keeps_update [OF before running(5)]) (rule keeps_fields, simp_all add: record_fields)
next
  case (finish j w q outcome)
  show ?case by (rule keeps_update [OF finish(7,8)]) (rule keeps_fields, simp_all add: record_fields)
qed simp_all

subsection \<open>Properties\<close>

text \<open>The runners that read a limit of at most n.\<close>

definition limited :: "nat \<Rightarrow> gate_world \<Rightarrow> string \<Rightarrow> bool" where
  "limited n w k \<longleftrightarrow> (\<exists>m \<le> n. gw_limits w k = Some (Some m))"

lemma slots_bounded:
  assumes "slots_ok w"
  shows "card {k \<in> snd ` set (gw_slots w). limited n w k} \<le> n"
proof -
  let ?held = "{s \<in> set (gw_slots w). fst s < n}"
  have "{k \<in> snd ` set (gw_slots w). limited n w k} \<subseteq> snd ` ?held"
  proof
    fix k assume "k \<in> {k \<in> snd ` set (gw_slots w). limited n w k}"
    then obtain i m where held: "(i, k) \<in> set (gw_slots w)" "m \<le> n" "gw_limits w k = Some (Some m)"
      by (auto simp: limited_def)
    then have "i < n" using assms unfolding slots_ok_def by fastforce
    with held(1) show "k \<in> snd ` ?held" by force
  qed
  then have "card {k \<in> snd ` set (gw_slots w). limited n w k} \<le> card (snd ` ?held)" by (intro card_mono) simp_all
  also have "\<dots> \<le> card ?held" by (rule card_image_le) simp
  also have "\<dots> = card (fst ` ?held)"
    using assms unfolding slots_ok_def distinct_map by (intro card_image [symmetric]) (auto intro: inj_on_subset)
  also have "\<dots> \<le> card {..<n}" by (intro card_mono) auto
  finally show ?thesis by simp
qed

text \<open>C16. In every reachable state of the requests and runners, whatever the interleaving, crashes,
  late wakes and the order in which a runner lets go of its locks: of the runners that read a limit
  of at most n, at most n hold a slot, and every one that is executing its command holds one, so at
  most n execute at once. A runner executes only under its record's liveness lock, with the record
  marked as running.\<close>

theorem running_bounded:
  assumes "reachable w"
  shows "card {k \<in> snd ` set (gw_slots w). limited n w k} \<le> n \<and>
    {k \<in> gw_commands w. limited n w k} \<subseteq> snd ` set (gw_slots w) \<and>
    card {k \<in> gw_commands w. limited n w k} \<le> n \<and>
    (\<forall>k \<in> gw_commands w. k \<in> gw_locks w \<and> (\<exists>p. map_of (gw_dir w) k = Some p \<and> pr_status p = ''running''))"
proof -
  have ok: "slots_ok w" "distinct (map fst (gw_dir w))" using reachable_ok [OF assms] by (simp_all add: runs_ok_def)
  note slots = slots_bounded [OF ok(1), of n]
  have held: "{k \<in> gw_commands w. limited n w k} \<subseteq> snd ` set (gw_slots w)"
    using ok(1) by (auto simp: slots_ok_def limited_def)
  then have "card {k \<in> gw_commands w. limited n w k} \<le> card {k \<in> snd ` set (gw_slots w). limited n w k}"
    by (intro card_mono) auto
  moreover have "k \<in> gw_locks w \<and> (\<exists>p. map_of (gw_dir w) k = Some p \<and> pr_status p = ''running'')" if "k \<in> gw_commands w" for k
  proof -
    from that ok(1) have "k \<in> gw_locks w" "k \<in> fst ` set (gw_dir w)" unfolding slots_ok_def by blast+
    then obtain p where "map_of (gw_dir w) k = Some p" by (auto dest: weak_map_of_SomeI)
    with that ok(1) \<open>k \<in> gw_locks w\<close> show ?thesis by (auto simp: slots_ok_def dest: map_of_SomeD)
  qed
  ultimately show ?thesis using slots held by (intro conjI ballI) simp_all
qed

text \<open>In every reachable state each record has a requester, no requester and no waiter twice, and
  counts as settled only for its own requesters and once it has a result.\<close>

theorem records_well_formed:
  assumes "reachable w" and "map_of (gw_dir w) k = Some p"
  shows "record_ok p"
  using reachable_ok [OF assms(1)] map_of_SomeD [OF assms(2)] by (auto simp: runs_ok_def)

text \<open>C17. No step of any process takes a requester or its settlement from a record, changes what the
  record executes, or changes a wake that was delivered or collected; and once a record has a
  result it keeps one, and no requester or waiter joins it any more.\<close>

theorem records_only_grow:
  assumes "reachable w" and "gate_step w w'"
    and "map_of (gw_dir w) k = Some p" and "map_of (gw_dir w') k = Some p'"
  shows "keeps p p'"
  using step_keeps [OF assms(2) _ assms(3,4)] reachable_ok [OF assms(1)] by blast

lemma join_run_joins:
  "path \<in> set (pr_requesters (join_run path handle stamp fresh p))"
  "pr_fresh (join_run path handle stamp fresh p) \<longleftrightarrow> pr_fresh p \<or> fresh"
  "handle \<noteq> [] \<longrightarrow> (\<exists>v \<in> set (pr_waiters (join_run path handle stamp fresh p)). wt_path v = path \<and> wt_terminal v = handle)"
  by (auto simp: join_run_def add_waiter_def Let_def list_ex_iff same_waiter_def)

text \<open>C18. A request never starts a run beside a live unfinished one of the same execution: it joins it,
  exactly when there is one, as a requester and, with a terminal, as a waiter, asking for a fresh run
  where it does; and otherwise it starts its own. No other record changes, apart from the settled
  old ones that every request prunes.\<close>

theorem request_single_flight:
  assumes "request_run old locked live target new path handle dir = Inr (joined, k, dir')" and "runs_ok dir"
  shows "(joined \<longleftrightarrow> (\<exists>(j, p) \<in> set (prune old locked dir). live j \<and> pr_result p = None \<and> execution_request p = execution_request new)) \<and>
    (joined \<longrightarrow> (\<exists>p p'. map_of dir k = Some p \<and> live k \<and> pr_result p = None \<and> map_of dir' k = Some p' \<and> keeps p p' \<and>
        path \<in> set (pr_requesters p') \<and> (pr_fresh p' \<longleftrightarrow> pr_fresh p \<or> pr_fresh new) \<and>
        (handle \<noteq> [] \<longrightarrow> (\<exists>v \<in> set (pr_waiters p'). wt_path v = path \<and> wt_terminal v = handle)) \<and>
        execution_request p' = execution_request new) \<and>
      (\<forall>j. j \<noteq> k \<longrightarrow> map_of dir' j = map_of (prune old locked dir) j)) \<and>
    (\<not> joined \<longrightarrow> dir' = prune old locked dir @ [(target, new)])"
proof -
  have distinct: "distinct (map fst dir)" "distinct (map fst (prune old locked dir))"
    using assms(2) unfolding prune_def by (simp_all add: runs_ok_def distinct_map_filter)
  from assms(1) distinct(1) show ?thesis
  proof (cases rule: request_run_cases)
    case (1 p)
    let ?p' = "join_run path handle (pr_started new) (pr_fresh new) p"
    have "map_of dir k = Some p" "map_of dir' k = Some ?p'"
      using 1 distinct by (simp_all add: prune_mem update_conv')
    moreover have "map_of dir' j = map_of (prune old locked dir) j" if "j \<noteq> k" for j
      using that unfolding 1(6) by (simp add: update_conv')
    moreover have "keeps p ?p'" by (rule keeps_join [OF 1(4)])
    moreover from this have "execution_request ?p' = execution_request new" using 1(5) by (simp add: keeps_def)
    moreover have "joined \<longleftrightarrow> (\<exists>(j, p) \<in> set (prune old locked dir). live j \<and> pr_result p = None \<and>
        execution_request p = execution_request new)"
      using 1(1-5) by blast
    ultimately show ?thesis
      using 1(1,3,4) join_run_joins [where p = p and path = path and handle = handle]
      by (intro conjI impI allI exI [of _ p] exI [of _ ?p']) simp_all
  next
    case 2
    then show ?thesis by auto
  qed
qed

subsection \<open>Two requests, one run\<close>

definition sample_pending :: pending_run where
  "sample_pending =
     (case run_record sample_target sample_plan ''full'' (display_command sample_plan) [''app''] False ''make'' ''r2'' ''/l''
             ''2026-01-02T00:00:00Z'' ''t1'' of Inr p \<Rightarrow> p
      | Inl _ \<Rightarrow> \<lparr>pr_requesters = [''x''], pr_run_id = [], pr_repo = [], pr_worktree = [], pr_head = [], pr_tree = [],
          pr_scope = [], pr_command = [], pr_names = [], pr_log_path = [], pr_started = [], pr_runner_started = False,
          pr_status = ''queued'', pr_fresh = False, pr_full_command = [], pr_result = None, pr_recorded_for = [],
          pr_skipped_for = [], pr_recorded = False, pr_waiters = [], pr_manifest_hash = [], pr_implicit = False,
          pr_jobs = 1, pr_setup = None, pr_wide_planned = False, pr_wide = None, pr_units = []\<rparr>)"

definition busy_world :: gate_world where
  "busy_world = \<lparr>gw_dir = [(''r2'', sample_pending\<lparr>pr_runner_started := True, pr_status := ''running''\<rparr>)], gw_spawned = {},
     gw_locks = {''r2''}, gw_young = {''r2''}, gw_limits = [''r2'' \<mapsto> Some 1], gw_heads = {}, gw_slots = [(0, ''r2'')],
     gw_commands = {''r2''}\<rparr>"

lemma sample_pending_unstarted: "unstarted sample_pending"
proof -
  have "pr_requesters sample_pending = [''work/x''] \<and> length (pr_waiters sample_pending) = 1 \<and> pr_result sample_pending = None \<and>
     pr_status sample_pending = ''queued'' \<and> \<not> pr_runner_started sample_pending \<and> pr_recorded_for sample_pending = [] \<and>
     pr_skipped_for sample_pending = [] \<and> \<not> pr_recorded sample_pending" by code_simp
  then show ?thesis by (simp add: unstarted_def)
qed

lemma busy_reachable: "reachable busy_world"
proof -
  let ?new = "sample_pending" and ?dir = "[(''r2'', sample_pending)]"
  note new = sample_pending_unstarted [unfolded unstarted_def]
  have req: "request_run (\<lambda>_. False) (\<lambda>k. k \<in> gw_locks empty_world) (alive empty_world) ''r2'' ?new ''work/x'' ''t1''
      (gw_dir empty_world) = Inr (False, ''r2'', ?dir)"
    by (simp add: request_run_def prune_def existing_run_def live_pending_def empty_world_def)
  define w1 where "w1 = empty_world\<lparr>gw_dir := ?dir, gw_spawned := {''r2''}, gw_young := {''r2''}\<rparr>"
  have "gate_step empty_world w1"
    using gate_step.request [OF sample_pending_unstarted _ req] by (simp add: w1_def empty_world_def)
  moreover define w2 where "w2 = w1\<lparr>gw_spawned := {}, gw_locks := {''r2''}\<rparr>"
  have "gate_step w1 w2"
    using gate_step.acquire [of "''r2''" w1] by (simp add: w1_def w2_def empty_world_def)
  moreover define w3 where "w3 = w2\<lparr>gw_dir := [(''r2'', ?new\<lparr>pr_runner_started := True\<rparr>)], gw_limits := [''r2'' \<mapsto> Some 1]\<rparr>"
  have "gate_step w2 w3"
    using gate_step.started [of "''r2''" w2 ?new "Some 1"] new
    by (simp add: w1_def w2_def w3_def empty_world_def update_run_def)
  moreover define w4 where "w4 = w3\<lparr>gw_heads := {''r2''}\<rparr>"
  have "gate_step w3 w4"
    using gate_step.head [of "''r2''" w3] new
    by (simp add: w1_def w2_def w3_def w4_def empty_world_def queue_head_def live_pending_def alive_def)
  moreover define w5 where "w5 = w4\<lparr>gw_heads := {}, gw_slots := [(0, ''r2'')]\<rparr>"
  have "gate_step w4 w5"
    using gate_step.slot [of "''r2''" w4 1 0] by (simp add: w1_def w2_def w3_def w4_def w5_def empty_world_def)
  moreover have "gate_step w5 busy_world"
    using gate_step.running [of "''r2''" w5]
    by (simp add: w1_def w2_def w3_def w4_def w5_def empty_world_def busy_world_def update_run_def)
  ultimately show ?thesis unfolding reachable_def by (meson converse_rtranclp_into_rtranclp rtranclp.rtrancl_refl)
qed

theorem running_bounded_witness:
  "card {k \<in> gw_commands busy_world. limited 1 busy_world k} \<le> 1 \<and> limited 1 busy_world ''r2'' \<and> ''r2'' \<in> gw_commands busy_world"
  using running_bounded [OF busy_reachable, of 1] by (simp add: busy_world_def limited_def)

theorem records_well_formed_witness:
  "record_ok (sample_pending\<lparr>pr_runner_started := True, pr_status := ''running''\<rparr>)"
  by (rule records_well_formed [OF busy_reachable]) (simp add: busy_world_def)

theorem records_only_grow_witness:
  "keeps (sample_pending\<lparr>pr_runner_started := True, pr_status := ''running''\<rparr>)
     (collect_waiters ''work/x'' ''2026-01-02T00:00:09Z'' (sample_pending\<lparr>pr_runner_started := True, pr_status := ''running''\<rparr>))"
proof (rule records_only_grow [OF busy_reachable])
  show "gate_step busy_world (update_run ''r2'' (collect_waiters ''work/x'' ''2026-01-02T00:00:09Z'') busy_world)"
    by (rule gate_step.collect [where p = "sample_pending\<lparr>pr_runner_started := True, pr_status := ''running''\<rparr>"])
       (simp add: busy_world_def)
qed (simp_all add: busy_world_def update_run_def)

theorem request_single_flight_witness:
  "\<exists>k dir. request_run (\<lambda>_. False) (\<lambda>_. True) (\<lambda>_. True) ''r3'' (sample_pending\<lparr>pr_run_id := ''r3''\<rparr>) ''work/z'' ''t9'' (gw_dir busy_world) =
       Inr (True, k, dir) \<and> (\<exists>p'. map_of dir k = Some p' \<and> ''work/z'' \<in> set (pr_requesters p') \<and>
         (\<exists>v \<in> set (pr_waiters p'). wt_path v = ''work/z'' \<and> wt_terminal v = ''t9''))"
proof -
  let ?new = "sample_pending\<lparr>pr_run_id := ''r3''\<rparr>"
  have "\<exists>k dir. request_run (\<lambda>_. False) (\<lambda>_. True) (\<lambda>_. True) ''r3'' ?new ''work/z'' ''t9'' (gw_dir busy_world) = Inr (True, k, dir)"
    using sample_pending_unstarted
    by (simp add: busy_world_def request_run_def prune_def existing_run_def live_pending_def execution_request_def unstarted_def)
  then obtain k dir where req: "request_run (\<lambda>_. False) (\<lambda>_. True) (\<lambda>_. True) ''r3'' ?new ''work/z'' ''t9'' (gw_dir busy_world) =
      Inr (True, k, dir)" by blast
  have "runs_ok (gw_dir busy_world)" using reachable_ok [OF busy_reachable] by blast
  from request_single_flight [OF req this] req show ?thesis by (intro exI [of _ k] exI [of _ dir]) auto
qed

end
