(* ===== verification/Spec2Isabelle.thy ===== *)
theory Spec2Isabelle
  imports Placement Moves Graph Ledger Decisions History Runs Gate_Queue
begin

text \<open>
  Verification of graph-works: the work tracker \<open>packages/work-tracker-okf\<close> (below WT), the
  document layer it writes through, \<open>packages/okf-io\<close> (IO), the dispatch planner and the gate of
  \<open>packages/gw-orchestrate\<close> (GO), with \<open>gw-pipeline/placement.py\<close> and
  \<open>gw-kernel/workspace/dispatch.py\<close>.

  A workspace is a bundle of Markdown files. Each work item is one file with YAML frontmatter;
  its place in the directory tree is its identity and its parent link. The tracker projects the
  files to item records, routes an item through a closed table of stages (design, plan,
  execute, finish, done) under a configurable set of path rules, and plans edits which a caller
  then applies to the documents. Decisions are kept in ledger documents. The planner walks the
  items of a run, ranks them and admits dispatches under claims, pools and placements. The gate
  runs a repository's checks by units, keeps receipts of what ran on which input hash, and
  decides from them what is proved; runs queue in a directory shared by all requests.

  Theories, bottom up, with the code each models.

  \<^item> \<open>Prelude\<close>: Python values (exceptions as \<open>py_exn\<close>, plain YAML data as \<open>yval\<close>,
    dates), text functions, regular expressions with a declarative reading (\<open>rx_in\<close>) and a
    matcher, generic lemmas on lists and maps.
  \<^item> \<open>Vocabulary\<close>, \<open>Pipeline\<close>, \<open>Paths\<close>, \<open>Dependencies\<close>, \<open>Obligations\<close>,
    \<open>Returns\<close>, \<open>Items\<close>, \<open>Snapshot\<close>, \<open>Hierarchy\<close>, \<open>Affects\<close>, \<open>Workflow\<close>,
    \<open>Advance\<close>, \<open>Placement\<close>, \<open>Graph\<close>: the WT module of the same name, its functions by
    their names (a leading underscore is dropped; names HOL takes are suffixed).
  \<^item> \<open>Moves\<close>: WT \<open>archive.py\<close>, \<open>reparent.py\<close> and the pure part of \<open>mutation.py\<close>.
  \<^item> \<open>Splitter\<close>, \<open>Document\<close>: IO \<open>_yaml.py\<close> and \<open>document.py\<close>.
  \<^item> \<open>Ledger\<close>, \<open>Decisions\<close>, \<open>History\<close>: WT \<open>decisions.py\<close>: the text of a ledger parsed and
    rendered, the planners of its mutations, and histories of several writers, with the
    optimistic loop of a direct mutation as a \<open>partial_function\<close>.
  \<^item> \<open>Claims\<close>, \<open>Siting\<close>, \<open>Profiles\<close>, \<open>Rank\<close>, \<open>Frontier\<close>, \<open>Orchestrate\<close>, \<open>Runs\<close>: the
    dispatch planner: GO \<open>claims.py\<close>; the branch, owner and placement of an item; the fold of
    dispatch rules; GO \<open>rank.py\<close>; the walk to candidates; \<open>plan\<close> of GO \<open>commands.py\<close>; and
    what a whole plan promises.
  \<^item> \<open>Gate_Units\<close>, \<open>Gate_Hashes\<close>, \<open>Gate_Receipts\<close>, \<open>Gate_Plan\<close>, \<open>Gate_Queue\<close>: the gate:
    globs and the manifest of GO \<open>gate_units.py\<close>; its closures and input hashes over the
    listing of \<open>gate_git.py\<close>; the runs and the evidence of \<open>gate_receipts.py\<close>; what a run
    executes and records, of \<open>gate.py\<close>; and the run index of \<open>gate.py\<close> with the runners of
    \<open>gate_runner.py\<close> as the step relation \<open>gate_step\<close>, in which requests, runners, their
    crashes, late wakes and recoveries interleave in any order.
  \<^item> \<open>Worklist\<close>: the stack-and-seen-set loop shared by every hierarchy walk of WT; its
    specification \<open>reached\<close> is a step relation and \<open>set_visit\<close> proves the loop computes it.

  Reading of the code. A frozen dataclass is a record with prefixed fields; an enum is a
  datatype; a raised exception is the \<open>Inl\<close> of a sum and a \<open>None\<close> an \<open>option\<close>; a
  \<open>dict\<close> is an association list in insertion order; a \<open>frozenset\<close> or \<open>tuple\<close> of
  constants is a list. Text is a list of characters, or of code points in \<open>Splitter\<close>,
  \<open>Document\<close> and the ledger, where the byte order mark and Unicode blanks matter. The em dash
  in one refusal message of \<open>archive.py\<close> is written with two hyphens.

  Loops. Every worklist loop is a \<open>function\<close> whose measure counts the keys not yet seen, then
  the stack; so no fuel is used anywhere and every definition is total, on cyclic projections
  too. The one loop that another process can keep from ending, the retry of a direct ledger
  mutation, is a \<open>partial_function\<close>, and \<open>contended_write_returns\<close> says when it ends. Where
  the code may raise, a theorem says when it does not (\<open>route_returns\<close>, \<open>plan_returns\<close>).

  Parameters, for code that is not in the repository or that observes the world. The YAML
  reader and writer (ruamel.yaml) are \<open>load\<close> and \<open>dump\<close>; \<open>difflib.SequenceMatcher\<close> is a
  \<open>matcher\<close> whose laws (\<open>matcher_laws\<close>: opcodes tile both sequences and an equal one covers equal
  parts; a sequence against itself has the one block of its length, and only equal opcodes) are
  named hypotheses; SHA-256 is \<open>sha\<close> or \<open>digest\<close>; \<open>float()\<close> is \<open>float_of\<close>, whose
  one law (\<open>float_stable\<close>: it reads the text of a float as that float) is a named hypothesis;
  the output of git, the decoded JSON of the units command, the texts of prompts, the state of
  the workspace a planner is given, and whether a path exists on disk are arguments. In
  \<open>gate_step\<close> the clock is two sets: records young enough to be spared, and records old enough
  to be pruned; the limit of concurrent gates is whatever each runner reads as it starts, or none.

  Interfaces. \<open>frontmatter\<close> (get, put, delete with map laws) is interpreted on the ordered
  frontmatter map and on whole documents; \<open>item_index\<close> and its extension \<open>item_tree\<close> (a
  lookup and a child function, the latter of a well-founded tree) are interpreted on every
  snapshot and on the loaded ones; the properties of \<open>Advance\<close> and \<open>Hierarchy\<close> rest on
  those interpretations.

  What the lemmas show. Routing: a dispatched stage is the current one of every path the item
  may be on, nothing gating it is open, a completion moves strictly forward, only the return
  from finish to execute goes back. Advancing: an accepted plan is an offered transition whose
  requirements hold on a valid, live, unheld item, and applying it to the page and projecting again
  gives the item the transition specifies; a refusal changes nothing. Hierarchy: each walk computes its
  declarative specification. Moves: a mapping carries whole subtrees, sources follow. Documents:
  splitting and joining is the identity, an edit never reorders, body edits leave the head
  alone, a saved edit reads back. Ledgers: identities and supersessions survive every history of the
  four commands whose text the ledger format can hold (\<open>wf_command\<close>; the direct \<open>set_fields\<close>, which
  sets any status, stands outside), a contended write linearizes. Planning: a plan dispatches only what the lifecycle offers,
  claims are disjoint, pools are respected, merges without a human are confined. Gate: an
  unchanged hash never hides a changed input, command or variable, evidence is exactly what a clean
  green run earned and names its run, a green full run satisfies the gate it was planned for, a request joins the live run of the same
  execution, no more runners execute than there are slots, each holding one until its command ends. Data: parsers and serializers round-trip.

  Not modelled. Command lines, page composition, lints and bundle indexes of WT; reading and
  writing files and the transactions around them; the callers that read git and the workspace
  for the planners; the processes of a gate run, the delivery of wakes, the cache of receipts
  and the writing of a receipt page; the packages around the tracker (commands, wiki, code
  graph, services, workflow runners). The manifest lists each with its reason.
\<close>

end
